(* ===== verification/Prelude.thy ===== *)
theory Prelude
  imports Main "HOL-Library.Word"
begin

text \<open>
  Shared vocabulary of the development: the machine integer types, the error codes of
  \<open>include/promeki/error.h\<close>, big-endian integer layout, generic lemmas on words, lists and
  sums, and the interfaces (locales) that several components of the library implement:
  a codec with a round trip, a codec that reads a prefix and hands back the rest, and an
  operation that consumes a stream in pieces.
\<close>

unbundle bit_operations_syntax

section \<open>Types\<close>

type_synonym byte = "8 word"
type_synonym u16 = "16 word"
type_synonym u32 = "32 word"
type_synonym u64 = "64 word"

text \<open>
  \<open>Error::Code\<close>, the codes the modelled operations return. A \<open>Result<T>\<close> is
  \<open>error + 'a\<close>, \<open>Inl\<close> the error.
\<close>

datatype error =
    Ok
  | NotImplemented
  | OutOfRange
  | TryAgain
  | Invalid
  | TooLarge
  | NotSupported
  | EndOfFile
  | InvalidArgument
  | BufferTooSmall
  | IdNotFound
  | NoSpace
  | CorruptData
  | ParseFailed
  | ProtocolError
  | ProtectedAncCode
  | InvalidChecksum
  | TruncatedData
  | IOError
  | Busy
  | NotOpen
  | Exists
  | NoMem
  | NotFound

type_synonym 'a result = "error + 'a"

section \<open>Automation\<close>

named_theorems byte_bits \<open>tests of single bits of a word, as the code writes them\<close>
named_theorems be_simps \<open>big-endian split and join of integers\<close>

text \<open>A byte masked with a power of two, compared with zero, reads one bit.\<close>

lemma mask_bit_neq_0 [byte_bits]:
  fixes w :: "'a::len word"
  shows "w AND 1 \<noteq> 0 \<longleftrightarrow> bit w 0" "w AND 2 \<noteq> 0 \<longleftrightarrow> bit w 1" "w AND 4 \<noteq> 0 \<longleftrightarrow> bit w 2"
    "w AND 8 \<noteq> 0 \<longleftrightarrow> bit w 3" "w AND 16 \<noteq> 0 \<longleftrightarrow> bit w 4" "w AND 32 \<noteq> 0 \<longleftrightarrow> bit w 5"
    "w AND 64 \<noteq> 0 \<longleftrightarrow> bit w 6" "w AND 128 \<noteq> 0 \<longleftrightarrow> bit w 7"
  using and_exp_eq_0_iff_not_bit [of w 0] and_exp_eq_0_iff_not_bit [of w 1]
    and_exp_eq_0_iff_not_bit [of w 2] and_exp_eq_0_iff_not_bit [of w 3]
    and_exp_eq_0_iff_not_bit [of w 4] and_exp_eq_0_iff_not_bit [of w 5]
    and_exp_eq_0_iff_not_bit [of w 6] and_exp_eq_0_iff_not_bit [of w 7]
  by simp_all

lemma mask_bit_eq_0 [byte_bits]:
  fixes w :: "'a::len word"
  shows "w AND 1 = 0 \<longleftrightarrow> \<not> bit w 0" "w AND 2 = 0 \<longleftrightarrow> \<not> bit w 1" "w AND 4 = 0 \<longleftrightarrow> \<not> bit w 2"
    "w AND 8 = 0 \<longleftrightarrow> \<not> bit w 3" "w AND 16 = 0 \<longleftrightarrow> \<not> bit w 4" "w AND 32 = 0 \<longleftrightarrow> \<not> bit w 5"
    "w AND 64 = 0 \<longleftrightarrow> \<not> bit w 6" "w AND 128 = 0 \<longleftrightarrow> \<not> bit w 7"
  using mask_bit_neq_0 [of w] by auto

lemma unat_byte_less [simp]: "unat (b :: byte) < 256"
  using unsigned_less [of b] by simp

section \<open>Big-endian integers\<close>

definition be16 :: "u16 \<Rightarrow> byte list" where
  "be16 w = [ucast (drop_bit 8 w), ucast w]"

definition rd16 :: "byte \<Rightarrow> byte \<Rightarrow> u16" where
  "rd16 a b = push_bit 8 (ucast a) OR ucast b"

definition be24 :: "u32 \<Rightarrow> byte list" where
  "be24 w = [ucast (drop_bit 16 w), ucast (drop_bit 8 w), ucast w]"

definition rd24 :: "byte \<Rightarrow> byte \<Rightarrow> byte \<Rightarrow> u32" where
  "rd24 a b c = push_bit 16 (ucast a) OR push_bit 8 (ucast b) OR ucast c"

definition be32 :: "u32 \<Rightarrow> byte list" where
  "be32 w = [ucast (drop_bit 24 w), ucast (drop_bit 16 w), ucast (drop_bit 8 w), ucast w]"

definition rd32 :: "byte \<Rightarrow> byte \<Rightarrow> byte \<Rightarrow> byte \<Rightarrow> u32" where
  "rd32 a b c d = push_bit 24 (ucast a) OR push_bit 16 (ucast b) OR push_bit 8 (ucast c) OR ucast d"

lemma length_be [simp]:
  "length (be16 w) = 2" "length (be24 v) = 3" "length (be32 v) = 4"
  by (simp_all add: be16_def be24_def be32_def)

text \<open>A bit that is set lies below the width: the fact every bitwise proof ends with.\<close>

lemma bit_byte_high [simp]: "8 \<le> n \<Longrightarrow> \<not> bit (b :: byte) n"
  using bit_imp_le_length [of b n] by auto

lemma bit_byte_lt: "bit (b :: byte) n \<Longrightarrow> n < 8"
  using bit_byte_high [of n b] by linarith

text \<open>Two bytes are equal when their eight bits are: the closed form for bit shuffling.\<close>

lemma bit_byte_eqI:
  fixes a b :: byte
  assumes "bit a 0 = bit b 0" "bit a 1 = bit b 1" "bit a 2 = bit b 2" "bit a 3 = bit b 3"
    "bit a 4 = bit b 4" "bit a 5 = bit b 5" "bit a 6 = bit b 6" "bit a 7 = bit b 7"
  shows "a = b"
proof (rule bit_word_eqI)
  fix n assume "n < LENGTH(8)"
  then have "n = 7 \<or> n = 6 \<or> n = 5 \<or> n = 4 \<or> n = 3 \<or> n = 2 \<or> n = 1 \<or> n = 0" by auto
  then show "bit a n = bit b n" using assms by auto
qed

lemma rd16_split [be_simps]: "rd16 (ucast (drop_bit 8 w)) (ucast w) = w"
  by (rule bit_word_eqI) (auto simp: rd16_def bit_simps)

lemma word_less_exp_bit: "w < 2 ^ k \<Longrightarrow> k \<le> n \<Longrightarrow> \<not> bit (w :: 'a::len word) n"
  by (metis bit_take_bit_iff less_mask_eq not_less take_bit_eq_mask)

lemma byte_index_cases:
  fixes n :: nat
  assumes "n < 32"
  obtains "n < 8" | "8 \<le> n" "n < 16" | "16 \<le> n" "n < 24" | "24 \<le> n" "n < 32"
  using assms by linarith

lemma rd24_split [be_simps]:
  assumes "w < 2 ^ 24"
  shows "rd24 (ucast (drop_bit 16 w)) (ucast (drop_bit 8 w)) (ucast w) = w"
proof (rule bit_word_eqI)
  fix n assume "n < LENGTH(32)"
  then have "n < 32" by simp
  then show "bit (rd24 (ucast (drop_bit 16 w)) (ucast (drop_bit 8 w)) (ucast w)) n \<longleftrightarrow> bit w n"
    using word_less_exp_bit [OF assms, of n]
    by (cases rule: byte_index_cases) (auto simp: rd24_def bit_simps)
qed

lemma rd32_split [be_simps]:
  "rd32 (ucast (drop_bit 24 w)) (ucast (drop_bit 16 w)) (ucast (drop_bit 8 w)) (ucast w) = w"
proof (rule bit_word_eqI)
  fix n assume "n < LENGTH(32)"
  then have "n < 32" by simp
  then show "bit (rd32 (ucast (drop_bit 24 w)) (ucast (drop_bit 16 w)) (ucast (drop_bit 8 w))
      (ucast w)) n \<longleftrightarrow> bit w n"
    by (cases rule: byte_index_cases) (auto simp: rd32_def bit_simps)
qed

lemma split_rd16 [be_simps]:
  "(ucast (drop_bit 8 (rd16 a b)) :: byte) = a" and "(ucast (rd16 a b) :: byte) = b"
  by (rule bit_word_eqI; force simp: rd16_def bit_simps)+

lemma split_rd32 [be_simps]:
  "(ucast (drop_bit 24 (rd32 a b c d)) :: byte) = a"
  and "(ucast (drop_bit 16 (rd32 a b c d)) :: byte) = b"
  and "(ucast (drop_bit 8 (rd32 a b c d)) :: byte) = c" and "(ucast (rd32 a b c d) :: byte) = d"
  by (rule bit_word_eqI; force simp: rd32_def bit_simps)+

section \<open>Records laid end to end\<close>

text \<open>The element of a concatenation of records of one size.\<close>

lemma nth_concat_uniform:
  assumes "\<And>x. length (f x) = k" "i < length xs" "j < k"
  shows "concat (map f xs) ! (k * i + j) = f (xs ! i) ! j"
  using assms(2)
proof (induction xs arbitrary: i)
  case Nil
  then show ?case by simp
next
  case (Cons x xs)
  then show ?case using assms(1,3) by (cases i) (simp_all add: nth_append add.assoc)
qed

lemma length_concat_uniform: "(\<And>x. length (f x) = k) \<Longrightarrow> length (concat (map f xs)) = k * length xs"
  by (induction xs) simp_all

lemma nth_at_offset: "drop p xs = ys \<Longrightarrow> p \<le> length xs \<Longrightarrow> xs ! (p + k) = ys ! k"
  by auto

lemma nth_uniform_append:
  assumes "\<And>x. length (f x) = k" "i < length xs" "j < k"
  shows "(concat (map f xs) @ rest) ! (k * i + j) = f (xs ! i) ! j"
proof -
  have "k * i + j < k * length xs"
    using assms(2,3) by (metis add.commute add_less_cancel_right less_le_trans mult_Suc_right mult_le_mono2 Suc_leI
        add_strict_left_mono)
  then show ?thesis
    using assms by (simp add: nth_append length_concat_uniform nth_concat_uniform)
qed

section \<open>Interfaces\<close>

text \<open>
  A codec: what the encoder writes for a well-formed value, the decoder reads back.
\<close>

locale wire_codec =
  fixes enc :: "'a \<Rightarrow> 'w"
    and dec :: "'w \<Rightarrow> 'a result"
    and wf :: "'a \<Rightarrow> bool"
  assumes dec_enc: "wf x \<Longrightarrow> dec (enc x) = Inr x"
begin

lemma enc_inj_on: "inj_on enc {x. wf x}"
proof (rule inj_onI)
  fix x y
  assume "x \<in> {x. wf x}" "y \<in> {x. wf x}" "enc x = enc y"
  then show "x = y" using dec_enc [of x] dec_enc [of y] by (metis mem_Collect_eq sum.inject(2))
qed

lemma enc_eq_iff: "wf x \<Longrightarrow> wf y \<Longrightarrow> enc x = enc y \<longleftrightarrow> x = y"
  using enc_inj_on by (auto dest: inj_onD)

end

text \<open>
  A codec whose decoder reads one value off the front of a buffer and returns the rest.
  \<open>dec_all\<close> reads a whole buffer of values; it is given with as much fuel as the buffer
  has bytes, and every encoding takes at least one.
\<close>

fun dec_all :: "(byte list \<Rightarrow> ('a \<times> byte list) result) \<Rightarrow> nat \<Rightarrow> byte list \<Rightarrow> 'a list result" where
  "dec_all dec fuel [] = Inr []"
| "dec_all dec 0 bs = Inl TruncatedData"
| "dec_all dec (Suc n) bs =
     (case dec bs of
        Inl e \<Rightarrow> Inl e
      | Inr (x, rest) \<Rightarrow> (case dec_all dec n rest of Inl e \<Rightarrow> Inl e | Inr xs \<Rightarrow> Inr (x # xs)))"

locale prefix_codec =
  fixes penc :: "'a \<Rightarrow> byte list"
    and pdec :: "byte list \<Rightarrow> ('a \<times> byte list) result"
    and pwf :: "'a \<Rightarrow> bool"
  assumes pdec_penc: "pwf x \<Longrightarrow> pdec (penc x @ rest) = Inr (x, rest)"
    and penc_nonempty: "pwf x \<Longrightarrow> penc x \<noteq> []"
begin

lemma penc_prefix_free:
  assumes "pwf x" "pwf y" "penc x @ r = penc y @ s"
  shows "x = y \<and> r = s"
proof -
  have "Inr (x, r) = pdec (penc x @ r)" using pdec_penc [OF assms(1)] by simp
  also have "\<dots> = pdec (penc y @ s)" by (simp only: assms(3))
  also have "\<dots> = Inr (y, s)" using pdec_penc [OF assms(2)] by simp
  finally show ?thesis by simp
qed

lemma length_concat_ge: "\<forall>x\<in>set xs. pwf x \<Longrightarrow> length xs \<le> length (concat (map penc xs))"
proof (induction xs)
  case Nil
  then show ?case by simp
next
  case (Cons x xs)
  then have "Suc 0 \<le> length (penc x)"
    using penc_nonempty [of x] by (cases "penc x") auto
  moreover have "length xs \<le> length (concat (map penc xs))" using Cons by simp
  ultimately show ?case by (simp only: list.map concat.simps length_append list.size)
qed

lemma dec_all_concat:
  assumes "\<forall>x\<in>set xs. pwf x" and "length xs \<le> fuel"
  shows "dec_all pdec fuel (concat (map penc xs)) = Inr xs"
  using assms
proof (induction xs arbitrary: fuel)
  case Nil
  then show ?case by simp
next
  case (Cons x xs)
  then obtain n where n: "fuel = Suc n" "length xs \<le> n" by (cases fuel) auto
  from Cons.prems have ne: "penc x \<noteq> []" using penc_nonempty by simp
  then obtain b bs where b: "penc x @ concat (map penc xs) = b # bs"
    by (cases "penc x") auto
  have "pdec (b # bs) = Inr (x, concat (map penc xs))"
    using Cons.prems pdec_penc [of x "concat (map penc xs)"] b by simp
  moreover have "dec_all pdec n (concat (map penc xs)) = Inr xs"
    using Cons.IH Cons.prems n by simp
  ultimately show ?case using n b by simp
qed

end

text \<open>
  An operation that folds data into a state and may be given the data in any pieces.
\<close>

locale stream_fold =
  fixes feed :: "'s \<Rightarrow> 'b list \<Rightarrow> 's"
  assumes feed_Nil: "feed s [] = s"
    and feed_append: "feed s (xs @ ys) = feed (feed s xs) ys"
begin

lemma feed_pieces: "foldl feed s pieces = feed s (concat pieces)"
  by (induction pieces arbitrary: s) (simp_all add: feed_Nil feed_append)

lemma feed_same_concat:
  "concat p = concat q \<Longrightarrow> foldl feed s p = foldl feed s q"
  by (simp add: feed_pieces)

end

text \<open>
  A machine driven by events that keeps an invariant: it holds after any run of admissible events.
\<close>

locale event_machine =
  fixes step :: "'e \<Rightarrow> 's \<Rightarrow> 's"
    and admissible :: "'e \<Rightarrow> bool"
    and inv :: "'s \<Rightarrow> bool"
  assumes inv_step: "inv s \<Longrightarrow> admissible e \<Longrightarrow> inv (step e s)"
begin

lemma inv_run: "inv s \<Longrightarrow> \<forall>e\<in>set es. admissible e \<Longrightarrow> inv (fold step es s)"
  by (induction es arbitrary: s) (simp_all add: inv_step)

end

text \<open>
  Two machines joined by a byte pipe, in a simulation: a command moves the sender and appends to its output,
  and the receiver that finds those bytes in front makes one step and is in relation again.
\<close>

fun send_all :: "('c \<Rightarrow> 'a \<Rightarrow> 'a option) \<Rightarrow> 'c list \<Rightarrow> 'a \<Rightarrow> 'a option" where
  "send_all send [] a = Some a"
| "send_all send (c # cs) a = (case send c a of None \<Rightarrow> None | Some a' \<Rightarrow> send_all send cs a')"

fun recv_n :: "('b \<Rightarrow> 'b \<times> 'o) \<Rightarrow> nat \<Rightarrow> 'b \<Rightarrow> 'b \<times> 'o list" where
  "recv_n recv 0 b = (b, [])"
| "recv_n recv (Suc n) b =
     (case recv b of (b', out') \<Rightarrow> case recv_n recv n b' of (b'', outs) \<Rightarrow> (b'', out' # outs))"

locale lockstep =
  fixes send :: "'c \<Rightarrow> 'a \<Rightarrow> 'a option" and sent :: "'a \<Rightarrow> byte list"
    and recv :: "'b \<Rightarrow> 'b \<times> 'o" and pending :: "'b \<Rightarrow> byte list"
    and rel :: "'a \<Rightarrow> 'b \<Rightarrow> bool" and fits :: "'c \<Rightarrow> bool" and expected :: "'c \<Rightarrow> 'o"
  assumes send_appends: "send c a = Some a' \<Longrightarrow> \<exists>bs. sent a' = sent a @ bs"
    and recv_step: "rel a b \<Longrightarrow> fits c \<Longrightarrow> send c a = Some a' \<Longrightarrow> sent a' = sent a @ bs \<Longrightarrow> pending b = bs @ rest \<Longrightarrow>
      \<exists>b'. recv b = (b', expected c) \<and> pending b' = rest \<and> rel a' b'"
begin

lemma send_all_appends: "send_all send cs a = Some a' \<Longrightarrow> \<exists>bs. sent a' = sent a @ bs"
proof (induction cs arbitrary: a)
  case (Cons c cs)
  then obtain a1 where "send c a = Some a1" "send_all send cs a1 = Some a'" by (auto split: option.splits)
  then obtain xs ys where "sent a1 = sent a @ xs" "sent a' = sent a1 @ ys" using send_appends Cons.IH by metis
  then show ?case by simp
qed simp

theorem lockstep_run:
  assumes "rel a b" "\<forall>c\<in>set cs. fits c" "send_all send cs a = Some a'" "sent a' = sent a @ bs" "pending b = bs @ rest"
  shows "\<exists>b'. recv_n recv (length cs) b = (b', map expected cs) \<and> pending b' = rest \<and> rel a' b'"
  using assms
proof (induction cs arbitrary: a b bs)
  case (Cons c cs)
  from Cons.prems(3) obtain a1 where s: "send c a = Some a1" "send_all send cs a1 = Some a'"
    by (auto split: option.splits)
  obtain xs ys where o': "sent a1 = sent a @ xs" "sent a' = sent a1 @ ys"
    using send_appends [OF s(1)] send_all_appends [OF s(2)] by auto
  with Cons.prems have "pending b = xs @ ys @ rest" by simp
  with Cons.prems s(1) o'(1) obtain b1 where b1: "recv b = (b1, expected c)" "pending b1 = ys @ rest" "rel a1 b1"
    using recv_step [of a b c a1 xs "ys @ rest"] by auto
  obtain b' where "recv_n recv (length cs) b1 = (b', map expected cs)" "pending b' = rest" "rel a' b'"
    using Cons.IH [OF b1(3) _ s(2) o'(2) b1(2)] Cons.prems(2) by auto
  with b1 show ?case by simp
qed auto

end

end
