(* ===== verification/Crc.thy ===== *)
theory Crc
  imports Prelude
begin

text \<open>
  \<open>src/core/crc.cpp\<close>: the table-driven CRC engine, generic in the register width (the code
  instantiates it at 8, 16, 32 and 64 bits), reflected and unreflected. The lemmas show that
  the table lookup computes the bit-serial register of the polynomial, that data may be fed in
  any pieces, and that every change confined to one byte of a message changes the CRC.
\<close>

unbundle bit_operations_syntax

section \<open>Parameters and state\<close>

record 'w crc_params =
  poly :: 'w
  init :: 'w
  xorOut :: 'w
  reflect :: bool

record 'w crc =
  params :: "'w crc_params"
  table :: "'w list"
  crc :: 'w

definition Crc8Smbus :: "8 word crc_params" where
  "Crc8Smbus = \<lparr>poly = 0x07, init = 0, xorOut = 0, reflect = False\<rparr>"

definition Crc8Autosar :: "8 word crc_params" where
  "Crc8Autosar = \<lparr>poly = 0x2F, init = 0xFF, xorOut = 0xFF, reflect = False\<rparr>"

definition Crc8Bluetooth :: "8 word crc_params" where
  "Crc8Bluetooth = \<lparr>poly = 0xA7, init = 0, xorOut = 0, reflect = True\<rparr>"

definition Crc16CcittFalse :: "16 word crc_params" where
  "Crc16CcittFalse = \<lparr>poly = 0x1021, init = 0xFFFF, xorOut = 0, reflect = False\<rparr>"

definition Crc16Kermit :: "16 word crc_params" where
  "Crc16Kermit = \<lparr>poly = 0x1021, init = 0, xorOut = 0, reflect = True\<rparr>"

definition Crc32IsoHdlc :: "32 word crc_params" where
  "Crc32IsoHdlc = \<lparr>poly = 0x04C11DB7, init = 0xFFFFFFFF, xorOut = 0xFFFFFFFF, reflect = True\<rparr>"

definition Crc32Bzip2 :: "32 word crc_params" where
  "Crc32Bzip2 = \<lparr>poly = 0x04C11DB7, init = 0xFFFFFFFF, xorOut = 0xFFFFFFFF, reflect = False\<rparr>"

section \<open>Operations\<close>

text \<open>\<open>reflectBits\<close>: bit \<open>i\<close> of the value moves to bit \<open>nbits - 1 - i\<close>.\<close>

definition reflectBits :: "'a::len word \<Rightarrow> nat \<Rightarrow> 'a word" where
  "reflectBits value nbits =
     fold (\<lambda>i result. if value AND push_bit i 1 \<noteq> 0
                      then result OR push_bit (nbits - 1 - i) 1 else result) [0..<nbits] 0"

text \<open>The loop bodies of \<open>buildTable\<close>: one bit of the reflected and the unreflected register.\<close>

definition reflected_bit :: "'a::len word \<Rightarrow> 'a word \<Rightarrow> 'a word" where
  "reflected_bit polyR c = (if c AND 1 \<noteq> 0 then drop_bit 1 c XOR polyR else drop_bit 1 c)"

definition unreflected_bit :: "'a::len word \<Rightarrow> 'a word \<Rightarrow> 'a word" where
  "unreflected_bit p c =
     (if c AND push_bit (LENGTH('a) - 1) 1 \<noteq> 0 then (push_bit 1 c XOR p) AND NOT 0
      else push_bit 1 c AND NOT 0)"

definition buildTable :: "'a::len word crc_params \<Rightarrow> 'a word list" where
  "buildTable p =
     (if reflect p
      then let polyR = reflectBits (poly p) LENGTH('a) in
           map (\<lambda>b. (reflected_bit polyR ^^ 8) (of_nat b)) [0..<256]
      else map (\<lambda>b. (unreflected_bit (poly p) ^^ 8) (push_bit (LENGTH('a) - 8) (of_nat b))) [0..<256])"

definition crc_new :: "'a::len word crc_params \<Rightarrow> 'a word crc" where
  "crc_new p = \<lparr>params = p, table = buildTable p, crc = init p\<rparr>"

definition reset :: "'a::len word crc \<Rightarrow> 'a word crc" where
  "reset c = c\<lparr>crc := init (params c)\<rparr>"

text \<open>
  \<open>update\<close>: the index is a \<open>uint8_t\<close>. The 8-bit unreflected register has a branch of its
  own in the code; \<open>if constexpr\<close> is an \<open>if\<close> on the width here.
\<close>

definition update_byte :: "'a::len word crc_params \<Rightarrow> 'a word list \<Rightarrow> byte \<Rightarrow> 'a word \<Rightarrow> 'a word" where
  "update_byte p tab b c =
     (if reflect p
      then let idx = ucast ((c XOR ucast b) AND 0xff) :: byte in (tab ! unat idx) XOR drop_bit 8 c
      else if LENGTH('a) = 8
      then let idx = ucast c XOR b in tab ! unat idx
      else let idx = ucast (drop_bit (LENGTH('a) - 8) c) XOR b in
           (push_bit 8 c XOR (tab ! unat idx)) AND NOT 0)"

definition update :: "'a::len word crc \<Rightarrow> byte list \<Rightarrow> 'a word crc" where
  "update c data = c\<lparr>crc := fold (update_byte (params c) (table c)) data (crc c)\<rparr>"

definition crc_value :: "'a::len word crc \<Rightarrow> 'a word" where
  "crc_value c = crc c XOR xorOut (params c)"

definition compute :: "'a::len word crc_params \<Rightarrow> byte list \<Rightarrow> 'a word" where
  "compute p data = crc_value (update (crc_new p) data)"

section \<open>The bit-serial register\<close>

text \<open>
  The reference: the register shifted one bit at a time, eight times per byte, with no table.
\<close>

definition serial_step :: "'a::len word crc_params \<Rightarrow> 'a word \<Rightarrow> 'a word" where
  "serial_step p c =
     (if reflect p then reflected_bit (reflectBits (poly p) LENGTH('a)) c
      else unreflected_bit (poly p) c)"

definition serial_in :: "'a::len word crc_params \<Rightarrow> byte \<Rightarrow> 'a word" where
  "serial_in p b = (if reflect p then ucast b else push_bit (LENGTH('a) - 8) (ucast b))"

definition serial_byte :: "'a::len word crc_params \<Rightarrow> byte \<Rightarrow> 'a word \<Rightarrow> 'a word" where
  "serial_byte p b c = (serial_step p ^^ 8) (c XOR serial_in p b)"

definition serial_crc :: "'a::len word crc_params \<Rightarrow> byte list \<Rightarrow> 'a word" where
  "serial_crc p data = fold (serial_byte p) data (init p) XOR xorOut p"

lemma reflected_bit_iff:
  "bit (reflected_bit r c) n \<longleftrightarrow> bit c (Suc n) \<noteq> (bit c 0 \<and> bit r n)"
  using bit_imp_le_length [of c "Suc n"]
  by (auto simp: reflected_bit_def bit_simps byte_bits)

lemma unreflected_bit_iff:
  "bit (unreflected_bit r c) n \<longleftrightarrow>
     n < LENGTH('a) \<and> ((0 < n \<and> bit c (n - 1)) \<noteq> (bit c (LENGTH('a) - 1) \<and> bit r n))"
  for r c :: "'a::len word"
proof -
  have "c AND push_bit (LENGTH('a) - 1) 1 \<noteq> 0 \<longleftrightarrow> bit c (LENGTH('a) - 1)"
    using and_exp_eq_0_iff_not_bit [of c "LENGTH('a) - 1"] by (simp add: push_bit_eq_mult)
  then show ?thesis
    using bit_double_iff [of c n] possible_bit_word [where 'a = 'a, of n] bit_imp_le_length [of r n]
    by (auto simp: unreflected_bit_def bit_xor_iff mult.commute)
qed

lemma serial_step_xor: "serial_step p (a XOR b) = serial_step p a XOR serial_step p b"
  by (rule bit_word_eqI)
    (auto simp: serial_step_def reflected_bit_iff unreflected_bit_iff bit_xor_iff)

lemma serial_steps_xor: "(serial_step p ^^ n) (a XOR b) = (serial_step p ^^ n) a XOR (serial_step p ^^ n) b"
  by (induction n arbitrary: a b) (simp_all add: serial_step_xor)

lemma reflected_bits_low_clear:
  "(\<And>i. i < k \<Longrightarrow> \<not> bit x i) \<Longrightarrow> (reflected_bit r ^^ k) x = drop_bit k x"
proof (induction k)
  case 0
  then show ?case by simp
next
  case (Suc k)
  then have "(reflected_bit r ^^ Suc k) x = reflected_bit r (drop_bit k x)" by simp
  also have "\<dots> = drop_bit (Suc k) x"
    using Suc.prems [of k]
    by (intro bit_word_eqI) (simp add: reflected_bit_iff bit_drop_bit_eq)
  finally show ?case .
qed

lemma unreflected_bits_high_clear:
  fixes x :: "'a::len word"
  assumes "k \<le> LENGTH('a)" "\<And>i. LENGTH('a) - k \<le> i \<Longrightarrow> \<not> bit x i"
  shows "(unreflected_bit r ^^ k) x = push_bit k x"
  using assms
proof (induction k)
  case 0
  then show ?case by simp
next
  case (Suc k)
  then have "(unreflected_bit r ^^ Suc k) x = unreflected_bit r (push_bit k x)" by simp
  also have "\<dots> = push_bit (Suc k) x"
  proof (rule bit_word_eqI)
    fix n assume n: "n < LENGTH('a)"
    have top: "\<not> bit (push_bit k x) (LENGTH('a) - 1)"
      using Suc.prems(1) Suc.prems(2) [of "LENGTH('a) - 1 - k"] by (auto simp: bit_push_bit_iff)
    show "bit (unreflected_bit r (push_bit k x)) n \<longleftrightarrow> bit (push_bit (Suc k) x) n"
      using n top by (auto simp: unreflected_bit_iff bit_push_bit_iff simp del: push_bit_Suc)
  qed
  finally show ?case .
qed

lemma length_buildTable [simp]: "length (buildTable p) = 256"
  by (simp add: buildTable_def Let_def)

lemma serial_step_reflected:
  "reflect p \<Longrightarrow> serial_step p = reflected_bit (reflectBits (poly p) LENGTH('a))"
  for p :: "'a::len word crc_params"
  by (intro ext) (simp add: serial_step_def)

lemma serial_step_unreflected: "\<not> reflect p \<Longrightarrow> serial_step p = unreflected_bit (poly p)"
  by (intro ext) (simp add: serial_step_def)

text \<open>A table entry is the serial register of its index.\<close>

lemma buildTable_nth:
  "buildTable p ! unat b = (serial_step p ^^ 8) (serial_in p b)"
proof (cases "reflect p")
  case True
  then show ?thesis
    by (simp add: serial_step_reflected buildTable_def serial_in_def Let_def unat_byte_less
        del: funpow.simps)
next
  case False
  then show ?thesis
    by (simp add: serial_step_unreflected buildTable_def serial_in_def Let_def unat_byte_less
        del: funpow.simps)
qed

text \<open>One table lookup is eight serial steps.\<close>

lemma update_byte_serial_reflected:
  fixes c :: "'a::len word"
  assumes "8 \<le> LENGTH('a)" "reflect p"
  shows "update_byte p (buildTable p) b c = serial_byte p b c"
proof -
  let ?x = "c XOR ucast b"
  let ?lo = "?x AND 0xff" and ?hi = "push_bit 8 (drop_bit 8 ?x)"
  have ff: "0xff = (mask 8 :: 'a word)" by (simp add: mask_eq_exp_minus_1)
  have x: "?x = ?lo XOR ?hi"
    unfolding ff using assms(1)
    by (intro bit_word_eqI) (auto simp: bit_simps dest: bit_byte_lt)
  have lo: "ucast (ucast ?lo :: byte) = ?lo"
    unfolding ff using assms(1) by (intro bit_word_eqI) (auto simp: bit_simps)
  have "(serial_step p ^^ 8) ?hi = drop_bit 8 ?hi"
    unfolding serial_step_reflected [OF assms(2)]
    by (rule reflected_bits_low_clear) (auto simp: bit_simps)
  also have "\<dots> = drop_bit 8 c"
    using assms(1)
    by (intro bit_word_eqI) (auto simp: bit_simps dest: bit_imp_le_length)
  finally have hi: "(serial_step p ^^ 8) ?hi = drop_bit 8 c" .
  have "serial_byte p b c = (serial_step p ^^ 8) (?lo XOR ?hi)"
    by (subst x [symmetric]) (simp add: serial_byte_def serial_in_def assms(2))
  also have "\<dots> = (serial_step p ^^ 8) ?lo XOR drop_bit 8 c"
    by (simp only: serial_steps_xor hi)
  also have "(serial_step p ^^ 8) ?lo = buildTable p ! unat (ucast ?lo :: byte)"
    by (simp only: buildTable_nth serial_in_def assms(2) if_True lo)
  finally show ?thesis
    by (simp only: update_byte_def assms(2) if_True Let_def)
qed

lemma update_byte_serial_unreflected:
  fixes c :: "'a::len word"
  assumes "8 \<le> LENGTH('a)" "\<not> reflect p"
  shows "update_byte p (buildTable p) b c = serial_byte p b c"
proof -
  let ?W = "LENGTH('a)"
  let ?idx = "ucast (drop_bit (?W - 8) c) XOR b :: byte"
  let ?lo = "take_bit (?W - 8) c"
  have x: "c XOR push_bit (?W - 8) (ucast b) = push_bit (?W - 8) (ucast ?idx) XOR ?lo"
    using assms(1) by (intro bit_word_eqI) (auto simp: bit_simps)
  have "(serial_step p ^^ 8) ?lo = push_bit 8 ?lo"
    unfolding serial_step_unreflected [OF assms(2)]
    using assms(1) by (intro unreflected_bits_high_clear) (simp_all add: bit_take_bit_iff)
  also have "\<dots> = push_bit 8 c"
    by (intro bit_word_eqI) (auto simp: bit_simps)
  finally have lo: "(serial_step p ^^ 8) ?lo = push_bit 8 c" .
  have "serial_byte p b c = (serial_step p ^^ 8) (push_bit (?W - 8) (ucast ?idx) XOR ?lo)"
    by (subst x [symmetric]) (simp add: serial_byte_def serial_in_def assms(2))
  also have "\<dots> = (serial_step p ^^ 8) (push_bit (?W - 8) (ucast ?idx)) XOR push_bit 8 c"
    by (simp only: serial_steps_xor lo)
  also have "(serial_step p ^^ 8) (push_bit (?W - 8) (ucast ?idx)) = buildTable p ! unat ?idx"
    by (simp only: buildTable_nth serial_in_def assms(2) if_False)
  finally have *: "serial_byte p b c = buildTable p ! unat ?idx XOR push_bit 8 c" .
  show ?thesis
  proof (cases "?W = 8")
    case True
    then have "push_bit 8 c = 0" by (intro bit_word_eqI) (auto simp: bit_simps)
    with True * assms(2) show ?thesis by (simp add: update_byte_def Let_def)
  next
    case False
    with * assms(2) show ?thesis by (simp add: update_byte_def Let_def xor.commute)
  qed
qed

lemma update_byte_serial:
  fixes c :: "'a::len word"
  assumes "8 \<le> LENGTH('a)"
  shows "update_byte p (buildTable p) b c = serial_byte p b c"
  using assms update_byte_serial_reflected update_byte_serial_unreflected by blast

section \<open>The engine computes the serial CRC\<close>

lemma fold_update_byte_serial:
  fixes c :: "'a::len word"
  assumes "8 \<le> LENGTH('a)"
  shows "fold (update_byte p (buildTable p)) data c = fold (serial_byte p) data c"
  by (induction data arbitrary: c) (simp_all add: update_byte_serial [OF assms])

lemma compute_eq_serial:
  fixes p :: "'a::len word crc_params"
  assumes "8 \<le> LENGTH('a)"
  shows "compute p data = serial_crc p data"
  by (simp add: compute_def crc_value_def update_def crc_new_def serial_crc_def
      fold_update_byte_serial [OF assms])

text \<open>C23: The table-driven engine returns, for every parameter set, register width and message,
  the value of the bit-serial register of the polynomial.\<close>
theorem compute_serial:
  fixes p :: "'a::len word crc_params"
  assumes "8 \<le> LENGTH('a)"
  shows "compute p data = serial_crc p data"
  using assms by (rule compute_eq_serial)

theorem compute_serial_witness:
  "8 \<le> LENGTH(32) \<and> compute Crc32IsoHdlc [0x31, 0x32] = serial_crc Crc32IsoHdlc [0x31, 0x32]"
  using compute_serial [where 'a = 32, of Crc32IsoHdlc "[0x31, 0x32]"] by simp

section \<open>Data in pieces\<close>

interpretation crc_stream: stream_fold update
  by unfold_locales (simp_all add: update_def)

lemma update_frame [simp]: "params (update c xs) = params c" "table (update c xs) = table c"
  by (simp_all add: update_def)

text \<open>Feeding a message in any pieces, and resetting first whatever was fed before, gives the
  one-shot CRC of the whole message; reading the value does not disturb the register.\<close>
theorem update_pieces_compute:
  "crc_value (foldl update (reset (update (crc_new p) old)) pieces) = compute p (concat pieces)"
proof -
  have "reset (update (crc_new p) old) = crc_new p"
    by (simp add: reset_def update_def crc_new_def)
  then show ?thesis by (simp add: crc_stream.feed_pieces compute_def)
qed

section \<open>Error detection\<close>

text \<open>
  A polynomial whose constant term is one makes every bit step injective, so two registers
  that differ once never meet again on the same input.
\<close>

lemma bit_fold_set:
  "bit (fold (\<lambda>i r. if P i then r OR push_bit (f i) 1 else r) is r0 :: 'a::len word) n \<longleftrightarrow>
     bit r0 n \<or> (n < LENGTH('a) \<and> (\<exists>i\<in>set is. P i \<and> f i = n))"
proof (induction "is" arbitrary: r0)
  case Nil
  then show ?case by simp
next
  case (Cons i "is")
  then show ?case
    by (auto simp: bit_or_iff bit_push_bit_iff push_bit_eq_mult bit_exp_iff)
qed

lemma mask_push_bit_neq_0: "(v AND push_bit i 1 \<noteq> 0) = bit v i" for v :: "'a::len word"
  using and_exp_eq_0_iff_not_bit [of v i] by (simp add: push_bit_eq_mult)

lemma bit_reflectBits:
  "bit (reflectBits v k :: 'a::len word) n \<longleftrightarrow> n < LENGTH('a) \<and> n < k \<and> bit v (k - 1 - n)"
proof -
  have "(\<exists>i\<in>set [0..<k]. bit v i \<and> k - 1 - i = n) \<longleftrightarrow> n < k \<and> bit v (k - 1 - n)"
  proof
    assume "n < k \<and> bit v (k - 1 - n)"
    then show "\<exists>i\<in>set [0..<k]. bit v i \<and> k - 1 - i = n"
      by (intro bexI [of _ "k - 1 - n"]) auto
  qed auto
  then show ?thesis
    unfolding reflectBits_def mask_push_bit_neq_0 bit_fold_set by auto
qed

lemma serial_step_0: "serial_step p 0 = 0"
  by (simp add: serial_step_def reflected_bit_def unreflected_bit_def)

lemma serial_step_eq_0:
  fixes p :: "'a::len word crc_params"
  assumes odd: "bit (poly p) 0" and z: "serial_step p x = 0"
  shows "x = 0"
proof (rule bit_word_eqI)
  fix n assume n: "n < LENGTH('a)"
  let ?W = "LENGTH('a)"
  have W: "0 < ?W" by simp
  show "bit x n \<longleftrightarrow> bit (0 :: 'a word) n"
  proof (cases "reflect p")
    case True
    have ref: "bit x (Suc k) = (bit x 0 \<and> bit (reflectBits (poly p) ?W) k)" for k
      using z True by (simp add: serial_step_def) (metis bit_0_eq bot_apply bot_bool_def reflected_bit_iff)
    have "\<not> bit x ?W" using bit_imp_le_length [of x ?W] by auto
    with ref [of "?W - 1"] W odd have "\<not> bit x 0" by (simp add: bit_reflectBits)
    with ref show ?thesis by (cases n) auto
  next
    case False
    have unr: "((0 < k \<and> bit x (k - 1)) = (bit x (?W - 1) \<and> bit (poly p) k))" if "k < ?W" for k
      using z False that
      by (simp add: serial_step_def) (metis bit_0_eq bot_apply bot_bool_def unreflected_bit_iff One_nat_def)
    have top: "\<not> bit x (?W - 1)" using unr [of 0] odd W by simp
    show ?thesis
    proof (cases "n = ?W - 1")
      case True
      then show ?thesis using top by simp
    next
      case False
      then show ?thesis using unr [of "Suc n"] top n by simp
    qed
  qed
qed

lemma xor_eq_0_iff: "a XOR b = 0 \<longleftrightarrow> a = b" for a b :: "'a::len word"
  by (metis xor.commute xor.left_neutral xor.right_neutral xor_self_eq xor.assoc)

lemma serial_steps_inj:
  assumes "bit (poly p) 0" "(serial_step p ^^ k) a = (serial_step p ^^ k) b"
  shows "a = b"
  using assms(2)
proof (induction k arbitrary: a b)
  case 0
  then show ?case by simp
next
  case (Suc k)
  then have "serial_step p ((serial_step p ^^ k) a) XOR serial_step p ((serial_step p ^^ k) b) = 0"
    by simp
  then have "serial_step p ((serial_step p ^^ k) (a XOR b)) = 0"
    by (simp only: serial_step_xor serial_steps_xor)
  then have "(serial_step p ^^ k) (a XOR b) = 0"
    using serial_step_eq_0 assms(1) by blast
  then have "(serial_step p ^^ k) a = (serial_step p ^^ k) b"
    by (simp only: serial_steps_xor xor_eq_0_iff)
  then show ?case by (rule Suc.IH)
qed

lemma serial_in_inj:
  assumes "8 \<le> LENGTH('a)" "serial_in p b = (serial_in p b' :: 'a::len word)"
  shows "b = b'"
proof (rule bit_word_eqI)
  fix n assume "n < LENGTH(8)"
  moreover have "bit (serial_in p b :: 'a word) k = bit (serial_in p b') k" for k
    by (simp only: assms(2))
  from this [of n] this [of "LENGTH('a) - 8 + n"] show "bit b n = bit b' n"
    using assms(1) \<open>n < LENGTH(8)\<close> by (auto simp: serial_in_def bit_simps split: if_splits)
qed

lemma serial_byte_inj:
  fixes p :: "'a::len word crc_params"
  assumes "8 \<le> LENGTH('a)" "bit (poly p) 0" "serial_byte p b c = serial_byte p b' c'"
  shows "c XOR serial_in p b = c' XOR serial_in p b'"
  using assms serial_steps_inj by (auto simp: serial_byte_def)

lemma fold_serial_inj:
  fixes p :: "'a::len word crc_params"
  assumes "8 \<le> LENGTH('a)" "bit (poly p) 0"
  shows "fold (serial_byte p) data c = fold (serial_byte p) data c' \<Longrightarrow> c = c'"
proof (induction data arbitrary: c c')
  case Nil
  then show ?case by simp
next
  case (Cons b data)
  then have "serial_byte p b c = serial_byte p b c'" by simp
  from serial_byte_inj [OF assms this] show ?case
    by (metis xor.assoc xor_self_eq xor.right_neutral)
qed

text \<open>With a polynomial whose constant term is set (every catalogued one), two messages that
  differ in exactly one byte have different CRCs, whatever surrounds that byte.\<close>
theorem crc_detects_byte_change:
  fixes p :: "'a::len word crc_params"
  assumes "8 \<le> LENGTH('a)" "bit (poly p) 0" "b \<noteq> b'"
  shows "compute p (pre @ [b] @ post) \<noteq> compute p (pre @ [b'] @ post)"
proof
  assume eq: "compute p (pre @ [b] @ post) = compute p (pre @ [b'] @ post)"
  let ?c = "fold (serial_byte p) pre (init p)"
  from eq have "fold (serial_byte p) post (serial_byte p b ?c) = fold (serial_byte p) post (serial_byte p b' ?c)"
    by (simp add: compute_eq_serial [OF assms(1)] serial_crc_def)
      (metis xor.assoc xor_self_eq xor.right_neutral)
  then have "serial_byte p b ?c = serial_byte p b' ?c"
    by (rule fold_serial_inj [OF assms(1,2)])
  then have "?c XOR serial_in p b = ?c XOR serial_in p b'"
    by (rule serial_byte_inj [OF assms(1,2)])
  then have "serial_in p b = serial_in p b'"
    by (metis xor.assoc xor_self_eq xor.left_neutral)
  with assms show False using serial_in_inj by blast
qed

theorem crc_detects_byte_change_witness:
  "compute Crc16CcittFalse ([1, 2] @ [3] @ [4]) \<noteq> compute Crc16CcittFalse ([1, 2] @ [7] @ [4])"
  by (rule crc_detects_byte_change) (simp_all add: Crc16CcittFalse_def)

end
