(* ===== verification/TextCodec.thy ===== *)
theory TextCodec
  imports Prelude
begin

text \<open>
  Bytes as text: Base64 (\<open>src/core/base64.cpp\<close>) and the hexadecimal form of a buffer
  (\<open>Buffer::toHex\<close> and \<open>Buffer::fromHex\<close> of \<open>src/core/buffer.cpp\<close>). Both
  decoders size their output in a first pass and fill it in a second, so the output buffer is
  explicit here: \<open>fresh n\<close> is what an allocation of \<open>n\<close> bytes holds before
  anything is written to it (the allocator does not clear memory).
\<close>

unbundle bit_operations_syntax

section \<open>Base64\<close>

definition kAlphabet :: string where
  "kAlphabet = ''ABCDEFGHIJKLMNOPQRSTUVWXYZabcdefghijklmnopqrstuvwxyz0123456789+/''"

definition kReverse :: "byte list" where
  "kReverse = fold (\<lambda>i t. t[of_char (kAlphabet ! i) := of_nat i]) [0..<64] (replicate 256 0xFF)"

definition sextet :: "u32 \<Rightarrow> nat \<Rightarrow> char" where
  "sextet v s = kAlphabet ! unat (drop_bit s v AND 0x3F)"

text \<open>\<open>Base64::encode\<close>: whole groups of three bytes, then a tail of one or two.\<close>

fun b64_encode :: "byte list \<Rightarrow> string" where
  "b64_encode (a # b # c # rest) =
     (let v = push_bit 16 (ucast a) OR push_bit 8 (ucast b) OR ucast c
      in [sextet v 18, sextet v 12, sextet v 6, sextet v 0] @ b64_encode rest)"
| "b64_encode [a] =
     (let v = push_bit 16 (ucast a) in [sextet v 18, sextet v 12, CHR ''='', CHR ''=''])"
| "b64_encode [a, b] =
     (let v = push_bit 16 (ucast a) OR push_bit 8 (ucast b)
      in [sextet v 18, sextet v 12, sextet v 6, CHR ''=''])"
| "b64_encode [] = []"

definition b64_space :: "char \<Rightarrow> bool" where
  "b64_space c \<longleftrightarrow> c = CHR '' '' \<or> c = CHR 0x09 \<or> c = CHR 0x0D \<or> c = CHR 0x0A"

definition rev_lookup :: "char \<Rightarrow> byte" where
  "rev_lookup c = kReverse ! of_char c"

text \<open>First pass: the number of alphabet characters, \<open>None\<close> at a foreign byte.\<close>

fun b64_count :: "string \<Rightarrow> nat \<Rightarrow> nat option" where
  "b64_count [] valid = Some valid"
| "b64_count (c # cs) valid =
     (if b64_space c then b64_count cs valid
      else if c = CHR ''='' then b64_count cs valid
      else if rev_lookup c = 0xFF then None
      else b64_count cs (Suc valid))"

definition b64_out_bytes :: "nat \<Rightarrow> nat option" where
  "b64_out_bytes valid =
     (let fullGroups = valid div 4; tail = valid mod 4; outBytes = fullGroups * 3
      in if tail = 2 then Some (outBytes + 1)
         else if tail = 3 then Some (outBytes + 2)
         else if tail \<noteq> 0 then None else Some outBytes)"

text \<open>Second pass: six bits at a time into the accumulator; it stops at the first padding.\<close>

fun b64_fill :: "string \<Rightarrow> u32 \<Rightarrow> nat \<Rightarrow> nat \<Rightarrow> byte list \<Rightarrow> byte list" where
  "b64_fill [] accum bits outIdx out = out"
| "b64_fill (c # cs) accum bits outIdx out =
     (if b64_space c then b64_fill cs accum bits outIdx out
      else if c = CHR ''='' then out
      else let accum = push_bit 6 accum OR ucast (rev_lookup c); bits = bits + 6
           in if 8 \<le> bits
              then b64_fill cs accum (bits - 8) (Suc outIdx)
                     (out[outIdx := ucast (drop_bit (bits - 8) accum AND 0xFF)])
              else b64_fill cs accum bits outIdx out)"

definition b64_decode :: "(nat \<Rightarrow> byte list) \<Rightarrow> string \<Rightarrow> byte list result" where
  "b64_decode fresh text =
     (if text = [] then Inr []
      else case b64_count text 0 of
        None \<Rightarrow> Inl Invalid
      | Some valid \<Rightarrow>
          if valid = 0 then Inr []
          else case b64_out_bytes valid of
            None \<Rightarrow> Inl Invalid
          | Some n \<Rightarrow> Inr (b64_fill text 0 0 0 (fresh n)))"

section \<open>Hexadecimal\<close>

definition hexNibble :: "char \<Rightarrow> int" where
  "hexNibble c =
     (let n = of_char c :: int in
      if of_char (CHR ''0'') \<le> n \<and> n \<le> of_char (CHR ''9'') then n - of_char (CHR ''0'')
      else if of_char (CHR ''a'') \<le> n \<and> n \<le> of_char (CHR ''f'') then 10 + (n - of_char (CHR ''a''))
      else if of_char (CHR ''A'') \<le> n \<and> n \<le> of_char (CHR ''F'') then 10 + (n - of_char (CHR ''A''))
      else - 1)"

definition isHexSkip :: "char \<Rightarrow> bool" where
  "isHexSkip c \<longleftrightarrow> c = CHR '' '' \<or> c = CHR 0x09 \<or> c = CHR 0x0A \<or> c = CHR 0x0D \<or> c = CHR ''-''"

fun hex_count :: "string \<Rightarrow> nat \<Rightarrow> nat option" where
  "hex_count [] nibbles = Some nibbles"
| "hex_count (c # cs) nibbles =
     (if isHexSkip c then hex_count cs nibbles
      else if hexNibble c < 0 then None
      else hex_count cs (Suc nibbles))"

fun hex_fill :: "string \<Rightarrow> int \<Rightarrow> nat \<Rightarrow> byte list \<Rightarrow> byte list" where
  "hex_fill [] hi outIdx out = out"
| "hex_fill (c # cs) hi outIdx out =
     (if isHexSkip c then hex_fill cs hi outIdx out
      else let v = hexNibble c in
           if hi < 0 then hex_fill cs v outIdx out
           else hex_fill cs (- 1) (Suc outIdx) (out[outIdx := word_of_int (push_bit 4 hi OR v)]))"

definition fromHex :: "(nat \<Rightarrow> byte list) \<Rightarrow> string \<Rightarrow> byte list result" where
  "fromHex fresh hex =
     (case hex_count hex 0 of
        None \<Rightarrow> Inl ParseFailed
      | Some nibbles \<Rightarrow>
          if odd nibbles then Inl ParseFailed
          else let bytes = nibbles div 2 in
               if bytes = 0 then Inr [] else Inr (hex_fill hex (- 1) 0 (fresh bytes)))"

text \<open>\<open>%02x\<close> of a byte, then \<open>Buffer::toHex\<close> with a separator.\<close>

definition hex_digit :: "nat \<Rightarrow> char" where
  "hex_digit n = ''0123456789abcdef'' ! n"

definition hex_byte :: "byte \<Rightarrow> string" where
  "hex_byte b = [hex_digit (unat b div 16), hex_digit (unat b mod 16)]"

fun toHex :: "string \<Rightarrow> byte list \<Rightarrow> string" where
  "toHex sep [] = []"
| "toHex sep [b] = hex_byte b"
| "toHex sep (b # bs) = hex_byte b @ sep @ toHex sep bs"

section \<open>Base64 round trip\<close>

lemma fold_update_other:
  "j \<notin> f ` set is \<Longrightarrow> fold (\<lambda>i t. t[f i := g i]) is t ! j = t ! j"
  by (induction "is" arbitrary: t) simp_all

lemma length_fold_update [simp]: "length (fold (\<lambda>i t. t[f i := g i]) is t) = length t"
  by (induction "is" arbitrary: t) simp_all

lemma fold_update_nth:
  assumes "distinct (map f is)" "i \<in> set is" "f i < length t"
  shows "fold (\<lambda>i t. t[f i := g i]) is t ! f i = g i"
  using assms
proof (induction "is" arbitrary: t)
  case Nil
  then show ?case by simp
next
  case (Cons k ks)
  show ?case
  proof (cases "i = k")
    case True
    with Cons.prems show ?thesis by (simp add: fold_update_other)
  next
    case False
    with Cons.prems show ?thesis by (simp add: Cons.IH)
  qed
qed

lemma kAlphabet_facts:
  "length kAlphabet = 64" "distinct kAlphabet"
  "list_all (\<lambda>c. \<not> b64_space c \<and> c \<noteq> CHR ''='') kAlphabet"
  unfolding kAlphabet_def by (simp_all add: b64_space_def)

lemma alphabet_nth:
  assumes "i < 64"
  shows "rev_lookup (kAlphabet ! i) = of_nat i" "\<not> b64_space (kAlphabet ! i)" "kAlphabet ! i \<noteq> CHR ''=''"
proof -
  let ?f = "\<lambda>i. of_char (kAlphabet ! i) :: nat"
  have "distinct (map ?f [0..<64])"
    using kAlphabet_facts(1,2) by (auto simp: distinct_map inj_on_def nth_eq_iff_index_eq)
  then have "kReverse ! ?f i = of_nat i"
    unfolding kReverse_def
    by (rule fold_update_nth) (use assms in simp_all)
  then show "rev_lookup (kAlphabet ! i) = of_nat i" by (simp add: rev_lookup_def)
  show "\<not> b64_space (kAlphabet ! i)" "kAlphabet ! i \<noteq> CHR ''=''"
    using kAlphabet_facts(1,3) assms by (auto simp: list_all_length)
qed

text \<open>The six bits a character stands for.\<close>

definition six :: "u32 \<Rightarrow> nat \<Rightarrow> byte" where
  "six v s = ucast (drop_bit s v AND 0x3F)"

lemma bit_six [simp]: "bit (six v s) n \<longleftrightarrow> n < 6 \<and> bit v (s + n)"
proof -
  have "0x3F = (mask 6 :: u32)" by (simp add: mask_eq_exp_minus_1)
  then have "six v s = ucast (drop_bit s v AND mask 6)" by (simp only: six_def)
  then show ?thesis by (auto simp: bit_simps)
qed

lemma six_not_FF [simp]: "six v s \<noteq> 0xFF"
proof
  assume "six v s = 0xFF"
  then have "bit (six v s) 7" by simp
  then show False by simp
qed

lemma sextet_index: "unat (drop_bit s v AND 0x3F :: u32) < 64"
proof -
  have "drop_bit s v AND 0x3F \<le> (0x3F :: u32)" by (rule word_and_le1)
  then show ?thesis by (simp add: word_le_nat_alt)
qed

lemma sextet_facts [simp]:
  "rev_lookup (sextet v s) = six v s"
  "b64_space (sextet v s) = False"
  "(sextet v s = CHR ''='') = False"
  using alphabet_nth [OF sextet_index [of s v]]
  by (simp_all add: sextet_def six_def)

lemma pad_facts [simp]: "b64_space (CHR ''='') = False"
  by (simp add: b64_space_def)

definition b64_chars :: "nat \<Rightarrow> nat" where
  "b64_chars n = 4 * (n div 3) + (if n mod 3 = 0 then 0 else Suc (n mod 3))"

lemma b64_chars_simps [simp]:
  "b64_chars 0 = 0" "b64_chars (Suc 0) = 2" "b64_chars (Suc (Suc 0)) = 3"
  "b64_chars (Suc (Suc (Suc n))) = 4 + b64_chars n"
proof -
  have "Suc (Suc (Suc n)) = n + 3" by simp
  then show "b64_chars (Suc (Suc (Suc n))) = 4 + b64_chars n"
    unfolding b64_chars_def by (simp only: div_add_self2 mod_add_self2) simp
qed (simp_all add: b64_chars_def)

lemma b64_count_encode: "b64_count (b64_encode bs) k = Some (k + b64_chars (length bs))"
  by (induction bs arbitrary: k rule: b64_encode.induct) (simp_all add: Let_def)

lemma b64_out_bytes_add4: "b64_out_bytes (4 + n) = map_option ((+) 3) (b64_out_bytes n)"
proof -
  have "4 + n = n + 4" by simp
  then show ?thesis unfolding b64_out_bytes_def by (simp only: div_add_self2 mod_add_self2) (simp add: Let_def)
qed

lemma b64_out_bytes_chars: "b64_out_bytes (b64_chars (length bs)) = Some (length bs)" for bs :: "byte list"
  by (induction bs rule: b64_encode.induct)
    (simp_all add: b64_out_bytes_add4, simp_all add: b64_out_bytes_def)

text \<open>The output bytes of a group of characters, bit by bit.\<close>

lemma bit_rd24:
  "bit (rd24 a b c) n \<longleftrightarrow>
     (16 \<le> n \<and> bit a (n - 16)) \<or> (8 \<le> n \<and> n < 16 \<and> bit b (n - 8)) \<or> (n < 8 \<and> bit c n)"
  by (auto simp: rd24_def bit_simps dest: bit_byte_lt)

definition acc6 :: "u32 \<Rightarrow> byte \<Rightarrow> u32" where
  "acc6 accum x = push_bit 6 accum OR ucast x"

definition acc_byte :: "nat \<Rightarrow> u32 \<Rightarrow> byte" where
  "acc_byte s accum = ucast (drop_bit s accum AND 0xFF)"

lemma bit_acc6: "bit (acc6 accum x) n \<longleftrightarrow> n < 32 \<and> (6 \<le> n \<and> bit accum (n - 6) \<or> bit x n)"
  by (auto simp: acc6_def bit_simps)

lemma bit_acc_byte: "bit (acc_byte s accum) n \<longleftrightarrow> n < 8 \<and> bit accum (s + n)"
proof -
  have "0xFF = (mask 8 :: u32)" by (simp add: mask_eq_exp_minus_1)
  then have "acc_byte s accum = ucast (drop_bit s accum AND mask 8)" by (simp only: acc_byte_def)
  then show ?thesis by (auto simp: bit_simps)
qed

lemma fill_sextet [simp]:
  "b64_fill (sextet v s # cs) accum bits k out =
     (if 2 \<le> bits
      then b64_fill cs (acc6 accum (six v s)) (bits - 2) (Suc k)
             (out[k := acc_byte (bits - 2) (acc6 accum (six v s))])
      else b64_fill cs (acc6 accum (six v s)) (bits + 6) k out)"
  unfolding b64_fill.simps(2) sextet_facts acc6_def acc_byte_def by (simp add: Let_def)

lemma fill_pad [simp]: "b64_fill (CHR ''='' # cs) accum bits k out = out"
  by simp

declare b64_fill.simps(2) [simp del]

lemma group_bytes [simp]:
  fixes accum a b c
  defines "v \<equiv> rd24 a b c"
  shows "acc_byte 4 (acc6 (acc6 accum (six v 18)) (six v 12)) = a"
    and "acc_byte 2 (acc6 (acc6 (acc6 accum (six v 18)) (six v 12)) (six v 6)) = b"
    and "acc_byte 0 (acc6 (acc6 (acc6 (acc6 accum (six v 18)) (six v 12)) (six v 6)) (six v 0)) = c"
  unfolding v_def by (rule bit_byte_eqI; simp add: bit_acc_byte bit_acc6 bit_rd24 numeral_2_eq_2)+

lemma b64_encode_rd24 [simp]:
  "b64_encode (a # b # c # rest) =
     [sextet (rd24 a b c) 18, sextet (rd24 a b c) 12, sextet (rd24 a b c) 6, sextet (rd24 a b c) 0]
       @ b64_encode rest"
  "b64_encode [a] = [sextet (rd24 a 0 0) 18, sextet (rd24 a 0 0) 12, CHR ''='', CHR ''='']"
  "b64_encode [a, b] =
     [sextet (rd24 a b 0) 18, sextet (rd24 a b 0) 12, sextet (rd24 a b 0) 6, CHR ''='']"
  by (simp_all add: rd24_def Let_def or.assoc)

declare b64_encode.simps(1-3) [simp del]

lemma b64_fill_encode:
  assumes "length pre = k" "length out = length bs"
  shows "b64_fill (b64_encode bs) accum 0 k (pre @ out) = pre @ bs"
  using assms
proof (induction bs arbitrary: pre k out accum rule: b64_encode.induct)
  case (1 a b c rest)
  then obtain x y z out' where out: "out = x # y # z # out'" "length out' = length rest"
    by (auto simp: length_Suc_conv)
  have "b64_fill (b64_encode rest) accum' 0 (Suc (Suc (Suc k))) ((pre @ [a, b, c]) @ out')
      = (pre @ [a, b, c]) @ rest" for accum'
    using "1.prems" out by (intro "1.IH" refl) simp_all
  with "1.prems"(1) out(1) show ?case by (simp add: list_update_append)
next
  case (2 a)
  then obtain x where "out = [x]" by (auto simp: length_Suc_conv)
  then show ?case using "2.prems" by (simp add: list_update_append)
next
  case (3 a b)
  then obtain x y where "out = [x, y]" by (auto simp: length_Suc_conv)
  then show ?case using "3.prems" by (simp add: list_update_append)
next
  case 4
  then show ?case by simp
qed

lemma b64_encode_eq_Nil: "b64_encode bs = [] \<longleftrightarrow> bs = []"
  by (cases bs rule: b64_encode.cases) (simp_all add: Let_def)

lemma b64_chars_eq_0: "b64_chars n = 0 \<longleftrightarrow> n = 0"
  by (auto simp: b64_chars_def)

lemma b64_decode_encode:
  assumes "\<And>n. length (fresh n) = n"
  shows "b64_decode fresh (b64_encode bs) = Inr bs"
  using b64_fill_encode [of "[]" 0 "fresh (length bs)" bs 0] assms [of "length bs"]
  by (auto simp: b64_decode_def b64_encode_eq_Nil b64_count_encode b64_out_bytes_chars b64_chars_eq_0)

interpretation b64: wire_codec b64_encode "b64_decode (\<lambda>n. replicate n 0)" "\<lambda>_. True"
  by unfold_locales (rule b64_decode_encode, simp)

text \<open>C29: Decoding the Base64 text of any bytes gives the bytes back, whatever the freshly allocated
  output buffer held.\<close>
theorem base64_roundtrip:
  assumes "\<And>n. length (fresh n) = n"
  shows "b64_decode fresh (b64_encode bs) = Inr bs"
  using assms by (rule b64_decode_encode)

theorem base64_roundtrip_witness:
  "b64_decode (\<lambda>n. replicate n 7) (b64_encode [1, 2, 3, 4]) = Inr [1, 2, 3, 4]"
  by (rule base64_roundtrip) simp

section \<open>Base64 input that does not come from the encoder\<close>

definition b64_alpha :: "char \<Rightarrow> bool" where
  "b64_alpha c \<longleftrightarrow> \<not> b64_space c \<and> c \<noteq> CHR ''=''"

lemma b64_count_eq:
  "b64_count cs k =
     (if \<exists>c\<in>set cs. b64_alpha c \<and> rev_lookup c = 0xFF then None
      else Some (k + length (filter b64_alpha cs)))"
  by (induction cs arbitrary: k) (auto simp: b64_alpha_def)

lemma b64_out_bytes_None: "b64_out_bytes n = None \<longleftrightarrow> n mod 4 = 1"
  by (auto simp: b64_out_bytes_def Let_def)

lemma b64_out_bytes_Some:
  assumes "b64_out_bytes n = Some m"
  shows "n mod 4 \<noteq> 1" "m = 3 * n div 4"
proof -
  define q r where "q = n div 4" and "r = n mod 4"
  have n: "n = 4 * q + r" "r < 4" by (simp_all add: q_def r_def)
  have m: "m = 3 * q + (if r = 2 then 1 else if r = 3 then 2 else 0) \<and> r \<noteq> 1"
    using assms by (auto simp: b64_out_bytes_def Let_def q_def r_def split: if_splits)
  then show "n mod 4 \<noteq> 1" by (simp add: r_def)
  have "r = 0 \<or> r = 1 \<or> r = 2 \<or> r = 3" using n(2) by linarith
  with m show "m = 3 * n div 4" by (auto simp: n(1))
qed

text \<open>The decoder fails with \<open>Invalid\<close> exactly when the text holds a byte outside the
  alphabet that is neither white space nor padding, or when one alphabet character is left over
  after the groups of four.\<close>
theorem base64_decode_error_iff:
  "b64_decode fresh text = Inl Invalid \<longleftrightarrow>
     (\<exists>c\<in>set text. b64_alpha c \<and> rev_lookup c = 0xFF) \<or> length (filter b64_alpha text) mod 4 = 1"
  by (cases "length (filter b64_alpha text) = 0")
    (auto simp: b64_decode_def b64_count_eq b64_out_bytes_None split: option.splits
      dest: b64_out_bytes_Some(1))

text \<open>
  When no alphabet character follows the first padding character, the fill loop writes every
  byte it sized: the invariant relates the write index to the bits consumed.
\<close>

lemma b64_fill_no_alpha:
  "filter b64_alpha cs = [] \<Longrightarrow> b64_fill cs accum bits k out = out"
  by (induction cs arbitrary: accum) (auto simp: b64_alpha_def b64_fill.simps(2) split: if_splits)

lemma b64_fill_alpha:
  assumes "b64_alpha c"
  shows "b64_fill (c # cs) accum bits k out =
     (if 2 \<le> bits
      then b64_fill cs (acc6 accum (rev_lookup c)) (bits - 2) (Suc k)
             (out[k := acc_byte (bits - 2) (acc6 accum (rev_lookup c))])
      else b64_fill cs (acc6 accum (rev_lookup c)) (bits + 6) k out)"
  using assms by (simp add: b64_fill.simps(2) b64_alpha_def acc6_def acc_byte_def Let_def)

lemma b64_fill_space: "b64_space c \<Longrightarrow> b64_fill (c # cs) accum bits k out = b64_fill cs accum bits k out"
  by (simp add: b64_fill.simps(2))

lemma take_Suc_update:
  assumes "take k xs = take k ys" "length xs = length ys" "k < length xs"
  shows "take (Suc k) (xs[k := v]) = take (Suc k) (ys[k := v])"
  using assms by (simp add: take_Suc_conv_app_nth)

lemma b64_fill_overwrites:
  assumes "bits < 8" "length out = length out'" "take k out = take k out'"
    "k + (bits + 6 * length (filter b64_alpha body)) div 8 = length out"
    "CHR ''='' \<notin> set body" "filter b64_alpha tail = []"
  shows "b64_fill (body @ tail) accum bits k out = b64_fill (body @ tail) accum bits k out'"
  using assms(1-5)
proof (induction body arbitrary: accum bits k out out')
  case Nil
  then show ?case using assms(6) by (simp add: b64_fill_no_alpha)
next
  case (Cons c body)
  show ?case
  proof (cases "b64_space c")
    case True
    have "b64_fill (body @ tail) accum bits k out = b64_fill (body @ tail) accum bits k out'"
      by (rule Cons.IH) (use Cons.prems True in \<open>simp_all add: b64_alpha_def\<close>)
    then show ?thesis using True by (simp add: b64_fill_space)
  next
    case False
    with Cons.prems(5) have alpha: "b64_alpha c" by (auto simp: b64_alpha_def)
    define w where "w = length (filter b64_alpha body)"
    from Cons.prems(4) alpha have sum: "k + (bits + 6 + 6 * w) div 8 = length out"
      by (simp add: w_def algebra_simps)
    show ?thesis
    proof (cases "2 \<le> bits")
      case True
      then have "bits + 6 + 6 * w = (bits - 2 + 6 * w) + 8" by simp
      with sum have len: "Suc k + (bits - 2 + 6 * w) div 8 = length out" by simp
      then have k: "k < length out" by linarith
      let ?v = "acc_byte (bits - 2) (acc6 accum (rev_lookup c))"
      have tk: "take (Suc k) (out[k := ?v]) = take (Suc k) (out'[k := ?v])"
        using Cons.prems(2,3) k by (intro take_Suc_update)
      have "b64_fill (body @ tail) (acc6 accum (rev_lookup c)) (bits - 2) (Suc k) (out[k := ?v])
          = b64_fill (body @ tail) (acc6 accum (rev_lookup c)) (bits - 2) (Suc k) (out'[k := ?v])"
        by (rule Cons.IH [OF _ _ tk]) (use Cons.prems len in \<open>simp_all add: w_def\<close>)
      then show ?thesis using True by (simp add: b64_fill_alpha [OF alpha])
    next
      case nb: False
      have "b64_fill (body @ tail) (acc6 accum (rev_lookup c)) (bits + 6) k out
          = b64_fill (body @ tail) (acc6 accum (rev_lookup c)) (bits + 6) k out'"
        by (rule Cons.IH [OF _ _ Cons.prems(3)]) (use Cons.prems nb sum in \<open>simp_all add: w_def\<close>)
      then show ?thesis using nb by (simp add: b64_fill_alpha [OF alpha])
    qed
  qed
qed

text \<open>If padding ends the text (only padding and white space follow the first padding
  character), the decoded bytes do not depend on what the output buffer held before.\<close>
theorem base64_decode_initialised:
  assumes "\<And>n. length (fresh n) = n" "\<And>n. length (fresh' n) = n"
    "CHR ''='' \<notin> set body" "filter b64_alpha tail = []"
  shows "b64_decode fresh (body @ tail) = b64_decode fresh' (body @ tail)"
proof -
  have "b64_fill (body @ tail) 0 0 0 (fresh m) = b64_fill (body @ tail) 0 0 0 (fresh' m)"
    if "b64_out_bytes (length (filter b64_alpha (body @ tail))) = Some m" for m
    using assms b64_out_bytes_Some(2) [OF that] by (intro b64_fill_overwrites) simp_all
  then show ?thesis
    by (auto simp: b64_decode_def b64_count_eq split: option.splits)
qed

theorem base64_decode_initialised_witness:
  "b64_decode (\<lambda>n. replicate n 0) (''QUI'' @ ''='') = b64_decode (\<lambda>n. replicate n 9) (''QUI'' @ ''='')"
  by (rule base64_decode_initialised) (simp_all add: b64_alpha_def)

text \<open>Two padded texts one after the other pass the first scan (whose count skips padding) and
  stop the fill at the first padding: the buffer returned still holds what the allocation held.\<close>
theorem base64_inner_padding_leaks:
  assumes "length (fresh 3) = 3"
  shows "b64_decode fresh ''QQ==QQ=='' = Inr [0x41, fresh 3 ! 1, fresh 3 ! 2]"
proof -
  obtain x y z where f: "fresh 3 = [x, y, z]"
    using assms by (auto simp: numeral_3_eq_3 length_Suc_conv)
  have Q: "sextet (rd24 0x41 0 0) 18 = CHR ''Q''" "sextet (rd24 0x41 0 0) 12 = CHR ''Q''"
    by (simp_all add: sextet_def rd24_def kAlphabet_def)
  have "\<not> (\<exists>c\<in>set ''QQ==QQ==''. b64_alpha c \<and> rev_lookup c = 0xFF)"
    using sextet_facts(1) [of "rd24 0x41 0 0" 18] Q(1) by (auto simp: b64_alpha_def)
  moreover have "length (filter b64_alpha ''QQ==QQ=='') = 4"
    by (simp add: b64_alpha_def b64_space_def)
  moreover have "b64_fill ''QQ==QQ=='' 0 0 0 [x, y, z] = [0x41, y, z]"
    using fill_sextet [of "rd24 0x41 0 0" 18 "''Q==QQ==''" 0 0 0 "[x, y, z]"]
      fill_sextet [of "rd24 0x41 0 0" 12 "''==QQ==''" "acc6 0 (six (rd24 0x41 0 0) 18)" 6 0 "[x, y, z]"]
    by (simp add: Q)
  ultimately show ?thesis
    by (simp add: b64_decode_def b64_count_eq b64_out_bytes_def f)
qed

theorem base64_inner_padding_leaks_witness:
  "b64_decode (\<lambda>n. replicate n 0xEE) ''QQ==QQ=='' = Inr [0x41, 0xEE, 0xEE]"
  using base64_inner_padding_leaks [of "\<lambda>n. replicate n 0xEE"] by (simp add: numeral_3_eq_3)

section \<open>Hexadecimal round trip\<close>

lemma hex_digit_facts:
  "list_all (\<lambda>n. hexNibble (hex_digit n) = int n \<and> \<not> isHexSkip (hex_digit n)) [0..<16]"
  by code_simp

lemma hex_digit_nibble [simp]:
  assumes "n < 16"
  shows "hexNibble (hex_digit n) = int n" "\<not> isHexSkip (hex_digit n)"
  using hex_digit_facts assms by (simp_all add: list_all_iff)

lemma hex_count_skip: "\<forall>c\<in>set s. isHexSkip c \<Longrightarrow> hex_count (s @ cs) k = hex_count cs k"
  by (induction s) auto

lemma hex_fill_skip: "\<forall>c\<in>set s. isHexSkip c \<Longrightarrow> hex_fill (s @ cs) hi k out = hex_fill cs hi k out"
  by (induction s) auto

lemma unat_byte_nibbles [simp]: "unat (b :: byte) div 16 < 16"
  using unat_byte_less [of b] by (simp add: less_mult_imp_div_less)

lemma hex_byte_join: "(word_of_int (push_bit 4 (int (unat b div 16)) OR int (unat b mod 16)) :: byte) = b"
proof -
  have low: "int (unat b mod 16) = take_bit 4 (int (unat b))"
    by (simp add: take_bit_eq_mod zmod_int)
  have "push_bit 4 (int (unat b div 16)) OR int (unat b mod 16)
      = push_bit 4 (int (unat b div 16)) + int (unat b mod 16)"
    unfolding low by (rule disjunctive_add [symmetric]) (auto simp: bit_push_bit_iff bit_take_bit_iff)
  also have "\<dots> = int (unat b div 16 * 16 + unat b mod 16)"
    by (simp only: push_bit_eq_mult of_nat_add of_nat_mult) simp
  also have "\<dots> = int (unat b)" by (simp only: div_mult_mod_eq)
  finally show ?thesis by simp
qed

lemma hex_count_byte [simp]: "hex_count (hex_byte b @ cs) k = hex_count cs (Suc (Suc k))"
  by (simp add: hex_byte_def)

lemma hex_fill_byte [simp]:
  "hex_fill (hex_byte b @ cs) (- 1) k out = hex_fill cs (- 1) (Suc k) (out[k := b])"
  by (simp add: hex_byte_def hex_byte_join)

lemma hex_count_toHex:
  "\<forall>c\<in>set sep. isHexSkip c \<Longrightarrow> hex_count (toHex sep bs) k = Some (k + 2 * length bs)"
  using hex_count_byte [of _ "[]"]
  by (induction sep bs arbitrary: k rule: toHex.induct) (simp_all add: hex_count_skip)

lemma hex_fill_toHex:
  assumes "\<forall>c\<in>set sep. isHexSkip c" "length pre = k" "length out = length bs"
  shows "hex_fill (toHex sep bs) (- 1) k (pre @ out) = pre @ bs"
  using assms
proof (induction sep bs arbitrary: pre k out rule: toHex.induct)
  case (1 sep)
  then show ?case by simp
next
  case (2 sep b)
  then obtain x where "out = [x]" by (auto simp: length_Suc_conv)
  then show ?case using "2.prems" hex_fill_byte [of b "[]"] by (simp add: list_update_append)
next
  case (3 sep b c bs)
  then obtain x out' where out: "out = x # out'" "length out' = Suc (length bs)"
    by (auto simp: length_Suc_conv)
  have "hex_fill (toHex sep (c # bs)) (- 1) (Suc k) ((pre @ [b]) @ out') = (pre @ [b]) @ c # bs"
    using "3.prems" out by (intro "3.IH") simp_all
  then show ?case using "3.prems" out by (simp add: hex_fill_skip list_update_append)
qed

lemma fromHex_toHex:
  assumes "\<And>n. length (fresh n) = n" "\<forall>c\<in>set sep. isHexSkip c"
  shows "fromHex fresh (toHex sep bs) = Inr bs"
  using hex_count_toHex [OF assms(2), of bs 0] hex_fill_toHex [OF assms(2), of "[]" 0 "fresh (length bs)" bs]
  by (simp add: fromHex_def assms(1))

interpretation hex: wire_codec "toHex '' ''" "fromHex (\<lambda>n. replicate n 0)" "\<lambda>_. True"
  by unfold_locales (rule fromHex_toHex, simp_all add: isHexSkip_def)

text \<open>Parsing the hexadecimal text of a buffer gives the bytes back, for every separator made of
  characters the parser skips and whatever the freshly allocated output buffer held.\<close>
theorem hex_roundtrip:
  assumes "\<And>n. length (fresh n) = n" "\<forall>c\<in>set sep. isHexSkip c"
  shows "fromHex fresh (toHex sep bs) = Inr bs"
  using assms by (rule fromHex_toHex)

theorem hex_roundtrip_witness: "fromHex (\<lambda>n. replicate n 3) (toHex ''-'' [1, 255]) = Inr [1, 255]"
  by (rule hex_roundtrip) (simp_all add: isHexSkip_def)

end
