(* ===== verification/St291.thy ===== *)
theory St291
  imports Prelude
begin

text \<open>
  \<open>src/proav/st291packet.cpp\<close> and the packet state of
  \<open>include/promeki/ancpacket.h\<close>: ST 291 ancillary packets, whose 10-bit words are packed
  most significant bit first into a byte buffer. Group by group: parity and the word encoding,
  the bit packer, the checksum, the wire builder with its refusals, the factories, the
  accessors that re-read the packed bytes, and the mutators. The format registry
  (\<open>AncFormat\<close>) is a component of its own: a format is a value of type \<open>'f\<close> with its
  DID and SDID, and the registry lookup is an argument. The metadata sidecar is left out.
\<close>

unbundle bit_operations_syntax

section \<open>State\<close>

datatype anc_transport = TInvalid | TSt291 | TNdiXml | TRtmpAmf | THdmiInfoFrame | TMpegTsPrivate | THlsSei

datatype anc_checksum_policy = PreserveOrRecompute | AlwaysRecompute | StrictValidate

record 'f anc_packet =
  format :: 'f
  transport :: anc_transport
  data :: "byte list"
  st291Line :: u16
  st291HOffset :: u16
  st291FieldB :: bool
  st291CBit :: bool
  st291StreamNum :: byte

text \<open>\<open>AncPacket(fmt, transport, data)\<close> and the default packet: the framing fields hold the
  RFC 8331 sentinels for "unspecified".\<close>

definition new_packet :: "'f \<Rightarrow> anc_transport \<Rightarrow> byte list \<Rightarrow> 'f anc_packet" where
  "new_packet fmt tr d =
     \<lparr>format = fmt, transport = tr, data = d, st291Line = 0x7FE, st291HOffset = 0xFFF,
      st291FieldB = False, st291CBit = False, st291StreamNum = 0\<rparr>"

definition setSt291Framing ::
    "u16 \<Rightarrow> u16 \<Rightarrow> bool \<Rightarrow> bool \<Rightarrow> byte \<Rightarrow> 'f anc_packet \<Rightarrow> 'f anc_packet" where
  "setSt291Framing line hOffset fieldB cBit streamNum pkt =
     pkt\<lparr>st291Line := line, st291HOffset := hOffset, st291FieldB := fieldB, st291CBit := cBit,
         st291StreamNum := streamNum\<rparr>"

section \<open>Words\<close>

definition parityBits :: "byte \<Rightarrow> u16" where
  "parityBits dataByte =
     (let p = fold (\<lambda>i p. p XOR (drop_bit i (ucast dataByte) AND 1)) [0..<8] (0 :: u16)
      in push_bit 8 p OR push_bit 9 (p XOR 1))"

definition makeWord :: "u16 \<Rightarrow> u16" where
  "makeWord w =
     (if w AND 0x300 \<noteq> 0 then w AND 0x3FF
      else (w AND 0xFF) OR parityBits (ucast (w AND 0xFF)))"

definition isValidPassThroughEncoding :: "u16 \<Rightarrow> bool" where
  "isValidPassThroughEncoding w = (let upper = drop_bit 8 w AND 3 in upper = 1 \<or> upper = 2)"

definition checksum291 :: "u16 list \<Rightarrow> u16" where
  "checksum291 words =
     (let s = fold (\<lambda>w s. (s + (w AND 0x1FF)) AND 0x1FF) words 0;
          b8 = drop_bit 8 s AND 1
      in s OR push_bit 9 (b8 XOR 1))"

section \<open>Bit packing\<close>

definition write_bit :: "bool \<Rightarrow> nat \<Rightarrow> byte list \<Rightarrow> byte list" where
  "write_bit b bitPos out =
     (let byteIdx = bitPos div 8; bitIdx = 7 - bitPos mod 8
      in if b then out[byteIdx := out ! byteIdx OR push_bit bitIdx 1]
         else out[byteIdx := out ! byteIdx AND NOT (push_bit bitIdx 1)])"

definition pack_word :: "u16 \<Rightarrow> byte list \<times> nat \<Rightarrow> byte list \<times> nat" where
  "pack_word w st =
     fold (\<lambda>b (out, bitPos). (write_bit (drop_bit (9 - b) (w AND 0x3FF) AND 1 \<noteq> 0) bitPos out, bitPos + 1))
       [0..<10] st"

definition pack10bit :: "u16 list \<Rightarrow> byte list \<Rightarrow> byte list \<times> nat" where
  "pack10bit words out =
     (case fold pack_word words (out, 0) of (out, bitPos) \<Rightarrow> (out, (bitPos + 7) div 8))"

definition read_bit :: "byte list \<Rightarrow> nat \<Rightarrow> u16" where
  "read_bit inp bitPos =
     (let byteIdx = bitPos div 8; bitIdx = 7 - bitPos mod 8
      in ucast (drop_bit bitIdx (inp ! byteIdx) AND 1))"

definition unpack_word :: "byte list \<Rightarrow> nat \<Rightarrow> u16" where
  "unpack_word inp bitPos = fold (\<lambda>b w. push_bit 1 w OR read_bit inp (bitPos + b)) [0..<10] 0"

definition unpack10bit :: "byte list \<Rightarrow> nat \<Rightarrow> u16 list option" where
  "unpack10bit inp wordCount =
     (if length inp * 8 < wordCount * 10 then None
      else Some (map (\<lambda>i. unpack_word inp (10 * i)) [0..<wordCount]))"

section \<open>Building\<close>

text \<open>\<open>buildWireBytes\<close>: an empty buffer reports a refusal.\<close>

definition udw_refused :: "u16 \<Rightarrow> bool" where
  "udw_refused w \<longleftrightarrow> \<not> (w AND 0x300 = 0) \<and> \<not> isValidPassThroughEncoding w"

definition wire_words :: "byte \<Rightarrow> byte \<Rightarrow> u16 list \<Rightarrow> u16 list" where
  "wire_words did sdid udw =
     (let words = [makeWord (ucast did), makeWord (ucast sdid), makeWord (of_nat (length udw) AND 0xFF)]
                    @ map makeWord udw
      in words @ [checksum291 words])"

definition buildWireBytes :: "byte \<Rightarrow> byte \<Rightarrow> u16 list \<Rightarrow> byte list" where
  "buildWireBytes did sdid udw =
     (if 255 < length udw then []
      else if list_ex udw_refused udw then []
      else let words = wire_words did sdid udw; byteCount = (length words * 10 + 7) div 8
           in fst (pack10bit words (replicate byteCount 0)))"

section \<open>Accessors\<close>

definition words_of :: "byte list \<Rightarrow> nat \<Rightarrow> u16 list" where
  "words_of bytes n = (case unpack10bit bytes n of None \<Rightarrow> replicate n 0 | Some ws \<Rightarrow> ws)"

definition did :: "'f anc_packet \<Rightarrow> byte" where
  "did pkt =
     (if length (data pkt) < 2 then 0 else ucast (words_of (data pkt) 1 ! 0 AND 0xFF))"

definition sdid :: "'f anc_packet \<Rightarrow> byte" where
  "sdid pkt =
     (if length (data pkt) < 3 then 0
      else let words = words_of (data pkt) 2; didByte = ucast (words ! 0 AND 0xFF) :: byte
           in if didByte AND 0x80 \<noteq> 0 then 0 else ucast (words ! 1 AND 0xFF))"

definition dbn :: "'f anc_packet \<Rightarrow> byte" where
  "dbn pkt =
     (if length (data pkt) < 3 then 0
      else let words = words_of (data pkt) 2; didByte = ucast (words ! 0 AND 0xFF) :: byte
           in if didByte AND 0x80 = 0 then 0 else ucast (words ! 1 AND 0xFF))"

definition dataCount :: "'f anc_packet \<Rightarrow> byte" where
  "dataCount pkt =
     (if length (data pkt) < 4 then 0 else ucast (words_of (data pkt) 3 ! 2 AND 0xFF))"

definition udwRaw :: "'f anc_packet \<Rightarrow> u16 list" where
  "udwRaw pkt =
     (if length (data pkt) < 4 then []
      else let dc = unat (dataCount pkt) in
           if dc = 0 then []
           else case unpack10bit (data pkt) (3 + dc) of
                  None \<Rightarrow> []
                | Some words \<Rightarrow> map (\<lambda>i. words ! (3 + i)) [0..<dc])"

definition udw :: "'f anc_packet \<Rightarrow> u16 list" where
  "udw pkt =
     (if length (data pkt) < 4 then []
      else let dc = unat (dataCount pkt) in
           if dc = 0 then []
           else case unpack10bit (data pkt) (3 + dc) of
                  None \<Rightarrow> []
                | Some words \<Rightarrow> map (\<lambda>i. words ! (3 + i) AND 0xFF) [0..<dc])"

definition checksum :: "'f anc_packet \<Rightarrow> u16" where
  "checksum pkt =
     (if data pkt = [] then 0
      else let totalWords = 4 + unat (dataCount pkt) in
           if length (data pkt) * 8 < totalWords * 10 then 0
           else case unpack10bit (data pkt) totalWords of
                  None \<Rightarrow> 0 | Some words \<Rightarrow> words ! (totalWords - 1) AND 0x3FF)"

definition computedChecksum :: "'f anc_packet \<Rightarrow> u16" where
  "computedChecksum pkt =
     (if data pkt = [] then 0
      else let coveredWords = 3 + unat (dataCount pkt) in
           case unpack10bit (data pkt) coveredWords of
             None \<Rightarrow> 0 | Some words \<Rightarrow> checksum291 words)"

definition checksumValid :: "'f anc_packet \<Rightarrow> bool" where
  "checksumValid pkt \<longleftrightarrow> checksum pkt = computedChecksum pkt"

definition st291_isValid :: "'f anc_packet \<Rightarrow> bool" where
  "st291_isValid pkt \<longleftrightarrow> transport pkt = TSt291 \<and> 5 \<le> length (data pkt)"

section \<open>Factories\<close>

definition st291_from :: "'f anc_packet \<Rightarrow> anc_checksum_policy \<Rightarrow> 'f anc_packet result" where
  "st291_from pkt policy =
     (if transport pkt \<noteq> TSt291 then Inl InvalidArgument
      else let bufSize = length (data pkt) in
      if bufSize < 5 then Inl InvalidArgument
      else case unpack10bit (data pkt) 3 of
        None \<Rightarrow> Inl InvalidArgument
      | Some header \<Rightarrow>
          let dc = ucast (header ! 2 AND 0xFF) :: byte;
              totalWords = 4 + unat dc;
              requiredBytes = (totalWords * 10 + 7) div 8
          in if bufSize < requiredBytes then Inl InvalidArgument
             else if policy = StrictValidate \<and> \<not> checksumValid pkt then Inl InvalidChecksum
             else Inr pkt)"

text \<open>
  \<open>build\<close> keeps the caller's format; \<open>buildRaw\<close> looks it up. \<open>noFormat\<close> is the
  format of a default-constructed packet.
\<close>

definition invalid_packet :: "'f \<Rightarrow> 'f anc_packet" where
  "invalid_packet noFormat = new_packet noFormat TInvalid []"


definition type2DidReserved :: "byte \<Rightarrow> bool" where
  "type2DidReserved d \<longleftrightarrow>
     d = 0 \<or> (1 \<le> d \<and> d \<le> 3) \<or>
     (4 \<le> d \<and> d \<le> 0x0F \<and> d \<noteq> 0x04 \<and> d \<noteq> 0x08 \<and> d \<noteq> 0x0C)"

definition type1DidReserved :: "byte \<Rightarrow> bool" where
  "type1DidReserved d \<longleftrightarrow> 0x81 \<le> d \<and> d \<le> 0x9F"

definition st291_buildRaw ::
    "'f \<Rightarrow> (byte \<Rightarrow> byte \<Rightarrow> u16 list \<Rightarrow> 'f) \<Rightarrow> byte \<Rightarrow> byte \<Rightarrow> u16 list \<Rightarrow> u16 \<Rightarrow> u16 \<Rightarrow> bool \<Rightarrow> bool
       \<Rightarrow> byte \<Rightarrow> 'f anc_packet" where
  "st291_buildRaw noFormat fromSt291DidSdid d s udws line hOffset fieldB cBit streamNum =
     (if (d AND 0x80 \<noteq> 0 \<and> type1DidReserved d) \<or> (d AND 0x80 = 0 \<and> (type2DidReserved d \<or> s = 0))
      then invalid_packet noFormat
      else setSt291Framing line hOffset fieldB cBit streamNum
             (new_packet (fromSt291DidSdid d s udws) TSt291 (buildWireBytes d s udws)))"

definition st291_buildRawType1 ::
    "'f \<Rightarrow> (byte \<Rightarrow> byte \<Rightarrow> u16 list \<Rightarrow> 'f) \<Rightarrow> byte \<Rightarrow> byte \<Rightarrow> u16 list \<Rightarrow> u16 \<Rightarrow> u16 \<Rightarrow> bool \<Rightarrow> bool
       \<Rightarrow> byte \<Rightarrow> 'f anc_packet" where
  "st291_buildRawType1 noFormat lookup d n udws line hOffset fieldB cBit streamNum =
     (if d AND 0x80 = 0 then invalid_packet noFormat
      else st291_buildRaw noFormat lookup d n udws line hOffset fieldB cBit streamNum)"

section \<open>Mutators\<close>

definition setUdw :: "u16 list \<Rightarrow> 'f anc_packet \<Rightarrow> 'f anc_packet" where
  "setUdw udws pkt =
     (let curDid = did pkt; curSecond = (if curDid AND 0x80 \<noteq> 0 then dbn pkt else sdid pkt)
      in pkt\<lparr>data := buildWireBytes curDid curSecond udws\<rparr>)"

section \<open>The packer as a bit string\<close>

text \<open>The bit of a byte buffer at a bit position, counted from the top of byte 0.\<close>

definition abit :: "byte list \<Rightarrow> nat \<Rightarrow> bool" where
  "abit bs p = bit (bs ! (p div 8)) (7 - p mod 8)"

definition bits10 :: "u16 \<Rightarrow> bool list" where
  "bits10 w = map (\<lambda>b. bit w (9 - b)) [0..<10]"

fun write_bits :: "bool list \<Rightarrow> nat \<Rightarrow> byte list \<Rightarrow> byte list" where
  "write_bits [] p out = out"
| "write_bits (b # bs) p out = write_bits bs (Suc p) (write_bit b p out)"

lemma length_write_bit [simp]: "length (write_bit b p out) = length out"
  by (simp add: write_bit_def Let_def)

lemma length_write_bits [simp]: "length (write_bits bs p out) = length out"
  by (induction bs p out rule: write_bits.induct) simp_all

lemma write_bits_append: "write_bits (xs @ ys) p out = write_bits ys (p + length xs) (write_bits xs p out)"
  by (induction xs p out rule: write_bits.induct) simp_all

lemma bit_pos_eq_iff:
  "p div 8 = q div 8 \<and> 7 - p mod 8 = 7 - q mod 8 \<longleftrightarrow> p = q" for p q :: nat
proof
  assume "p div 8 = q div 8 \<and> 7 - p mod 8 = 7 - q mod 8"
  moreover have "p mod 8 \<le> 7" "q mod 8 \<le> 7" by simp_all
  ultimately have "p div 8 = q div 8" "p mod 8 = q mod 8" by linarith+
  then show "p = q" by (metis div_mult_mod_eq)
qed simp

lemma abit_write_bit:
  assumes "p div 8 < length out"
  shows "abit (write_bit b p out) q = (if q = p then b else abit out q)"
proof -
  have lt: "7 - q mod 8 < 8" by simp
  have *: "bit (push_bit k 1 :: byte) n \<longleftrightarrow> n = k \<and> k < 8" for k n
    by (auto simp: bit_push_bit_iff push_bit_eq_mult bit_exp_iff)
  show ?thesis
    using assms bit_pos_eq_iff [of p q] lt
    by (cases "q div 8 = p div 8")
      (auto simp: write_bit_def abit_def Let_def bit_or_iff bit_and_iff bit_not_iff * simp del: push_bit_of_1)
qed

lemma abit_write_bits:
  assumes "p + length bs \<le> 8 * length out"
  shows "abit (write_bits bs p out) q = (if p \<le> q \<and> q < p + length bs then bs ! (q - p) else abit out q)"
  using assms
proof (induction bs arbitrary: p out)
  case Nil
  then show ?case by auto
next
  case (Cons b bs)
  then have "p div 8 < length out" by simp
  then have step: "abit (write_bit b p out) q = (if q = p then b else abit out q)"
    by (rule abit_write_bit)
  have "abit (write_bits bs (Suc p) (write_bit b p out)) q =
      (if Suc p \<le> q \<and> q < Suc p + length bs then bs ! (q - Suc p) else abit (write_bit b p out) q)"
    using Cons.prems by (intro Cons.IH) simp
  then show ?case using step by (auto simp: nth_Cons' Suc_le_eq)
qed

lemma drop_bit_odd: "(drop_bit n w AND 1 \<noteq> 0) = bit w n" for w :: "'a::len word"
  by (simp add: byte_bits bit_drop_bit_eq)

lemma pack_word_bits: "pack_word w (out, p) = (write_bits (bits10 w) p out, p + 10)"
proof -
  have mask: "0x3FF = (mask 10 :: u16)" by (simp add: mask_eq_exp_minus_1)
  have b: "(drop_bit (9 - b) (w AND 0x3FF) AND 1 \<noteq> 0) = bit w (9 - b)" for b
    unfolding drop_bit_odd mask by (auto simp: bit_and_iff bit_mask_iff)
  show ?thesis
    unfolding pack_word_def b bits10_def by (simp add: upt_rec numeral_eq_Suc)
qed

lemma fold_pack_word:
  "fold pack_word ws (out, p) = (write_bits (concat (map bits10 ws)) p out, p + 10 * length ws)"
  by (induction ws arbitrary: out p) (simp_all add: pack_word_bits write_bits_append bits10_def)

lemma length_bits10 [simp]: "length (bits10 w) = 10"
  by (simp add: bits10_def)

lemma bit_read_bit: "bit (read_bit inp p) n \<longleftrightarrow> n = 0 \<and> abit inp p"
  by (auto simp: read_bit_def abit_def Let_def bit_simps bit_1_iff)

definition shift_in :: "byte list \<Rightarrow> nat \<Rightarrow> nat \<Rightarrow> u16 \<Rightarrow> u16" where
  "shift_in inp p b w = push_bit 1 w OR read_bit inp (p + b)"

lemma bit_shift_in:
  "bit (shift_in inp p b w) k \<longleftrightarrow> (0 < k \<and> k < 16 \<and> bit w (k - 1)) \<or> (k = 0 \<and> abit inp (p + b))"
  unfolding shift_in_def bit_or_iff bit_push_bit_iff bit_read_bit by (auto simp: Suc_le_eq)

lemma bit_unpack_loop:
  "m \<le> 16 \<Longrightarrow> bit (fold (shift_in inp p) [0..<m] 0) k \<longleftrightarrow> k < m \<and> abit inp (p + (m - 1 - k))"
proof (induction m arbitrary: k)
  case 0
  then show ?case by simp
next
  case (Suc m)
  let ?f = "fold (shift_in inp p) [0..<m] 0"
  have "fold (shift_in inp p) [0..<Suc m] 0 = shift_in inp p m ?f" by simp
  then have "bit (fold (shift_in inp p) [0..<Suc m] 0) k \<longleftrightarrow>
      (0 < k \<and> k < 16 \<and> bit ?f (k - 1)) \<or> (k = 0 \<and> abit inp (p + m))"
    by (simp only: bit_shift_in)
  also have "bit ?f (k - 1) \<longleftrightarrow> k - 1 < m \<and> abit inp (p + (m - 1 - (k - 1)))"
    using Suc by simp
  also have "(0 < k \<and> k < 16 \<and> k - 1 < m \<and> abit inp (p + (m - 1 - (k - 1)))) \<or> (k = 0 \<and> abit inp (p + m))
      \<longleftrightarrow> k < Suc m \<and> abit inp (p + (Suc m - 1 - k))"
    using Suc.prems by (cases k) auto
  finally show ?case .
qed

lemma bit_unpack_word: "bit (unpack_word inp p) k \<longleftrightarrow> k < 10 \<and> abit inp (p + (9 - k))"
proof -
  have "unpack_word inp p = fold (shift_in inp p) [0..<10] 0"
    by (simp only: unpack_word_def shift_in_def [abs_def])
  then show ?thesis by (simp only: bit_unpack_loop) simp
qed

text \<open>Unpacking reads back the low ten bits of every packed word.\<close>

lemma bit_pack10bit:
  assumes "10 * length ws \<le> 8 * length out" "i < length ws" "j < 10"
  shows "abit (fst (pack10bit ws out)) (10 * i + j) = bit (ws ! i) (9 - j)"
proof -
  let ?bs = "concat (map bits10 ws)"
  have len: "length ?bs = 10 * length ws" by (rule length_concat_uniform) simp
  have "10 * i + j < 10 * length ws" using assms(2,3) by linarith
  then have "abit (write_bits ?bs 0 out) (10 * i + j) = ?bs ! (10 * i + j)"
    using assms(1) len by (simp add: abit_write_bits)
  also have "\<dots> = bits10 (ws ! i) ! j"
    using assms(2,3) by (intro nth_concat_uniform) simp_all
  finally show ?thesis
    using assms(3) by (simp add: pack10bit_def fold_pack_word bits10_def)
qed

lemma length_pack10bit [simp]: "length (fst (pack10bit ws out)) = length out"
  by (simp add: pack10bit_def fold_pack_word)

lemma unpack_pack_word:
  assumes "10 * length ws \<le> 8 * length out" "i < length ws"
  shows "unpack_word (fst (pack10bit ws out)) (10 * i) = ws ! i AND 0x3FF"
proof (rule bit_word_eqI)
  fix k
  have mask: "0x3FF = (mask 10 :: u16)" by (simp add: mask_eq_exp_minus_1)
  have "bit (unpack_word (fst (pack10bit ws out)) (10 * i)) k \<longleftrightarrow> k < 10 \<and> bit (ws ! i) (9 - (9 - k))"
    using bit_pack10bit [OF assms, of "9 - k"] by (auto simp: bit_unpack_word)
  also have "\<dots> \<longleftrightarrow> bit (ws ! i AND 0x3FF) k"
    unfolding mask by (auto simp: bit_and_iff bit_mask_iff)
  finally show "bit (unpack_word (fst (pack10bit ws out)) (10 * i)) k \<longleftrightarrow> bit (ws ! i AND 0x3FF) k" .
qed

lemma unpack_pack:
  assumes "10 * length ws \<le> 8 * length out" "n \<le> length ws"
  shows "unpack10bit (fst (pack10bit ws out)) n = Some (map (\<lambda>w. w AND 0x3FF) (take n ws))"
  using assms
  by (auto simp: unpack10bit_def unpack_pack_word intro!: nth_equalityI)

section \<open>Encoded words\<close>

lemma mask8: "0xFF = (mask 8 :: u16)" by (simp add: mask_eq_exp_minus_1)
lemma mask9: "0x1FF = (mask 9 :: u16)" by (simp add: mask_eq_exp_minus_1)
lemma mask10: "0x3FF = (mask 10 :: u16)" by (simp add: mask_eq_exp_minus_1)

lemma mask300: "0x300 = (push_bit 8 (mask 2) :: u16)" by (simp add: mask_eq_exp_minus_1)

lemma bit_and_300: "bit (w AND 0x300) n \<longleftrightarrow> bit w n \<and> (n = 8 \<or> n = 9)" for w :: u16
  unfolding mask300 by (auto simp: bit_simps)

lemma and_300_eq_0: "w AND 0x300 = 0 \<longleftrightarrow> \<not> bit w 8 \<and> \<not> bit w 9" for w :: u16
proof
  assume "w AND 0x300 = 0"
  then have "\<not> bit (w AND 0x300) n" for n by simp
  then show "\<not> bit w 8 \<and> \<not> bit w 9" unfolding bit_and_300 by blast
next
  assume "\<not> bit w 8 \<and> \<not> bit w 9"
  then have "\<not> bit (w AND 0x300) n" for n unfolding bit_and_300 by auto
  then show "w AND 0x300 = 0" by (intro bit_word_eqI) simp
qed

lemma parity_fold_bool:
  "\<exists>b. fold (\<lambda>i p. p XOR (drop_bit i x AND 1)) is (of_bool a :: u16) = of_bool b"
proof (induction "is" arbitrary: a)
  case Nil
  then show ?case by (metis fold_simps(1))
next
  case (Cons i "is")
  have "of_bool a XOR (drop_bit i x AND 1) = (of_bool (a \<noteq> bit x i) :: u16)"
    by (rule bit_word_eqI) (auto simp: bit_simps bit_1_iff)
  then show ?case using Cons.IH [of "a \<noteq> bit x i"] by simp
qed

lemma bit_place: "bit (push_bit k (of_bool c) :: u16) n \<longleftrightarrow> c \<and> n = k \<and> n < 16"
  by (auto simp: bit_push_bit_iff bit_of_bool_iff simp del: push_bit_of_1)

lemma bit_parityBits:
  "bit (parityBits b) n \<longleftrightarrow> (n = 8 \<and> bit (parityBits b) 8) \<or> (n = 9 \<and> \<not> bit (parityBits b) 8)"
proof -
  obtain c where c: "fold (\<lambda>i p. p XOR (drop_bit i (ucast b) AND 1)) [0..<8] (0 :: u16) = of_bool c"
    using parity_fold_bool [of "ucast b" "[0..<8]" False] by auto
  have "of_bool c XOR 1 = (of_bool (\<not> c) :: u16)" by simp
  then have "parityBits b = push_bit 8 (of_bool c) OR push_bit 9 (of_bool (\<not> c))"
    by (simp only: parityBits_def Let_def c)
  then have "bit (parityBits b) k \<longleftrightarrow> (k = 8 \<and> c) \<or> (k = 9 \<and> \<not> c)" for k
    unfolding bit_or_iff bit_place by (auto simp only: bit_or_iff bit_place)
  then show ?thesis by simp
qed

lemma bit_makeWord:
  "bit (makeWord w) n \<longleftrightarrow>
     (if n < 8 then bit w n
      else if bit w 8 \<or> bit w 9 then n < 10 \<and> bit w n
      else bit (parityBits (ucast w)) n)"
proof -
  have "(ucast (w AND mask 8) :: byte) = ucast w" by (rule bit_word_eqI) (auto simp: bit_simps)
  then have "makeWord w = (if bit w 8 \<or> bit w 9 then w AND mask 10
      else (w AND mask 8) OR parityBits (ucast w))"
    unfolding makeWord_def and_300_eq_0 mask8 mask10 by (simp only: de_Morgan_conj not_not)
  moreover have "\<not> bit (parityBits (ucast w)) n" if "n < 8"
    using that bit_parityBits [of "ucast w" n] by auto
  moreover have "bit (w AND mask 10) n \<longleftrightarrow> n < 10 \<and> bit w n" "bit (w AND mask 8) n \<longleftrightarrow> n < 8 \<and> bit w n"
    by (auto simp: bit_and_iff bit_mask_iff)
  ultimately show ?thesis by (simp add: bit_or_iff)
qed

lemma bit_parityBitsD: "bit (parityBits b) n \<Longrightarrow> n = 8 \<or> n = 9"
  using bit_parityBits [of b n] by blast

lemma makeWord_10bit [simp]: "makeWord w AND 0x3FF = makeWord w"
proof (rule bit_word_eqI)
  fix n
  have "n < 10" if "bit (makeWord w) n"
    using that bit_parityBitsD [of "ucast w" n] by (auto simp: bit_makeWord split: if_splits)
  then show "bit (makeWord w AND 0x3FF) n \<longleftrightarrow> bit (makeWord w) n"
    unfolding mask10 by (auto simp: bit_and_iff bit_mask_iff)
qed

lemma makeWord_low16: "makeWord w AND 0xFF = w AND 0xFF"
proof (rule bit_word_eqI)
  fix n
  show "bit (makeWord w AND 0xFF) n \<longleftrightarrow> bit (w AND 0xFF) n"
    unfolding mask8 bit_and_iff bit_mask_iff by (cases "n < 8") (simp_all add: bit_makeWord)
qed

lemma makeWord_low [simp]: "(ucast (makeWord w AND 0xFF) :: byte) = ucast w"
  unfolding makeWord_low16 unfolding mask8 by (rule bit_word_eqI) (auto simp: bit_simps)

lemma upper_cases: "drop_bit 8 w AND 3 = (of_bool (bit w 8) OR push_bit 1 (of_bool (bit w 9)) :: u16)"
proof -
  have "(3 :: u16) = mask 2" by (simp add: mask_eq_exp_minus_1)
  then have "drop_bit 8 w AND 3 = (drop_bit 8 w AND mask 2 :: u16)" by simp
  also have "\<dots> = of_bool (bit w 8) OR push_bit 1 (of_bool (bit w 9))"
  proof (rule bit_word_eqI)
    fix n
    show "bit (drop_bit 8 w AND mask 2) n \<longleftrightarrow> bit (of_bool (bit w 8) OR push_bit 1 (of_bool (bit w 9)) :: u16) n"
      unfolding bit_or_iff bit_place bit_and_iff bit_mask_iff bit_drop_bit_eq bit_of_bool_iff
      by (auto simp: less_2_cases_iff)
  qed
  finally show ?thesis .
qed

lemma udw_refused_iff: "udw_refused w \<longleftrightarrow> bit w 8 \<and> bit w 9"
  by (auto simp: udw_refused_def isValidPassThroughEncoding_def Let_def and_300_eq_0 upper_cases)

lemma makeWord_parity: "\<not> udw_refused w \<Longrightarrow> bit (makeWord w) 9 \<longleftrightarrow> \<not> bit (makeWord w) 8"
  using bit_parityBits [of "ucast w" 9] by (auto simp: udw_refused_iff bit_makeWord)

section \<open>Packed packets\<close>

definition wire :: "u16 list \<Rightarrow> byte list" where
  "wire ws = fst (pack10bit ws (replicate ((length ws * 10 + 7) div 8) 0))"

lemma length_wire: "length (wire ws) = (length ws * 10 + 7) div 8"
  by (simp add: wire_def)

lemma unpack_wire: "n \<le> length ws \<Longrightarrow> unpack10bit (wire ws) n = Some (map (\<lambda>w. w AND 0x3FF) (take n ws))"
  unfolding wire_def by (rule unpack_pack) simp_all

lemma mask_low_of_10 [simp]:
  "(w AND 0x3FF) AND 0xFF = w AND 0xFF" "(w AND 0x3FF) AND 0x1FF = w AND 0x1FF"
  "(w AND 0x3FF) AND 0x3FF = w AND 0x3FF" for w :: u16
  by (simp_all add: and.assoc)

lemma checksum291_mask: "checksum291 (map (\<lambda>w. w AND 0x3FF) ws) = checksum291 ws"
  by (simp add: checksum291_def fold_map comp_def)

text \<open>A packet whose words are \<open>ws\<close>, with a data count word that counts them.\<close>

definition carries :: "'f anc_packet \<Rightarrow> u16 list \<Rightarrow> nat \<Rightarrow> bool" where
  "carries pkt ws n \<longleftrightarrow>
     transport pkt = TSt291 \<and> data pkt = wire ws \<and> length ws = 4 + n \<and> unat (ucast (ws ! 2 AND 0xFF) :: byte) = n"

lemma carries_reads:
  assumes "carries pkt ws n"
  shows "did pkt = ucast (ws ! 0 AND 0xFF)"
    and "dataCount pkt = ucast (ws ! 2 AND 0xFF)"
    and "udwRaw pkt = map (\<lambda>w. w AND 0x3FF) (take n (drop 3 ws))"
    and "udw pkt = map (\<lambda>w. w AND 0xFF) (take n (drop 3 ws))"
    and "checksum pkt = ws ! (3 + n) AND 0x3FF"
    and "computedChecksum pkt = checksum291 (take (3 + n) ws)"
    and "st291_isValid pkt"
proof -
  have len: "length ws = 4 + n" and d: "data pkt = wire ws"
    and dc: "unat (ucast (ws ! 2 AND 0xFF) :: byte) = n" using assms by (auto simp: carries_def)
  have l5: "5 \<le> length (wire ws)" using len by (simp add: length_wire)
  then have ne: "wire ws \<noteq> []" by auto
  show "did pkt = ucast (ws ! 0 AND 0xFF)"
    using l5 len by (simp add: did_def d words_of_def unpack_wire)
  show dcw: "dataCount pkt = ucast (ws ! 2 AND 0xFF)"
    using l5 len by (simp add: dataCount_def d words_of_def unpack_wire)
  show "udwRaw pkt = map (\<lambda>w. w AND 0x3FF) (take n (drop 3 ws))"
    using l5 len by (auto simp: udwRaw_def d dcw dc Let_def unpack_wire intro!: nth_equalityI)
  show "udw pkt = map (\<lambda>w. w AND 0xFF) (take n (drop 3 ws))"
    using l5 len by (auto simp: udw_def d dcw dc Let_def unpack_wire intro!: nth_equalityI)
  show "checksum pkt = ws ! (3 + n) AND 0x3FF"
    using ne len by (auto simp: checksum_def d dcw dc Let_def unpack_wire length_wire)
  show "computedChecksum pkt = checksum291 (take (3 + n) ws)"
    using ne len by (auto simp: computedChecksum_def d dcw dc Let_def unpack_wire checksum291_mask)
  show "st291_isValid pkt"
    using assms l5 by (simp add: st291_isValid_def carries_def)
qed

lemma carries_second:
  assumes "carries pkt ws n"
  shows "(if did pkt AND 0x80 \<noteq> 0 then dbn pkt else sdid pkt) = ucast (ws ! 1 AND 0xFF)"
    and "did pkt AND 0x80 \<noteq> 0 \<Longrightarrow> sdid pkt = 0" and "did pkt AND 0x80 = 0 \<Longrightarrow> dbn pkt = 0"
proof -
  have len: "length ws = 4 + n" and d: "data pkt = wire ws" using assms by (auto simp: carries_def)
  have l5: "5 \<le> length (wire ws)" using len by (simp add: length_wire)
  show "(if did pkt AND 0x80 \<noteq> 0 then dbn pkt else sdid pkt) = ucast (ws ! 1 AND 0xFF)"
    using l5 len by (simp add: carries_reads(1) [OF assms] dbn_def sdid_def d words_of_def unpack_wire Let_def)
  show "did pkt AND 0x80 \<noteq> 0 \<Longrightarrow> sdid pkt = 0" "did pkt AND 0x80 = 0 \<Longrightarrow> dbn pkt = 0"
    using l5 len by (simp_all add: carries_reads(1) [OF assms] dbn_def sdid_def d words_of_def unpack_wire Let_def)
qed

lemma st291_from_carries:
  assumes "carries pkt ws n"
  shows "st291_from pkt policy =
     (if policy = StrictValidate \<and> ws ! (3 + n) AND 0x3FF \<noteq> checksum291 (take (3 + n) ws)
      then Inl InvalidChecksum else Inr pkt)"
proof -
  have len: "length ws = 4 + n" and d: "data pkt = wire ws" and t: "transport pkt = TSt291"
    and dc: "unat (ucast (ws ! 2 AND 0xFF) :: byte) = n" using assms by (auto simp: carries_def)
  have l5: "\<not> length (wire ws) < 5" using len by (simp add: length_wire)
  have un: "unpack10bit (wire ws) 3 = Some (map (\<lambda>w. w AND 0x3FF) (take 3 ws))"
    using len by (intro unpack_wire) simp
  have hd: "map (\<lambda>w. w AND 0x3FF) (take 3 ws) ! 2 AND 0xFF = ws ! 2 AND 0xFF"
    using len by simp
  have req: "\<not> length (wire ws) < ((4 + n) * 10 + 7) div 8"
    using len by (simp add: length_wire)
  show ?thesis
    unfolding st291_from_def checksumValid_def carries_reads(5,6) [OF assms] d un
    using t l5 req by (simp add: Let_def hd dc)
qed

text \<open>The words of a built packet.\<close>

lemma length_wire_words [simp]: "length (wire_words d s us) = 4 + length us"
  by (simp add: wire_words_def Let_def)

lemma count_word:
  assumes "n \<le> 255"
  shows "unat (ucast (makeWord (of_nat n AND 0xFF) AND 0xFF) :: byte) = n"
proof -
  have "(of_nat n AND 0xFF :: u16) = of_nat n"
    unfolding mask8 using assms
    by (simp flip: take_bit_eq_mask add: take_bit_of_nat take_bit_nat_eq_self)
  moreover have "unat (ucast (of_nat n :: u16) :: byte) = n"
    using assms by (simp add: unsigned_ucast_eq unsigned_of_nat take_bit_nat_eq_self)
  ultimately show ?thesis by simp
qed

lemma buildWireBytes_ok:
  "length us \<le> 255 \<Longrightarrow> \<not> list_ex udw_refused us \<Longrightarrow> buildWireBytes d s us = wire (wire_words d s us)"
  by (simp add: buildWireBytes_def wire_def Let_def)

lemma carries_built:
  assumes "length us \<le> 255" "\<not> list_ex udw_refused us" "transport pkt = TSt291"
    "data pkt = buildWireBytes d s us"
  shows "carries pkt (wire_words d s us) (length us)"
  using assms count_word [OF assms(1)]
  by (simp add: carries_def buildWireBytes_ok wire_words_def Let_def)

section \<open>The checksum\<close>

definition ck_step :: "u16 \<Rightarrow> u16 \<Rightarrow> u16" where
  "ck_step w s = (s + (w AND 0x1FF)) AND 0x1FF"

definition ck_sum :: "u16 list \<Rightarrow> u16" where
  "ck_sum ws = fold ck_step ws 0"

lemma checksum291_ck_sum: "checksum291 ws = ck_sum ws OR push_bit 9 (drop_bit 8 (ck_sum ws) AND 1 XOR 1)"
  by (simp add: checksum291_def ck_sum_def ck_step_def [abs_def] Let_def)

lemma ck_step_take_bit: "ck_step w s = take_bit 9 (s + take_bit 9 w)"
  by (simp only: ck_step_def mask9 flip: take_bit_eq_mask)

lemma fold_ck_9bit: "take_bit 9 s = s \<Longrightarrow> take_bit 9 (fold ck_step ws s) = fold ck_step ws s"
  by (induction ws arbitrary: s) (simp_all add: ck_step_take_bit)

lemma ck_sum_9bit: "take_bit 9 (ck_sum ws) = ck_sum ws"
  by (simp add: ck_sum_def fold_ck_9bit)

lemma bit_checksum291:
  "bit (checksum291 ws) n \<longleftrightarrow> bit (ck_sum ws) n \<or> (n = 9 \<and> \<not> bit (ck_sum ws) 8)"
proof -
  have "drop_bit 8 (ck_sum ws) AND 1 XOR 1 = (of_bool (\<not> bit (ck_sum ws) 8) :: u16)"
    by (rule bit_word_eqI) (auto simp: bit_simps bit_1_iff)
  then have "checksum291 ws = ck_sum ws OR push_bit 9 (of_bool (\<not> bit (ck_sum ws) 8))"
    by (simp only: checksum291_ck_sum)
  then show ?thesis by (auto simp only: bit_or_iff bit_place)
qed

lemma ck_sum_high: "9 \<le> n \<Longrightarrow> \<not> bit (ck_sum ws) n"
  by (metis bit_take_bit_iff ck_sum_9bit not_less)

lemma checksum_10bit [simp]: "checksum291 ws AND 0x3FF = checksum291 ws"
proof (rule bit_word_eqI)
  fix n
  have "n < 10" if "bit (checksum291 ws) n"
    using that ck_sum_high [of n ws] by (cases "9 \<le> n") (auto simp: bit_checksum291)
  then show "bit (checksum291 ws AND 0x3FF) n \<longleftrightarrow> bit (checksum291 ws) n"
    unfolding mask10 by (auto simp: bit_and_iff bit_mask_iff)
qed

lemma checksum291_eq_iff: "checksum291 ws = checksum291 vs \<longleftrightarrow> ck_sum ws = ck_sum vs"
proof
  assume eq: "checksum291 ws = checksum291 vs"
  show "ck_sum ws = ck_sum vs"
  proof (rule bit_word_eqI)
    fix n
    have "bit (checksum291 ws) n = bit (checksum291 vs) n" by (simp only: eq)
    then show "bit (ck_sum ws) n = bit (ck_sum vs) n"
      using ck_sum_high [of n ws] ck_sum_high [of n vs] by (cases "n < 9") (auto simp: bit_checksum291)
  qed
qed (simp add: checksum291_ck_sum)

lemma checksum_parity: "bit (checksum291 ws) 9 \<longleftrightarrow> \<not> bit (checksum291 ws) 8"
  using ck_sum_high [of 9 ws] by (simp add: bit_checksum291)

lemma uint_take_bit_add: "uint (take_bit 9 (a + c)) = (uint a + uint c) mod 512" for a c :: u16
proof -
  have "uint (take_bit 9 (a + c)) = ((uint a + uint c) mod 65536) mod 512"
    unfolding unsigned_take_bit_eq by (simp add: uint_word_ariths take_bit_eq_mod)
  also have "\<dots> = (uint a + uint c) mod 512" by (rule mod_mod_cancel) simp
  finally show ?thesis .
qed

lemma take_bit_add_cancel:
  fixes a b c :: u16
  assumes "take_bit 9 (a + c) = take_bit 9 (b + c)"
  shows "take_bit 9 a = take_bit 9 b"
proof -
  have "(uint a + uint c) mod 512 = (uint b + uint c) mod 512"
    using assms by (simp only: flip: uint_take_bit_add)
  then have "uint a mod 512 = uint b mod 512"
    by (metis add_diff_cancel_right' mod_diff_left_eq)
  then have "uint (take_bit 9 a) = uint (take_bit 9 b)"
    unfolding unsigned_take_bit_eq by (simp add: take_bit_eq_mod)
  then show ?thesis by (simp only: unsigned_word_eqI)
qed

lemma ck_step_9bit: "take_bit 9 (ck_step w s) = ck_step w s"
  by (simp add: ck_step_take_bit)

lemma fold_ck_inj:
  "take_bit 9 s = s \<Longrightarrow> take_bit 9 s' = s' \<Longrightarrow> fold ck_step ws s = fold ck_step ws s' \<Longrightarrow> s = s'"
proof (induction ws arbitrary: s s')
  case Nil
  then show ?case by (simp only: fold_simps)
next
  case (Cons w ws)
  have "ck_step w s = ck_step w s'"
    by (rule Cons.IH [OF ck_step_9bit ck_step_9bit]) (use Cons.prems(3) in \<open>simp only: fold_simps\<close>)
  then have "take_bit 9 s = take_bit 9 s'"
    unfolding ck_step_take_bit by (rule take_bit_add_cancel)
  then show ?case by (simp only: Cons.prems(1,2))
qed

lemma ck_sum_update:
  assumes "i < length ws" "v AND 0x1FF \<noteq> ws ! i AND 0x1FF"
  shows "ck_sum (ws[i := v]) \<noteq> ck_sum ws"
proof
  assume eq: "ck_sum (ws[i := v]) = ck_sum ws"
  define s where "s = fold ck_step (take i ws) 0"
  have upd: "ws[i := v] = take i ws @ v # drop (Suc i) ws" using assms(1) by (rule upd_conv_take_nth_drop)
  have id: "ws = take i ws @ ws ! i # drop (Suc i) ws" using assms(1) by (rule id_take_nth_drop)
  have a: "ck_sum (ws[i := v]) = fold ck_step (drop (Suc i) ws) (ck_step v s)"
    unfolding upd by (simp add: ck_sum_def s_def)
  have b: "ck_sum ws = fold ck_step (drop (Suc i) ws) (ck_step (ws ! i) s)"
    by (subst (1) id) (simp add: ck_sum_def s_def)
  have "ck_step v s = ck_step (ws ! i) s"
    using eq unfolding a b by (rule fold_ck_inj [OF ck_step_9bit ck_step_9bit])
  then have "take_bit 9 (take_bit 9 v) = take_bit 9 (take_bit 9 (ws ! i))"
    unfolding ck_step_take_bit by (metis add.commute take_bit_add_cancel)
  then show False using assms(2) by (simp add: mask9 flip: take_bit_eq_mask)
qed

section \<open>Properties\<close>

lemma ucast_byte_roundtrip [simp]: "(ucast (ucast (b :: byte) :: u16) :: byte) = b"
  by (rule bit_word_eqI) (auto simp: bit_ucast_iff)

lemma wire_words_nth:
  "wire_words d s us ! 0 = makeWord (ucast d)"
  "wire_words d s us ! 1 = makeWord (ucast s)"
  "wire_words d s us ! 2 = makeWord (of_nat (length us) AND 0xFF)"
  "wire_words d s us ! (3 + length us) = checksum291 (take (3 + length us) (wire_words d s us))"
  "take (length us) (drop 3 (wire_words d s us)) = map makeWord us"
  by (simp_all add: wire_words_def Let_def nth_append numeral_3_eq_3)

lemma st291_built:
  assumes "length us \<le> 255" "\<not> list_ex udw_refused us" "transport pkt = TSt291"
    "data pkt = buildWireBytes d s us"
  shows "st291_from pkt policy = Inr pkt" "did pkt = d"
    "(if did pkt AND 0x80 \<noteq> 0 then dbn pkt else sdid pkt) = s"
    "dataCount pkt = of_nat (length us)" "udwRaw pkt = map makeWord us" "udw pkt = map (\<lambda>w. w AND 0xFF) us"
    "checksumValid pkt" "st291_isValid pkt"
proof -
  note c = carries_built [OF assms]
  show "st291_from pkt policy = Inr pkt"
    by (simp add: st291_from_carries [OF c] wire_words_nth)
  show "did pkt = d" by (simp add: carries_reads(1) [OF c] wire_words_nth)
  show "(if did pkt AND 0x80 \<noteq> 0 then dbn pkt else sdid pkt) = s"
    by (simp only: carries_second(1) [OF c] wire_words_nth makeWord_low ucast_byte_roundtrip)
  have "unat (dataCount pkt) = length us" using c by (simp add: carries_reads(2) [OF c] carries_def)
  then show "dataCount pkt = of_nat (length us)" by (metis of_nat_unat ucast_id)
  show "udwRaw pkt = map makeWord us" "udw pkt = map (\<lambda>w. w AND 0xFF) us"
    by (simp_all add: carries_reads(3,4) [OF c] wire_words_nth makeWord_low16)
  show "checksumValid pkt"
    by (simp add: checksumValid_def carries_reads(5,6) [OF c] wire_words_nth)
  show "st291_isValid pkt" by (rule carries_reads(7) [OF c])
qed

lemma wire_not_Nil: "ws \<noteq> [] \<Longrightarrow> wire ws \<noteq> []"
  by (cases ws) (auto simp: length_wire simp flip: length_greater_0_conv)

lemma buildWireBytes_eq_Nil:
  "buildWireBytes d s us = [] \<longleftrightarrow> 255 < length us \<or> (\<exists>w\<in>set us. bit w 8 \<and> bit w 9)"
proof -
  have "wire_words d s us \<noteq> []" by (auto simp flip: length_greater_0_conv)
  from wire_not_Nil [OF this] show ?thesis
    by (auto simp: buildWireBytes_def wire_def Let_def list_ex_iff udw_refused_iff)
qed

definition did_accepted :: "byte \<Rightarrow> byte \<Rightarrow> bool" where
  "did_accepted d s \<longleftrightarrow>
     (if d AND 0x80 \<noteq> 0 then \<not> type1DidReserved d else \<not> type2DidReserved d \<and> s \<noteq> 0)"

lemma buildRaw_unfold:
  "st291_buildRaw nf lk d s us line hOff fB cB sn =
     (if did_accepted d s
      then setSt291Framing line hOff fB cB sn (new_packet (lk d s us) TSt291 (buildWireBytes d s us))
      else invalid_packet nf)"
  by (auto simp: st291_buildRaw_def did_accepted_def)

lemma framing_reads [simp]:
  "transport (setSt291Framing line hOff fB cB sn p) = transport p"
  "data (setSt291Framing line hOff fB cB sn p) = data p"
  "format (setSt291Framing line hOff fB cB sn p) = format p"
  "transport (new_packet f t b) = t" "data (new_packet f t b) = b" "format (new_packet f t b) = f"
  by (simp_all add: setSt291Framing_def new_packet_def)





text \<open>A raw build gives a valid packet exactly when the identifiers are not reserved, there are at
  most 255 user words and no word has both parity bits set; otherwise the packet is invalid.\<close>
theorem st291_buildRaw_valid_iff:
  "st291_isValid (st291_buildRaw nf lk d s us line hOff fB cB sn) \<longleftrightarrow>
     did_accepted d s \<and> length us \<le> 255 \<and> \<not> (\<exists>w\<in>set us. bit w 8 \<and> bit w 9)"
proof (cases "did_accepted d s \<and> length us \<le> 255 \<and> \<not> (\<exists>w\<in>set us. bit w 8 \<and> bit w 9)")
  case True
  then have ok: "length us \<le> 255" "\<not> list_ex udw_refused us"
    by (auto simp: list_ex_iff udw_refused_iff)
  have "transport (st291_buildRaw nf lk d s us line hOff fB cB sn) = TSt291"
    "data (st291_buildRaw nf lk d s us line hOff fB cB sn) = buildWireBytes d s us"
    using True by (simp_all add: buildRaw_unfold)
  from st291_built(8) [OF ok this] True show ?thesis by blast
next
  case False
  then consider "\<not> did_accepted d s" | "buildWireBytes d s us = []"
    by (auto simp: buildWireBytes_eq_Nil)
  then have "\<not> st291_isValid (st291_buildRaw nf lk d s us line hOff fB cB sn)"
    by cases (auto simp: buildRaw_unfold st291_isValid_def invalid_packet_def)
  with False show ?thesis by blast
qed

text \<open>Every word put on the wire has bit 9 the inverse of bit 8, so none lies in the protected
  ranges 000h-003h and 3FCh-3FFh, the checksum word included.\<close>
theorem st291_wire_words_parity:
  assumes "\<forall>u\<in>set us. \<not> udw_refused u" "w \<in> set (wire_words d s us)"
  shows "(bit w 9 \<longleftrightarrow> \<not> bit w 8) \<and> w AND 0x3FF = w"
proof -
  have low: "\<not> udw_refused (ucast (b :: byte))" for b by (simp add: udw_refused_iff bit_ucast_iff)
  have cnt: "\<not> udw_refused (c AND 0xFF)" for c by (simp add: udw_refused_iff mask8 bit_and_iff bit_mask_iff del: mask_numeral)
  from assms(2) consider u where "w = makeWord u" "\<not> udw_refused u"
    | vs where "w = checksum291 vs"
    using assms(1) low cnt by (auto simp: wire_words_def Let_def)
  then show ?thesis
    by cases (simp_all add: makeWord_parity checksum_parity)
qed

theorem st291_wire_words_parity_witness:
  "(bit (makeWord 5) 9 \<longleftrightarrow> \<not> bit (makeWord 5) 8) \<and> makeWord 5 AND 0x3FF = makeWord 5"
  by (rule st291_wire_words_parity [where us = "[5]" and d = "0x61" and s = 1]) (simp_all add: udw_refused_iff wire_words_def Let_def)

text \<open>C30: Under strict validation, a packet in which one word other than the count was altered in
  its low nine bits (the checksum word left as sent) is rejected with \<open>InvalidChecksum\<close>.\<close>
theorem st291_corruption_detected:
  assumes "length us \<le> 255" "i < 3 + length us" "i \<noteq> 2"
    "v AND 0x1FF \<noteq> wire_words d s us ! i AND 0x1FF" "transport pkt = TSt291"
    "data pkt = wire ((wire_words d s us)[i := v])"
  shows "st291_from pkt StrictValidate = Inl InvalidChecksum"
proof -
  let ?ws = "wire_words d s us"
  have "carries pkt (?ws[i := v]) (length us)"
    using assms count_word [OF assms(1)] by (simp add: carries_def wire_words_nth(3))
  moreover have "?ws[i := v] ! (3 + length us) = checksum291 (take (3 + length us) ?ws)"
    using assms(2) by (simp add: wire_words_nth)
  moreover have "ck_sum ((take (3 + length us) ?ws)[i := v]) \<noteq> ck_sum (take (3 + length us) ?ws)"
    using assms(2,4) by (intro ck_sum_update) simp_all
  moreover have "take (3 + length us) (?ws[i := v]) = (take (3 + length us) ?ws)[i := v]"
    by (simp add: take_update_swap)
  ultimately show ?thesis
    by (simp add: st291_from_carries checksum291_eq_iff)
qed

theorem st291_corruption_detected_witness:
  "st291_from (new_packet () TSt291 (wire ((wire_words 0x61 1 [5])[3 := 6]))) StrictValidate = Inl InvalidChecksum"
  by (rule st291_corruption_detected [where us = "[5]" and i = 3 and v = 6 and d = "0x61" and s = 1])
    (simp_all add: wire_words_def makeWord_low16 makeWord_def parityBits_def Let_def upt_rec numeral_3_eq_3)

text \<open>\<open>setUdw\<close> keeps the DID, the SDID or DBN and the framing fields of a built packet and
  leaves a packet that passes strict validation with the new user words.\<close>
theorem st291_setUdw_preserves:
  assumes "did_accepted d s" "length us \<le> 255" "\<not> list_ex udw_refused us"
    "length vs \<le> 255" "\<not> list_ex udw_refused vs"
    "pkt = st291_buildRaw nf lk d s us line hOff fB cB sn"
  shows "st291_from (setUdw vs pkt) StrictValidate = Inr (setUdw vs pkt) \<and> did (setUdw vs pkt) = d \<and>
    (if d AND 0x80 \<noteq> 0 then dbn (setUdw vs pkt) else sdid (setUdw vs pkt)) = s \<and>
    udw (setUdw vs pkt) = map (\<lambda>w. w AND 0xFF) vs \<and> st291Line (setUdw vs pkt) = line \<and>
    st291HOffset (setUdw vs pkt) = hOff \<and> st291StreamNum (setUdw vs pkt) = sn"
proof -
  have t: "transport pkt = TSt291" and dt: "data pkt = buildWireBytes d s us"
    using assms(1,6) by (simp_all add: buildRaw_unfold)
  note b = st291_built [OF assms(2,3) t dt]
  have "setUdw vs pkt = pkt\<lparr>data := buildWireBytes d s vs\<rparr>"
    unfolding setUdw_def Let_def b(3) by (simp only: b(2))
  moreover have "transport (pkt\<lparr>data := buildWireBytes d s vs\<rparr>) = TSt291" using t by simp
  moreover have "st291Line pkt = line" "st291HOffset pkt = hOff" "st291StreamNum pkt = sn"
    using assms(1,6) by (simp_all add: buildRaw_unfold setSt291Framing_def)
  ultimately show ?thesis
    using st291_built [OF assms(4,5), of "pkt\<lparr>data := buildWireBytes d s vs\<rparr>" d s] by auto
qed

theorem st291_setUdw_preserves_witness:
  "did (setUdw [7, 8] (st291_buildRaw () (\<lambda>_ _ _. ()) 0x80 0x05 [1] 9 0 False False 0)) = 0x80"
  using st291_setUdw_preserves [OF _ _ _ _ _ refl, where d = "0x80" and s = 5 and us = "[1]" and vs = "[7, 8]" and nf = "()"]
  by (simp add: did_accepted_def type1DidReserved_def udw_refused_iff)

end
