(* ===== verification/Cdp.thy ===== *)
theory Cdp
  imports Prelude
begin

text \<open>
  \<open>src/proav/cea708cdp.cpp\<close>: the SMPTE 334-2 Caption Distribution Packet, its encoder
  \<open>toBuffer\<close> and its parser \<open>fromBuffer\<close>, section by section (header, time code,
  cc_data, service info, opaque rest, footer with checksum). The timecode formats belong to
  libvtc; what the packet needs of them, whether a format counts drop-frame, is the argument
  \<open>is_df\<close>.
\<close>

unbundle bit_operations_syntax

section \<open>State\<close>

record cc_data =
  cc_valid :: bool
  cc_type :: byte
  cc_b1 :: byte
  cc_b2 :: byte

record svc_entry =
  csnSize5Bit :: bool
  captionServiceNumber :: byte
  languageCode :: "byte \<times> byte \<times> byte"
  digitalCc :: bool
  line21Field :: bool
  easyReader :: bool
  wideAspect :: bool

datatype tc_mode =
    ModeInvalid
  | VTC_FORMAT_23_98 | VTC_FORMAT_24 | VTC_FORMAT_25
  | VTC_FORMAT_29_97_DF | VTC_FORMAT_29_97_NDF
  | VTC_FORMAT_30_DF | VTC_FORMAT_30_NDF
  | VTC_FORMAT_50
  | VTC_FORMAT_59_94_DF | VTC_FORMAT_59_94_NDF
  | VTC_FORMAT_60

record timecode =
  tc_mode :: tc_mode
  hour :: byte
  minute :: byte
  sec :: byte
  frame :: byte

definition default_timecode :: timecode where
  "default_timecode = \<lparr>tc_mode = ModeInvalid, hour = 0, minute = 0, sec = 0, frame = 0\<rparr>"

record cdp =
  frameRateCode :: byte
  timeCodePresent :: bool
  ccDataPresent :: bool
  svcInfoPresent :: bool
  svcInfoStart :: bool
  svcInfoChange :: bool
  svcInfoComplete :: bool
  captionServiceActive :: bool
  sequenceCounter :: u16
  timeCode :: timecode
  tcFieldFlag :: bool
  ccData :: "cc_data list"
  ccSvcInfo :: "svc_entry list"
  extraBytes :: "byte list"
  svcInfoMismatches :: nat

definition default_cdp :: cdp where
  "default_cdp =
     \<lparr>frameRateCode = 0, timeCodePresent = False, ccDataPresent = False, svcInfoPresent = False,
      svcInfoStart = False, svcInfoChange = False, svcInfoComplete = False,
      captionServiceActive = False, sequenceCounter = 0, timeCode = default_timecode,
      tcFieldFlag = False, ccData = [], ccSvcInfo = [], extraBytes = [], svcInfoMismatches = 0\<rparr>"

definition new_cdp :: "byte \<Rightarrow> cc_data list \<Rightarrow> u16 \<Rightarrow> cdp" where
  "new_cdp rateCode ccd seqc =
     default_cdp\<lparr>frameRateCode := rateCode, ccDataPresent := ccd \<noteq> [],
       captionServiceActive := ccd \<noteq> [], sequenceCounter := seqc, ccData := ccd\<rparr>"

section \<open>Encoder\<close>

definition flagsByte :: "cdp \<Rightarrow> byte" where
  "flagsByte c =
     0x01 OR (if timeCodePresent c then 0x80 else 0) OR (if ccDataPresent c then 0x40 else 0)
          OR (if svcInfoPresent c then 0x20 else 0) OR (if svcInfoStart c then 0x10 else 0)
          OR (if svcInfoChange c then 0x08 else 0) OR (if svcInfoComplete c then 0x04 else 0)
          OR (if captionServiceActive c then 0x02 else 0)"

definition bcdHigh :: "byte \<Rightarrow> byte \<Rightarrow> byte" where
  "bcdHigh v tensMask =
     (let tens = (v div 10) AND tensMask; units = v mod 10 in push_bit 4 tens OR units)"

definition kCcCountMaxByFrameRate :: "byte list" where
  "kCcCountMaxByFrameRate = [0, 25, 25, 24, 20, 20, 12, 10, 10, 0, 0, 0, 0, 0, 0, 0]"

definition modeForFrameRateCode :: "byte \<Rightarrow> bool \<Rightarrow> tc_mode" where
  "modeForFrameRateCode code dropFrame =
     (if code = 1 then VTC_FORMAT_23_98
      else if code = 2 then VTC_FORMAT_24
      else if code = 3 then VTC_FORMAT_25
      else if code = 4 then (if dropFrame then VTC_FORMAT_29_97_DF else VTC_FORMAT_29_97_NDF)
      else if code = 5 then (if dropFrame then VTC_FORMAT_30_DF else VTC_FORMAT_30_NDF)
      else if code = 6 then VTC_FORMAT_50
      else if code = 7 then (if dropFrame then VTC_FORMAT_59_94_DF else VTC_FORMAT_59_94_NDF)
      else if code = 8 then VTC_FORMAT_60
      else ModeInvalid)"

definition time_section :: "(tc_mode \<Rightarrow> bool) \<Rightarrow> cdp \<Rightarrow> byte list" where
  "time_section is_df c =
     [0x71,
      0xC0 OR bcdHigh (hour (timeCode c)) 0x03,
      0x80 OR bcdHigh (minute (timeCode c)) 0x07,
      (if tcFieldFlag c then 0x80 else 0) OR bcdHigh (sec (timeCode c)) 0x07,
      (if is_df (tc_mode (timeCode c)) then 0x80 else 0) OR bcdHigh (frame (timeCode c)) 0x03]"

definition cc_triple :: "cc_data \<Rightarrow> byte list" where
  "cc_triple c =
     [0xF8 OR (if cc_valid c then 0x04 else 0) OR (cc_type c AND 0x03), cc_b1 c, cc_b2 c]"

definition cc_section :: "cdp \<Rightarrow> byte list" where
  "cc_section c =
     [0x72, 0xE0 OR (of_nat (length (ccData c)) AND 0x1F)] @ concat (map cc_triple (ccData c))"

definition svc_entry_bytes :: "svc_entry \<Rightarrow> byte list" where
  "svc_entry_bytes e =
     (case languageCode e of (l0, l1, l2) \<Rightarrow>
       [(if csnSize5Bit e then 0x80 OR 0x40 OR 0x20 OR (captionServiceNumber e AND 0x1F)
         else 0x80 OR (captionServiceNumber e AND 0x3F)),
        l0, l1, l2,
        (if digitalCc e then 0x80 OR 0x40 OR (captionServiceNumber e AND 0x3F)
         else 0x40 OR (if line21Field e then 0x01 else 0)),
        (if easyReader e then 0x80 else 0) OR (if wideAspect e then 0x40 else 0) OR 0x3F,
        0xFF])"

definition svc_section :: "cdp \<Rightarrow> byte list" where
  "svc_section c =
     [0x73,
      0x80 OR (if svcInfoStart c then 0x40 else 0) OR (if svcInfoChange c then 0x20 else 0)
           OR (if svcInfoComplete c then 0x10 else 0) OR (of_nat (length (ccSvcInfo c)) AND 0x0F)]
     @ concat (map svc_entry_bytes (ccSvcInfo c))"

text \<open>The whole packet; the length field is the low byte of the total size.\<close>

definition cdp_total :: "cdp \<Rightarrow> nat" where
  "cdp_total c =
     7 + (if timeCodePresent c then 5 else 0)
       + (if ccDataPresent c then 2 + 3 * length (ccData c) else 0)
       + (if svcInfoPresent c then 2 + 7 * length (ccSvcInfo c) else 0)
       + length (extraBytes c) + 4"

definition cdp_body :: "(tc_mode \<Rightarrow> bool) \<Rightarrow> cdp \<Rightarrow> byte list" where
  "cdp_body is_df c =
     [0x96, 0x69, of_nat (cdp_total c) AND 0xFF, push_bit 4 (frameRateCode c AND 0x0F) OR 0x0F,
      flagsByte c, ucast (drop_bit 8 (sequenceCounter c)), ucast (sequenceCounter c)]
     @ (if timeCodePresent c then time_section is_df c else [])
     @ (if ccDataPresent c then cc_section c else [])
     @ (if svcInfoPresent c then svc_section c else [])
     @ extraBytes c
     @ [0x74, ucast (drop_bit 8 (sequenceCounter c)), ucast (sequenceCounter c)]"

definition toBuffer :: "(tc_mode \<Rightarrow> bool) \<Rightarrow> cdp \<Rightarrow> byte list" where
  "toBuffer is_df c =
     (let body = cdp_body is_df c; s = sum_list (map ucast body :: u32 list)
      in body @ [ucast ((0x100 - (s AND 0xFF)) AND 0xFF)])"

section \<open>Parser\<close>

definition parse_flags :: "byte list \<Rightarrow> cdp" where
  "parse_flags inp =
     (let flags = inp ! 4 in
      default_cdp\<lparr>frameRateCode := drop_bit 4 (inp ! 3) AND 0x0F,
        timeCodePresent := flags AND 0x80 \<noteq> 0, ccDataPresent := flags AND 0x40 \<noteq> 0,
        svcInfoPresent := flags AND 0x20 \<noteq> 0, svcInfoStart := flags AND 0x10 \<noteq> 0,
        svcInfoChange := flags AND 0x08 \<noteq> 0, svcInfoComplete := flags AND 0x04 \<noteq> 0,
        captionServiceActive := flags AND 0x02 \<noteq> 0,
        sequenceCounter := push_bit 8 (ucast (inp ! 5)) OR ucast (inp ! 6)\<rparr>)"

definition parse_time :: "byte list \<Rightarrow> nat \<Rightarrow> cdp \<Rightarrow> nat \<Rightarrow> (cdp \<times> nat) result" where
  "parse_time inp footerStart c pos =
     (if \<not> timeCodePresent c then Inr (c, pos)
      else if footerStart < pos + 5 \<or> inp ! pos \<noteq> 0x71 then Inl CorruptData
      else let b1 = inp ! (pos + 1); b2 = inp ! (pos + 2); b3 = inp ! (pos + 3); b4 = inp ! (pos + 4);
               hrs = (drop_bit 4 b1 AND 0x03) * 10 + (b1 AND 0x0F);
               mins = (drop_bit 4 b2 AND 0x07) * 10 + (b2 AND 0x0F);
               secs = (drop_bit 4 b3 AND 0x07) * 10 + (b3 AND 0x0F);
               frm = (drop_bit 4 b4 AND 0x03) * 10 + (b4 AND 0x0F);
               dropFrame = (b4 AND 0x80 \<noteq> 0)
           in Inr (c\<lparr>tcFieldFlag := b3 AND 0x80 \<noteq> 0,
                     timeCode := \<lparr>tc_mode = modeForFrameRateCode (frameRateCode c) dropFrame,
                                  hour = hrs, minute = mins, sec = secs, frame = frm\<rparr>\<rparr>, pos + 5))"

definition parse_triple :: "byte list \<Rightarrow> nat \<Rightarrow> cc_data" where
  "parse_triple inp p =
     (let flagsByteIn = inp ! p in
      \<lparr>cc_valid = (flagsByteIn AND 0x04 \<noteq> 0), cc_type = flagsByteIn AND 0x03,
       cc_b1 = inp ! (p + 1), cc_b2 = inp ! (p + 2)\<rparr>)"

definition parse_cc :: "byte list \<Rightarrow> nat \<Rightarrow> cdp \<Rightarrow> nat \<Rightarrow> (cdp \<times> nat) result" where
  "parse_cc inp footerStart c pos =
     (if \<not> ccDataPresent c then Inr (c, pos)
      else if footerStart < pos + 2 \<or> inp ! pos \<noteq> 0x72 then Inl CorruptData
      else let cnt = unat (inp ! (pos + 1) AND 0x1F) in
           if footerStart < pos + 2 + 3 * cnt then Inl CorruptData
           else Inr (c\<lparr>ccData := map (\<lambda>i. parse_triple inp (pos + 2 + 3 * i)) [0..<cnt]\<rparr>,
                     pos + 2 + 3 * cnt))"

definition parse_svc_entry :: "byte list \<Rightarrow> nat \<Rightarrow> svc_entry \<times> nat" where
  "parse_svc_entry inp p =
     (let entryFlag = inp ! p; size5 = (entryFlag AND 0x40 \<noteq> 0);
          csn = (if size5 then entryFlag AND 0x1F else entryFlag AND 0x3F);
          b4 = inp ! (p + 4); dig = (b4 AND 0x80 \<noteq> 0); b5 = inp ! (p + 5)
      in (\<lparr>csnSize5Bit = size5, captionServiceNumber = csn,
           languageCode = (inp ! (p + 1), inp ! (p + 2), inp ! (p + 3)),
           digitalCc = dig, line21Field = (if dig then False else b4 AND 0x01 \<noteq> 0),
           easyReader = (b5 AND 0x80 \<noteq> 0), wideAspect = (b5 AND 0x40 \<noteq> 0)\<rparr>,
          if dig \<and> b4 AND 0x3F \<noteq> csn then 1 else 0))"

definition parse_svc :: "byte list \<Rightarrow> nat \<Rightarrow> cdp \<Rightarrow> nat \<Rightarrow> (cdp \<times> nat) result" where
  "parse_svc inp footerStart c pos =
     (if pos + 2 \<le> footerStart \<and> inp ! pos = 0x73
      then let flagByte = inp ! (pos + 1);
               svcCount = unat (flagByte AND 0x0F);
               svcSize = 2 + 7 * svcCount
           in if footerStart < pos + svcSize then Inl CorruptData
              else let es = map (\<lambda>i. parse_svc_entry inp (pos + 2 + 7 * i)) [0..<svcCount]
                   in Inr (c\<lparr>svcInfoStart := flagByte AND 0x40 \<noteq> 0,
                             svcInfoChange := flagByte AND 0x20 \<noteq> 0,
                             svcInfoComplete := flagByte AND 0x10 \<noteq> 0,
                             ccSvcInfo := map fst es,
                             svcInfoMismatches := svcInfoMismatches c + sum_list (map snd es)\<rparr>,
                           pos + svcSize)
      else Inr (c, pos))"

definition parse_rest :: "byte list \<Rightarrow> nat \<Rightarrow> cdp \<Rightarrow> nat \<Rightarrow> cdp result" where
  "parse_rest inp footerStart c pos =
     (let (c, pos) = (if pos < footerStart
                      then (c\<lparr>extraBytes := take (footerStart - pos) (drop pos inp)\<rparr>, footerStart)
                      else (c, pos))
      in if inp ! pos \<noteq> 0x74 then Inl CorruptData
         else if push_bit 8 (ucast (inp ! (pos + 1))) OR ucast (inp ! (pos + 2)) \<noteq> sequenceCounter c
              then Inl CorruptData else Inr c)"

definition fromBuffer :: "byte list \<Rightarrow> cdp result" where
  "fromBuffer inp =
     (let size = length inp in
      if size < 11 then Inl CorruptData
      else if push_bit 8 (ucast (inp ! 0)) OR ucast (inp ! 1) \<noteq> (0x9669 :: u16) then Inl CorruptData
      else if unat (inp ! 2) \<noteq> size then Inl CorruptData
      else if sum_list (map ucast inp :: u32 list) AND 0xFF \<noteq> 0 then Inl CorruptData
      else let footerStart = size - 4 in
           case parse_time inp footerStart (parse_flags inp) 7 of
             Inl e \<Rightarrow> Inl e
           | Inr (c, pos) \<Rightarrow> (case parse_cc inp footerStart c pos of
               Inl e \<Rightarrow> Inl e
             | Inr (c, pos) \<Rightarrow> (case parse_svc inp footerStart c pos of
                 Inl e \<Rightarrow> Inl e
               | Inr (c, pos) \<Rightarrow> parse_rest inp footerStart c pos)))"

definition frameRateCodeFor :: "u32 \<Rightarrow> u32 \<Rightarrow> byte" where
  "frameRateCodeFor num den =
     (if num = 24000 \<and> den = 1001 then 1
      else if num = 24 \<and> den = 1 then 2
      else if num = 25 \<and> den = 1 then 3
      else if num = 30000 \<and> den = 1001 then 4
      else if num = 30 \<and> den = 1 then 5
      else if num = 50 \<and> den = 1 then 6
      else if num = 60000 \<and> den = 1001 then 7
      else if num = 60 \<and> den = 1 then 8
      else 0)"

section \<open>Equality of packets\<close>

definition cdp_eq :: "cdp \<Rightarrow> cdp \<Rightarrow> bool" where
  "cdp_eq a b \<longleftrightarrow>
     frameRateCode a = frameRateCode b \<and> timeCodePresent a = timeCodePresent b \<and>
     ccDataPresent a = ccDataPresent b \<and> svcInfoPresent a = svcInfoPresent b \<and>
     svcInfoStart a = svcInfoStart b \<and> svcInfoChange a = svcInfoChange b \<and>
     svcInfoComplete a = svcInfoComplete b \<and> captionServiceActive a = captionServiceActive b \<and>
     sequenceCounter a = sequenceCounter b \<and>
     (timeCodePresent a \<longrightarrow> timeCode a = timeCode b \<and> tcFieldFlag a = tcFieldFlag b) \<and>
     ccData a = ccData b \<and> ccSvcInfo a = ccSvcInfo b \<and> extraBytes a = extraBytes b"

section \<open>Reading back what was written\<close>

lemma bcd_high_bits:
  "drop_bit 4 (0xC0 OR bcdHigh v 3) AND 3 = (v div 10) AND 3" "(0xC0 OR bcdHigh v 3) AND 0x0F = v mod 10"
  "drop_bit 4 (0x80 OR bcdHigh v 7) AND 7 = (v div 10) AND 7" "(0x80 OR bcdHigh v 7) AND 0x0F = v mod 10"
  "drop_bit 4 ((if b then 0x80 else 0) OR bcdHigh v 7) AND 7 = (v div 10) AND 7"
  "((if b then 0x80 else 0) OR bcdHigh v 7) AND 0x0F = v mod 10"
  "drop_bit 4 ((if b then 0x80 else 0) OR bcdHigh v 3) AND 3 = (v div 10) AND 3"
  "((if b then 0x80 else 0) OR bcdHigh v 3) AND 0x0F = v mod 10"
  "((if b then 0x80 else 0) OR bcdHigh v 7) AND 0x80 \<noteq> 0 \<longleftrightarrow> b"
  "((if b then 0x80 else 0) OR bcdHigh v 3) AND 0x80 \<noteq> 0 \<longleftrightarrow> b"
proof -
  have "v mod 10 < 16" by (rule less_trans [of _ 10]) (simp_all add: word_less_nat_alt unat_mod)
  then have hi: "\<not> bit (v mod 10) 4" "\<not> bit (v mod 10) 5" "\<not> bit (v mod 10) 6" "\<not> bit (v mod 10) 7"
    using word_less_exp_bit [of "v mod 10" 4] by simp_all
  show "drop_bit 4 (0xC0 OR bcdHigh v 3) AND 3 = (v div 10) AND 3" "(0xC0 OR bcdHigh v 3) AND 0x0F = v mod 10"
  "drop_bit 4 (0x80 OR bcdHigh v 7) AND 7 = (v div 10) AND 7" "(0x80 OR bcdHigh v 7) AND 0x0F = v mod 10"
  "drop_bit 4 ((if b then 0x80 else 0) OR bcdHigh v 7) AND 7 = (v div 10) AND 7"
  "((if b then 0x80 else 0) OR bcdHigh v 7) AND 0x0F = v mod 10"
  "drop_bit 4 ((if b then 0x80 else 0) OR bcdHigh v 3) AND 3 = (v div 10) AND 3"
  "((if b then 0x80 else 0) OR bcdHigh v 3) AND 0x0F = v mod 10"
    by (rule bit_byte_eqI; simp add: bcdHigh_def Let_def bit_simps hi)+
  show "((if b then 0x80 else 0) OR bcdHigh v 7) AND 0x80 \<noteq> 0 \<longleftrightarrow> b"
    "((if b then 0x80 else 0) OR bcdHigh v 3) AND 0x80 \<noteq> 0 \<longleftrightarrow> b"
    unfolding mask_bit_neq_0 by (simp_all add: bcdHigh_def Let_def bit_simps hi)
qed

lemma bcd_value: "v < 40 \<Longrightarrow> ((v div 10) AND 3) * 10 + v mod 10 = v" "v < 80 \<Longrightarrow> ((v div 10) AND 7) * 10 + v mod 10 = v"
  for v :: byte
proof -
  have m: "(3 :: byte) = mask 2" "(7 :: byte) = mask 3" by (simp_all add: mask_eq_exp_minus_1)
  show "((v div 10) AND 3) * 10 + v mod 10 = v" if "v < 40"
  proof -
    have "v div 10 < 2 ^ 2" using that by (simp add: word_less_nat_alt unat_div div_less_iff_less_mult)
    then have "(v div 10) AND mask 2 = v div 10" by (rule less_mask_eq)
    then show ?thesis unfolding m by (simp only: div_mult_mod_eq)
  qed
  show "((v div 10) AND 7) * 10 + v mod 10 = v" if "v < 80"
  proof -
    have "v div 10 < 2 ^ 3" using that by (simp add: word_less_nat_alt unat_div div_less_iff_less_mult)
    then have "(v div 10) AND mask 3 = v div 10" by (rule less_mask_eq)
    then show ?thesis unfolding m by (simp only: div_mult_mod_eq)
  qed
qed

text \<open>What the encoder can represent: the widths of the fields and the sections that are present.\<close>

definition wf_time :: "(tc_mode \<Rightarrow> bool) \<Rightarrow> byte \<Rightarrow> timecode \<Rightarrow> bool" where
  "wf_time is_df rate tc \<longleftrightarrow>
     hour tc < 40 \<and> minute tc < 80 \<and> sec tc < 80 \<and> frame tc < 40 \<and>
     tc_mode tc = modeForFrameRateCode rate (is_df (tc_mode tc))"

definition wf_svc :: "svc_entry \<Rightarrow> bool" where
  "wf_svc e \<longleftrightarrow>
     captionServiceNumber e < (if csnSize5Bit e then 32 else 64) \<and> (digitalCc e \<longrightarrow> \<not> line21Field e)"

definition wf_cdp :: "(tc_mode \<Rightarrow> bool) \<Rightarrow> cdp \<Rightarrow> bool" where
  "wf_cdp is_df c \<longleftrightarrow>
     frameRateCode c < 16 \<and> cdp_total c \<le> 255 \<and>
     (if timeCodePresent c then wf_time is_df (frameRateCode c) (timeCode c)
      else timeCode c = default_timecode \<and> \<not> tcFieldFlag c) \<and>
     (if ccDataPresent c then length (ccData c) \<le> 31 \<and> (\<forall>d\<in>set (ccData c). cc_type d < 4) else ccData c = []) \<and>
     (if svcInfoPresent c then length (ccSvcInfo c) \<le> 15 \<and> (\<forall>e\<in>set (ccSvcInfo c). wf_svc e)
      else ccSvcInfo c = [] \<and> (2 \<le> length (extraBytes c) \<longrightarrow> hd (extraBytes c) \<noteq> 0x73)) \<and>
     svcInfoMismatches c = 0"

lemma parse_time_section:
  assumes "drop pos inp = time_section is_df c @ rest" "pos \<le> length inp" "pos + 5 \<le> fs"
    "wf_time is_df (frameRateCode c) (timeCode c)" "timeCodePresent c0" "frameRateCode c0 = frameRateCode c"
  shows "parse_time inp fs c0 pos = Inr (c0\<lparr>tcFieldFlag := tcFieldFlag c, timeCode := timeCode c\<rparr>, pos + 5)"
proof -
  have at: "inp ! (pos + k) = (time_section is_df c @ rest) ! k" for k
    using nth_at_offset [OF assms(1,2)] .
  have tag: "inp ! pos = 0x71" using at [of 0] by (simp add: time_section_def)
  have b: "inp ! (pos + 1) = 0xC0 OR bcdHigh (hour (timeCode c)) 3"
    "inp ! (pos + 2) = 0x80 OR bcdHigh (minute (timeCode c)) 7"
    "inp ! (pos + 3) = (if tcFieldFlag c then 0x80 else 0) OR bcdHigh (sec (timeCode c)) 7"
    "inp ! (pos + 4) = (if is_df (tc_mode (timeCode c)) then 0x80 else 0) OR bcdHigh (frame (timeCode c)) 3"
    unfolding at by (simp_all add: time_section_def)
  have digits:
    "(drop_bit 4 (inp ! (pos + 1)) AND 3) * 10 + (inp ! (pos + 1) AND 0x0F) = hour (timeCode c)"
    "(drop_bit 4 (inp ! (pos + 2)) AND 7) * 10 + (inp ! (pos + 2) AND 0x0F) = minute (timeCode c)"
    "(drop_bit 4 (inp ! (pos + 3)) AND 7) * 10 + (inp ! (pos + 3) AND 0x0F) = sec (timeCode c)"
    "(drop_bit 4 (inp ! (pos + 4)) AND 3) * 10 + (inp ! (pos + 4) AND 0x0F) = frame (timeCode c)"
    unfolding b bcd_high_bits using assms(4) by (simp_all add: bcd_value wf_time_def)
  have flags: "(inp ! (pos + 3) AND 0x80 \<noteq> 0) = tcFieldFlag c"
    "(inp ! (pos + 4) AND 0x80 \<noteq> 0) = is_df (tc_mode (timeCode c))"
    unfolding b bcd_high_bits by simp_all
  have mode: "modeForFrameRateCode (frameRateCode c) (is_df (tc_mode (timeCode c))) = tc_mode (timeCode c)"
    using assms(4) by (simp add: wf_time_def)
  have tag': "\<not> (fs < pos + 5 \<or> inp ! pos \<noteq> 0x71)" using assms(3) tag by simp
  have tc: "\<lparr>tc_mode = tc_mode (timeCode c), hour = hour (timeCode c), minute = minute (timeCode c),
      sec = sec (timeCode c), frame = frame (timeCode c)\<rparr> = timeCode c" by simp
  show ?thesis
    unfolding parse_time_def Let_def digits flags assms(6) mode if_not_P [OF tag'] tc
    using assms(5) by simp
qed

lemma parse_triple_cc:
  assumes "drop p inp = concat (map cc_triple ds) @ rest" "p \<le> length inp" "\<forall>d\<in>set ds. cc_type d < 4" "i < length ds"
  shows "parse_triple inp (p + 3 * i) = ds ! i"
proof -
  have at: "inp ! (p + 3 * i + j) = cc_triple (ds ! i) ! j" if "j < 3" for j
    using nth_at_offset [OF assms(1,2), of "3 * i + j"] nth_uniform_append [of cc_triple 3 i ds j rest] assms(4) that
    by (simp add: cc_triple_def add.assoc)
  obtain v t b1 b2 where d: "ds ! i = \<lparr>cc_valid = v, cc_type = t, cc_b1 = b1, cc_b2 = b2\<rparr>"
    by (cases "ds ! i")
  have "cc_type (ds ! i) < 4" using assms(3,4) by simp
  then have "t < 2 ^ 2" by (simp add: d)
  then have "t AND mask 2 = t" by (rule less_mask_eq)
  then have "t AND 3 = t" by (simp add: mask_eq_exp_minus_1)
  moreover have "(0xF8 OR (if v then 4 else 0) OR (t AND 3)) AND 3 = t AND 3"
    by (rule bit_byte_eqI; simp add: bit_simps)
  moreover have "(0xF8 OR (if v then 4 else 0) OR (t AND 3)) AND 4 \<noteq> 0 \<longleftrightarrow> v"
    unfolding mask_bit_neq_0 by (simp add: bit_simps)
  ultimately show ?thesis
    using at [of 0] at [of 1] at [of 2] by (simp add: parse_triple_def cc_triple_def d Let_def)
qed

lemma count_field:
  "n \<le> 31 \<Longrightarrow> unat ((0xE0 OR (of_nat n AND 0x1F) :: byte) AND 0x1F) = n"
proof -
  assume n: "n \<le> 31"
  have "(0xE0 OR (of_nat n AND 0x1F) :: byte) AND 0x1F = of_nat n AND 0x1F"
    by (rule bit_byte_eqI; simp add: bit_simps)
  also have "\<dots> = of_nat n AND mask 5" by (simp add: mask_eq_exp_minus_1)
  also have "\<dots> = of_nat n" using n by (simp flip: take_bit_eq_mask add: take_bit_of_nat take_bit_nat_eq_self)
  finally show ?thesis using n by (simp add: unsigned_of_nat take_bit_nat_eq_self)
qed

lemma parse_cc_section:
  assumes "drop pos inp = cc_section c @ rest" "pos \<le> length inp" "pos + 2 + 3 * length (ccData c) \<le> fs"
    "length (ccData c) \<le> 31" "\<forall>d\<in>set (ccData c). cc_type d < 4" "ccDataPresent c0"
  shows "parse_cc inp fs c0 pos = Inr (c0\<lparr>ccData := ccData c\<rparr>, pos + 2 + 3 * length (ccData c))"
proof -
  have at: "inp ! (pos + k) = (cc_section c @ rest) ! k" for k
    using nth_at_offset [OF assms(1,2)] .
  have tag: "\<not> (fs < pos + 2 \<or> inp ! pos \<noteq> 0x72)" using at [of 0] assms(3) by (simp add: cc_section_def)
  have cnt: "unat (inp ! (pos + 1) AND 0x1F) = length (ccData c)"
    using at [of 1] count_field [OF assms(4)] by (simp add: cc_section_def)
  have "length (cc_section c) \<ge> 2" by (simp add: cc_section_def)
  then have le: "pos + 2 \<le> length inp"
    using arg_cong [OF assms(1), of length] assms(2) by simp
  have "drop 2 (drop pos inp) = concat (map cc_triple (ccData c)) @ rest"
    unfolding assms(1) by (simp add: cc_section_def)
  then have dr: "drop (pos + 2) inp = concat (map cc_triple (ccData c)) @ rest" by (simp add: add.commute)
  have "map (\<lambda>i. parse_triple inp (pos + 2 + 3 * i)) [0..<length (ccData c)] = ccData c"
    using parse_triple_cc [OF dr le assms(5)] by (auto intro: nth_equalityI)
  then show ?thesis
    unfolding parse_cc_def Let_def if_not_P [OF tag] cnt using assms(3,6) by simp
qed

lemma svc_bits:
  fixes n :: byte
  shows "(if s then 0x80 OR 0x40 OR 0x20 OR (n AND 0x1F) else 0x80 OR (n AND 0x3F)) AND 0x40 \<noteq> 0 \<longleftrightarrow> s"
    "s \<Longrightarrow> (0x80 OR 0x40 OR 0x20 OR (n AND 0x1F)) AND 0x1F = n AND 0x1F"
    "(0x80 OR (n AND 0x3F)) AND 0x3F = n AND 0x3F"
    "(0x80 OR 0x40 OR (n AND 0x3F)) AND 0x80 \<noteq> 0"
    "(0x80 OR 0x40 OR (n AND 0x3F)) AND 0x3F = n AND 0x3F"
    "(0x40 OR (if f then 1 else 0)) AND 0x80 = (0 :: byte)"
    "(0x40 OR (if f then 1 else 0)) AND 1 \<noteq> (0 :: byte) \<longleftrightarrow> f"
    "((if e then 0x80 else 0) OR (if w then 0x40 else 0) OR 0x3F) AND 0x80 \<noteq> (0 :: byte) \<longleftrightarrow> e"
    "((if e then 0x80 else 0) OR (if w then 0x40 else 0) OR 0x3F) AND 0x40 \<noteq> (0 :: byte) \<longleftrightarrow> w"
  unfolding mask_bit_neq_0 mask_bit_eq_0
  by (simp_all add: bit_simps, (rule bit_byte_eqI; simp add: bit_simps)+)

lemma parse_svc_entry_written:
  assumes "\<And>j. j < 7 \<Longrightarrow> inp ! (p + j) = svc_entry_bytes e ! j" "wf_svc e"
  shows "parse_svc_entry inp p = (e, 0)"
proof -
  obtain s n l0 l1 l2 d f er wa where
    e: "e = \<lparr>csnSize5Bit = s, captionServiceNumber = n, languageCode = (l0, l1, l2), digitalCc = d,
             line21Field = f, easyReader = er, wideAspect = wa\<rparr>"
    by (metis svc_entry.surjective old.unit.exhaust prod_cases3)
  have n: "if s then n AND 0x1F = n else n AND 0x3F = n"
  proof (cases s)
    case True
    then have "n < 2 ^ 5" using assms(2) by (simp add: e wf_svc_def)
    then have "n AND mask 5 = n" by (rule less_mask_eq)
    then show ?thesis using True by (simp add: mask_eq_exp_minus_1)
  next
    case False
    then have "n < 2 ^ 6" using assms(2) by (simp add: e wf_svc_def)
    then have "n AND mask 6 = n" by (rule less_mask_eq)
    then show ?thesis using False by (simp add: mask_eq_exp_minus_1)
  qed
  have m: "n AND 0x3F = n"
  proof -
    have "n < 2 ^ 6" using assms(2) by (cases s) (auto simp: e wf_svc_def intro: less_trans)
    then have "n AND mask 6 = n" by (rule less_mask_eq)
    then show ?thesis by (simp add: mask_eq_exp_minus_1)
  qed
  have b: "inp ! p = (if s then 0x80 OR 0x40 OR 0x20 OR (n AND 0x1F) else 0x80 OR (n AND 0x3F))"
    "inp ! (p + 1) = l0" "inp ! (p + 2) = l1" "inp ! (p + 3) = l2"
    "inp ! (p + 4) = (if d then 0x80 OR 0x40 OR (n AND 0x3F) else 0x40 OR (if f then 1 else 0))"
    "inp ! (p + 5) = (if er then 0x80 else 0) OR (if wa then 0x40 else 0) OR 0x3F"
    using assms(1) [of 0] assms(1) [of 1] assms(1) [of 2] assms(1) [of 3] assms(1) [of 4] assms(1) [of 5]
    by (simp_all add: svc_entry_bytes_def e)
  have size5: "(inp ! p AND 0x40 \<noteq> 0) = s" unfolding b by (rule svc_bits)
  have csn: "(if s then inp ! p AND 0x1F else inp ! p AND 0x3F) = n"
    using n svc_bits(2) [of s n] svc_bits(3) [of n] unfolding b by (cases s) simp_all
  have dig: "(inp ! (p + 4) AND 0x80 \<noteq> 0) = d"
    using svc_bits(4) [of n] svc_bits(6) [of f] unfolding b by (cases d) simp_all
  have csn4: "d \<Longrightarrow> inp ! (p + 4) AND 0x3F = n" unfolding b using svc_bits(5) [of n] m by simp
  have l21: "\<not> d \<Longrightarrow> (inp ! (p + 4) AND 1 \<noteq> 0) = f" unfolding b using svc_bits(7) [of f] by simp
  have b5: "(inp ! (p + 5) AND 0x80 \<noteq> 0) = er" "(inp ! (p + 5) AND 0x40 \<noteq> 0) = wa"
    unfolding b by (rule svc_bits)+
  have "d \<Longrightarrow> \<not> f" using assms(2) by (simp add: e wf_svc_def)
  then show ?thesis
    unfolding parse_svc_entry_def Let_def size5 csn dig b5 b(2-4) using csn4 l21 by (auto simp: e)
qed

lemma svc_head_bits:
  fixes h :: byte
  assumes "n \<le> 15"
    and h_def: "h = 0x80 OR (if s then 0x40 else 0) OR (if c then 0x20 else 0) OR (if k then 0x10 else 0)
      OR (of_nat n AND 0x0F)"
  shows "(h AND 0x40 \<noteq> 0) = s" "(h AND 0x20 \<noteq> 0) = c" "(h AND 0x10 \<noteq> 0) = k" "unat (h AND 0x0F) = n"
proof -
  show "(h AND 0x40 \<noteq> 0) = s" "(h AND 0x20 \<noteq> 0) = c" "(h AND 0x10 \<noteq> 0) = k"
    unfolding h_def mask_bit_neq_0 by (simp_all add: bit_simps)
  have "h AND 0x0F = of_nat n AND 0x0F"
    unfolding h_def by (rule bit_byte_eqI; simp add: bit_simps)
  also have "\<dots> = of_nat n AND mask 4" by (simp add: mask_eq_exp_minus_1)
  also have "\<dots> = of_nat n" using assms(1) by (simp flip: take_bit_eq_mask add: take_bit_of_nat take_bit_nat_eq_self)
  finally show "unat (h AND 0x0F) = n" using assms(1) by (simp add: unsigned_of_nat take_bit_nat_eq_self)
qed

lemma length_svc_entry_bytes [simp]: "length (svc_entry_bytes e) = 7"
  by (simp add: svc_entry_bytes_def split: prod.split)

lemma parse_svc_section:
  assumes "drop pos inp = svc_section c @ rest" "pos \<le> length inp" "pos + 2 + 7 * length (ccSvcInfo c) \<le> fs"
    "length (ccSvcInfo c) \<le> 15" "\<forall>e\<in>set (ccSvcInfo c). wf_svc e"
  shows "parse_svc inp fs c0 pos =
    Inr (c0\<lparr>svcInfoStart := svcInfoStart c, svcInfoChange := svcInfoChange c,
            svcInfoComplete := svcInfoComplete c, ccSvcInfo := ccSvcInfo c\<rparr>,
         pos + 2 + 7 * length (ccSvcInfo c))"
proof -
  have at: "inp ! (pos + k) = (svc_section c @ rest) ! k" for k
    using nth_at_offset [OF assms(1,2)] .
  have tag: "pos + 2 \<le> fs \<and> inp ! pos = 0x73" using at [of 0] assms(3) by (simp add: svc_section_def)
  have h: "inp ! (pos + 1) = 0x80 OR (if svcInfoStart c then 0x40 else 0) OR (if svcInfoChange c then 0x20 else 0)
      OR (if svcInfoComplete c then 0x10 else 0) OR (of_nat (length (ccSvcInfo c)) AND 0x0F)"
    unfolding at by (simp add: svc_section_def)
  note hb = svc_head_bits [OF assms(4) h]
  have "length (svc_section c) \<ge> 2" by (simp add: svc_section_def)
  then have le: "pos + 2 \<le> length inp"
    using arg_cong [OF assms(1), of length] assms(2) by simp
  have "drop 2 (drop pos inp) = concat (map svc_entry_bytes (ccSvcInfo c)) @ rest"
    unfolding assms(1) by (simp add: svc_section_def)
  then have dr: "drop (pos + 2) inp = concat (map svc_entry_bytes (ccSvcInfo c)) @ rest" by (simp add: add.commute)
  have entry: "parse_svc_entry inp (pos + 2 + 7 * i) = (ccSvcInfo c ! i, 0)" if "i < length (ccSvcInfo c)" for i
  proof (rule parse_svc_entry_written)
    show "inp ! (pos + 2 + 7 * i + j) = svc_entry_bytes (ccSvcInfo c ! i) ! j" if "j < 7" for j
      using nth_at_offset [OF dr le, of "7 * i + j"] \<open>i < _\<close> that
        nth_uniform_append [of svc_entry_bytes 7 i "ccSvcInfo c" j rest] by (simp add: add.assoc)
    show "wf_svc (ccSvcInfo c ! i)" using assms(5) that by simp
  qed
  then have es: "map (\<lambda>i. parse_svc_entry inp (pos + 2 + 7 * i)) [0..<length (ccSvcInfo c)]
      = map (\<lambda>e. (e, 0)) (ccSvcInfo c)"
    by (auto intro: nth_equalityI)
  have fits: "\<not> fs < pos + (2 + 7 * length (ccSvcInfo c))" using assms(3) by simp
  show ?thesis
    unfolding parse_svc_def Let_def if_P [OF tag] hb es if_not_P [OF fits]
    by (simp add: comp_def)
qed

section \<open>Header, checksum and the whole packet\<close>

lemma uint_low_byte: "uint (s AND 0xFF :: u32) = uint s mod 256"
proof -
  have "s AND 0xFF = take_bit 8 s" by (simp add: take_bit_eq_mask mask_eq_exp_minus_1)
  then have "uint (s AND 0xFF) = take_bit 8 (uint s)" by (simp only: unsigned_take_bit_eq)
  then show ?thesis by (simp add: take_bit_eq_mod)
qed

lemma low_byte_zero_iff: "s AND 0xFF = (0 :: u32) \<longleftrightarrow> uint s mod 256 = 0"
  by (metis uint_low_byte uint_0_iff)

lemma uint_add32_mod: "uint (a + b :: u32) mod 256 = (uint a + uint b) mod 256"
  by (simp add: uint_word_ariths mod_mod_cancel)

lemma uint_sum_list_mod: "uint (sum_list (map ucast bs :: u32 list)) mod 256 = (\<Sum>b\<leftarrow>bs. uint (b :: byte)) mod 256"
proof (induction bs)
  case Nil
  then show ?case by simp
next
  case (Cons b bs)
  have "uint (ucast b :: u32) = take_bit 32 (uint b)" by (simp add: unsigned_ucast_eq)
  also have "\<dots> = uint b" using uint_lt2p [of b] by (intro take_bit_int_eq_self) simp_all
  finally have b: "uint (ucast b :: u32) = uint b" .
  have "uint (sum_list (map ucast (b # bs) :: u32 list)) mod 256
      = (uint b + uint (sum_list (map ucast bs :: u32 list))) mod 256"
    by (simp only: list.map sum_list.Cons uint_add32_mod b)
  also have "\<dots> = (uint b + (\<Sum>b\<leftarrow>bs. uint b)) mod 256"
    by (rule mod_add_cong [OF refl Cons.IH])
  finally show ?case by simp
qed

definition byte_sum :: "byte list \<Rightarrow> int" where
  "byte_sum bs = (\<Sum>b\<leftarrow>bs. uint b) mod 256"

lemma sum_ok_iff: "sum_list (map ucast bs :: u32 list) AND 0xFF = 0 \<longleftrightarrow> byte_sum bs = 0"
  by (simp only: low_byte_zero_iff uint_sum_list_mod byte_sum_def)

lemma uint_checksum_byte:
  "uint (ucast ((0x100 - (s AND 0xFF)) AND 0xFF :: u32) :: byte) = (256 - uint s mod 256) mod 256"
proof -
  have le: "s AND 0xFF \<le> (0x100 :: u32)"
    by (simp add: word_le_def uint_low_byte)
  have "uint (0x100 - (s AND 0xFF) :: u32) = 256 - uint s mod 256"
    using uint_sub_lem [of "s AND 0xFF" "0x100 :: u32"] le by (simp add: uint_low_byte word_le_def)
  then have "uint ((0x100 - (s AND 0xFF)) AND 0xFF :: u32) = (256 - uint s mod 256) mod 256"
    by (simp only: uint_low_byte)
  then show ?thesis by (simp add: unsigned_ucast_eq take_bit_eq_mod)
qed

lemma byte_sum_checksum:
  "byte_sum (bs @ [ucast ((0x100 - (sum_list (map ucast bs) AND 0xFF)) AND 0xFF :: u32)]) = 0"
proof -
  have id: "(x + (256 - x mod 256) mod 256) mod 256 = 0" for x :: int
  proof -
    have ring: "y = 256 * q + r \<Longrightarrow> y + (256 - r) = 256 * (q + 1)" for y q r :: int by simp
    have "(x + (256 - x mod 256) mod 256) mod 256 = (x + (256 - x mod 256)) mod 256"
      by (rule mod_add_right_eq)
    also have "\<dots> = (256 * (x div 256 + 1)) mod 256"
      by (simp only: ring [OF mult_div_mod_eq [of 256 x, symmetric]])
    finally show ?thesis by simp
  qed
  have "byte_sum (bs @ [ucast ((0x100 - (sum_list (map ucast bs) AND 0xFF)) AND 0xFF :: u32)])
      = ((\<Sum>b\<leftarrow>bs. uint b) + (256 - (\<Sum>b\<leftarrow>bs. uint b) mod 256) mod 256) mod 256"
    by (simp add: byte_sum_def uint_checksum_byte uint_sum_list_mod)
  then show ?thesis by (simp only: id)
qed

lemma fresh_flags_bits:
  "flagsByte c AND 0x80 \<noteq> 0 \<longleftrightarrow> timeCodePresent c" "flagsByte c AND 0x40 \<noteq> 0 \<longleftrightarrow> ccDataPresent c"
  "flagsByte c AND 0x20 \<noteq> 0 \<longleftrightarrow> svcInfoPresent c" "flagsByte c AND 0x10 \<noteq> 0 \<longleftrightarrow> svcInfoStart c"
  "flagsByte c AND 0x08 \<noteq> 0 \<longleftrightarrow> svcInfoChange c" "flagsByte c AND 0x04 \<noteq> 0 \<longleftrightarrow> svcInfoComplete c"
  "flagsByte c AND 0x02 \<noteq> 0 \<longleftrightarrow> captionServiceActive c"
  unfolding mask_bit_neq_0 flagsByte_def by (simp_all add: bit_simps)

lemma rate_nibble:
  fixes r :: byte
  assumes "r < 16"
  shows "drop_bit 4 (push_bit 4 (r AND 0x0F) OR 0x0F) AND 0x0F = r"
proof -
  have hi: "\<not> bit r 4" "\<not> bit r 5" "\<not> bit r 6" "\<not> bit r 7"
    using word_less_exp_bit [of r 4] assms by simp_all
  show ?thesis by (rule bit_byte_eqI; simp add: bit_simps hi)
qed

lemma rd16_or: "push_bit 8 (ucast (ucast (drop_bit 8 w) :: byte)) OR ucast (ucast w :: byte) = (w :: u16)"
  using rd16_split [of w] by (simp only: rd16_def)

lemma length_sections [simp]:
  "length (time_section is_df c) = 5" "length (cc_section c) = 2 + 3 * length (ccData c)"
  "length (svc_section c) = 2 + 7 * length (ccSvcInfo c)"
  by (simp_all add: time_section_def cc_section_def svc_section_def length_concat_uniform cc_triple_def)

lemma length_toBuffer [simp]: "length (toBuffer is_df c) = cdp_total c"
  by (simp add: toBuffer_def cdp_body_def cdp_total_def Let_def)

text \<open>The sections that follow the fixed header, and the footer.\<close>

definition cdp_sections :: "(tc_mode \<Rightarrow> bool) \<Rightarrow> cdp \<Rightarrow> byte list" where
  "cdp_sections is_df c =
     (if timeCodePresent c then time_section is_df c else [])
     @ (if ccDataPresent c then cc_section c else [])
     @ (if svcInfoPresent c then svc_section c else []) @ extraBytes c"

lemma toBuffer_split:
  obtains k where "toBuffer is_df c =
    [0x96, 0x69, of_nat (cdp_total c) AND 0xFF, push_bit 4 (frameRateCode c AND 0x0F) OR 0x0F,
      flagsByte c, ucast (drop_bit 8 (sequenceCounter c)), ucast (sequenceCounter c)]
    @ cdp_sections is_df c
    @ [0x74, ucast (drop_bit 8 (sequenceCounter c)), ucast (sequenceCounter c), k]"
  unfolding toBuffer_def cdp_body_def cdp_sections_def Let_def by (metis append.assoc append_Cons append_Nil)

lemma cdp_checksum_ok: "sum_list (map ucast (toBuffer is_df c) :: u32 list) AND 0xFF = 0"
  unfolding sum_ok_iff toBuffer_def Let_def by (rule byte_sum_checksum)

lemma parse_flags_written:
  assumes "toBuffer is_df c = [x0, x1, x2, push_bit 4 (frameRateCode c AND 0x0F) OR 0x0F,
      flagsByte c, ucast (drop_bit 8 (sequenceCounter c)), ucast (sequenceCounter c)] @ rest"
    "frameRateCode c < 16"
  shows "parse_flags (toBuffer is_df c) = default_cdp\<lparr>frameRateCode := frameRateCode c,
     timeCodePresent := timeCodePresent c, ccDataPresent := ccDataPresent c, svcInfoPresent := svcInfoPresent c,
     svcInfoStart := svcInfoStart c, svcInfoChange := svcInfoChange c, svcInfoComplete := svcInfoComplete c,
     captionServiceActive := captionServiceActive c, sequenceCounter := sequenceCounter c\<rparr>"
proof -
  have at: "toBuffer is_df c ! 3 = push_bit 4 (frameRateCode c AND 0x0F) OR 0x0F"
    "toBuffer is_df c ! 4 = flagsByte c"
    "toBuffer is_df c ! 5 = ucast (drop_bit 8 (sequenceCounter c))"
    "toBuffer is_df c ! 6 = ucast (sequenceCounter c)"
    unfolding assms(1) by simp_all
  show ?thesis
    unfolding parse_flags_def Let_def at fresh_flags_bits rate_nibble [OF assms(2)] rd16_or by (rule refl)
qed

text \<open>Each section read at its place, present or not.\<close>

lemma time_step:
  assumes "wf_cdp is_df c" "drop p inp = (if timeCodePresent c then time_section is_df c else []) @ rest" "p \<le> length inp"
    "p + (if timeCodePresent c then 5 else 0) \<le> fs" "timeCodePresent c0 = timeCodePresent c"
    "frameRateCode c0 = frameRateCode c" "timeCode c0 = default_timecode" "\<not> tcFieldFlag c0"
  shows "parse_time inp fs c0 p = Inr (c0\<lparr>tcFieldFlag := tcFieldFlag c, timeCode := timeCode c\<rparr>,
     p + (if timeCodePresent c then 5 else 0))"
proof (cases "timeCodePresent c")
  case True
  then have "wf_time is_df (frameRateCode c) (timeCode c)" using assms(1) by (simp add: wf_cdp_def)
  then show ?thesis using assms True by (simp add: parse_time_section [where rest = rest])
next
  case False
  then have "timeCode c = timeCode c0" "tcFieldFlag c = tcFieldFlag c0"
    using assms(1,7,8) by (simp_all add: wf_cdp_def)
  then show ?thesis using False assms(5) by (simp add: parse_time_def)
qed

lemma cc_step:
  assumes "wf_cdp is_df c" "drop p inp = (if ccDataPresent c then cc_section c else []) @ rest" "p \<le> length inp"
    "p + (if ccDataPresent c then 2 + 3 * length (ccData c) else 0) \<le> fs" "ccDataPresent c0 = ccDataPresent c"
    "ccData c0 = []"
  shows "parse_cc inp fs c0 p = Inr (c0\<lparr>ccData := ccData c\<rparr>,
     p + (if ccDataPresent c then 2 + 3 * length (ccData c) else 0))"
proof (cases "ccDataPresent c")
  case True
  then have "length (ccData c) \<le> 31" "\<forall>d\<in>set (ccData c). cc_type d < 4" using assms(1) by (simp_all add: wf_cdp_def)
  then show ?thesis using assms True by (simp add: parse_cc_section [where rest = rest])
next
  case False
  then have "ccData c = ccData c0" using assms(1,6) by (simp add: wf_cdp_def)
  then show ?thesis using False assms(5) by (simp add: parse_cc_def)
qed

lemma svc_step:
  assumes "wf_cdp is_df c" "drop p inp = (if svcInfoPresent c then svc_section c else []) @ extraBytes c @ rest"
    "p \<le> length inp" "p + (if svcInfoPresent c then 2 + 7 * length (ccSvcInfo c) else 0) + length (extraBytes c) = fs"
    "svcInfoStart c0 = svcInfoStart c" "svcInfoChange c0 = svcInfoChange c" "svcInfoComplete c0 = svcInfoComplete c"
    "ccSvcInfo c0 = []"
  shows "parse_svc inp fs c0 p = Inr (c0\<lparr>ccSvcInfo := ccSvcInfo c\<rparr>,
     p + (if svcInfoPresent c then 2 + 7 * length (ccSvcInfo c) else 0))"
proof (cases "svcInfoPresent c")
  case True
  then have "length (ccSvcInfo c) \<le> 15" "\<forall>e\<in>set (ccSvcInfo c). wf_svc e" using assms(1) by (simp_all add: wf_cdp_def)
  then have "parse_svc inp fs c0 p = Inr (c0\<lparr>svcInfoStart := svcInfoStart c0, svcInfoChange := svcInfoChange c0,
            svcInfoComplete := svcInfoComplete c0, ccSvcInfo := ccSvcInfo c\<rparr>, p + 2 + 7 * length (ccSvcInfo c))"
    using assms True by (simp add: parse_svc_section [where rest = "extraBytes c @ rest"])
  then show ?thesis using True by simp
next
  case False
  then have c: "ccSvcInfo c = ccSvcInfo c0" "2 \<le> length (extraBytes c) \<longrightarrow> hd (extraBytes c) \<noteq> 0x73"
    using assms(1,8) by (simp_all add: wf_cdp_def)
  have no: "\<not> (p + 2 \<le> fs \<and> inp ! p = 0x73)"
  proof
    assume *: "p + 2 \<le> fs \<and> inp ! p = 0x73"
    then have l: "2 \<le> length (extraBytes c)" using False assms(4) by simp
    then have "inp ! p = hd (extraBytes c)"
      using nth_at_offset [OF assms(2,3), of 0] False by (cases "extraBytes c") simp_all
    then show False using c l * by simp
  qed
  show ?thesis unfolding parse_svc_def if_not_P [OF no] using False c by simp
qed

lemma rest_step:
  assumes "drop p inp = extraBytes c @ [0x74, ucast (drop_bit 8 (sequenceCounter c)), ucast (sequenceCounter c), k]"
    "p \<le> length inp" "p + length (extraBytes c) = fs" "sequenceCounter c0 = sequenceCounter c" "extraBytes c0 = []"
  shows "parse_rest inp fs c0 p = Inr (c0\<lparr>extraBytes := extraBytes c\<rparr>)"
proof -
  have "drop fs inp = drop (length (extraBytes c)) (drop p inp)" using assms(3) by (simp add: add.commute)
  also have "\<dots> = [0x74, ucast (drop_bit 8 (sequenceCounter c)), ucast (sequenceCounter c), k]"
    unfolding assms(1) by simp
  finally have dr: "drop fs inp = [0x74, ucast (drop_bit 8 (sequenceCounter c)), ucast (sequenceCounter c), k]" .
  then have le: "fs \<le> length inp" using arg_cong [OF dr, of length] by (cases "fs \<le> length inp") simp_all
  have at: "inp ! fs = 0x74" "inp ! (fs + 1) = ucast (drop_bit 8 (sequenceCounter c))"
    "inp ! (fs + 2) = ucast (sequenceCounter c)"
    using nth_at_offset [OF dr le, of 0] nth_at_offset [OF dr le, of 1] nth_at_offset [OF dr le, of 2]
    by (simp_all add: numeral_2_eq_2)
  have e: "(if p < fs then (c0\<lparr>extraBytes := take (fs - p) (drop p inp)\<rparr>, fs) else (c0, p))
      = (c0\<lparr>extraBytes := extraBytes c\<rparr>, fs)"
    using assms(3,5) by (auto simp: assms(1) intro: cdp.equality)
  show ?thesis unfolding parse_rest_def e using at assms(4) rd16_or [of "sequenceCounter c"] by simp
qed

lemma cdp_roundtrip:
  assumes wf: "wf_cdp is_df c"
  shows "fromBuffer (toBuffer is_df c) = Inr c"
proof -
  define inp where "inp = toBuffer is_df c"
  define t where "t = (if timeCodePresent c then 5 else (0 :: nat))"
  define d where "d = (if ccDataPresent c then 2 + 3 * length (ccData c) else 0)"
  define s where "s = (if svcInfoPresent c then 2 + 7 * length (ccSvcInfo c) else 0)"
  define fs where "fs = 7 + t + d + s + length (extraBytes c)"
  obtain k where inp: "inp = [0x96, 0x69, of_nat (cdp_total c) AND 0xFF,
      push_bit 4 (frameRateCode c AND 0x0F) OR 0x0F,
      flagsByte c, ucast (drop_bit 8 (sequenceCounter c)), ucast (sequenceCounter c)]
    @ cdp_sections is_df c
    @ [0x74, ucast (drop_bit 8 (sequenceCounter c)), ucast (sequenceCounter c), k]"
    unfolding inp_def by (rule toBuffer_split)
  let ?foot = "[0x74, ucast (drop_bit 8 (sequenceCounter c)), ucast (sequenceCounter c), k]"
  let ?T = "if timeCodePresent c then time_section is_df c else []"
  let ?D = "if ccDataPresent c then cc_section c else []"
  let ?S = "if svcInfoPresent c then svc_section c else []"
  have len: "length inp = fs + 4"
    by (simp add: inp_def fs_def t_def d_def s_def cdp_total_def)
  have fs: "length inp - 4 = fs" using len by simp
  have lens: "length ?T = t" "length ?D = d" "length ?S = s" by (simp_all add: t_def d_def s_def)
  have d7: "drop 7 inp = ?T @ ?D @ ?S @ extraBytes c @ ?foot"
    unfolding inp cdp_sections_def by simp
  have "drop (t + 7) inp = drop t (drop 7 inp)" by simp
  also have "\<dots> = ?D @ ?S @ extraBytes c @ ?foot" unfolding d7 using lens by simp
  finally have dt: "drop (7 + t) inp = ?D @ ?S @ extraBytes c @ ?foot" by (simp only: add.commute)
  have "drop (d + (7 + t)) inp = drop d (drop (7 + t) inp)" by simp
  also have "\<dots> = ?S @ extraBytes c @ ?foot" unfolding dt using lens by simp
  finally have dd: "drop (7 + t + d) inp = ?S @ extraBytes c @ ?foot" by (simp only: add.commute)
  have "drop (s + (7 + t + d)) inp = drop s (drop (7 + t + d) inp)" by simp
  also have "\<dots> = extraBytes c @ ?foot" unfolding dd using lens by simp
  finally have ds: "drop (7 + t + d + s) inp = extraBytes c @ ?foot" by (simp only: add.commute)
  define c0 where "c0 = default_cdp\<lparr>frameRateCode := frameRateCode c,
     timeCodePresent := timeCodePresent c, ccDataPresent := ccDataPresent c, svcInfoPresent := svcInfoPresent c,
     svcInfoStart := svcInfoStart c, svcInfoChange := svcInfoChange c, svcInfoComplete := svcInfoComplete c,
     captionServiceActive := captionServiceActive c, sequenceCounter := sequenceCounter c\<rparr>"
  have flags: "parse_flags inp = c0"
    unfolding inp_def c0_def
    by (rule parse_flags_written, use inp inp_def in \<open>simp only: append_Cons append_Nil\<close>) (use wf in \<open>simp add: wf_cdp_def\<close>)
  have time: "parse_time inp fs c0 7 = Inr (c0\<lparr>tcFieldFlag := tcFieldFlag c, timeCode := timeCode c\<rparr>, 7 + t)"
    unfolding t_def by (rule time_step [OF wf d7]) (simp_all add: len fs_def c0_def default_cdp_def flip: t_def)
  let ?c1 = "c0\<lparr>tcFieldFlag := tcFieldFlag c, timeCode := timeCode c\<rparr>"
  have cc: "parse_cc inp fs ?c1 (7 + t) = Inr (?c1\<lparr>ccData := ccData c\<rparr>, 7 + t + d)"
    unfolding d_def by (rule cc_step [OF wf dt]) (simp_all add: len fs_def c0_def default_cdp_def flip: d_def)
  let ?c2 = "?c1\<lparr>ccData := ccData c\<rparr>"
  have svc: "parse_svc inp fs ?c2 (7 + t + d) = Inr (?c2\<lparr>ccSvcInfo := ccSvcInfo c\<rparr>, 7 + t + d + s)"
    unfolding s_def by (rule svc_step [OF wf dd]) (simp_all add: len fs_def c0_def default_cdp_def flip: s_def)
  let ?c3 = "?c2\<lparr>ccSvcInfo := ccSvcInfo c\<rparr>"
  have rest: "parse_rest inp fs ?c3 (7 + t + d + s) = Inr (?c3\<lparr>extraBytes := extraBytes c\<rparr>)"
    by (rule rest_step [OF ds]) (simp_all add: len fs_def c0_def default_cdp_def)
  have final: "?c3\<lparr>extraBytes := extraBytes c\<rparr> = c"
    using wf by (intro cdp.equality) (simp_all add: c0_def default_cdp_def wf_cdp_def)
  have size: "\<not> length inp < 11" by (simp add: len fs_def)
  have ident: "push_bit 8 (ucast (inp ! 0)) OR ucast (inp ! 1) = (0x9669 :: u16)" by (simp add: inp)
  have "cdp_total c \<le> 255" "cdp_total c = length inp" using wf by (simp_all add: wf_cdp_def inp_def)
  then have "of_nat (cdp_total c) AND (0xFF :: byte) = of_nat (length inp) AND mask 8"
    by (simp add: mask_eq_exp_minus_1)
  also have "unat \<dots> = length inp" using \<open>cdp_total c \<le> 255\<close> \<open>cdp_total c = length inp\<close>
    by (simp flip: take_bit_eq_mask add: take_bit_of_nat take_bit_nat_eq_self unsigned_of_nat)
  finally have declared: "unat (inp ! 2) = length inp" by (simp add: inp)
  have sum: "sum_list (map ucast inp :: u32 list) AND 0xFF = 0" unfolding inp_def by (rule cdp_checksum_ok)
  show ?thesis
    unfolding fromBuffer_def Let_def inp_def [symmetric] if_not_P [OF size] ident declared sum fs flags time
    by (simp add: cc svc rest final)
qed

interpretation cdp: wire_codec "toBuffer is_df" fromBuffer "wf_cdp is_df" for is_df
  by unfold_locales (rule cdp_roundtrip)

section \<open>Properties of the packet\<close>

text \<open>C16: Every packet whose fields fit the widths of the SMPTE 334-2 sections survives
  \<open>toBuffer\<close> followed by \<open>fromBuffer\<close> field for field: header flags, time code, caption
  triples, service entries, opaque bytes and sequence counter, with no service mismatch counted.\<close>

theorem cdp_survives_the_wire:
  assumes "wf_cdp is_df c"
  shows "fromBuffer (toBuffer is_df c) = Inr c \<and> length (toBuffer is_df c) = cdp_total c"
  using cdp.dec_enc [OF assms] by simp

theorem cdp_survives_the_wire_witness:
  "fromBuffer (toBuffer (\<lambda>m. m = VTC_FORMAT_29_97_DF)
     ((new_cdp 4 [\<lparr>cc_valid = True, cc_type = 2, cc_b1 = 0x61, cc_b2 = 0x62\<rparr>] 0x1234)
       \<lparr>timeCodePresent := True, tcFieldFlag := True,
        timeCode := \<lparr>tc_mode = VTC_FORMAT_29_97_DF, hour = 13, minute = 59, sec = 58, frame = 29\<rparr>\<rparr>)) =
   Inr ((new_cdp 4 [\<lparr>cc_valid = True, cc_type = 2, cc_b1 = 0x61, cc_b2 = 0x62\<rparr>] 0x1234)
       \<lparr>timeCodePresent := True, tcFieldFlag := True,
        timeCode := \<lparr>tc_mode = VTC_FORMAT_29_97_DF, hour = 13, minute = 59, sec = 58, frame = 29\<rparr>\<rparr>)"
  by (rule cdp_survives_the_wire [THEN conjunct1])
    (simp add: wf_cdp_def wf_time_def new_cdp_def default_cdp_def cdp_total_def modeForFrameRateCode_def)

lemma fromBuffer_sum: "fromBuffer bs = Inr c \<Longrightarrow> byte_sum bs = 0"
  unfolding fromBuffer_def Let_def sum_ok_iff by (auto split: if_splits)

lemma sum_list_update:
  "i < length bs \<Longrightarrow> (\<Sum>b\<leftarrow>bs[i := x]. uint b) = (\<Sum>b\<leftarrow>bs. uint b) - uint (bs ! i) + uint x"
  for x :: byte
  by (induction bs arbitrary: i) (auto split: nat.split)

lemma byte_sum_update:
  assumes "i < length bs" "x \<noteq> bs ! i" "byte_sum bs = 0"
  shows "byte_sum (bs[i := x]) \<noteq> 0"
proof
  assume z: "byte_sum (bs[i := x]) = 0"
  let ?s = "\<Sum>b\<leftarrow>bs. uint b"
  have "(?s - uint (bs ! i) + uint x) mod 256 = 0" "?s mod 256 = 0"
    using z assms(3) by (simp_all add: byte_sum_def sum_list_update [OF assms(1)])
  then have "256 dvd ?s + (uint x - uint (bs ! i))" "256 dvd ?s" by (simp_all add: algebra_simps dvd_eq_mod_eq_0)
  then have "256 dvd uint x - uint (bs ! i)" by (simp add: dvd_add_right_iff)
  moreover have "uint x < 256" "uint (bs ! i) < 256" "0 \<le> uint x" "0 \<le> uint (bs ! i)"
    using uint_lt2p [of x] uint_lt2p [of "bs ! i"] by simp_all
  moreover obtain k where "uint x - uint (bs ! i) = 256 * k" using calculation(1) by (rule dvdE)
  ultimately have "k < 1" "- 1 < k" by linarith+
  then have "uint x = uint (bs ! i)" using \<open>uint x - uint (bs ! i) = 256 * k\<close> by simp
  then show False using assms(2) by (simp add: word_uint_eq_iff)
qed

text \<open>One changed byte anywhere in an accepted packet, header, payload or checksum, and
  \<open>fromBuffer\<close> answers \<open>CorruptData\<close>.\<close>

theorem cdp_byte_change_rejected:
  assumes "fromBuffer bs = Inr c" "i < length bs" "x \<noteq> bs ! i"
  shows "fromBuffer (bs[i := x]) = Inl CorruptData"
  using byte_sum_update [OF assms(2,3) fromBuffer_sum [OF assms(1)]]
  unfolding fromBuffer_def Let_def sum_ok_iff by (auto split: if_splits)

theorem cdp_byte_change_rejected_witness:
  "fromBuffer ([0x96, 0x69, 0x0B, 0x4F, 0x01, 0, 0, 0x74, 0, 0, 0x32][4 := 0x81]) = Inl CorruptData"
  by (rule cdp_byte_change_rejected [where c = "default_cdp\<lparr>frameRateCode := 4\<rparr>"])
    (simp_all add: fromBuffer_def parse_flags_def parse_time_def parse_cc_def parse_svc_def parse_rest_def
      Let_def default_cdp_def)

text \<open>More triples than the five-bit count can hold.\<close>

lemma count_low_bits: "of_nat n AND (0x1F :: byte) = of_nat (n mod 32) AND 0x1F"
proof -
  have "(of_nat n :: byte) AND mask 5 = of_nat (n mod 32) AND mask 5"
    unfolding take_bit_eq_mask [symmetric] take_bit_of_nat by (simp add: take_bit_eq_mod)
  then show ?thesis by (simp add: mask_eq_exp_minus_1)
qed

lemma cc_overflow_wire:
  assumes "c' = c\<lparr>ccData := take (length (ccData c) mod 32) (ccData c),
      extraBytes := concat (map cc_triple (drop (length (ccData c) mod 32) (ccData c))) @ extraBytes c\<rparr>"
    "ccDataPresent c" "\<not> svcInfoPresent c"
  shows "toBuffer is_df c = toBuffer is_df c'"
proof -
  let ?k = "length (ccData c) mod 32"
  have k: "?k \<le> length (ccData c)" by (rule mod_less_eq_dividend)
  have cc: "cc_section c @ extraBytes c = cc_section c' @ extraBytes c'"
  proof -
    have "concat (map cc_triple (ccData c))
        = concat (map cc_triple (take ?k (ccData c))) @ concat (map cc_triple (drop ?k (ccData c)))"
      by (simp flip: concat_append map_append)
    then show ?thesis
      using k by (simp add: cc_section_def assms(1) count_low_bits [of "length (ccData c)"] min_absorb2)
  qed
  have total: "cdp_total c' = cdp_total c"
    using assms k by (simp add: cdp_total_def length_concat_uniform [of _ 3] cc_triple_def min_absorb2 distrib_left diff_mult_distrib2)
  have "flagsByte c' = flagsByte c" "time_section is_df c' = time_section is_df c"
    by (simp_all add: assms(1) flagsByte_def time_section_def)
  then have "cdp_body is_df c' = cdp_body is_df c"
    using cc assms(2,3) unfolding cdp_body_def total by (simp add: assms(1))
  then show ?thesis by (simp add: toBuffer_def)
qed

text \<open>\<open>toBuffer\<close> checks no bound on the triples: with 32 or more it writes them all behind a
  count of \<open>n mod 32\<close>, so a receiver reads back only the first \<open>n mod 32\<close> triples and gets the others
  as opaque section bytes. Nothing on the way reports an error.\<close>

theorem cdp_cc_count_overflow:
  assumes "ccDataPresent c" "\<not> svcInfoPresent c" "ccSvcInfo c = []" "svcInfoMismatches c = 0"
    "32 \<le> length (ccData c)" "cdp_total c \<le> 255" "frameRateCode c < 16" "\<forall>d\<in>set (ccData c). cc_type d < 4"
    "\<not> timeCodePresent c" "timeCode c = default_timecode" "\<not> tcFieldFlag c"
  shows "fromBuffer (toBuffer is_df c) =
      Inr (c\<lparr>ccData := take (length (ccData c) mod 32) (ccData c),
        extraBytes := concat (map cc_triple (drop (length (ccData c) mod 32) (ccData c))) @ extraBytes c\<rparr>)
    \<and> fromBuffer (toBuffer is_df c) \<noteq> Inr c"
proof -
  let ?k = "length (ccData c) mod 32"
  define c' where "c' = c\<lparr>ccData := take ?k (ccData c),
    extraBytes := concat (map cc_triple (drop ?k (ccData c))) @ extraBytes c\<rparr>"
  have k: "?k < 32" "?k < length (ccData c)" using assms(5) by (simp, meson less_le_trans mod_less_divisor zero_less_numeral)
  then obtain d ds where d: "drop ?k (ccData c) = d # ds" by (metis Cons_nth_drop_Suc)
  have total: "cdp_total c' = cdp_total c"
    using arg_cong [OF cc_overflow_wire [OF c'_def assms(1,2), of is_df], of length] by simp
  have "0xF8 OR (if cc_valid d then 0x04 else 0) OR (cc_type d AND 0x03) \<noteq> (0x73 :: byte)"
  proof
    assume "0xF8 OR (if cc_valid d then 0x04 else 0) OR (cc_type d AND 0x03) = (0x73 :: byte)"
    then have "bit (0xF8 OR (if cc_valid d then 0x04 else 0) OR (cc_type d AND 0x03) :: byte) 7 = bit (0x73 :: byte) 7"
      by (rule arg_cong)
    then show False by (simp add: bit_simps)
  qed
  then have hd: "hd (extraBytes c') \<noteq> 0x73" by (simp add: c'_def d cc_triple_def)
  have "wf_cdp is_df c'"
    unfolding wf_cdp_def total using assms k hd
    by (auto simp: c'_def dest: in_set_takeD)
  then have rt: "fromBuffer (toBuffer is_df c') = Inr c'" by (rule cdp.dec_enc)
  have "length (ccData c') \<noteq> length (ccData c)" using k by (simp add: c'_def)
  then have "c' \<noteq> c" by auto
  then show ?thesis using rt cc_overflow_wire [OF c'_def assms(1,2), of is_df] by (simp add: c'_def)
qed

theorem cdp_cc_count_overflow_witness:
  "fromBuffer (toBuffer (\<lambda>m. False)
     (new_cdp 4 (replicate 32 \<lparr>cc_valid = True, cc_type = 2, cc_b1 = 0x61, cc_b2 = 0x62\<rparr>) 7)) =
   Inr ((new_cdp 4 [] 7)\<lparr>ccDataPresent := True, captionServiceActive := True,
     extraBytes := concat (replicate 32 [0xFE, 0x61, 0x62])\<rparr>)"
proof -
  have r: "replicate 32 x = x # replicate 31 x" for x :: cc_data by (simp add: numeral_eq_Suc)
  have r': "replicate 32 x = x # replicate 31 x" for x :: "byte list" by (simp add: numeral_eq_Suc)
  show ?thesis
    using cdp_cc_count_overflow [where is_df = "\<lambda>m. False" and
        c = "new_cdp 4 (replicate 32 \<lparr>cc_valid = True, cc_type = 2, cc_b1 = 0x61, cc_b2 = 0x62\<rparr>) 7"]
    by (simp add: new_cdp_def default_cdp_def cdp_total_def map_replicate cc_triple_def r r')
qed

end
