(* ===== verification/RtpTracker.thy ===== *)
theory RtpTracker
  imports Prelude "HOL-Library.Signed_Division"
begin

text \<open>
  \<open>src/network/rtpseqtracker.cpp\<close>: the RFC 3550 A.1 source validation (probation, cycles, the
  \<open>bad_seq\<close> restart heuristic), the A.8 jitter estimator and the counters of the receiver reports.
  One definition per member function, one record field per data member; the mutex is not modelled
  because every public member holds it for its whole body. \<open>observe\<close> is cut along its three
  exits (probation, restart candidate, accepted). Time stamps are nanosecond counts.
\<close>

unbundle bit_operations_syntax

section \<open>State\<close>

record tracker =
  initialised :: bool
  probation :: nat
  baseSeq :: u16
  maxSeq :: u16
  badSeq :: u32
  cycles :: u32
  received :: u32
  expectedPrior :: u32
  receivedPrior :: u32
  duplicates :: u32
  reordered :: u32
  fractionLost :: byte
  clockRateHz :: u32
  jitter :: u32
  haveJitterPrev :: bool
  prevTransit :: u32

record observe_result =
  r_probation :: bool
  r_duplicate :: bool
  r_ssrcInit :: bool
  r_extendedSeq :: u32
  r_jitter :: u32

record tracker_stats =
  s_extendedHighestSeq :: u32
  s_cycles :: u32
  s_cumulativeLost :: int
  s_fractionLost :: byte
  s_expectedPackets :: u32
  s_receivedPackets :: u32
  s_duplicatePackets :: u32
  s_reorderedPackets :: u32
  s_interarrivalJitter :: u32

definition MinSequential :: nat where "MinSequential = 2"
definition MaxDropout :: u32 where "MaxDropout = 32768"
definition MaxMisorder :: u32 where "MaxMisorder = 1000"
definition SeqMod :: u32 where "SeqMod = 0x10000"

definition new_tracker :: tracker where
  "new_tracker =
     \<lparr>initialised = False, probation = MinSequential, baseSeq = 0, maxSeq = 0, badSeq = SeqMod + 1,
      cycles = 0, received = 0, expectedPrior = 0, receivedPrior = 0, duplicates = 0, reordered = 0,
      fractionLost = 0, clockRateHz = 0, jitter = 0, haveJitterPrev = False, prevTransit = 0\<rparr>"

section \<open>Operations\<close>

definition initSourceLocked :: "u16 \<Rightarrow> tracker \<Rightarrow> tracker" where
  "initSourceLocked seq t =
     t\<lparr>baseSeq := seq, maxSeq := seq, badSeq := SeqMod + 1, cycles := 0, received := 0,
       receivedPrior := 0, expectedPrior := 0, duplicates := 0, reordered := 0, fractionLost := 0,
       haveJitterPrev := False, prevTransit := 0, jitter := 0\<rparr>"

definition initSource :: "u16 \<Rightarrow> u32 \<Rightarrow> tracker \<Rightarrow> tracker" where
  "initSource seq rate t =
     (initSourceLocked seq (t\<lparr>clockRateHz := rate\<rparr>))
       \<lparr>maxSeq := seq - 1, probation := MinSequential, initialised := True\<rparr>"

text \<open>Arrival in RTP clock units: 64-bit arithmetic with C division, cut to 32 bits.\<close>

definition arrival_units :: "u32 \<Rightarrow> int \<Rightarrow> u32" where
  "arrival_units rate ns =
     word_of_int ((ns sdiv 1000000000) * uint rate + ((ns smod 1000000000) * uint rate) sdiv 1000000000)"

definition updateJitterLocked :: "u32 \<Rightarrow> int \<Rightarrow> tracker \<Rightarrow> tracker" where
  "updateJitterLocked rtpTs ns t =
     (if clockRateHz t = 0 then t
      else let transit = arrival_units (clockRateHz t) ns - rtpTs in
        if \<not> haveJitterPrev t then t\<lparr>prevTransit := transit, haveJitterPrev := True\<rparr>
        else let d = sint (transit - prevTransit t);
                 absD = word_of_int \<bar>d\<bar>
             in t\<lparr>prevTransit := transit, jitter := jitter t + drop_bit 4 (absD - jitter t)\<rparr>)"

definition extended :: "tracker \<Rightarrow> u16 \<Rightarrow> u32" where
  "extended t seq = cycles t OR ucast seq"

text \<open>The \<open>_probation > 0\<close> exit.\<close>

definition observe_probation :: "u16 \<Rightarrow> u32 \<Rightarrow> int \<Rightarrow> bool \<Rightarrow> tracker \<Rightarrow> tracker \<times> observe_result" where
  "observe_probation seq rtpTs ns fresh t =
     (if seq = maxSeq t + 1 \<and> probation t = 1
      then let t' = updateJitterLocked rtpTs ns ((initSourceLocked seq (t\<lparr>probation := 0\<rparr>))\<lparr>received := 1\<rparr>)
           in (t', \<lparr>r_probation = False, r_duplicate = False, r_ssrcInit = fresh,
                    r_extendedSeq = ucast seq, r_jitter = jitter t'\<rparr>)
      else let t1 = (if seq = maxSeq t + 1 then t\<lparr>probation := probation t - 1, maxSeq := seq\<rparr>
                     else t\<lparr>probation := MinSequential - 1, maxSeq := seq\<rparr>);
               t' = updateJitterLocked rtpTs ns t1
           in (t', \<lparr>r_probation = True, r_duplicate = False, r_ssrcInit = fresh,
                    r_extendedSeq = extended t' seq, r_jitter = jitter t'\<rparr>))"

text \<open>A jump outside both windows: the second packet at the new place restarts the source, the first
  is only remembered.\<close>

definition observe_jump :: "u16 \<Rightarrow> u32 \<Rightarrow> int \<Rightarrow> bool \<Rightarrow> tracker \<Rightarrow> tracker \<times> observe_result" where
  "observe_jump seq rtpTs ns fresh t =
     (if ucast seq = badSeq t
      then let t' = updateJitterLocked rtpTs ns
                      ((initSourceLocked seq t)\<lparr>maxSeq := seq, initialised := True, probation := 0, received := 1\<rparr>)
           in (t', \<lparr>r_probation = False, r_duplicate = False, r_ssrcInit = True,
                    r_extendedSeq = ucast seq, r_jitter = jitter t'\<rparr>)
      else let t' = t\<lparr>badSeq := (ucast seq + 1) AND (SeqMod - 1)\<rparr>
           in (t', \<lparr>r_probation = False, r_duplicate = True, r_ssrcInit = fresh,
                    r_extendedSeq = extended t' seq, r_jitter = jitter t'\<rparr>))"

definition observe_accept :: "u16 \<Rightarrow> u32 \<Rightarrow> int \<Rightarrow> bool \<Rightarrow> tracker \<Rightarrow> tracker \<times> observe_result" where
  "observe_accept seq rtpTs ns fresh t =
     (let t' = updateJitterLocked rtpTs ns (t\<lparr>received := received t + 1\<rparr>)
      in (t', \<lparr>r_probation = False, r_duplicate = False, r_ssrcInit = fresh,
               r_extendedSeq = extended t' seq, r_jitter = jitter t'\<rparr>))"

definition observe :: "u16 \<Rightarrow> u32 \<Rightarrow> int \<Rightarrow> tracker \<Rightarrow> tracker \<times> observe_result" where
  "observe seq rtpTs ns t0 =
     (let fresh = (\<not> initialised t0);
          t = (if fresh then (initSourceLocked seq t0)\<lparr>maxSeq := seq - 1, probation := MinSequential, initialised := True\<rparr>
               else t0);
          udelta = (ucast (seq - maxSeq t) :: u32)
      in if 0 < probation t then observe_probation seq rtpTs ns fresh t
         else if udelta < MaxDropout
           then observe_accept seq rtpTs ns fresh
                  ((if seq < maxSeq t then t\<lparr>cycles := cycles t + SeqMod\<rparr> else t)\<lparr>maxSeq := seq\<rparr>)
         else if udelta \<le> SeqMod - MaxMisorder then observe_jump seq rtpTs ns fresh t
         else observe_accept seq rtpTs ns fresh (t\<lparr>reordered := reordered t + 1\<rparr>))"

definition extendedHighest :: "tracker \<Rightarrow> u32" where
  "extendedHighest t = cycles t OR ucast (maxSeq t)"

definition zero_stats :: tracker_stats where
  "zero_stats =
     \<lparr>s_extendedHighestSeq = 0, s_cycles = 0, s_cumulativeLost = 0, s_fractionLost = 0,
      s_expectedPackets = 0, s_receivedPackets = 0, s_duplicatePackets = 0, s_reorderedPackets = 0,
      s_interarrivalJitter = 0\<rparr>"

definition snapshot :: "tracker \<Rightarrow> tracker_stats" where
  "snapshot t =
     (if received t = 0 then zero_stats\<lparr>s_cycles := cycles t\<rparr>
      else let expected = extendedHighest t + 1 - ucast (baseSeq t);
               lost = uint expected - uint (received t)
           in \<lparr>s_extendedHighestSeq = extendedHighest t, s_cycles = cycles t,
               s_cumulativeLost = max (- 0x800000) (min 0x7FFFFF lost),
               s_fractionLost = fractionLost t, s_expectedPackets = expected,
               s_receivedPackets = received t, s_duplicatePackets = duplicates t,
               s_reorderedPackets = reordered t, s_interarrivalJitter = jitter t\<rparr>)"

definition commitRrInterval :: "tracker \<Rightarrow> tracker" where
  "commitRrInterval t =
     (let expected = extendedHighest t + 1 - ucast (baseSeq t);
          expectedInterval = expected - expectedPrior t;
          receivedInterval = received t - receivedPrior t
      in t\<lparr>expectedPrior := expected, receivedPrior := received t,
           fractionLost :=
             (if expectedInterval = 0 \<or> expectedInterval < receivedInterval then 0
              else ucast (push_bit 8 (expectedInterval - receivedInterval) div expectedInterval))\<rparr>)"

definition reset_tracker :: "tracker \<Rightarrow> tracker" where
  "reset_tracker t =
     t\<lparr>initialised := False, probation := MinSequential, baseSeq := 0, maxSeq := 0, badSeq := SeqMod + 1,
       cycles := 0, received := 0, expectedPrior := 0, receivedPrior := 0, duplicates := 0, reordered := 0,
       fractionLost := 0, jitter := 0, haveJitterPrev := False, prevTransit := 0\<rparr>"

definition setClockRateHz :: "u32 \<Rightarrow> tracker \<Rightarrow> tracker" where
  "setClockRateHz rate t = t\<lparr>clockRateHz := rate\<rparr>"

section \<open>The tracker as a state machine\<close>

text \<open>What a client can call, and the states a fresh tracker reaches.\<close>

inductive tracker_reach :: "tracker \<Rightarrow> bool" where
  fresh: "tracker_reach new_tracker"
| packet: "tracker_reach t \<Longrightarrow> tracker_reach (fst (observe seq rtpTs ns t))"
| source: "tracker_reach t \<Longrightarrow> tracker_reach (initSource seq rate t)"
| report: "tracker_reach t \<Longrightarrow> tracker_reach (commitRrInterval t)"
| fresh_ssrc: "tracker_reach t \<Longrightarrow> tracker_reach (reset_tracker t)"
| rate: "tracker_reach t \<Longrightarrow> tracker_reach (setClockRateHz rate t)"

definition tracker_inv :: "tracker \<Rightarrow> bool" where
  "tracker_inv t \<longleftrightarrow>
     take_bit 16 (cycles t) = 0 \<and> duplicates t = 0 \<and> probation t \<le> MinSequential \<and>
     (badSeq t < SeqMod \<or> badSeq t = SeqMod + 1) \<and>
     (\<not> initialised t \<longrightarrow> probation t = MinSequential) \<and>
     (0 < probation t \<longrightarrow> received t = 0 \<and> cycles t = 0 \<and> reordered t = 0)"

lemma jitter_keeps [simp]:
  "cycles (updateJitterLocked rtpTs ns t) = cycles t" "duplicates (updateJitterLocked rtpTs ns t) = duplicates t"
  "probation (updateJitterLocked rtpTs ns t) = probation t" "badSeq (updateJitterLocked rtpTs ns t) = badSeq t"
  "initialised (updateJitterLocked rtpTs ns t) = initialised t" "received (updateJitterLocked rtpTs ns t) = received t"
  "reordered (updateJitterLocked rtpTs ns t) = reordered t" "maxSeq (updateJitterLocked rtpTs ns t) = maxSeq t"
  "baseSeq (updateJitterLocked rtpTs ns t) = baseSeq t"
  by (simp_all add: updateJitterLocked_def Let_def)

lemma tracker_inv_jitter [simp]: "tracker_inv (updateJitterLocked rtpTs ns t) = tracker_inv t"
  by (simp add: tracker_inv_def)

lemma cycles_step: "take_bit 16 c = 0 \<Longrightarrow> take_bit 16 (c + SeqMod) = 0" for c :: u32
proof -
  have iff: "take_bit 16 w = 0 \<longleftrightarrow> uint w mod 65536 = 0" for w :: u32
  proof -
    have "uint (take_bit 16 w) = uint w mod 65536" by (simp only: unsigned_take_bit_eq) (simp add: take_bit_eq_mod)
    then show ?thesis by (metis uint_0_iff)
  qed
  assume "take_bit 16 c = 0"
  then show ?thesis by (simp add: iff SeqMod_def uint_word_ariths mod_mod_cancel)
qed

lemma badSeq_bound: "(ucast seq + 1) AND (SeqMod - 1) < (SeqMod :: u32)" for seq :: u16
proof -
  have m: "SeqMod - 1 = (mask 16 :: u32)" by (simp add: SeqMod_def mask_eq_exp_minus_1)
  have "x AND mask 16 < 2 ^ 16" for x :: u32 by (rule and_mask_less') simp
  then show ?thesis unfolding m by (simp add: SeqMod_def)
qed

lemma tracker_inv_observe:
  assumes "tracker_inv t"
  shows "tracker_inv (fst (observe seq rtpTs ns t))"
proof -
  have "tracker_inv ((initSourceLocked seq t)\<lparr>maxSeq := m, probation := MinSequential, initialised := True\<rparr>)" for m
    by (simp add: tracker_inv_def initSourceLocked_def)
  moreover have "tracker_inv (fst (observe_probation seq rtpTs ns f u))" if "tracker_inv u" "0 < probation u" "initialised u" for f u
    using that by (auto simp: observe_probation_def Let_def initSourceLocked_def tracker_inv_def MinSequential_def)
  moreover have "tracker_inv (fst (observe_jump seq rtpTs ns f u))" if "tracker_inv u" for f u
    using that by (auto simp: observe_jump_def Let_def initSourceLocked_def tracker_inv_def badSeq_bound)
  moreover have "tracker_inv (fst (observe_accept seq rtpTs ns f u))" if "tracker_inv u" "probation u = 0" for f u
    using that by (auto simp: observe_accept_def Let_def tracker_inv_def)
  moreover have "tracker_inv ((if seq < maxSeq u then u\<lparr>cycles := cycles u + SeqMod\<rparr> else u)\<lparr>maxSeq := seq\<rparr>)"
    if "tracker_inv u" "probation u = 0" for u
    using that by (auto simp: tracker_inv_def cycles_step)
  moreover have "tracker_inv (u\<lparr>reordered := reordered u + 1\<rparr>)" if "tracker_inv u" "probation u = 0" for u
    using that by (auto simp: tracker_inv_def)
  ultimately show ?thesis
    using assms by (auto simp: observe_def Let_def)
qed

lemma tracker_inv_reach: "tracker_reach t \<Longrightarrow> tracker_inv t"
proof (induction rule: tracker_reach.induct)
  case (packet t seq rtpTs ns)
  then show ?case by (simp add: tracker_inv_observe)
qed (simp_all add: tracker_inv_def new_tracker_def initSource_def initSourceLocked_def commitRrInterval_def
    reset_tracker_def setClockRateHz_def Let_def MinSequential_def)

lemma or_low_is_plus:
  fixes c :: u32 and s :: u16
  assumes "take_bit 16 c = 0"
  shows "c OR ucast s = c + ucast s"
proof -
  have "c AND ucast s = 0"
  proof (rule bit_word_eqI)
    fix n assume "n < LENGTH(32)"
    have "\<not> bit c n" if "n < 16" using arg_cong [OF assms, of "\<lambda>w. bit w n"] that by (simp add: bit_take_bit_iff)
    then show "bit (c AND ucast s) n = bit (0 :: u32) n"
      using bit_imp_le_length [of s n] by (auto simp: bit_and_iff bit_ucast_iff)
  qed
  then show ?thesis by (rule disjunctive_add_eq_or [symmetric])
qed

lemma extendedHighest_plus: "tracker_inv t \<Longrightarrow> extendedHighest t = cycles t + ucast (maxSeq t)"
  by (simp add: extendedHighest_def tracker_inv_def or_low_is_plus)

section \<open>Packets that move forward\<close>

lemma uint_ucast_16_32 [simp]: "uint (ucast (s :: u16) :: u32) = uint s"
  using uint_lt2p [of s] by (simp add: unsigned_ucast_eq take_bit_int_eq_self)

lemma unat_ucast_16_32 [simp]: "unat (ucast (s :: u16) :: u32) = unat s"
  using uint_ucast_16_32 [of s] by (metis nat_uint_eq)

lemma uint_diff_wrap:
  fixes s m :: u16
  shows "uint (s - m) = uint s - uint m + (if s < m then 65536 else 0)"
proof (cases "s < m")
  case True
  then have "uint s < uint m" by (simp add: word_less_def)
  moreover have "uint m < 65536" "0 \<le> uint s" using uint_lt2p [of m] by simp_all
  ultimately have *: "0 \<le> uint s - uint m + 65536" "uint s - uint m + 65536 < 65536" by linarith+
  have "uint (s - m) = (uint s - uint m) mod 65536" by (simp add: uint_word_ariths)
  also have "\<dots> = (uint s - uint m + 65536) mod 65536" by simp
  also have "\<dots> = uint s - uint m + 65536" by (rule mod_pos_pos_trivial [OF *])
  finally show ?thesis using True by simp
next
  case False
  then have "m \<le> s" by simp
  then show ?thesis using False by (simp add: uint_sub_lem word_le_def)
qed

lemma forward_extended:
  fixes c :: u32 and m s :: u16
  shows "(if s < m then c + SeqMod else c) + ucast s = c + ucast m + (ucast (s - m) :: u32)"
proof -
  have w: "(word_of_int 65536 :: u32) = SeqMod" by (simp add: SeqMod_def)
  have "word_of_int (uint s - uint m + (if s < m then 65536 else 0))
      = (word_of_int (uint s) - word_of_int (uint m) + (if s < m then SeqMod else 0) :: u32)"
    unfolding wi_hom_add [symmetric] wi_hom_sub [symmetric] w [symmetric] by (cases "s < m") simp_all
  then have d: "(ucast (s - m) :: u32) = ucast s - ucast m + (if s < m then SeqMod else 0)"
    unfolding ucast_eq uint_diff_wrap .
  show ?thesis unfolding d by (cases "s < m") simp_all
qed

lemma observe_forward:
  assumes "tracker_inv t" "initialised t" "probation t = 0" "uint (seq - maxSeq t) < 32768"
    "(t', r) = observe seq rtpTs ns t"
  shows "extendedHighest t' = extendedHighest t + ucast (seq - maxSeq t)" "r_extendedSeq r = extendedHighest t'"
    "received t' = received t + 1" "maxSeq t' = seq" "baseSeq t' = baseSeq t" "reordered t' = reordered t"
    "tracker_inv t'" "initialised t'" "probation t' = 0" "\<not> r_duplicate r" "\<not> r_probation r" "\<not> r_ssrcInit r"
proof -
  have small: "(ucast (seq - maxSeq t) :: u32) < MaxDropout" using assms(4) by (simp add: word_less_def MaxDropout_def)
  have e: "(t', r) = observe_accept seq rtpTs ns False
      ((if seq < maxSeq t then t\<lparr>cycles := cycles t + SeqMod\<rparr> else t)\<lparr>maxSeq := seq\<rparr>)"
    using assms(2,3,5) small by (simp add: observe_def)
  show inv: "tracker_inv t'" using tracker_inv_observe [OF assms(1)] assms(5) by (metis fst_conv)
  have f: "cycles t' = (if seq < maxSeq t then cycles t + SeqMod else cycles t)" "maxSeq t' = seq"
    using e by (simp_all add: observe_accept_def Let_def)
  then show "extendedHighest t' = extendedHighest t + ucast (seq - maxSeq t)"
    using extendedHighest_plus [OF inv] extendedHighest_plus [OF assms(1)] forward_extended [of seq "maxSeq t" "cycles t"]
    by simp
  show "r_extendedSeq r = extendedHighest t'" "maxSeq t' = seq"
    using e by (simp_all add: observe_accept_def Let_def extended_def extendedHighest_def)
  show "received t' = received t + 1" "baseSeq t' = baseSeq t" "reordered t' = reordered t"
    "initialised t'" "probation t' = 0" "\<not> r_duplicate r" "\<not> r_probation r" "\<not> r_ssrcInit r"
    using e assms(2,3) by (simp_all add: observe_accept_def Let_def)
qed

text \<open>A source that is delivered in order and without gaps.\<close>

primrec deliver :: "(u32 \<times> int) list \<Rightarrow> u16 \<Rightarrow> tracker \<Rightarrow> tracker" where
  "deliver [] seq t = t"
| "deliver (x # xs) seq t = deliver xs (seq + 1) (fst (observe seq (fst x) (snd x) t))"

lemma deliver_steady:
  assumes "tracker_inv t" "initialised t" "probation t = 0" "seq = maxSeq t + 1"
    "extendedHighest t + 1 - ucast (baseSeq t) = received t" "reordered t = 0"
  shows "extendedHighest (deliver xs seq t) + 1 - ucast (baseSeq (deliver xs seq t)) = received (deliver xs seq t)
    \<and> received (deliver xs seq t) = received t + of_nat (length xs) \<and> reordered (deliver xs seq t) = 0"
  using assms
proof (induction xs arbitrary: seq t)
  case Nil
  then show ?case by simp
next
  case (Cons x xs)
  obtain t' r where o: "(t', r) = observe seq (fst x) (snd x) t" by (metis prod.collapse)
  have "uint (seq - maxSeq t) < 32768" "ucast (seq - maxSeq t) = (1 :: u32)" using Cons.prems(4) by simp_all
  note f = observe_forward [OF Cons.prems(1-3) this(1) o]
  have "extendedHighest t' + 1 - ucast (baseSeq t') = received t'"
    using Cons.prems(5) f \<open>ucast (seq - maxSeq t) = 1\<close> by (simp add: algebra_simps)
  moreover have "seq + 1 = maxSeq t' + 1" "reordered t' = 0" using f Cons.prems(6) by simp_all
  ultimately have ih: "extendedHighest (deliver xs (seq + 1) t') + 1 - ucast (baseSeq (deliver xs (seq + 1) t'))
      = received (deliver xs (seq + 1) t')
    \<and> received (deliver xs (seq + 1) t') = received t' + of_nat (length xs) \<and> reordered (deliver xs (seq + 1) t') = 0"
    by (intro Cons.IH [OF f(7,8,9)])
  have "deliver (x # xs) seq t = deliver xs (seq + 1) t'" by (simp flip: o)
  then show ?case using ih f(3) by simp
qed

lemma deliver_fresh:
  assumes "\<not> initialised t" and t'_def: "t' = deliver (x # y # xs) seq t"
  shows "extendedHighest t' + 1 - ucast (baseSeq t') = received t' \<and> received t' = of_nat (length xs + 1) \<and> reordered t' = 0"
proof -
  let ?t1 = "fst (observe seq (fst x) (snd x) t)" and ?t2 = "fst (observe (seq + 1) (fst y) (snd y) (fst (observe seq (fst x) (snd x) t)))"
  have t1: "initialised ?t1" "probation ?t1 = 1" "maxSeq ?t1 = seq"
    using assms(1) by (simp_all add: observe_def Let_def observe_probation_def MinSequential_def initSourceLocked_def)
  have t2: "?t2 = updateJitterLocked (fst y) (snd y) ((initSourceLocked (seq + 1) (?t1\<lparr>probation := 0\<rparr>))\<lparr>received := 1\<rparr>)"
    using t1 by (simp add: observe_def Let_def observe_probation_def)
  have "tracker_inv ?t2" "initialised ?t2" "probation ?t2 = 0" "seq + 1 + 1 = maxSeq ?t2 + 1"
    "extendedHighest ?t2 + 1 - ucast (baseSeq ?t2) = received ?t2" "reordered ?t2 = 0" "received ?t2 = 1"
    unfolding t2 by (simp_all add: initSourceLocked_def tracker_inv_def t1 extendedHighest_def)
  from deliver_steady [OF this(1-6), of xs] this(7) show ?thesis
    by (simp add: t'_def add.commute)
qed

section \<open>Properties of the tracker\<close>

text \<open>In every state a tracker can be brought to, the cycle count is a multiple of 65536, so the
  extended highest sequence number it reports is the plain sum of cycles and 16-bit sequence number;
  while a source is on probation nothing is counted; and \<open>duplicates\<close> is still zero, although the
  header promises the count of sequence numbers seen more than once.\<close>

theorem tracker_reachable_counters:
  assumes "tracker_reach t"
  shows "uint (cycles t) mod 65536 = 0 \<and> extendedHighest t = cycles t + ucast (maxSeq t) \<and>
    (0 < probation t \<longrightarrow> received t = 0 \<and> cycles t = 0 \<and> reordered t = 0) \<and> s_duplicatePackets (snapshot t) = 0"
proof (intro conjI)
  have inv: "tracker_inv t" using assms by (rule tracker_inv_reach)
  have "uint (take_bit 16 (cycles t)) = uint (cycles t) mod 65536"
    by (simp only: unsigned_take_bit_eq) (simp add: take_bit_eq_mod)
  then show "uint (cycles t) mod 65536 = 0" using inv by (simp add: tracker_inv_def)
  show "extendedHighest t = cycles t + ucast (maxSeq t)" using inv by (rule extendedHighest_plus)
  show "0 < probation t \<longrightarrow> received t = 0 \<and> cycles t = 0 \<and> reordered t = 0" "s_duplicatePackets (snapshot t) = 0"
    using inv by (simp_all add: tracker_inv_def snapshot_def zero_stats_def Let_def)
qed

theorem tracker_reachable_counters_witness:
  "uint (cycles (fst (observe 7 0 0 new_tracker))) mod 65536 = 0"
  using tracker_reachable_counters [of "fst (observe 7 0 0 new_tracker)"] by (blast intro: tracker_reach.intros)

text \<open>A packet up to 32767 sequence numbers ahead of the highest one moves the extended highest
  number forward by exactly that distance, across any wrap of the 16-bit counter; it counts as one
  received packet and is reported under that number.\<close>

theorem observe_forward_extends:
  assumes "tracker_reach t" "initialised t" "probation t = 0" "uint (seq - maxSeq t) < 32768"
  shows "extendedHighest (fst (observe seq rtpTs ns t)) = extendedHighest t + ucast (seq - maxSeq t)
    \<and> r_extendedSeq (snd (observe seq rtpTs ns t)) = extendedHighest t + ucast (seq - maxSeq t)
    \<and> received (fst (observe seq rtpTs ns t)) = received t + 1 \<and> \<not> r_duplicate (snd (observe seq rtpTs ns t))"
  using observe_forward [OF tracker_inv_reach [OF assms(1)] assms(2-4) prod.collapse] by simp

lemma two_then_running:
  "tracker_reach (deliver [(0, 0), (0, 0)] 65534 new_tracker)" "initialised (deliver [(0, 0), (0, 0)] 65534 new_tracker)"
  "probation (deliver [(0, 0), (0, 0)] 65534 new_tracker) = 0" "maxSeq (deliver [(0, 0), (0, 0)] 65534 new_tracker) = 65535"
  "cycles (deliver [(0, 0), (0, 0)] 65534 new_tracker) = 0"
  by (auto intro: tracker_reach.intros)
    (simp_all add: observe_def observe_probation_def new_tracker_def initSourceLocked_def Let_def MinSequential_def)

theorem observe_forward_extends_witness:
  "r_extendedSeq (snd (observe 4 9 9 (deliver [(0, 0), (0, 0)] 65534 new_tracker))) = 65540"
proof -
  define u where "u = deliver [(0, 0), (0, 0)] 65534 new_tracker"
  note u = two_then_running [folded u_def]
  show ?thesis
    using observe_forward_extends [OF u(1-3), of 4 9 9] unfolding u_def [symmetric]
    by (simp add: u(4,5) extendedHighest_def)
qed

text \<open>C25: A source whose packets all arrive, in order, is reported without loss: after \<open>n + 2\<close> packets
  from any first sequence number, with any time stamps and however often the counter wraps, the
  report says \<open>n + 1\<close> expected, \<open>n + 1\<close> received (probation costs the first), none lost and none reordered.\<close>

theorem lossless_source_reports_no_loss:
  assumes "\<not> initialised t" "length xs < 2 ^ 32 - 1"
  shows "snapshot (deliver (x # y # xs) seq t) =
    zero_stats\<lparr>s_extendedHighestSeq := extendedHighest (deliver (x # y # xs) seq t),
      s_cycles := cycles (deliver (x # y # xs) seq t), s_fractionLost := fractionLost (deliver (x # y # xs) seq t),
      s_expectedPackets := of_nat (length xs + 1), s_receivedPackets := of_nat (length xs + 1),
      s_duplicatePackets := duplicates (deliver (x # y # xs) seq t),
      s_interarrivalJitter := jitter (deliver (x # y # xs) seq t)\<rparr>"
proof -
  note d = deliver_fresh [OF assms(1) refl, of x y xs seq]
  have "(of_nat (length xs + 1) :: u32) \<noteq> 0"
  proof
    assume "(of_nat (length xs + 1) :: u32) = 0"
    then have "2 ^ 32 dvd length xs + 1" by (simp only: word_of_nat_eq_0_iff) simp
    then have "2 ^ 32 \<le> length xs + 1" by (rule dvd_imp_le) simp
    then show False using assms(2) by simp
  qed
  then show ?thesis
    using d unfolding snapshot_def Let_def by (simp add: zero_stats_def)
qed

theorem lossless_source_reports_no_loss_witness:
  "s_receivedPackets (snapshot (deliver [(0, 0), (1, 1), (2, 2)] 65535 new_tracker)) = 2"
  by (subst lossless_source_reports_no_loss) (simp_all add: new_tracker_def zero_stats_def)

text \<open>A packet that overtakes the wrap, one from before it arriving just after, is given the
  extended number of the next cycle: 65536 more than its place in the stream, ahead of the highest
  number although it lies behind it. The header calls the number wraparound-safe.\<close>

theorem reordered_across_wrap_misnumbered:
  assumes "tracker_reach t" "initialised t" "probation t = 0" "maxSeq t < seq" "65536 - 1000 < uint (seq - maxSeq t)"
  shows "r_extendedSeq (snd (observe seq rtpTs ns t)) = extendedHighest t - ucast (maxSeq t - seq) + 0x10000
    \<and> \<not> r_duplicate (snd (observe seq rtpTs ns t))"
proof -
  have inv: "tracker_inv t" using assms(1) by (rule tracker_inv_reach)
  have big: "\<not> (ucast (seq - maxSeq t) :: u32) < MaxDropout" "\<not> (ucast (seq - maxSeq t) :: u32) \<le> SeqMod - MaxMisorder"
    using assms(5) by (simp_all add: word_less_def word_le_def MaxDropout_def SeqMod_def MaxMisorder_def)
  have "snd (observe seq rtpTs ns t) = snd (observe_accept seq rtpTs ns False (t\<lparr>reordered := reordered t + 1\<rparr>))"
    using assms(2,3) big by (simp add: observe_def)
  then have "r_extendedSeq (snd (observe seq rtpTs ns t)) = cycles t OR ucast seq" "\<not> r_duplicate (snd (observe seq rtpTs ns t))"
    by (simp_all add: observe_accept_def Let_def extended_def)
  moreover have "cycles t OR ucast seq = extendedHighest t - ucast (maxSeq t - seq) + 0x10000"
    using forward_extended [of "maxSeq t" seq "cycles t"] assms(4) inv
    by (simp add: extendedHighest_plus or_low_is_plus tracker_inv_def SeqMod_def algebra_simps)
  ultimately show ?thesis by simp
qed

theorem reordered_across_wrap_misnumbered_witness:
  "r_extendedSeq (snd (observe 65535 9 9 (fst (observe 0 8 8 (deliver [(0, 0), (0, 0)] 65533 new_tracker))))) = 0x1FFFF"
proof -
  let ?t = "fst (observe 0 8 8 (deliver [(0, 0), (0, 0)] 65533 new_tracker))"
  have t: "initialised ?t" "probation ?t = 0" "maxSeq ?t = 0" "cycles ?t = 0x10000"
    by (simp_all add: observe_def observe_probation_def observe_accept_def new_tracker_def initSourceLocked_def
        Let_def MinSequential_def MaxDropout_def SeqMod_def)
  have "tracker_reach ?t" by (simp, intro tracker_reach.intros)
  then show ?thesis
    using reordered_across_wrap_misnumbered [of ?t 65535 9 9] t by (simp add: extendedHighest_def)
qed

lemma uint_jitter_step:
  fixes j a :: u32
  assumes "uint a < uint j" "uint j < 268435456"
  shows "uint (j + drop_bit 4 (a - j)) = uint j + (4294967296 - (uint j - uint a)) div 16"
proof -
  have nn: "0 \<le> uint a" by simp
  have "uint (a - j) = (uint a - uint j) mod 4294967296" by (simp add: uint_word_ariths)
  also have "\<dots> = (uint a - uint j + 4294967296) mod 4294967296" by simp
  also have "\<dots> = uint a - uint j + 4294967296"
    by (rule mod_pos_pos_trivial) (use assms nn in linarith)+
  finally have s: "uint (a - j) = 4294967296 - (uint j - uint a)" by linarith
  have d: "uint (drop_bit 4 (a - j)) = (4294967296 - (uint j - uint a)) div 16"
  proof -
    have "0 \<le> uint (a - j)" "uint (a - j) < 2 ^ LENGTH(32)" by (rule uint_ge_0, rule uint_lt2p)
    then show ?thesis
      unfolding unsigned_drop_bit_eq take_bit_int_eq_self [OF \<open>0 \<le> uint (a - j)\<close> \<open>uint (a - j) < 2 ^ LENGTH(32)\<close>]
      unfolding s by (simp add: drop_bit_eq_div)
  qed
  have "(4294967296 - (uint j - uint a)) div 16 \<le> 4294967296 div 16" using assms(1) by (intro zdiv_mono1) simp_all
  then have "uint j + (4294967296 - (uint j - uint a)) div 16 < 2 ^ LENGTH(32)" using assms(2) by simp
  then show ?thesis unfolding d [symmetric] using uint_add_lem [of j "drop_bit 4 (a - j)"] by simp
qed

text \<open>The jitter estimate is not the smoothed one of RFC 3550 A.8: the difference is shifted as an
  unsigned number, so a packet whose transit changes by less than the present estimate, which should
  lower it, raises it by about \<open>2^28\<close> units.\<close>

theorem jitter_jumps_when_it_should_fall:
  assumes "clockRateHz t \<noteq> 0" "haveJitterPrev t"
    "d = \<bar>sint (arrival_units (clockRateHz t) ns - rtpTs - prevTransit t)\<bar>" "d < uint (jitter t)"
    "uint (jitter t) < 0x10000000"
  shows "uint (jitter (updateJitterLocked rtpTs ns t)) = uint (jitter t) + (0x100000000 - (uint (jitter t) - d)) div 16
    \<and> 0x8000000 < uint (jitter (updateJitterLocked rtpTs ns t))"
proof -
  have d: "0 \<le> d" using assms(3) by simp
  then have w: "uint (word_of_int d :: u32) = d"
    using assms(4,5) by (simp add: uint_word_of_int_eq take_bit_int_eq_self)
  have j: "jitter (updateJitterLocked rtpTs ns t) = jitter t + drop_bit 4 (word_of_int d - jitter t)"
    using assms(1-3) by (simp add: updateJitterLocked_def Let_def)
  have e: "uint (jitter (updateJitterLocked rtpTs ns t)) = uint (jitter t) + (4294967296 - (uint (jitter t) - d)) div 16"
    using uint_jitter_step [of "word_of_int d" "jitter t"] assms(4,5) unfolding j w by simp
  have "251658240 = (4294967296 - 268435456) div (16 :: int)" by simp
  also have "\<dots> \<le> (4294967296 - (uint (jitter t) - d)) div 16"
    by (rule zdiv_mono1) (use assms(5) d in simp_all)
  finally have "134217728 < uint (jitter t) + (4294967296 - (uint (jitter t) - d)) div 16"
    using uint_ge_0 [of "jitter t"] by linarith
  then show ?thesis using e by simp
qed

theorem jitter_jumps_when_it_should_fall_witness:
  "uint (jitter (updateJitterLocked 0 0 (new_tracker\<lparr>clockRateHz := 90000, haveJitterPrev := True, jitter := 100\<rparr>)))
   = 268435549"
  using jitter_jumps_when_it_should_fall
    [of "new_tracker\<lparr>clockRateHz := 90000, haveJitterPrev := True, jitter := 100\<rparr>" 0 0 0]
  by (simp add: new_tracker_def arrival_units_def)

end
