(* ===== verification/RtpReorder.thy ===== *)
theory RtpReorder
  imports Prelude "HOL-Library.Multiset"
begin

text \<open>
  \<open>src/network/rtpseqreorderbuffer.cpp\<close>: the receive-side reorder window, keyed by the extended
  sequence number, with its cursor, its drop-oldest overflow rule and the playout deadline; and the
  drop-oldest push of \<open>promeki/queue.h\<close> it delivers to. The \<open>Map\<close> is a list of entries in key
  order, as the ordered map iterates. An operation returns the new state and the packets it pushed, in
  order; the clock reading that \<open>insert\<close> takes is its argument \<open>now\<close>.
\<close>

section \<open>State\<close>

record 'p entry =
  e_seq :: u32
  e_arrival :: int
  e_pkt :: 'p

record 'p reorder =
  maxWindow :: nat
  playoutDelay :: int
  buf :: "'p entry list"
  haveExpected :: bool
  expectedSeq :: u32
  st_inserted :: u64
  emittedInOrder :: u64
  emittedOnDeadline :: u64
  droppedOnOverflow :: u64
  droppedAsDuplicate :: u64

definition new_reorder :: "nat \<Rightarrow> int \<Rightarrow> 'p reorder" where
  "new_reorder window delay =
     \<lparr>maxWindow = window, playoutDelay = delay, buf = [], haveExpected = False, expectedSeq = 0,
      st_inserted = 0, emittedInOrder = 0, emittedOnDeadline = 0, droppedOnOverflow = 0,
      droppedAsDuplicate = 0\<rparr>"

section \<open>Operations\<close>

text \<open>\<open>Map::tryEmplace\<close> of a key that is not there.\<close>

fun emplace :: "'p entry \<Rightarrow> 'p entry list \<Rightarrow> 'p entry list" where
  "emplace e [] = [e]"
| "emplace e (x # xs) = (if e_seq e < e_seq x then e # x # xs else x # emplace e xs)"

definition contains :: "'p entry list \<Rightarrow> u32 \<Rightarrow> bool" where
  "contains es seq = list_ex (\<lambda>e. e_seq e = seq) es"

text \<open>The serial-number comparison \<open>int32_t(a - b) < 0\<close>.\<close>

definition behind :: "u32 \<Rightarrow> u32 \<Rightarrow> bool" where
  "behind a b \<longleftrightarrow> sint (a - b) < 0"

function drainInOrderLocked :: "'p reorder \<Rightarrow> 'p list \<Rightarrow> 'p reorder \<times> 'p list" where
  "drainInOrderLocked st out =
     (case buf st of
        [] \<Rightarrow> (st, out)
      | e # es \<Rightarrow>
          if e_seq e \<noteq> expectedSeq st then (st, out)
          else drainInOrderLocked
                 (st\<lparr>buf := es, expectedSeq := expectedSeq st + 1, emittedInOrder := emittedInOrder st + 1\<rparr>)
                 (out @ [e_pkt e]))"
  by pat_completeness auto
termination by (relation "measure (\<lambda>(st, out). length (buf st))") auto

definition emitHeadLocked :: "bool \<Rightarrow> 'p reorder \<Rightarrow> 'p list \<Rightarrow> 'p reorder \<times> 'p list" where
  "emitHeadLocked deadline st out =
     (case buf st of
        [] \<Rightarrow> (st, out)
      | e # es \<Rightarrow>
          let st1 = st\<lparr>buf := es\<rparr>;
              st2 = (if \<not> behind (e_seq e) (expectedSeq st) then st1\<lparr>expectedSeq := e_seq e + 1\<rparr> else st1);
              st3 = (if deadline then st2\<lparr>emittedOnDeadline := emittedOnDeadline st + 1\<rparr>
                     else st2\<lparr>emittedInOrder := emittedInOrder st + 1\<rparr>)
          in (st3, out @ [e_pkt e]))"

lemma drain_shrinks: "length (buf (fst (drainInOrderLocked st out))) \<le> length (buf st)"
  by (induction st out rule: drainInOrderLocked.induct)
    (subst drainInOrderLocked.simps, fastforce split: list.split simp del: drainInOrderLocked.simps)

lemma emit_shrinks: "buf st \<noteq> [] \<Longrightarrow> Suc (length (buf (fst (emitHeadLocked d st out)))) = length (buf st)"
  by (auto simp: emitHeadLocked_def Let_def split: list.split)

function deadline_loop :: "int \<Rightarrow> 'p reorder \<Rightarrow> 'p list \<Rightarrow> 'p reorder \<times> 'p list" where
  "deadline_loop now st out =
     (case buf st of
        [] \<Rightarrow> (st, out)
      | e # es \<Rightarrow>
          if now < e_arrival e + playoutDelay st then (st, out)
          else let (st1, out1) = emitHeadLocked True st out;
                   (st2, out2) = drainInOrderLocked st1 out1
               in deadline_loop now st2 out2)"
  by pat_completeness auto
termination
proof (relation "measure (\<lambda>(now, st, out). length (buf st))", simp)
  fix now :: int and st :: "'p reorder" and out e es p st1 out1 q st2 out2
  assume b: "buf st = e # es" and p: "p = emitHeadLocked True st out" "(st1, out1) = p"
    and q: "q = drainInOrderLocked st1 out1" "(st2, out2) = q"
  have "length (buf st2) \<le> length (buf st1)" using drain_shrinks [of st1 out1] q by (metis fst_conv)
  also have "\<dots> < length (buf st)" using emit_shrinks [of st True out] b p by (metis fst_conv lessI list.distinct(1))
  finally show "((now, st2, out2), (now, st, out)) \<in> measure (\<lambda>(now, st, out). length (buf st))" by simp
qed

declare drainInOrderLocked.simps [simp del] deadline_loop.simps [simp del]

definition evict :: "'p reorder \<Rightarrow> 'p reorder" where
  "evict st =
     (if maxWindow st \<le> length (buf st)
      then (case buf st of
              [] \<Rightarrow> st
            | e # es \<Rightarrow>
                let st1 = st\<lparr>droppedOnOverflow := droppedOnOverflow st + 1, buf := es\<rparr>
                in if \<not> behind (e_seq e) (expectedSeq st) then st1\<lparr>expectedSeq := e_seq e + 1\<rparr> else st1)
      else st)"

definition rb_insert :: "int \<Rightarrow> 'p \<Rightarrow> u32 \<Rightarrow> int \<Rightarrow> 'p reorder \<Rightarrow> 'p reorder \<times> 'p list" where
  "rb_insert now pkt seq arrival st0 =
     (let st = (if haveExpected st0 then st0 else st0\<lparr>expectedSeq := seq, haveExpected := True\<rparr>) in
      if behind seq (expectedSeq st) \<or> contains (buf st) seq
      then (st\<lparr>droppedAsDuplicate := droppedAsDuplicate st + 1\<rparr>, [])
      else let st1 = evict st;
               st2 = st1\<lparr>buf := emplace \<lparr>e_seq = seq, e_arrival = arrival, e_pkt = pkt\<rparr> (buf st1),
                         st_inserted := st_inserted st1 + 1\<rparr>;
               (st3, out) = drainInOrderLocked st2 []
           in if playoutDelay st3 \<noteq> 0 then deadline_loop now st3 out else (st3, out))"

function flush_loop :: "'p reorder \<Rightarrow> 'p list \<Rightarrow> 'p reorder \<times> 'p list" where
  "flush_loop st out =
     (if buf st = [] then (st, out)
      else flush_loop (fst (emitHeadLocked True st out)) (snd (emitHeadLocked True st out)))"
  by pat_completeness auto
termination
  by (relation "measure (\<lambda>p. length (buf (fst p)))") (simp_all add: emit_shrinks less_eq_Suc_le)

declare flush_loop.simps [simp del]

definition rb_flush :: "'p reorder \<Rightarrow> 'p reorder \<times> 'p list" where
  "rb_flush st = flush_loop st []"

definition rb_clear :: "'p reorder \<Rightarrow> 'p reorder" where
  "rb_clear st = st\<lparr>buf := [], haveExpected := False, expectedSeq := 0\<rparr>"

section \<open>The output queue\<close>

record 'p queue =
  q_max :: nat
  q_cancelled :: bool
  q_items :: "'p list"

definition pushDropOldest :: "'p queue \<Rightarrow> 'p \<Rightarrow> 'p queue" where
  "pushDropOldest q x =
     (if q_cancelled q then q
      else q\<lparr>q_items := (if 0 < q_max q \<and> q_max q \<le> length (q_items q)
                          then drop (length (q_items q) + 1 - q_max q) (q_items q)
                          else q_items q) @ [x]\<rparr>)"

section \<open>Order of delivery\<close>

text \<open>The invariant of delivery: entries in key order, the packets pushed so far in strictly rising
  order, all of them below the cursor and below everything still held. \<open>tag\<close> reads the sequence
  number off a packet. The bound keeps the serial comparison an order.\<close>

definition ord_inv :: "('p \<Rightarrow> u32) \<Rightarrow> 'p reorder \<Rightarrow> 'p list \<Rightarrow> bool" where
  "ord_inv tag st out \<longleftrightarrow>
     sorted_wrt (<) (map e_seq (buf st)) \<and> (\<forall>e\<in>set (buf st). tag (e_pkt e) = e_seq e \<and> e_seq e < 0x80000000) \<and>
     expectedSeq st \<le> 0x80000000 \<and> sorted_wrt (<) (map tag out) \<and>
     (\<forall>p\<in>set out. tag p < expectedSeq st \<and> (\<forall>e\<in>set (buf st). tag p < e_seq e)) \<and>
     (\<not> haveExpected st \<longrightarrow> buf st = [] \<and> out = [])"

lemma top_bit_word: "bit (x :: u32) 31 \<longleftrightarrow> 0x80000000 \<le> x"
proof -
  have "bit x 31 \<longleftrightarrow> odd (uint x div 2147483648)"
  proof -
    have "bit x 31 \<longleftrightarrow> bit (uint x) 31" by (simp add: bit_uint_iff)
    then show ?thesis by (simp add: bit_iff_odd [of "uint x"])
  qed
  also have "\<dots> \<longleftrightarrow> 2147483648 \<le> uint x"
  proof (cases "2147483648 \<le> uint x")
    case True
    then have "uint x div 2147483648 = 1" using uint_lt2p [of x] by (intro int_div_pos_eq [where r = "uint x - 2147483648"]) simp_all
    then show ?thesis using True by simp
  next
    case False
    then have "uint x div 2147483648 = 0" by (intro div_pos_pos_trivial) simp_all
    then show ?thesis using False by simp
  qed
  finally show ?thesis by (simp add: word_le_def)
qed

lemma behind_less: "a < 0x80000000 \<Longrightarrow> b \<le> 0x80000000 \<Longrightarrow> behind a b \<longleftrightarrow> a < b"
proof -
  assume ab: "a < 0x80000000" "b \<le> 0x80000000"
  have msb: "behind a b \<longleftrightarrow> 0x80000000 \<le> a - b"
    unfolding behind_def top_bit_word [symmetric] by (simp flip: bit_last_iff)
  have u: "uint a < 2147483648" "uint b \<le> 2147483648" "0 \<le> uint a" "0 \<le> uint b"
    using ab by (simp_all add: word_less_def word_le_def)
  show ?thesis
  proof (cases "a < b")
    case True
    then have "uint a < uint b" by (simp add: word_less_def)
    then have "uint (a - b) = (uint a - uint b + 4294967296) mod 4294967296" by (simp add: uint_word_ariths)
    also have "\<dots> = uint a - uint b + 4294967296"
      by (rule mod_pos_pos_trivial) (use u \<open>uint a < uint b\<close> in linarith)+
    finally have "2147483648 \<le> uint (a - b)" using u by linarith
    then show ?thesis using True msb by (simp add: word_le_def)
  next
    case False
    then have "uint b \<le> uint a" by (simp add: word_less_def)
    then have "uint (a - b) = uint a - uint b" by (simp add: uint_sub_lem)
    then have "uint (a - b) < 2147483648" using u by linarith
    then have "\<not> 0x80000000 \<le> a - b" by (simp add: word_le_def)
    then show ?thesis using False msb by simp
  qed
qed

lemma next_seq: "s < 0x80000000 \<Longrightarrow> s < s + 1 \<and> s + 1 \<le> 0x80000000" for s :: u32
proof -
  assume s: "s < 0x80000000"
  then have "uint s + 1 < 2 ^ LENGTH(32)" by (simp add: word_less_def)
  then have "uint (s + 1) = uint s + 1" using uint_add_lem [of s 1] by simp
  then show ?thesis using inc_le [OF s] by (simp add: word_less_def)
qed

text \<open>Taking the head off and moving the cursor past it.\<close>

lemma ord_inv_pop:
  assumes "ord_inv tag st out" "buf st = e # es" "buf st' = es" "haveExpected st' = haveExpected st"
    "expectedSeq st \<le> expectedSeq st'" "e_seq e < expectedSeq st'" "expectedSeq st' \<le> 0x80000000"
  shows "ord_inv tag st' (out @ [e_pkt e])" "ord_inv tag st' out"
  using assms by (auto simp: ord_inv_def sorted_wrt_append intro: less_le_trans)

text \<open>Rules for the three loops: what one round keeps, the loop keeps.\<close>

lemma drain_rule:
  assumes "\<And>st out e es. P st out \<Longrightarrow> buf st = e # es \<Longrightarrow> e_seq e = expectedSeq st \<Longrightarrow>
      P (st\<lparr>buf := es, expectedSeq := expectedSeq st + 1, emittedInOrder := emittedInOrder st + 1\<rparr>) (out @ [e_pkt e])"
  shows "P st out \<Longrightarrow> P (fst (drainInOrderLocked st out)) (snd (drainInOrderLocked st out))"
proof (induction st out rule: drainInOrderLocked.induct)
  case (1 st out)
  show ?case
  proof (cases "\<exists>e es. buf st = e # es \<and> e_seq e = expectedSeq st")
    case True
    then obtain e es where e: "buf st = e # es" "e_seq e = expectedSeq st" by blast
    then show ?thesis
      using "1.IH" [OF e(1)] assms [OF "1.prems" e] by (simp add: drainInOrderLocked.simps [of st out])
  next
    case False
    then have "drainInOrderLocked st out = (st, out)"
      by (auto simp: drainInOrderLocked.simps [of st out] split: list.split)
    then show ?thesis using "1.prems" by simp
  qed
qed

lemma deadline_rule_due:
  assumes "\<And>st out e es. P st out \<Longrightarrow> buf st = e # es \<Longrightarrow> e_arrival e + playoutDelay st \<le> now \<Longrightarrow>
      P (fst (emitHeadLocked True st out)) (snd (emitHeadLocked True st out))"
    and drain: "\<And>st out. P st out \<Longrightarrow> P (fst (drainInOrderLocked st out)) (snd (drainInOrderLocked st out))"
    and "P st out"
  shows "P (fst (deadline_loop now st out)) (snd (deadline_loop now st out))"
  using assms(1,3)
proof (induction now st out rule: deadline_loop.induct)
  case (1 now st out)
  show ?case
  proof (cases "\<exists>e es. buf st = e # es \<and> \<not> now < e_arrival e + playoutDelay st")
    case True
    then obtain e es where e: "buf st = e # es" "\<not> now < e_arrival e + playoutDelay st" by blast
    obtain st1 out1 where 1: "emitHeadLocked True st out = (st1, out1)" by fastforce
    obtain st2 out2 where 2: "drainInOrderLocked st1 out1 = (st2, out2)" by fastforce
    have "P st1 out1" using "1.prems"(1) [OF "1.prems"(2) e(1)] e(2) 1 by (simp add: not_less)
    then have "P st2 out2" using drain [of st1 out1] 2 by simp
    then show ?thesis
      using "1.IH" [OF e 1 [symmetric] refl 2 [symmetric] refl "1.prems"(1)] e 1 2 by (simp add: deadline_loop.simps [of now st out])
  next
    case False
    then have "deadline_loop now st out = (st, out)"
      by (auto simp: deadline_loop.simps [of now st out] split: list.split)
    then show ?thesis using "1.prems" by simp
  qed
qed

lemma deadline_rule:
  assumes "\<And>st out. P st out \<Longrightarrow> P (fst (emitHeadLocked True st out)) (snd (emitHeadLocked True st out))"
    and "\<And>st out. P st out \<Longrightarrow> P (fst (drainInOrderLocked st out)) (snd (drainInOrderLocked st out))"
  shows "P st out \<Longrightarrow> P (fst (deadline_loop now st out)) (snd (deadline_loop now st out))"
  using deadline_rule_due [of P now, OF assms(1) assms(2)] .

lemma flush_rule:
  assumes emit: "\<And>st out. P st out \<Longrightarrow> P (fst (emitHeadLocked True st out)) (snd (emitHeadLocked True st out))"
  shows "P st out \<Longrightarrow> P (fst (flush_loop st out)) (snd (flush_loop st out))"
proof (induction st out rule: flush_loop.induct)
  case (1 st out)
  then show ?case
    using emit [OF "1.prems"] by (cases "buf st = []") (simp_all add: flush_loop.simps [of st out])
qed

lemma ord_inv_drain:
  assumes "ord_inv tag st (hist @ out)"
  shows "ord_inv tag (fst (drainInOrderLocked st out)) (hist @ snd (drainInOrderLocked st out))"
proof (rule drain_rule [where P = "\<lambda>st out. ord_inv tag st (hist @ out)"])
  show "ord_inv tag (st\<lparr>buf := es, expectedSeq := expectedSeq st + 1, emittedInOrder := emittedInOrder st + 1\<rparr>)
      (hist @ out @ [e_pkt e])"
    if "ord_inv tag st (hist @ out)" "buf st = e # es" "e_seq e = expectedSeq st" for st out e es
  proof -
    have "e_seq e < 0x80000000" using that(1,2) by (simp add: ord_inv_def)
    then show ?thesis
      unfolding append_assoc [symmetric] using next_seq [of "e_seq e"] that(3)
      by (intro ord_inv_pop(1) [OF that(1,2)]) (auto intro: less_imp_le)
  qed
qed (rule assms)

lemma ord_inv_emit:
  assumes "ord_inv tag st (hist @ out)"
  shows "ord_inv tag (fst (emitHeadLocked d st out)) (hist @ snd (emitHeadLocked d st out))"
proof (cases "buf st")
  case Nil
  then show ?thesis using assms by (simp add: emitHeadLocked_def)
next
  case (Cons e es)
  have b: "e_seq e < 0x80000000" "expectedSeq st \<le> 0x80000000" using assms Cons by (simp_all add: ord_inv_def)
  let ?st = "fst (emitHeadLocked d st out)"
  have f: "buf ?st = es" "haveExpected ?st = haveExpected st"
    "expectedSeq ?st = (if e_seq e < expectedSeq st then expectedSeq st else e_seq e + 1)"
    "snd (emitHeadLocked d st out) = out @ [e_pkt e]"
    using Cons behind_less [OF b] by (simp_all add: emitHeadLocked_def Let_def)
  have "ord_inv tag ?st ((hist @ out) @ [e_pkt e])"
    by (rule ord_inv_pop(1) [OF assms Cons f(1,2)])
      (use f(3) b next_seq [of "e_seq e"] in \<open>auto intro: order_trans [OF _ less_imp_le]\<close>)
  then show ?thesis using f(4) by simp
qed

lemma ord_inv_deadline:
  "ord_inv tag st (hist @ out) \<Longrightarrow>
   ord_inv tag (fst (deadline_loop now st out)) (hist @ snd (deadline_loop now st out))"
  by (rule deadline_rule [where P = "\<lambda>st out. ord_inv tag st (hist @ out)"])
    (erule ord_inv_emit ord_inv_drain | assumption)+

text \<open>A new entry: not yet held, above everything pushed.\<close>

lemma set_emplace [simp]: "set (emplace e es) = insert e (set es)"
  by (induction es) auto

lemma length_emplace [simp]: "length (emplace e es) = Suc (length es)"
  by (induction es) auto

lemma sorted_emplace:
  "sorted_wrt (<) (map e_seq es) \<Longrightarrow> e_seq e \<notin> e_seq ` set es \<Longrightarrow> sorted_wrt (<) (map e_seq (emplace e es))"
  by (induction es) (fastforce intro: le_neq_trans)+

lemma ord_inv_emplace:
  assumes "ord_inv tag st out" "\<forall>p\<in>set out. tag p < seq" "seq \<notin> e_seq ` set (buf st)" "tag pkt = seq"
    "seq < 0x80000000" "haveExpected st"
  shows "ord_inv tag (st\<lparr>buf := emplace \<lparr>e_seq = seq, e_arrival = a, e_pkt = pkt\<rparr> (buf st), st_inserted := n\<rparr>) out"
  using assms by (auto simp: ord_inv_def intro!: sorted_emplace)

lemma evict_cases:
  obtains "evict st = st" "length (buf st) < maxWindow st \<or> buf st = []"
  | e es where "maxWindow st \<le> length (buf st)" "buf st = e # es"
    "evict st = st\<lparr>droppedOnOverflow := droppedOnOverflow st + 1, buf := es,
       expectedSeq := (if behind (e_seq e) (expectedSeq st) then expectedSeq st else e_seq e + 1)\<rparr>"
  by (cases "maxWindow st \<le> length (buf st)"; cases "buf st") (auto simp: evict_def Let_def)

lemma ord_inv_evict:
  assumes "ord_inv tag st out"
  shows "ord_inv tag (evict st) out"
proof (cases rule: evict_cases [of st])
  case (2 e es)
  have b: "e_seq e < 0x80000000" "expectedSeq st \<le> 0x80000000" using assms 2 by (simp_all add: ord_inv_def)
  show ?thesis
    by (rule ord_inv_pop(2) [OF assms 2(2)])
      (use 2 behind_less [OF b] b next_seq [of "e_seq e"] in \<open>auto intro: order_trans [OF _ less_imp_le]\<close>)
qed (use assms in simp)

lemma buf_evict: "set (buf (evict st)) \<subseteq> set (buf st)" "haveExpected (evict st) = haveExpected st"
  "playoutDelay (evict st) = playoutDelay st" "maxWindow (evict st) = maxWindow st"
  by (cases rule: evict_cases [of st]; auto)+

lemma contains_iff: "contains es s \<longleftrightarrow> s \<in> e_seq ` set es"
  by (auto simp: contains_def list_ex_iff)

lemma ord_inv_insert:
  assumes "ord_inv tag st0 hist" "tag pkt = seq" "seq < 0x80000000"
  shows "ord_inv tag (fst (rb_insert now pkt seq a st0)) (hist @ snd (rb_insert now pkt seq a st0))"
proof -
  define st where "st = (if haveExpected st0 then st0 else st0\<lparr>expectedSeq := seq, haveExpected := True\<rparr>)"
  have inv: "ord_inv tag st hist" "haveExpected st" using assms by (auto simp: st_def ord_inv_def)
  show ?thesis
  proof (cases "behind seq (expectedSeq st) \<or> contains (buf st) seq")
    case True
    then show ?thesis using inv(1) by (simp add: rb_insert_def Let_def flip: st_def) (simp add: ord_inv_def)
  next
    case False
    define st2 where "st2 = (evict st)\<lparr>buf := emplace \<lparr>e_seq = seq, e_arrival = a, e_pkt = pkt\<rparr> (buf (evict st)),
      st_inserted := st_inserted (evict st) + 1\<rparr>"
    have "expectedSeq st \<le> seq" using False inv assms(3) behind_less [of seq "expectedSeq st"] by (auto simp: ord_inv_def)
    then have "\<forall>p\<in>set hist. tag p < seq" using inv(1) by (auto simp: ord_inv_def intro: less_le_trans)
    moreover have "seq \<notin> e_seq ` set (buf (evict st))" using False buf_evict [of st] by (auto simp: contains_iff)
    ultimately have "ord_inv tag st2 (hist @ [])"
      unfolding st2_def append_Nil2 using assms inv by (intro ord_inv_emplace ord_inv_evict) (auto simp: buf_evict)
    from ord_inv_drain [OF this]
    have "ord_inv tag (fst (drainInOrderLocked st2 [])) (hist @ snd (drainInOrderLocked st2 []))" .
    moreover from this
    have "ord_inv tag (fst (deadline_loop now (fst (drainInOrderLocked st2 [])) (snd (drainInOrderLocked st2 []))))
      (hist @ snd (deadline_loop now (fst (drainInOrderLocked st2 [])) (snd (drainInOrderLocked st2 []))))"
      by (rule ord_inv_deadline)
    ultimately show ?thesis
      using False by (simp add: rb_insert_def Let_def case_prod_unfold flip: st_def st2_def)
  qed
qed

lemma ord_inv_flush:
  assumes "ord_inv tag st hist"
  shows "ord_inv tag (fst (rb_flush st)) (hist @ snd (rb_flush st))"
  unfolding rb_flush_def
  by (rule flush_rule [where P = "\<lambda>st out. ord_inv tag st (hist @ out)"]) (use assms ord_inv_emit in auto)

section \<open>Every packet accounted for\<close>

definition count_inv :: "'p reorder \<Rightarrow> nat \<Rightarrow> bool" where
  "count_inv st n \<longleftrightarrow>
     st_inserted st = emittedInOrder st + emittedOnDeadline st + droppedOnOverflow st + of_nat (length (buf st)) \<and>
     emittedInOrder st + emittedOnDeadline st = of_nat n \<and> length (buf st) \<le> max 1 (maxWindow st)"

lemma count_inv_drain:
  "count_inv st (n + length out) \<Longrightarrow>
   count_inv (fst (drainInOrderLocked st out)) (n + length (snd (drainInOrderLocked st out)))"
  by (rule drain_rule [where P = "\<lambda>st out. count_inv st (n + length out)"]) (auto simp: count_inv_def algebra_simps)

lemma count_inv_emit:
  "count_inv st (n + length out) \<Longrightarrow>
   count_inv (fst (emitHeadLocked d st out)) (n + length (snd (emitHeadLocked d st out)))"
  by (cases "buf st") (auto simp: emitHeadLocked_def Let_def count_inv_def algebra_simps)

lemma count_inv_deadline:
  "count_inv st (n + length out) \<Longrightarrow>
   count_inv (fst (deadline_loop now st out)) (n + length (snd (deadline_loop now st out)))"
  by (rule deadline_rule [where P = "\<lambda>st out. count_inv st (n + length out)"])
    (erule count_inv_emit count_inv_drain | assumption)+

lemma count_inv_insert:
  assumes "count_inv st0 n"
  shows "count_inv (fst (rb_insert now pkt seq a st0)) (n + length (snd (rb_insert now pkt seq a st0)))"
proof -
  define st where "st = (if haveExpected st0 then st0 else st0\<lparr>expectedSeq := seq, haveExpected := True\<rparr>)"
  have inv: "count_inv st n" using assms by (auto simp: st_def count_inv_def)
  show ?thesis
  proof (cases "behind seq (expectedSeq st) \<or> contains (buf st) seq")
    case True
    then show ?thesis using inv by (simp add: rb_insert_def Let_def flip: st_def) (simp add: count_inv_def)
  next
    case False
    define st2 where "st2 = (evict st)\<lparr>buf := emplace \<lparr>e_seq = seq, e_arrival = a, e_pkt = pkt\<rparr> (buf (evict st)),
      st_inserted := st_inserted (evict st) + 1\<rparr>"
    have "count_inv st2 (n + length ([] :: 'a list))"
      using inv by (cases rule: evict_cases [of st]) (auto simp: st2_def count_inv_def algebra_simps)
    from count_inv_drain [OF this]
    have "count_inv (fst (drainInOrderLocked st2 [])) (n + length (snd (drainInOrderLocked st2 [])))" .
    moreover from this
    have "count_inv (fst (deadline_loop now (fst (drainInOrderLocked st2 [])) (snd (drainInOrderLocked st2 []))))
      (n + length (snd (deadline_loop now (fst (drainInOrderLocked st2 [])) (snd (drainInOrderLocked st2 [])))))"
      by (rule count_inv_deadline)
    ultimately show ?thesis
      using False by (simp add: rb_insert_def Let_def case_prod_unfold flip: st_def st2_def)
  qed
qed

lemma count_inv_flush:
  assumes "count_inv st n"
  shows "count_inv (fst (rb_flush st)) (n + length (snd (rb_flush st)))"
  unfolding rb_flush_def
  by (rule flush_rule [where P = "\<lambda>st out. count_inv st (n + length out)"]) (use assms count_inv_emit in auto)

section \<open>Runs of the buffer\<close>

datatype 'p rb_event = Insert int 'p u32 int | Flush

fun rb_step :: "'p rb_event \<Rightarrow> 'p reorder \<times> 'p list \<Rightarrow> 'p reorder \<times> 'p list" where
  "rb_step (Insert now pkt seq a) (st, hist) = (case rb_insert now pkt seq a st of (st', out) \<Rightarrow> (st', hist @ out))"
| "rb_step Flush (st, hist) = (case rb_flush st of (st', out) \<Rightarrow> (st', hist @ out))"

fun rb_admissible :: "('p \<Rightarrow> u32) \<Rightarrow> 'p rb_event \<Rightarrow> bool" where
  "rb_admissible tag (Insert now pkt seq a) \<longleftrightarrow> tag pkt = seq \<and> seq < 0x80000000"
| "rb_admissible tag Flush \<longleftrightarrow> True"

definition rb_inv :: "('p \<Rightarrow> u32) \<Rightarrow> 'p reorder \<times> 'p list \<Rightarrow> bool" where
  "rb_inv tag s \<longleftrightarrow> ord_inv tag (fst s) (snd s) \<and> count_inv (fst s) (length (snd s))"

lemma rb_inv_step:
  assumes "rb_inv tag s" "rb_admissible tag e"
  shows "rb_inv tag (rb_step e s)"
proof (cases e)
  case (Insert now pkt seq a)
  then show ?thesis
    using assms ord_inv_insert [of tag "fst s" "snd s" pkt seq now a] count_inv_insert [of "fst s" "length (snd s)" now pkt seq a]
    by (cases s) (simp add: rb_inv_def case_prod_unfold)
next
  case Flush
  then show ?thesis
    using assms ord_inv_flush [of tag "fst s" "snd s"] count_inv_flush [of "fst s" "length (snd s)"]
    by (cases s) (simp add: rb_inv_def case_prod_unfold)
qed

interpretation reorder: event_machine rb_step "rb_admissible tag" "rb_inv tag" for tag
  by unfold_locales (rule rb_inv_step)

lemma rb_inv_new: "rb_inv tag (new_reorder w d, [])"
  by (simp add: rb_inv_def ord_inv_def count_inv_def new_reorder_def)

text \<open>C13: As long as the extended numbers stay below 2 to the 31, whatever packets are inserted, in whatever order
  and at whatever times, and whenever the buffer is flushed, the packets it delivers come out in strictly
  rising sequence order (so none twice), it never holds more than its window, and every packet it took in was
  delivered, evicted or is still held, as its counters say. Above that number the window's unsigned order and
  the cursor's signed comparison part.\<close>

theorem reorder_delivers_rising:
  assumes "\<forall>e\<in>set es. rb_admissible tag e"
  shows "case fold rb_step es (new_reorder w d, []) of (st, out) \<Rightarrow>
    sorted_wrt (<) (map tag out) \<and> length (buf st) \<le> max 1 (maxWindow st) \<and>
    st_inserted st = of_nat (length out) + droppedOnOverflow st + of_nat (length (buf st))"
  using reorder.inv_run [OF rb_inv_new assms, of w d]
  by (simp add: rb_inv_def ord_inv_def count_inv_def case_prod_unfold)

theorem reorder_delivers_rising_witness:
  "sorted_wrt (<) (snd (fold rb_step [Insert 0 (5 :: u32) 5 0, Insert 0 7 7 0, Insert 0 6 6 0, Flush] (new_reorder 4 0, [])))"
  using reorder_delivers_rising [where tag = "\<lambda>x. x" and es = "[Insert 0 5 5 0, Insert 0 7 7 0, Insert 0 6 6 0, Flush]"
      and w = 4 and d = 0]
  by (simp add: case_prod_unfold)

text \<open>Where the bound ends: a number above 2 to the 31 moves the cursor on, and a smaller one is then taken for newer.\<close>

lemma past_half_delivers_lower:
  "snd (fold rb_step [Insert 0 (0x7FFFFFFF :: u32) 0x7FFFFFFF 0, Insert 0 0xF0000000 0xF0000000 0, Flush,
     Insert 0 0x10000000 0x10000000 0, Flush] (new_reorder 4 0, [])) = [0x7FFFFFFF, 0xF0000000, 0x10000000]"
  by (simp add: rb_insert_def rb_flush_def evict_def Let_def drainInOrderLocked.simps flush_loop.simps emitHeadLocked_def
      new_reorder_def behind_def contains_def)

section \<open>Packets within the window\<close>

text \<open>Nothing lost so far: \<open>S\<close> are the numbers inserted, from \<open>s\<close> on.\<close>

definition held_inv :: "('p \<Rightarrow> u32) \<Rightarrow> u32 \<Rightarrow> u32 set \<Rightarrow> 'p reorder \<Rightarrow> 'p list \<Rightarrow> bool" where
  "held_inv tag s S st out \<longleftrightarrow>
     ord_inv tag st out \<and> tag ` set out \<union> e_seq ` set (buf st) = S \<and> s \<le> expectedSeq st \<and>
     (\<forall>x. s \<le> x \<and> x < expectedSeq st \<longrightarrow> x \<in> tag ` set out) \<and> (\<forall>e\<in>set (buf st). expectedSeq st \<le> e_seq e)"

lemma drain_stops:
  "buf (fst (drainInOrderLocked st out)) = [] \<or>
   e_seq (hd (buf (fst (drainInOrderLocked st out)))) \<noteq> expectedSeq (fst (drainInOrderLocked st out))"
proof (induction st out rule: drainInOrderLocked.induct)
  case (1 st out)
  then show ?case
    by (cases "buf st") (auto simp: drainInOrderLocked.simps [of st out])
qed

lemma drain_config [simp]:
  "playoutDelay (fst (drainInOrderLocked st out)) = playoutDelay st"
  "maxWindow (fst (drainInOrderLocked st out)) = maxWindow st"
  "haveExpected (fst (drainInOrderLocked st out)) = haveExpected st"
  "length (buf (fst (drainInOrderLocked st out))) + length (snd (drainInOrderLocked st out)) = length (buf st) + length out"
  using drain_rule [where P = "\<lambda>st' out'. playoutDelay st' = playoutDelay st \<and> maxWindow st' = maxWindow st \<and>
    haveExpected st' = haveExpected st \<and> length (buf st') + length out' = length (buf st) + length out", of st out]
  by auto

lemma word_less_plus_1_iff: "e < 0x80000000 \<Longrightarrow> x < e + 1 \<longleftrightarrow> x \<le> e" for e x :: u32
proof -
  assume e: "e < 0x80000000"
  then have "uint e + 1 < 2 ^ LENGTH(32)" by (simp add: word_less_def)
  then have "uint (e + 1) = uint e + 1" using uint_add_lem [of e 1] by simp
  then show ?thesis by (simp add: word_less_def word_le_def)
qed

lemma held_inv_drain:
  assumes "held_inv tag s S st (hist @ out)"
  shows "held_inv tag s S (fst (drainInOrderLocked st out)) (hist @ snd (drainInOrderLocked st out))"
proof (rule drain_rule [where P = "\<lambda>st out. held_inv tag s S st (hist @ out)"])
  show "held_inv tag s S (st\<lparr>buf := es, expectedSeq := expectedSeq st + 1, emittedInOrder := emittedInOrder st + 1\<rparr>)
      (hist @ out @ [e_pkt e])"
    if h: "held_inv tag s S st (hist @ out)" and b: "buf st = e # es" "e_seq e = expectedSeq st" for st out e es
  proof -
    have o: "ord_inv tag st (hist @ out)" using h by (simp add: held_inv_def)
    then have lt: "e_seq e < 0x80000000" "tag (e_pkt e) = e_seq e" "\<forall>x\<in>set es. e_seq e < e_seq x"
      using b by (auto simp: ord_inv_def)
    have "ord_inv tag (st\<lparr>buf := es, expectedSeq := expectedSeq st + 1, emittedInOrder := emittedInOrder st + 1\<rparr>)
      ((hist @ out) @ [e_pkt e])"
      using next_seq [of "e_seq e"] lt b by (intro ord_inv_pop(1) [OF o b(1)]) (auto intro: less_imp_le)
    moreover have "\<forall>x. s \<le> x \<and> x < expectedSeq st + 1 \<longrightarrow> x \<in> tag ` set ((hist @ out) @ [e_pkt e])"
      using h b lt word_less_plus_1_iff [OF lt(1)] by (auto simp: held_inv_def le_less)
    moreover have "s \<le> expectedSeq st + 1"
      using h b lt next_seq [of "e_seq e"] by (auto simp: held_inv_def intro: order_trans less_imp_le)
    ultimately show ?thesis using h b lt by (auto simp: held_inv_def inc_le)
  qed
qed (rule assms)

lemma held_inv_insert:
  assumes h: "held_inv tag s S st hist" "haveExpected st" "s \<le> tag pkt" "tag pkt \<notin> S" "tag pkt < 0x80000000"
    and room: "length (buf st) < maxWindow st" "playoutDelay st = 0"
    and ins: "rb_insert now pkt (tag pkt) a st = (st', out)"
  shows "held_inv tag s (insert (tag pkt) S) st' (hist @ out)" "\<forall>e\<in>set (buf st'). e_seq e \<noteq> expectedSeq st'"
    "length (buf st') + length out = Suc (length (buf st))" "haveExpected st'" "playoutDelay st' = 0"
    "maxWindow st' = maxWindow st"
proof -
  have o: "ord_inv tag st hist" using h(1) by (simp add: held_inv_def)
  have notin: "tag pkt \<notin> e_seq ` set (buf st)" "tag pkt \<notin> tag ` set hist" using h(1,4) by (auto simp: held_inv_def)
  then have le: "expectedSeq st \<le> tag pkt" using h(1,3) by (meson held_inv_def linorder_not_less)
  have nb: "\<not> behind (tag pkt) (expectedSeq st)" using behind_less [OF h(5)] o le by (auto simp: ord_inv_def)
  define st2 where "st2 = st\<lparr>buf := emplace \<lparr>e_seq = tag pkt, e_arrival = a, e_pkt = pkt\<rparr> (buf st),
    st_inserted := st_inserted st + 1\<rparr>"
  have ev: "evict st = st" using room by (simp add: evict_def)
  have dr: "drainInOrderLocked st2 [] = (st', out)"
    using ins h(2) nb notin(1) room by (simp add: rb_insert_def Let_def ev contains_iff case_prod_unfold st2_def split: if_splits)
  have "\<forall>p\<in>set hist. tag p < tag pkt" using o le by (auto simp: ord_inv_def intro: less_le_trans)
  then have "ord_inv tag st2 hist" unfolding st2_def using o notin(1) h by (intro ord_inv_emplace) auto
  then have "held_inv tag s (insert (tag pkt) S) st2 (hist @ [])"
    using h(1) le by (auto simp: held_inv_def st2_def)
  from held_inv_drain [OF this] show inv: "held_inv tag s (insert (tag pkt) S) st' (hist @ out)" by (simp add: dr)
  show "length (buf st') + length out = Suc (length (buf st))" "haveExpected st'" "playoutDelay st' = 0"
    "maxWindow st' = maxWindow st"
    using drain_config [of st2 "[]", unfolded dr] room h(2) by (simp_all add: st2_def)
  show "\<forall>e\<in>set (buf st'). e_seq e \<noteq> expectedSeq st'"
  proof (cases "buf st'")
    case (Cons e es)
    then have "e_seq e \<noteq> expectedSeq st'" using drain_stops [of st2 "[]"] by (simp add: dr)
    moreover have "expectedSeq st' \<le> e_seq e" "\<forall>x\<in>set es. e_seq e < e_seq x"
      using inv Cons by (auto simp: held_inv_def ord_inv_def)
    ultimately show ?thesis using Cons by auto
  qed simp
qed

lemma held_run:
  assumes "held_inv tag s S st hist" "haveExpected st" "\<forall>e\<in>set (buf st). e_seq e \<noteq> expectedSeq st"
    "playoutDelay st = 0" "length (buf st) + length ps \<le> maxWindow st"
    "distinct (map tag ps)" "tag ` set ps \<inter> S = {}" "\<forall>p\<in>set ps. s \<le> tag p \<and> tag p < 0x80000000"
  shows "\<exists>st' out. fold rb_step (map (\<lambda>p. Insert (nowf p) p (tag p) (arr p)) ps) (st, hist) = (st', out) \<and>
    held_inv tag s (S \<union> tag ` set ps) st' out \<and> (\<forall>e\<in>set (buf st'). e_seq e \<noteq> expectedSeq st')"
  using assms
proof (induction ps arbitrary: st hist S)
  case Nil
  then show ?case by simp
next
  case (Cons p ps)
  obtain st1 out1 where i: "rb_insert (nowf p) p (tag p) (arr p) st = (st1, out1)" by fastforce
  have room: "length (buf st) < maxWindow st" using Cons.prems(5) by simp
  have np: "s \<le> tag p" "tag p \<notin> S" "tag p < 0x80000000" using Cons.prems by auto
  note h = held_inv_insert [OF Cons.prems(1,2) np room Cons.prems(4) i]
  have "\<exists>st' out. fold rb_step (map (\<lambda>p. Insert (nowf p) p (tag p) (arr p)) ps) (st1, hist @ out1) = (st', out) \<and>
    held_inv tag s (insert (tag p) S \<union> tag ` set ps) st' out \<and> (\<forall>e\<in>set (buf st'). e_seq e \<noteq> expectedSeq st')"
    by (rule Cons.IH [OF h(1) h(4) h(2) h(5)]) (use h(3,6) Cons.prems in auto)
  then show ?case using i by simp
qed

lemma of_nat_u32_less: "i < 0x80000000 \<Longrightarrow> j < 0x80000000 \<Longrightarrow> (of_nat i :: u32) < of_nat j \<longleftrightarrow> i < j"
  by (simp add: word_less_nat_alt unsigned_of_nat take_bit_nat_eq_self)

lemma strictly_counted: "a + n \<le> 0x80000000 \<Longrightarrow> sorted_wrt (<) (map of_nat [a..<a + n] :: u32 list)"
  unfolding sorted_wrt_map
  by (rule sorted_wrt_mono_rel [OF _ sorted_wrt_upt]) (simp add: of_nat_u32_less)

lemma window_restores_order:
  assumes "ps \<noteq> []" "length ps \<le> w" "mset (map tag ps) = mset (map of_nat [a..<a + length ps])"
    "tag (hd ps) = of_nat a" "a + length ps \<le> 0x80000000"
  shows "case fold rb_step (map (\<lambda>p. Insert (nowf p) p (tag p) (arr p)) ps) (new_reorder w 0, []) of
    (st, out) \<Rightarrow> buf st = [] \<and> map tag out = map of_nat [a..<a + length ps]"
proof -
  let ?s = "of_nat a :: u32" and ?U = "set (map of_nat [a..<a + length ps] :: u32 list)"
  have U: "tag ` set ps = ?U" using mset_eq_setD [OF assms(3)] by simp
  have up: "sorted_wrt (<) (map of_nat [a..<a + length ps] :: u32 list)" by (rule strictly_counted [OF assms(5)])
  then have "distinct (map tag ps)" using strict_sorted_iff mset_eq_imp_distinct_iff [OF assms(3)] by blast
  have range: "\<forall>p\<in>set ps. ?s \<le> tag p \<and> tag p < 0x80000000"
  proof
    fix p assume "p \<in> set ps"
    then obtain i where i: "tag p = of_nat i" "a \<le> i" "i < a + length ps" using U by force
    then show "?s \<le> tag p \<and> tag p < 0x80000000"
      using assms(5) by (simp add: word_le_nat_alt word_less_nat_alt unsigned_of_nat take_bit_nat_eq_self)
  qed
  define st0 :: "'a reorder" where "st0 = (new_reorder w 0)\<lparr>expectedSeq := ?s, haveExpected := True\<rparr>"
  have "a < 0x80000000" using assms(1,5) by (cases ps) simp_all
  then have "?s \<le> 0x80000000" by (simp add: word_le_nat_alt unsigned_of_nat take_bit_nat_eq_self)
  then have "held_inv tag ?s {} st0 []" by (auto simp: held_inv_def ord_inv_def st0_def new_reorder_def)
  then obtain st out where r:
    "fold rb_step (map (\<lambda>p. Insert (nowf p) p (tag p) (arr p)) ps) (st0, []) = (st, out)"
    "held_inv tag ?s (tag ` set ps) st out" "\<forall>e\<in>set (buf st). e_seq e \<noteq> expectedSeq st"
    using held_run [of tag ?s "{}" st0 "[]" ps nowf arr] \<open>distinct (map tag ps)\<close> range assms(2)
    by (auto simp: st0_def new_reorder_def)
  have o: "ord_inv tag st out" using r(2) by (simp add: held_inv_def)
  have buf: "buf st = []"
  proof (rule ccontr)
    assume "buf st \<noteq> []"
    then obtain e where e: "e \<in> set (buf st)" by (meson list.set_sel(1))
    have "expectedSeq st < e_seq e" "?s \<le> expectedSeq st" "e_seq e \<in> ?U"
      using e r(2,3) U by (fastforce simp: held_inv_def intro: le_neq_trans)+
    then obtain j where j: "e_seq e = of_nat j" "a \<le> j" "j < a + length ps" by auto
    let ?x = "unat (expectedSeq st)"
    have "a \<le> ?x" "?x < j"
      using \<open>?s \<le> expectedSeq st\<close> \<open>expectedSeq st < e_seq e\<close> j assms(5) \<open>a < 0x80000000\<close>
      by (simp_all add: word_le_nat_alt word_less_nat_alt unsigned_of_nat take_bit_nat_eq_self)
    then have "expectedSeq st \<in> ?U" using j by (auto intro!: image_eqI [where x = ?x])
    then have "expectedSeq st \<in> tag ` set out \<union> e_seq ` set (buf st)" using r(2) U by (simp add: held_inv_def)
    moreover have "expectedSeq st \<notin> tag ` set out" using o by (force simp: ord_inv_def)
    moreover have "expectedSeq st \<notin> e_seq ` set (buf st)" using r(3) by auto
    ultimately show False by blast
  qed
  have "set (map tag out) = ?U" using r(2) buf U by (simp add: held_inv_def)
  then have "map tag out = map of_nat [a..<a + length ps]"
    using o up strict_sorted_equal by (metis ord_inv_def)
  moreover have "fold rb_step (map (\<lambda>p. Insert (nowf p) p (tag p) (arr p)) ps) (new_reorder w 0, []) = (st, out)"
  proof -
    obtain q qs where ps: "ps = q # qs" using assms(1) by (cases ps) auto
    have "rb_insert (nowf q) q (tag q) (arr q) (new_reorder w 0) = rb_insert (nowf q) q (tag q) (arr q) st0"
      using assms(4) by (simp add: rb_insert_def st0_def new_reorder_def ps)
    then show ?thesis using r(1) by (simp add: ps)
  qed
  ultimately show ?thesis using buf by simp
qed

text \<open>C5: As many packets as the window holds, beginning with the first of a run of consecutive numbers and
  then in any order at all, come out exactly in order, all of them, leaving nothing behind. The playout delay is 0,
  the default, and the numbers are below 2^31.\<close>

theorem reorder_window_restores_order:
  assumes "ps \<noteq> []" "length ps \<le> w" "mset (map tag ps) = mset (map of_nat [a..<a + length ps])"
    "tag (hd ps) = of_nat a" "a + length ps \<le> 0x80000000"
  shows "case fold rb_step (map (\<lambda>p. Insert (nowf p) p (tag p) (arr p)) ps) (new_reorder w 0, []) of
    (st, out) \<Rightarrow> buf st = [] \<and> map tag out = map of_nat [a..<a + length ps]"
  using assms by (rule window_restores_order)

theorem reorder_window_restores_order_witness:
  "snd (fold rb_step [Insert 0 (5 :: u32) 5 0, Insert 0 8 8 0, Insert 0 7 7 0, Insert 0 6 6 0] (new_reorder 4 0, []))
   = [5, 6, 7, 8]"
  using reorder_window_restores_order [where tag = "\<lambda>x. x" and ps = "[5, 8, 7, 6]" and a = 5 and w = 4
      and nowf = "\<lambda>_. 0" and arr = "\<lambda>_. 0"]
  by (simp add: case_prod_unfold upt_rec)

text \<open>C32: When the window is full and the packet the cursor waits for arrives, the overflow rule runs first:
  it throws away the oldest held packet and moves the cursor past it, so the arriving packet is stored
  below the cursor, nothing is delivered, and the held run stays blocked behind it. The playout delay is 0, the
  default, and the held numbers are above the cursor and below 2^31.\<close>

theorem full_window_blocks_on_missing_packet:
  assumes "haveExpected st" "buf st = e # es" "maxWindow st \<le> length (buf st)" "playoutDelay st = 0"
    "\<forall>x\<in>set (buf st). expectedSeq st < e_seq x \<and> e_seq x < 0x80000000"
  shows "rb_insert now pkt (expectedSeq st) a st =
    (st\<lparr>droppedOnOverflow := droppedOnOverflow st + 1, expectedSeq := e_seq e + 1, st_inserted := st_inserted st + 1,
       buf := \<lparr>e_seq = expectedSeq st, e_arrival = a, e_pkt = pkt\<rparr> # es\<rparr>, [])"
proof -
  have lt: "expectedSeq st < e_seq e" "e_seq e < 0x80000000" using assms(2,5) by simp_all
  have nb: "\<not> behind (expectedSeq st) (expectedSeq st)" by (simp add: behind_def)
  have nc: "\<not> contains (buf st) (expectedSeq st)" using assms(5) by (auto simp: contains_iff)
  have "expectedSeq st \<le> 0x80000000" using lt by (meson less_imp_le less_trans)
  then have nb': "\<not> behind (e_seq e) (expectedSeq st)" using behind_less [OF lt(2)] lt(1) by simp
  have em: "emplace \<lparr>e_seq = expectedSeq st, e_arrival = a, e_pkt = pkt\<rparr> es
      = \<lparr>e_seq = expectedSeq st, e_arrival = a, e_pkt = pkt\<rparr> # es"
    using assms(2,5) by (cases es) simp_all
  have ne: "expectedSeq st \<noteq> e_seq e + 1" using next_seq [OF lt(2)] lt(1) by auto
  show ?thesis
    using assms nb nc nb' em ne by (simp add: rb_insert_def evict_def Let_def drainInOrderLocked.simps)
qed

theorem full_window_blocks_on_missing_packet_witness:
  "snd (fold rb_step [Insert 0 (5 :: u32) 5 0, Insert 0 7 7 0, Insert 0 8 8 0, Insert 0 6 6 0] (new_reorder 2 0, [])) = [5]"
proof -
  let ?st = "(new_reorder 2 0)\<lparr>haveExpected := True, expectedSeq := 6, st_inserted := 3, emittedInOrder := 1,
    buf := [\<lparr>e_seq = 7, e_arrival = 0, e_pkt = 7 :: u32\<rparr>, \<lparr>e_seq = 8, e_arrival = 0, e_pkt = 8\<rparr>]\<rparr>"
  have s: "fold rb_step [Insert 0 (5 :: u32) 5 0, Insert 0 7 7 0, Insert 0 8 8 0] (new_reorder 2 0, []) = (?st, [5])"
    by (simp add: rb_insert_def evict_def Let_def drainInOrderLocked.simps new_reorder_def behind_def contains_def)
  show ?thesis
    using s full_window_blocks_on_missing_packet [of ?st "\<lparr>e_seq = 7, e_arrival = 0, e_pkt = 7 :: u32\<rparr>"
        "[\<lparr>e_seq = 8, e_arrival = 0, e_pkt = 8\<rparr>]" 0 6 0]
    by (simp add: new_reorder_def)
qed

section \<open>Waiting ends\<close>








text \<open>Due for 25 and still held: 9 waits behind 4, which came 30 after it and is not due.\<close>

lemma due_behind_a_later_arrival:
  "rb_insert 55 (77 :: nat) 4 50 ((new_reorder 8 10)\<lparr>haveExpected := True, expectedSeq := 2,
      buf := [\<lparr>e_seq = 9, e_arrival = 20, e_pkt = 22\<rparr>]\<rparr>) =
    ((new_reorder 8 10)\<lparr>haveExpected := True, expectedSeq := 2, st_inserted := 1,
      buf := [\<lparr>e_seq = 4, e_arrival = 50, e_pkt = 77\<rparr>, \<lparr>e_seq = 9, e_arrival = 20, e_pkt = 22\<rparr>]\<rparr>, [])"
  by (simp add: rb_insert_def evict_def Let_def drainInOrderLocked.simps deadline_loop.simps new_reorder_def behind_def contains_def)

end
