(* ===== verification/RtpReceive.thy ===== *)
theory RtpReceive
  imports RtpTracker RtpReorder
begin

text \<open>
  The receive path of an RTP session: the header accessors of \<open>promeki/rtppacket.h\<close>, and from
  \<open>src/network/rtpsession.cpp\<close> the demultiplexing of a datagram, the SSRC pin with its debounce and
  the dispatch through tracker, reorder buffer and output queue. A packet is its bytes and its arrival
  time; the RTCP handler, sockets and signals are outside: a datagram for them is returned as such.
\<close>

unbundle bit_operations_syntax

section \<open>The RTP header\<close>

definition HeaderSize :: nat where "HeaderSize = 12"

definition version :: "byte list \<Rightarrow> byte" where "version d = drop_bit 6 (d ! 0) AND 0x03"
definition setVersion :: "byte \<Rightarrow> byte list \<Rightarrow> byte list" where
  "setVersion v d = d[0 := (d ! 0 AND 0x3F) OR push_bit 6 (v AND 0x03)]"
definition extension :: "byte list \<Rightarrow> bool" where "extension d \<longleftrightarrow> drop_bit 4 (d ! 0) AND 0x01 \<noteq> 0"
definition csrcCount :: "byte list \<Rightarrow> byte" where "csrcCount d = d ! 0 AND 0x0F"
definition marker :: "byte list \<Rightarrow> bool" where "marker d \<longleftrightarrow> drop_bit 7 (d ! 1) AND 0x01 \<noteq> 0"
definition setMarker :: "bool \<Rightarrow> byte list \<Rightarrow> byte list" where
  "setMarker m d = d[1 := (d ! 1 AND 0x7F) OR (if m then 0x80 else 0)]"
definition payloadType :: "byte list \<Rightarrow> byte" where "payloadType d = d ! 1 AND 0x7F"
definition setPayloadType :: "byte \<Rightarrow> byte list \<Rightarrow> byte list" where
  "setPayloadType pt d = d[1 := (d ! 1 AND 0x80) OR (pt AND 0x7F)]"
definition sequenceNumber :: "byte list \<Rightarrow> u16" where "sequenceNumber d = rd16 (d ! 2) (d ! 3)"
definition setSequenceNumber :: "u16 \<Rightarrow> byte list \<Rightarrow> byte list" where
  "setSequenceNumber s d = d[2 := ucast (drop_bit 8 s), 3 := ucast s]"
definition timestamp :: "byte list \<Rightarrow> u32" where "timestamp d = rd32 (d ! 4) (d ! 5) (d ! 6) (d ! 7)"
definition setTimestamp :: "u32 \<Rightarrow> byte list \<Rightarrow> byte list" where
  "setTimestamp t d = d[4 := ucast (drop_bit 24 t), 5 := ucast (drop_bit 16 t), 6 := ucast (drop_bit 8 t), 7 := ucast t]"
definition ssrc :: "byte list \<Rightarrow> u32" where "ssrc d = rd32 (d ! 8) (d ! 9) (d ! 10) (d ! 11)"
definition setSsrc :: "u32 \<Rightarrow> byte list \<Rightarrow> byte list" where
  "setSsrc s d = d[8 := ucast (drop_bit 24 s), 9 := ucast (drop_bit 16 s), 10 := ucast (drop_bit 8 s), 11 := ucast s]"

definition headerSize :: "byte list \<Rightarrow> nat" where
  "headerSize d =
     (if length d < HeaderSize then 0
      else let hs = HeaderSize + unat (csrcCount d) * 4 in
        if length d < hs then 0
        else if extension d
          then (if length d < hs + 4 then 0
                else let hs' = hs + 4 + unat (rd16 (d ! (hs + 2)) (d ! (hs + 3))) * 4
                     in if length d < hs' then 0 else hs')
          else hs)"

definition rtp_isValid :: "byte list \<Rightarrow> bool" where
  "rtp_isValid d \<longleftrightarrow> HeaderSize \<le> length d \<and> version d = 2 \<and> headerSize d \<noteq> 0"

definition payload :: "byte list \<Rightarrow> byte list" where
  "payload d = (let hs = headerSize d in if hs = 0 \<or> length d \<le> hs then [] else drop hs d)"

definition new_rtp :: "nat \<Rightarrow> byte list" where
  "new_rtp n = setVersion 2 (replicate n 0)"

section \<open>Receivers\<close>

record rtp_packet =
  bytes :: "byte list"
  arrivalSteady :: int

record ssrc_pin =
  expectedSsrc :: u32
  pinned :: bool
  mismatchCount :: u32
  mismatchFirstTime :: int

record receiver =
  r_pt :: byte
  r_tracker :: tracker
  r_reorder :: "rtp_packet reorder"
  r_queue :: "rtp_packet queue"
  r_pin :: ssrc_pin

definition new_pin :: ssrc_pin where
  "new_pin = \<lparr>expectedSsrc = 0, pinned = False, mismatchCount = 0, mismatchFirstTime = 0\<rparr>"

definition kSsrcDebounceCount :: u32 where "kSsrcDebounceCount = 5"
definition kSsrcDebounceWindowMs :: int where "kSsrcDebounceWindowMs = 1000"

definition checkSsrcPin :: "u32 \<Rightarrow> int \<Rightarrow> receiver \<Rightarrow> receiver \<times> bool" where
  "checkSsrcPin src arrival r =
     (let pin = r_pin r in
      if \<not> pinned pin then (r\<lparr>r_pin := pin\<lparr>expectedSsrc := src, pinned := True, mismatchCount := 0\<rparr>\<rparr>, True)
      else if src = expectedSsrc pin then (r\<lparr>r_pin := pin\<lparr>mismatchCount := 0\<rparr>\<rparr>, True)
      else let windowMs = (arrival - mismatchFirstTime pin) sdiv 1000000 in
        if mismatchCount pin = 0 \<or> windowMs < 0 \<or> kSsrcDebounceWindowMs < windowMs
        then (r\<lparr>r_pin := pin\<lparr>mismatchFirstTime := arrival, mismatchCount := 1\<rparr>\<rparr>, False)
        else let pin' = pin\<lparr>mismatchCount := mismatchCount pin + 1\<rparr> in
          if mismatchCount pin' < kSsrcDebounceCount then (r\<lparr>r_pin := pin'\<rparr>, False)
          else (r\<lparr>r_pin := pin'\<lparr>expectedSsrc := src, mismatchCount := 0\<rparr>,
                   r_tracker := reset_tracker (r_tracker r), r_reorder := rb_clear (r_reorder r)\<rparr>, True))"

text \<open>The body of the dispatch for the receiver whose payload type matches.\<close>

definition receive_packet :: "int \<Rightarrow> rtp_packet \<Rightarrow> receiver \<Rightarrow> receiver" where
  "receive_packet now pkt r0 =
     (case checkSsrcPin (ssrc (bytes pkt)) (arrivalSteady pkt) r0 of (r, accept) \<Rightarrow>
        if \<not> accept then r
        else case observe (sequenceNumber (bytes pkt)) (timestamp (bytes pkt)) (arrivalSteady pkt) (r_tracker r) of
          (t, obs) \<Rightarrow>
            if r_duplicate obs then r\<lparr>r_tracker := t\<rparr>
            else case rb_insert now pkt (r_extendedSeq obs) (arrivalSteady pkt) (r_reorder r) of
              (b, out) \<Rightarrow>
                r\<lparr>r_tracker := t, r_reorder := b, r_queue := foldl pushDropOldest (r_queue r) out\<rparr>)"

fun dispatchToReceivers :: "int \<Rightarrow> rtp_packet \<Rightarrow> receiver list \<Rightarrow> receiver list" where
  "dispatchToReceivers now pkt [] = []"
| "dispatchToReceivers now pkt (r # rs) =
     (if r_pt r = payloadType (bytes pkt) then receive_packet now pkt r # rs
      else r # dispatchToReceivers now pkt rs)"

text \<open>One datagram off the transport: what it was taken for, and the receivers afterwards.\<close>

datatype datagram_kind = Runt | ToRtcp | ShortRtp | InvalidRtp | ToReceivers

definition receive_datagram :: "int \<Rightarrow> int \<Rightarrow> byte list \<Rightarrow> receiver list \<Rightarrow> datagram_kind \<times> receiver list" where
  "receive_datagram arrival now d rs =
     (if length d < 4 then (Runt, rs)
      else if 200 \<le> d ! 1 \<and> d ! 1 \<le> 223 then (ToRtcp, rs)
      else if length d < HeaderSize then (ShortRtp, rs)
      else if \<not> rtp_isValid d then (InvalidRtp, rs)
      else (ToReceivers, dispatchToReceivers now \<lparr>bytes = d, arrivalSteady = arrival\<rparr> rs))"

section \<open>Header fields read back\<close>

lemma rtp_fields_read_back:
  assumes "12 \<le> length d"
  shows "version (setVersion v d) = v AND 3" "marker (setMarker m d) = m" "payloadType (setPayloadType pt d) = pt AND 0x7F"
    "sequenceNumber (setSequenceNumber s d) = s" "timestamp (setTimestamp t d) = t" "ssrc (setSsrc i d) = i"
proof -
  have "d \<noteq> []" using assms by auto
  then show "version (setVersion v d) = v AND 3"
    using assms by (intro bit_byte_eqI) (simp_all add: version_def setVersion_def bit_simps)
  show "marker (setMarker m d) = m"
  proof -
    have "drop_bit 7 ((d ! 1 AND 0x7F) OR (if m then 0x80 else 0)) AND 0x01 = (if m then 1 else 0)"
      by (rule bit_byte_eqI; simp add: bit_simps)
    then show ?thesis using assms by (simp add: marker_def setMarker_def)
  qed
  show "payloadType (setPayloadType pt d) = pt AND 0x7F"
    using assms by (intro bit_byte_eqI) (simp_all add: payloadType_def setPayloadType_def bit_simps)
  show "sequenceNumber (setSequenceNumber s d) = s" "timestamp (setTimestamp t d) = t" "ssrc (setSsrc i d) = i"
    using assms by (simp_all add: sequenceNumber_def setSequenceNumber_def timestamp_def setTimestamp_def ssrc_def
        setSsrc_def be_simps)
qed

text \<open>A header stretches over the fixed part, the CSRC list and the extension, and never past the data.\<close>

lemma headerSize_bounds: "headerSize d \<noteq> 0 \<Longrightarrow> 12 \<le> headerSize d \<and> headerSize d \<le> length d"
  by (auto simp: headerSize_def HeaderSize_def Let_def split: if_splits)

section \<open>A source delivered in order\<close>

text \<open>\<open>n\<close> packets of one source whose 16-bit numbers count on from \<open>a\<close>.\<close>

primrec stream :: "nat \<Rightarrow> u32 \<Rightarrow> (int \<times> rtp_packet) list \<Rightarrow> bool" where
  "stream a src [] \<longleftrightarrow> True"
| "stream a src (x # xs) \<longleftrightarrow>
     sequenceNumber (bytes (snd x)) = of_nat a \<and> ssrc (bytes (snd x)) = src \<and> stream (Suc a) src xs"

definition receive_run :: "(int \<times> rtp_packet) list \<Rightarrow> receiver \<Rightarrow> receiver" where
  "receive_run xs r = fold (\<lambda>x. receive_packet (fst x) (snd x)) xs r"

lemma receive_run_simps [simp]:
  "receive_run [] r = r" "receive_run (x # xs) r = receive_run xs (receive_packet (fst x) (snd x) r)"
  by (simp_all add: receive_run_def)

text \<open>The source has passed probation and the next packet has extended number \<open>k\<close>.\<close>

definition running :: "u32 \<Rightarrow> nat \<Rightarrow> receiver \<Rightarrow> bool" where
  "running src k r \<longleftrightarrow>
     tracker_inv (r_tracker r) \<and> initialised (r_tracker r) \<and> probation (r_tracker r) = 0 \<and>
     extendedHighest (r_tracker r) + 1 = of_nat k \<and> maxSeq (r_tracker r) + 1 = of_nat k \<and>
     haveExpected (r_reorder r) \<and> pinned (r_pin r) \<and> expectedSsrc (r_pin r) = src"

lemma pin_same [simp]:
  "pinned (r_pin r) \<Longrightarrow> expectedSsrc (r_pin r) = src \<Longrightarrow>
   checkSsrcPin src a r = (r\<lparr>r_pin := (r_pin r)\<lparr>mismatchCount := 0\<rparr>\<rparr>, True)"
  by (simp add: checkSsrcPin_def Let_def)

lemma insert_at_cursor:
  assumes "haveExpected st" "buf st = []" "expectedSeq st = seq"
  shows "rb_insert now pkt seq a st =
    (st\<lparr>expectedSeq := seq + 1, emittedInOrder := emittedInOrder st + 1, st_inserted := st_inserted st + 1\<rparr>, [pkt])"
proof -
  have "evict st = st" by (rule evict_cases [of st]) (simp_all add: assms(2))
  then show ?thesis
    using assms by (simp add: rb_insert_def Let_def behind_def contains_def drainInOrderLocked.simps deadline_loop.simps)
qed

lemma insert_below_cursor:
  assumes "haveExpected st" "behind seq (expectedSeq st)"
  shows "rb_insert now pkt seq a st = (st\<lparr>droppedAsDuplicate := droppedAsDuplicate st + 1\<rparr>, [])"
  using assms by (simp add: rb_insert_def Let_def)

text \<open>What the tracker makes of the next packet of the run.\<close>

lemma running_observe:
  assumes "running src k r" "sequenceNumber d = of_nat k" "observe (sequenceNumber d) ts ns (r_tracker r) = (t, obs)"
  shows "r_extendedSeq obs = of_nat k" "\<not> r_duplicate obs" "tracker_inv t" "initialised t" "probation t = 0"
    "extendedHighest t + 1 = of_nat (Suc k)" "maxSeq t + 1 = of_nat (Suc k)"
proof -
  have seq: "sequenceNumber d - maxSeq (r_tracker r) = 1"
    using assms(1,2) by (simp add: running_def algebra_simps)
  have pre: "tracker_inv (r_tracker r)" "initialised (r_tracker r)" "probation (r_tracker r) = 0"
    "uint (sequenceNumber d - maxSeq (r_tracker r)) < 32768"
    using assms(1) unfolding seq by (simp_all add: running_def)
  note f = observe_forward [OF pre assms(3) [symmetric]]
  have "extendedHighest t = of_nat k" using f(1) assms(1) unfolding seq by (simp add: running_def)
  then show "r_extendedSeq obs = of_nat k" "\<not> r_duplicate obs" "tracker_inv t" "initialised t" "probation t = 0"
    "extendedHighest t + 1 = of_nat (Suc k)" "maxSeq t + 1 = of_nat (Suc k)"
    using f assms(2) by simp_all
qed

lemma running_accept:
  assumes "running src k r" "buf (r_reorder r) = []" "expectedSeq (r_reorder r) = of_nat k"
    "sequenceNumber (bytes pkt) = of_nat k" "ssrc (bytes pkt) = src"
    and r'_def: "r' = receive_packet now pkt r"
  shows "running src (Suc k) r'" "buf (r_reorder r') = []" "expectedSeq (r_reorder r') = of_nat (Suc k)"
    "r_queue r' = pushDropOldest (r_queue r) pkt"
proof -
  obtain t obs where o: "observe (sequenceNumber (bytes pkt)) (timestamp (bytes pkt)) (arrivalSteady pkt) (r_tracker r) = (t, obs)"
    by fastforce
  note f = running_observe [OF assms(1,4) o]
  have run: "haveExpected (r_reorder r)" "pinned (r_pin r)" "expectedSsrc (r_pin r) = src"
    using assms(1) by (simp_all add: running_def)
  note ins = insert_at_cursor [OF run(1) assms(2,3)]
  show "running src (Suc k) r'" "buf (r_reorder r') = []" "expectedSeq (r_reorder r') = of_nat (Suc k)"
    "r_queue r' = pushDropOldest (r_queue r) pkt"
    unfolding r'_def using f run ins assms(2,5) by (simp_all add: receive_packet_def o running_def)
qed

lemma running_below:
  assumes "running src k r" "expectedSeq (r_reorder r) = of_nat m" "k < m" "m \<le> 0x80000000"
    "sequenceNumber (bytes pkt) = of_nat k" "ssrc (bytes pkt) = src"
    and r'_def: "r' = receive_packet now pkt r"
  shows "running src (Suc k) r'" "buf (r_reorder r') = buf (r_reorder r)" "expectedSeq (r_reorder r') = of_nat m"
    "r_queue r' = r_queue r"
proof -
  obtain t obs where o: "observe (sequenceNumber (bytes pkt)) (timestamp (bytes pkt)) (arrivalSteady pkt) (r_tracker r) = (t, obs)"
    by fastforce
  note f = running_observe [OF assms(1,5) o]
  have run: "haveExpected (r_reorder r)" "pinned (r_pin r)" "expectedSsrc (r_pin r) = src"
    using assms(1) by (simp_all add: running_def)
  have "(of_nat k :: u32) < 0x80000000" "(of_nat m :: u32) \<le> 0x80000000" "(of_nat k :: u32) < of_nat m"
    using assms(3,4) by (simp_all add: word_less_nat_alt word_le_nat_alt unsigned_of_nat take_bit_nat_eq_self)
  then have "behind (of_nat k) (expectedSeq (r_reorder r))" using assms(2) by (simp add: behind_less)
  note ins = insert_below_cursor [OF run(1) this]
  show "running src (Suc k) r'" "buf (r_reorder r') = buf (r_reorder r)" "expectedSeq (r_reorder r') = of_nat m"
    "r_queue r' = r_queue r"
    unfolding r'_def using f run ins assms(2,6) by (simp_all add: receive_packet_def o running_def)
qed

lemma run_accept:
  "running src k r \<Longrightarrow> buf (r_reorder r) = [] \<Longrightarrow> expectedSeq (r_reorder r) = of_nat k \<Longrightarrow> stream k src xs \<Longrightarrow>
   r_queue (receive_run xs r) = foldl pushDropOldest (r_queue r) (map snd xs)"
proof (induction xs arbitrary: k r)
  case (Cons x xs)
  note s = running_accept [OF Cons.prems(1-3) _ _ refl, of "snd x" "fst x"]
  show ?case using Cons.IH [of "Suc k" "receive_packet (fst x) (snd x) r"] s Cons.prems(4) by simp
qed simp

lemma run_below:
  "running src k r \<Longrightarrow> expectedSeq (r_reorder r) = of_nat m \<Longrightarrow> k + length xs \<le> m \<Longrightarrow> m \<le> 0x80000000 \<Longrightarrow>
   stream k src xs \<Longrightarrow> r_queue (receive_run xs r) = r_queue r \<and> buf (r_reorder (receive_run xs r)) = buf (r_reorder r)"
proof (induction xs arbitrary: k r)
  case (Cons x xs)
  have "k < m" using Cons.prems(3) by simp
  note s = running_below [OF Cons.prems(1,2) this Cons.prems(4) _ _ refl, of "snd x" "fst x"]
  show ?case using Cons.IH [of "Suc k" "receive_packet (fst x) (snd x) r"] s Cons.prems(3,4,5) by simp
qed simp

section \<open>A fresh receiver\<close>

definition new_receiver :: "byte \<Rightarrow> u32 \<Rightarrow> nat \<Rightarrow> int \<Rightarrow> nat \<Rightarrow> receiver" where
  "new_receiver pt rate window delay qmax =
     \<lparr>r_pt = pt, r_tracker = setClockRateHz rate new_tracker, r_reorder = new_reorder window delay,
      r_queue = \<lparr>q_max = qmax, q_cancelled = False, q_items = []\<rparr>, r_pin = new_pin\<rparr>"

lemma observe_fresh:
  assumes "\<not> initialised t" "observe seq ts ns t = (t', obs)"
  shows "r_extendedSeq obs = ucast seq" "\<not> r_duplicate obs" "tracker_inv t'" "initialised t'" "probation t' = 1" "maxSeq t' = seq"
  using assms by (auto simp: observe_def observe_probation_def Let_def MinSequential_def initSourceLocked_def
      extended_def tracker_inv_def)

lemma ucast_of_nat_16: "n < 65536 \<Longrightarrow> (ucast (of_nat n :: u16) :: u32) = of_nat n"
  by (simp add: word_unat_eq_iff unsigned_of_nat take_bit_nat_eq_self)

lemma observe_second:
  assumes "initialised t" "probation t = 1" "seq = maxSeq t + 1" "observe seq ts ns t = (t', obs)"
  shows "r_extendedSeq obs = ucast seq" "\<not> r_duplicate obs" "tracker_inv t'" "initialised t'" "probation t' = 0"
    "extendedHighest t' = ucast seq" "maxSeq t' = seq"
  using assms by (auto simp: observe_def observe_probation_def Let_def initSourceLocked_def tracker_inv_def extendedHighest_def)

text \<open>The first two packets: both get through when the first is not number 65535, which restarts the
  extended numbering below the reorder cursor.\<close>

lemma fresh_two:
  assumes "sequenceNumber (bytes p) = of_nat a" "sequenceNumber (bytes q) = of_nat (Suc a)" "a < 65536"
    "ssrc (bytes p) = src" "ssrc (bytes q) = src"
    and r_def: "r = receive_packet n2 q (receive_packet n1 p (new_receiver pt rate w d qmax))"
  shows "running src (if a < 65535 then Suc (Suc a) else 1) r" "buf (r_reorder r) = []"
    "expectedSeq (r_reorder r) = of_nat (if a < 65535 then Suc (Suc a) else 65536)"
    "r_queue r = foldl pushDropOldest (r_queue (new_receiver pt rate w d qmax)) (if a < 65535 then [p, q] else [p])"
proof -
  let ?r0 = "new_receiver pt rate w d qmax"
  obtain t1 o1 where o1: "observe (of_nat a) (timestamp (bytes p)) (arrivalSteady p) (r_tracker ?r0) = (t1, o1)" by fastforce
  have "\<not> initialised (r_tracker ?r0)" by (simp add: new_receiver_def setClockRateHz_def new_tracker_def)
  note f1 = observe_fresh [OF this o1]
  have ua: "(ucast (of_nat a :: u16) :: u32) = of_nat a"
    using assms(3) by (rule ucast_of_nat_16)
  define r1 where "r1 = receive_packet n1 p ?r0"
  have ins1: "rb_insert n1 p (of_nat a) (arrivalSteady p) (new_reorder w d) =
      (new_reorder w d\<lparr>haveExpected := True, expectedSeq := of_nat a + 1, emittedInOrder := 1, st_inserted := 1\<rparr>, [p])"
    by (simp add: rb_insert_def Let_def behind_def contains_def drainInOrderLocked.simps deadline_loop.simps evict_def new_reorder_def)
  have r1: "r_tracker r1 = t1" "r_reorder r1 = (new_reorder w d)\<lparr>haveExpected := True, expectedSeq := of_nat a + 1, emittedInOrder := 1, st_inserted := 1\<rparr>"
    "r_queue r1 = pushDropOldest (r_queue ?r0) p" "pinned (r_pin r1)" "expectedSsrc (r_pin r1) = src"
    unfolding r1_def using f1(1,2) o1 ins1 assms(1,4) ua
    by (simp_all add: receive_packet_def checkSsrcPin_def new_pin_def new_receiver_def)
  obtain t2 o2 where o2: "observe (of_nat (Suc a)) (timestamp (bytes q)) (arrivalSteady q) t1 = (t2, o2)" by fastforce
  have "of_nat (Suc a) = maxSeq t1 + 1" using f1(6) by simp
  note f2 = observe_second [OF f1(4,5) this o2]
  have r: "r = receive_packet n2 q r1" by (simp add: r_def r1_def)
  have "running src (if a < 65535 then Suc (Suc a) else 1) r \<and> buf (r_reorder r) = [] \<and>
      expectedSeq (r_reorder r) = of_nat (if a < 65535 then Suc (Suc a) else 65536) \<and>
      r_queue r = foldl pushDropOldest (r_queue ?r0) (if a < 65535 then [p, q] else [p])"
  proof (cases "a < 65535")
    case True
    have us: "(ucast (of_nat (Suc a) :: u16) :: u32) = of_nat (Suc a)"
      using True by (intro ucast_of_nat_16) simp
    have ins2: "rb_insert n2 q (of_nat (Suc a)) (arrivalSteady q) (r_reorder r1) =
       ((r_reorder r1)\<lparr>expectedSeq := of_nat (Suc a) + 1, emittedInOrder := emittedInOrder (r_reorder r1) + 1,
          st_inserted := st_inserted (r_reorder r1) + 1\<rparr>, [q])"
      by (rule insert_at_cursor) (simp_all add: r1 new_reorder_def)
    show "running src (if a < 65535 then Suc (Suc a) else 1) r \<and> buf (r_reorder r) = [] \<and>
      expectedSeq (r_reorder r) = of_nat (if a < 65535 then Suc (Suc a) else 65536) \<and>
      r_queue r = foldl pushDropOldest (r_queue ?r0) (if a < 65535 then [p, q] else [p])"
      unfolding r using f2 o2 ins2 assms(2,5) us True
      by (simp add: receive_packet_def r1 running_def new_reorder_def)
  next
    case False
    then have a: "a = 65535" using assms(3) by simp
    have bh: "behind (0 :: u32) 65536" by (simp add: behind_less)
    have ins2: "rb_insert n2 q 0 (arrivalSteady q) (r_reorder r1) =
       ((r_reorder r1)\<lparr>droppedAsDuplicate := droppedAsDuplicate (r_reorder r1) + 1\<rparr>, [])"
      by (rule insert_below_cursor) (simp_all add: r1 new_reorder_def a bh)
    show "running src (if a < 65535 then Suc (Suc a) else 1) r \<and> buf (r_reorder r) = [] \<and>
      expectedSeq (r_reorder r) = of_nat (if a < 65535 then Suc (Suc a) else 65536) \<and>
      r_queue r = foldl pushDropOldest (r_queue ?r0) (if a < 65535 then [p, q] else [p])"
      unfolding r using f2 o2 ins2 assms(2,5)
      by (simp add: receive_packet_def r1 running_def new_reorder_def a)
  qed
  then show "running src (if a < 65535 then Suc (Suc a) else 1) r" "buf (r_reorder r) = []"
    "expectedSeq (r_reorder r) = of_nat (if a < 65535 then Suc (Suc a) else 65536)"
    "r_queue r = foldl pushDropOldest (r_queue ?r0) (if a < 65535 then [p, q] else [p])" by blast+
qed

section \<open>Properties of the receive path\<close>

lemma receive_packet_pt [simp]: "r_pt (receive_packet now pkt r) = r_pt r"
  by (simp add: receive_packet_def checkSsrcPin_def Let_def case_prod_unfold)

lemma dispatch_run:
  "\<forall>x\<in>set xs. payloadType (bytes (snd x)) = r_pt r \<Longrightarrow>
   fold (\<lambda>x. dispatchToReceivers (fst x) (snd x)) xs [r] = [receive_run xs r]"
  by (induction xs arbitrary: r) simp_all

lemma push_unbounded:
  "q_max q = 0 \<Longrightarrow> \<not> q_cancelled q \<Longrightarrow> q_items (foldl pushDropOldest q ps) = q_items q @ ps"
  by (induction ps arbitrary: q) (simp_all add: pushDropOldest_def)

lemma fresh_run:
  assumes "stream a src (x # y # xs)" "a < 65536"
  shows "r_queue (receive_run (x # y # xs) (new_receiver pt rate w d qmax)) =
    (if a < 65535 then foldl pushDropOldest (r_queue (new_receiver pt rate w d qmax)) (map snd (x # y # xs))
     else if length xs \<le> 65535 then pushDropOldest (r_queue (new_receiver pt rate w d qmax)) (snd x)
     else r_queue (receive_run (x # y # xs) (new_receiver pt rate w d qmax)))"
proof -
  define r where "r = receive_packet (fst y) (snd y) (receive_packet (fst x) (snd x) (new_receiver pt rate w d qmax))"
  have pre: "sequenceNumber (bytes (snd x)) = of_nat a" "sequenceNumber (bytes (snd y)) = of_nat (Suc a)"
    "ssrc (bytes (snd x)) = src" "ssrc (bytes (snd y)) = src" "stream (Suc (Suc a)) src xs"
    using assms(1) by simp_all
  note f = fresh_two [OF pre(1,2) assms(2) pre(3,4) r_def]
  have run: "receive_run (x # y # xs) (new_receiver pt rate w d qmax) = receive_run xs r" by (simp add: r_def)
  show ?thesis
  proof (cases "a < 65535")
    case True
    then have "r_queue (receive_run xs r) = foldl pushDropOldest (r_queue r) (map snd xs)"
      using f pre(5) by (intro run_accept [where k = "Suc (Suc a)" and src = src]) simp_all
    then show ?thesis using True f(4) unfolding run by simp
  next
    case False
    then have a: "a = 65535" using assms(2) by simp
    have "stream 1 src xs" if "stream 65537 src xs" for xs
    proof -
      have "stream (k + 65536) src zs = stream k src zs" for k zs
      proof (induction zs arbitrary: k)
        case (Cons z zs)
        have "(of_nat (k + 65536) :: u16) = of_nat k"
          by (simp only: word_unat_eq_iff unsigned_of_nat) (simp add: take_bit_eq_mod)
        then show ?case using Cons [of "Suc k"] by (simp only: stream.simps add_Suc)
      qed simp
      from this [of 1 xs] that show ?thesis by simp
    qed
    then have "stream 1 src xs" using pre(5) a by simp
    then have "r_queue (receive_run xs r) = r_queue r" if "length xs \<le> 65535"
      using run_below [of src 1 r 65536 xs] f that a by simp
    then show ?thesis using a f(4) unfolding run by simp
  qed
qed

text \<open>C3: A source received from its first packet on, in order, is delivered whole and in order: every
  packet reaches the output queue, across any number of wraps of the 16-bit counter and whatever the
  window and the playout delay, as long as the first packet is not number 65535. The queue is the unlimited one a
  receiver starts with, and at least two packets come, as the tracker releases the first only with the second.\<close>

theorem in_order_source_is_delivered:
  assumes "stream a src xs" "a < 65535" "2 \<le> length xs" "\<forall>x\<in>set xs. payloadType (bytes (snd x)) = pt"
  shows "\<exists>r. fold (\<lambda>x. dispatchToReceivers (fst x) (snd x)) xs [new_receiver pt rate w d 0] = [r] \<and>
    q_items (r_queue r) = map snd xs"
proof -
  obtain x y zs where xs: "xs = x # y # zs" using assms(3) by (metis Suc_le_length_iff numeral_2_eq_2)
  have "fold (\<lambda>x. dispatchToReceivers (fst x) (snd x)) xs [new_receiver pt rate w d 0]
      = [receive_run xs (new_receiver pt rate w d 0)]"
    using assms(4) by (intro dispatch_run) (simp add: new_receiver_def)
  moreover have "q_items (r_queue (receive_run xs (new_receiver pt rate w d 0))) = map snd xs"
  proof -
    have "r_queue (receive_run xs (new_receiver pt rate w d 0)) = foldl pushDropOldest (r_queue (new_receiver pt rate w d 0)) (map snd xs)"
      unfolding xs using fresh_run [of a src x y zs pt rate w d 0] assms(1,2) by (simp only: xs if_True)
    then show ?thesis by (simp add: push_unbounded new_receiver_def)
  qed
  ultimately show ?thesis by blast
qed

definition test_packet :: "u16 \<Rightarrow> rtp_packet" where
  "test_packet s = \<lparr>bytes = [0x80, 96, ucast (drop_bit 8 s), ucast s, 0, 0, 0, 0, 0, 0, 0, 0], arrivalSteady = 0\<rparr>"

lemma test_packet_fields:
  "sequenceNumber (bytes (test_packet s)) = s" "ssrc (bytes (test_packet s)) = 0" "payloadType (bytes (test_packet s)) = 96"
  by (simp_all add: test_packet_def sequenceNumber_def ssrc_def payloadType_def be_simps rd32_def)

theorem in_order_source_is_delivered_witness:
  "\<exists>r. fold (\<lambda>x. dispatchToReceivers (fst x) (snd x)) (map (\<lambda>s. (0, test_packet s)) [65534, 65535, 0, 1])
      [new_receiver 96 90000 64 0 0] = [r] \<and>
    q_items (r_queue r) = map snd (map (\<lambda>s. (0 :: int, test_packet s)) [65534, 65535, 0, 1])"
  by (rule in_order_source_is_delivered [where a = 65534 and src = 0]) (simp_all add: test_packet_fields)

text \<open>A source whose first received packet is number 65535 loses everything after it for a whole cycle:
  passing probation on number 0 restarts the extended numbering at 0 while the reorder cursor stands at
  65536, so up to 65536 packets in a row are discarded as duplicates.\<close>

theorem start_at_65535_discards_a_cycle:
  assumes "stream 65535 src (x # y # xs)" "length xs \<le> 65535" "\<forall>z\<in>set (x # y # xs). payloadType (bytes (snd z)) = pt"
  shows "\<exists>r. fold (\<lambda>x. dispatchToReceivers (fst x) (snd x)) (x # y # xs) [new_receiver pt rate w d 0] = [r] \<and>
    q_items (r_queue r) = [snd x]"
proof -
  have "fold (\<lambda>x. dispatchToReceivers (fst x) (snd x)) (x # y # xs) [new_receiver pt rate w d 0]
      = [receive_run (x # y # xs) (new_receiver pt rate w d 0)]"
    using assms(3) by (intro dispatch_run) (simp add: new_receiver_def)
  moreover have "r_queue (receive_run (x # y # xs) (new_receiver pt rate w d 0)) =
      pushDropOldest (r_queue (new_receiver pt rate w d 0)) (snd x)"
    using fresh_run [OF assms(1), of pt rate w d 0] assms(2) by simp
  moreover have "q_items (pushDropOldest (r_queue (new_receiver pt rate w d 0)) (snd x)) = [snd x]"
    by (simp add: pushDropOldest_def new_receiver_def)
  ultimately show ?thesis by simp
qed

theorem start_at_65535_discards_a_cycle_witness:
  "\<exists>r. fold (\<lambda>x. dispatchToReceivers (fst x) (snd x)) [(0, test_packet 65535), (0, test_packet 0), (0, test_packet 1)]
      [new_receiver 96 90000 64 0 0] = [r] \<and> q_items (r_queue r) = [snd (0 :: int, test_packet 65535)]"
  by (rule start_at_65535_discards_a_cycle [where src = 0]) (simp_all add: test_packet_fields)

text \<open>A jump to the remembered place: the tracker starts again there.\<close>

lemma observe_restart:
  assumes "tracker_inv t" "initialised t" "probation t = 0" "badSeq t = ucast seq"
    "32768 \<le> uint (seq - maxSeq t)" "uint (seq - maxSeq t) \<le> 64536" "observe seq ts ns t = (t', obs)"
  shows "r_extendedSeq obs = ucast seq" "\<not> r_duplicate obs" "tracker_inv t'" "initialised t'" "probation t' = 0"
    "extendedHighest t' = ucast seq" "maxSeq t' = seq"
proof -
  have "\<not> (ucast (seq - maxSeq t) :: u32) < MaxDropout" "(ucast (seq - maxSeq t) :: u32) \<le> SeqMod - MaxMisorder"
    using assms(5,6) by (simp_all add: word_less_def word_le_def MaxDropout_def SeqMod_def MaxMisorder_def)
  then have e: "observe_jump seq ts ns False t = (t', obs)" using assms(2,3,7) by (simp add: observe_def)
  show "tracker_inv t'" using tracker_inv_observe [OF assms(1), of seq ts ns] assms(7) by simp
  show "r_extendedSeq obs = ucast seq" "\<not> r_duplicate obs" "initialised t'" "probation t' = 0"
    "extendedHighest t' = ucast seq" "maxSeq t' = seq"
    using e assms(4) by (auto simp: observe_jump_def Let_def initSourceLocked_def extendedHighest_def)
qed

text \<open>When a sender restarts its numbering below the reorder cursor, the tracker follows it but nobody
  clears the reorder buffer: the packet that confirms the restart and every further packet up to the old
  cursor are discarded as late duplicates, and the queue receives nothing.\<close>

theorem restarted_source_is_discarded:
  assumes "tracker_reach (r_tracker r)" "initialised (r_tracker r)" "probation (r_tracker r) = 0"
    "pinned (r_pin r)" "expectedSsrc (r_pin r) = src" "haveExpected (r_reorder r)"
    "badSeq (r_tracker r) = of_nat s" "32768 \<le> uint (of_nat s - maxSeq (r_tracker r))"
    "uint (of_nat s - maxSeq (r_tracker r)) \<le> 64536" "s < 65536"
    "expectedSeq (r_reorder r) = of_nat m" "m \<le> 0x80000000"
    "stream s src xs" "s + length xs \<le> m" "\<forall>x\<in>set xs. payloadType (bytes (snd x)) = r_pt r"
  shows "\<exists>r'. fold (\<lambda>x. dispatchToReceivers (fst x) (snd x)) xs [r] = [r'] \<and>
    r_queue r' = r_queue r \<and> buf (r_reorder r') = buf (r_reorder r)"
proof (cases xs)
  case (Cons x ys)
  have x: "sequenceNumber (bytes (snd x)) = of_nat s" "ssrc (bytes (snd x)) = src" "stream (Suc s) src ys" "s < m"
    using assms(13,14) Cons by simp_all
  obtain t obs where o: "observe (of_nat s) (timestamp (bytes (snd x))) (arrivalSteady (snd x)) (r_tracker r) = (t, obs)"
    by fastforce
  note us = ucast_of_nat_16 [OF assms(10)]
  have bad: "badSeq (r_tracker r) = ucast (of_nat s :: u16)" using assms(7) us by simp
  note f = observe_restart [OF tracker_inv_reach [OF assms(1)] assms(2,3) bad assms(8,9) o]
  have "(of_nat s :: u32) < 0x80000000" "(of_nat m :: u32) \<le> 0x80000000" "(of_nat s :: u32) < of_nat m"
    using x(4) assms(10,12) by (simp_all add: word_less_nat_alt word_le_nat_alt unsigned_of_nat take_bit_nat_eq_self)
  then have "behind (of_nat s) (expectedSeq (r_reorder r))" using assms(11) by (simp add: behind_less)
  note ins = insert_below_cursor [OF assms(6) this]
  define r1 where "r1 = receive_packet (fst x) (snd x) r"
  have r1: "running src (Suc s) r1" "expectedSeq (r_reorder r1) = of_nat m" "r_queue r1 = r_queue r"
    "buf (r_reorder r1) = buf (r_reorder r)"
    unfolding r1_def using f ins x assms(4-6,11) us o by (simp_all add: receive_packet_def running_def)
  have "r_queue (receive_run ys r1) = r_queue r1 \<and> buf (r_reorder (receive_run ys r1)) = buf (r_reorder r1)"
    using assms(14) Cons by (intro run_below [OF r1(1,2) _ assms(12) x(3)]) simp
  then show ?thesis using dispatch_run [OF assms(15)] r1 Cons by (simp add: r1_def)
qed simp

theorem restarted_source_is_discarded_witness:
  "\<exists>r'. fold (\<lambda>x. dispatchToReceivers (fst x) (snd x)) [(0, test_packet 101), (0, test_packet 102)]
     [(new_receiver 96 90000 64 0 0)
        \<lparr>r_tracker := fst (observe 100 0 0 (deliver [(0, 0), (0, 0)] 19998 new_tracker)),
         r_reorder := (new_reorder 64 0)\<lparr>haveExpected := True, expectedSeq := 20000\<rparr>,
         r_pin := new_pin\<lparr>pinned := True\<rparr>\<rparr>] = [r'] \<and>
     r_queue r' = r_queue (new_receiver 96 90000 64 0 0) \<and> buf (r_reorder r') = []"
proof -
  define t where "t = fst (observe 100 0 0 (deliver [(0, 0), (0, 0)] 19998 new_tracker))"
  have "tracker_reach t" unfolding t_def by (simp, intro tracker_reach.intros)
  moreover have "initialised t" "probation t = 0" "badSeq t = 101" "maxSeq t = 19999"
    unfolding t_def
    by (simp_all add: observe_def observe_probation_def observe_jump_def new_tracker_def initSourceLocked_def Let_def
        MinSequential_def MaxDropout_def SeqMod_def MaxMisorder_def)
  ultimately show ?thesis
    unfolding t_def [symmetric]
    using restarted_source_is_discarded [where s = 101 and m = 20000 and src = 0 and xs = "[(0, test_packet 101), (0, test_packet 102)]"
        and r = "(new_receiver 96 90000 64 0 0)\<lparr>r_tracker := t,
         r_reorder := (new_reorder 64 0)\<lparr>haveExpected := True, expectedSeq := 20000\<rparr>,
         r_pin := new_pin\<lparr>pinned := True\<rparr>\<rparr>"]
    by (simp add: test_packet_fields new_receiver_def new_pin_def new_reorder_def)
qed

text \<open>A packet of another source while the count is low: only the pin's bookkeeping moves.\<close>

lemma uint_plus_1: "uint w < 2 ^ LENGTH(32) - 1 \<Longrightarrow> uint (w + 1 :: u32) = uint w + 1"
  using uint_add_lem [of w 1] by simp

lemma stray_packet:
  assumes "pinned (r_pin r)" "ssrc (bytes pkt) \<noteq> expectedSsrc (r_pin r)" "uint (mismatchCount (r_pin r)) < 4"
  shows "\<exists>pin. receive_packet now pkt r = r\<lparr>r_pin := pin\<rparr> \<and> pinned pin \<and> expectedSsrc pin = expectedSsrc (r_pin r) \<and>
    uint (mismatchCount pin) \<le> uint (mismatchCount (r_pin r)) + 1"
proof -
  have u: "uint (mismatchCount (r_pin r) + 1) = uint (mismatchCount (r_pin r)) + 1"
    using assms(3) by (intro uint_plus_1) simp
  then have "mismatchCount (r_pin r) + 1 < 5" using assms(3) by (simp add: word_less_def)
  then show ?thesis
    using assms u
    by (simp add: receive_packet_def checkSsrcPin_def Let_def kSsrcDebounceCount_def)
      (intro conjI impI; rule exI, rule conjI, rule refl, simp)
qed

lemma stray_run:
  "pinned (r_pin r) \<Longrightarrow> \<forall>x\<in>set xs. ssrc (bytes (snd x)) \<noteq> expectedSsrc (r_pin r) \<Longrightarrow>
   uint (mismatchCount (r_pin r)) + int (length xs) \<le> 4 \<Longrightarrow>
   \<exists>pin. receive_run xs r = r\<lparr>r_pin := pin\<rparr> \<and> pinned pin \<and> expectedSsrc pin = expectedSsrc (r_pin r)"
proof (induction xs arbitrary: r)
  case Nil
  then show ?case by (intro exI [of _ "r_pin r"]) simp
next
  case (Cons x xs)
  have "ssrc (bytes (snd x)) \<noteq> expectedSsrc (r_pin r)" "uint (mismatchCount (r_pin r)) < 4" using Cons.prems by simp_all
  from stray_packet [OF Cons.prems(1) this, of "fst x"] obtain pin where
    pin: "receive_packet (fst x) (snd x) r = r\<lparr>r_pin := pin\<rparr>" "pinned pin" "expectedSsrc pin = expectedSsrc (r_pin r)"
      "uint (mismatchCount pin) \<le> uint (mismatchCount (r_pin r)) + 1" by blast
  have "\<exists>pin'. receive_run xs (r\<lparr>r_pin := pin\<rparr>) = (r\<lparr>r_pin := pin\<rparr>)\<lparr>r_pin := pin'\<rparr> \<and> pinned pin' \<and>
      expectedSsrc pin' = expectedSsrc (r_pin (r\<lparr>r_pin := pin\<rparr>))"
    by (rule Cons.IH) (use pin Cons.prems in simp_all)
  then show ?case using pin by simp
qed

text \<open>C27: Up to four packets of foreign sources between packets of the pinned one are dropped without a
  trace: tracker, reorder buffer and output queue keep their exact states and the pin its source.\<close>

theorem stray_sources_leave_no_trace:
  assumes "pinned (r_pin r)" "mismatchCount (r_pin r) = 0" "length xs \<le> 4"
    "\<forall>x\<in>set xs. payloadType (bytes (snd x)) = r_pt r \<and> ssrc (bytes (snd x)) \<noteq> expectedSsrc (r_pin r)"
  shows "\<exists>r'. fold (\<lambda>x. dispatchToReceivers (fst x) (snd x)) xs [r] = [r'] \<and> r_tracker r' = r_tracker r \<and>
    r_reorder r' = r_reorder r \<and> r_queue r' = r_queue r \<and> expectedSsrc (r_pin r') = expectedSsrc (r_pin r)"
proof -
  have "fold (\<lambda>x. dispatchToReceivers (fst x) (snd x)) xs [r] = [receive_run xs r]"
    using assms(4) by (intro dispatch_run) simp
  moreover obtain pin where "receive_run xs r = r\<lparr>r_pin := pin\<rparr>" "expectedSsrc pin = expectedSsrc (r_pin r)"
    using stray_run [of r xs] assms by auto
  ultimately show ?thesis by simp
qed

theorem stray_sources_leave_no_trace_witness:
  "\<exists>r'. fold (\<lambda>x. dispatchToReceivers (fst x) (snd x)) [(0, test_packet 5), (0, test_packet 6)]
      [(new_receiver 96 90000 64 0 0)\<lparr>r_pin := new_pin\<lparr>pinned := True, expectedSsrc := 77\<rparr>\<rparr>] = [r'] \<and>
    r_tracker r' = r_tracker (new_receiver 96 90000 64 0 0)"
  using stray_sources_leave_no_trace [of "(new_receiver 96 90000 64 0 0)\<lparr>r_pin := new_pin\<lparr>pinned := True, expectedSsrc := 77\<rparr>\<rparr>"
      "[(0, test_packet 5), (0, test_packet 6)]"]
  by (auto simp: test_packet_fields new_receiver_def new_pin_def)

end
