(* ===== verification/Strings.thy ===== *)
theory Strings
  imports Prelude
begin

text \<open>
  \<open>src/core/stringdata.cpp\<close>, \<open>src/core/char.cpp\<close> and the construction of \<open>String\<close> from bytes in
  \<open>include/promeki/string.h\<close>: a \<open>String\<close> is its storage, one byte per character or a list of code points with
  the cached UTF-8 form. \<open>size()\<close> counts characters, \<open>cstr()\<close> gives bytes; a loop over \<open>cstr()[i]\<close> up to
  \<open>size()\<close> sees the bytes \<open>str_view\<close>, which is where the two kinds of storage part.
\<close>

unbundle bit_operations_syntax

section \<open>Storage\<close>

text \<open>\<open>Unicode cs None\<close> has its cache out of date; \<open>Unicode cs (Some bs)\<close> holds the bytes it was made from.\<close>

datatype str = Latin1 "byte list" | Unicode "u32 list" "byte list option"

definition toUtf8 :: "u32 \<Rightarrow> byte list" where
  "toUtf8 cp =
     (if cp < 0x80 then [ucast cp]
      else if cp < 0x800 then [ucast (0xC0 OR drop_bit 6 cp), ucast (0x80 OR (cp AND 0x3F))]
      else if cp < 0x10000
        then [ucast (0xE0 OR drop_bit 12 cp), ucast (0x80 OR (drop_bit 6 cp AND 0x3F)), ucast (0x80 OR (cp AND 0x3F))]
      else [ucast (0xF0 OR drop_bit 18 cp), ucast (0x80 OR (drop_bit 12 cp AND 0x3F)),
            ucast (0x80 OR (drop_bit 6 cp AND 0x3F)), ucast (0x80 OR (cp AND 0x3F))])"

definition ensureEncoded :: "u32 list \<Rightarrow> byte list option \<Rightarrow> byte list" where
  "ensureEncoded cs cache = (case cache of Some bs \<Rightarrow> bs | None \<Rightarrow> concat (map toUtf8 cs))"

fun cstr :: "str \<Rightarrow> byte list" where
  "cstr (Latin1 bs) = bs"
| "cstr (Unicode cs cache) = ensureEncoded cs cache"

fun str_size :: "str \<Rightarrow> nat" where
  "str_size (Latin1 bs) = length bs"
| "str_size (Unicode cs cache) = length cs"

definition str_view :: "str \<Rightarrow> byte list" where
  "str_view s = take (str_size s) (cstr s)"

section \<open>From bytes\<close>

text \<open>The length of the sequence a lead byte opens and the data bits it carries.\<close>

definition lead_byte :: "byte \<Rightarrow> (nat \<times> u32) option" where
  "lead_byte b =
     (if b AND 0xE0 = 0xC0 then Some (2, ucast (b AND 0x1F))
      else if b AND 0xF0 = 0xE0 then Some (3, ucast (b AND 0x0F))
      else if b AND 0xF8 = 0xF0 then Some (4, ucast (b AND 0x07))
      else None)"

fun continue_char :: "u32 \<Rightarrow> byte list \<Rightarrow> u32 option" where
  "continue_char cp [] = Some cp"
| "continue_char cp (c # cs) =
     (if c AND 0xC0 \<noteq> 0x80 then None else continue_char (push_bit 6 cp OR ucast (c AND 0x3F)) cs)"

text \<open>One code point and the bytes it took; anything malformed is U+FFFD and one byte.\<close>

fun char_fromUtf8 :: "byte list \<Rightarrow> u32 \<times> nat" where
  "char_fromUtf8 [] = (0xFFFD, 0)"
| "char_fromUtf8 (b # bs) =
     (if b < 0x80 then (ucast b, 1)
      else case lead_byte b of
        None \<Rightarrow> (0xFFFD, 1)
      | Some (need, cp) \<Rightarrow>
          if length (b # bs) < need then (0xFFFD, 1)
          else (case continue_char cp (take (need - 1) bs) of None \<Rightarrow> (0xFFFD, 1) | Some cp' \<Rightarrow> (cp', need)))"

lemma char_fromUtf8_advances: "0 < snd (char_fromUtf8 (b # bs))"
  by (auto simp: lead_byte_def split: option.splits)

function chars_fromUtf8 :: "byte list \<Rightarrow> u32 list" where
  "chars_fromUtf8 bs =
     (if bs = [] then [] else (case char_fromUtf8 bs of (cp, n) \<Rightarrow> cp # chars_fromUtf8 (drop (max 1 n) bs)))"
  by pat_completeness auto
termination by (relation "measure length") auto

declare chars_fromUtf8.simps [simp del]

definition makeDataFromUtf8 :: "byte list \<Rightarrow> str" where
  "makeDataFromUtf8 bs = (if \<exists>b\<in>set bs. 0x7F < b then Unicode (chars_fromUtf8 bs) (Some bs) else Latin1 bs)"

section \<open>Facts\<close>

lemma cstr_makeData [simp]: "cstr (makeDataFromUtf8 bs) = bs"
  by (simp add: makeDataFromUtf8_def ensureEncoded_def)

lemma char_fromUtf8_within: "snd (char_fromUtf8 (b # bs)) \<le> length (b # bs)"
  by (auto split: option.splits)

lemma chars_fromUtf8_step:
  "bs \<noteq> [] \<Longrightarrow> chars_fromUtf8 bs = fst (char_fromUtf8 bs) # chars_fromUtf8 (drop (snd (char_fromUtf8 bs)) bs)"
  using char_fromUtf8_advances [of "hd bs" "tl bs"]
  by (subst chars_fromUtf8.simps) (auto simp: max_def case_prod_unfold)

lemma chars_fromUtf8_bound: "length (chars_fromUtf8 bs) \<le> length bs"
proof (induction bs rule: chars_fromUtf8.induct)
  case (1 bs)
  show ?case
  proof (cases "bs = []")
    case True
    then show ?thesis by (simp add: chars_fromUtf8.simps)
  next
    case False
    then obtain b r where bs: "bs = b # r" by (cases bs) auto
    have n: "0 < snd (char_fromUtf8 bs)" unfolding bs by (rule char_fromUtf8_advances)
    then have "length (chars_fromUtf8 (drop (snd (char_fromUtf8 bs)) bs)) \<le> length (drop (snd (char_fromUtf8 bs)) bs)"
      using "1.IH" [OF False, of "fst (char_fromUtf8 bs)" "snd (char_fromUtf8 bs)"] by (simp add: max_def)
    then show ?thesis using n False by (simp add: chars_fromUtf8_step) (simp add: bs)
  qed
qed

text \<open>Text with a character of several bytes is cut short by a loop that runs to \<open>size()\<close>.\<close>

lemma view_cut:
  assumes "1 < snd (char_fromUtf8 r)" "r \<noteq> []" "0x7F < hd r"
  shows "length (str_view (makeDataFromUtf8 r)) < length r"
proof -
  have "length (chars_fromUtf8 r) = Suc (length (chars_fromUtf8 (drop (snd (char_fromUtf8 r)) r)))"
    using assms(2) by (simp add: chars_fromUtf8_step [of r])
  also have "\<dots> \<le> Suc (length r - snd (char_fromUtf8 r))" using chars_fromUtf8_bound [of "drop (snd (char_fromUtf8 r)) r"] by simp
  also have "\<dots> < length r" using assms(1,2) char_fromUtf8_within [of "hd r" "tl r"] by simp
  finally have "length (chars_fromUtf8 r) < length r" .
  moreover have "\<exists>b\<in>set r. 0x7F < b" using assms(2,3) hd_in_set by blast
  ultimately show ?thesis by (simp add: str_view_def makeDataFromUtf8_def ensureEncoded_def)
qed

section \<open>Characters and concatenation\<close>

fun chars_of :: "str \<Rightarrow> u32 list" where
  "chars_of (Latin1 bs) = map ucast bs"
| "chars_of (Unicode cs cache) = cs"

definition char_toLower :: "u32 \<Rightarrow> u32" where
  "char_toLower cp =
     (if 0x41 \<le> cp \<and> cp \<le> 0x5A then cp + 32
      else if 0xC0 \<le> cp \<and> cp \<le> 0xDE \<and> cp \<noteq> 0xD7 then cp + 32 else cp)"

text \<open>\<open>compareIgnoreCase(...) == 0\<close>.\<close>

definition equalIgnoreCase :: "str \<Rightarrow> str \<Rightarrow> bool" where
  "equalIgnoreCase a b \<longleftrightarrow> map char_toLower (chars_of a) = map char_toLower (chars_of b)"

text \<open>\<open>operator+=\<close>: bytes stay bytes until a Unicode operand promotes them.\<close>

definition str_append :: "str \<Rightarrow> str \<Rightarrow> str" where
  "str_append a b =
     (if str_size b = 0 then a
      else case (a, b) of
        (Latin1 x, Latin1 y) \<Rightarrow> Latin1 (x @ y)
      | _ \<Rightarrow> Unicode (chars_of a @ chars_of b) None)"

definition str_append_char :: "str \<Rightarrow> byte \<Rightarrow> str" where
  "str_append_char s c = (case s of Latin1 bs \<Rightarrow> Latin1 (bs @ [c]) | Unicode cs cache \<Rightarrow> Unicode (cs @ [ucast c]) None)"

definition str_bytes :: "str \<Rightarrow> nat" where
  "str_bytes s = length (cstr s)"

definition ascii :: "byte list \<Rightarrow> bool" where
  "ascii bs \<longleftrightarrow> (\<forall>b\<in>set bs. b \<le> 0x7F)"

lemma makeData_ascii: "ascii bs \<Longrightarrow> makeDataFromUtf8 bs = Latin1 bs"
  by (auto simp: makeDataFromUtf8_def ascii_def not_less)

lemma str_view_Latin1 [simp]: "str_view (Latin1 bs) = bs"
  by (simp add: str_view_def)

lemma str_append_Latin1 [simp]: "str_append (Latin1 a) (Latin1 b) = Latin1 (a @ b)"
  by (simp add: str_append_def)

lemma equalIgnoreCase_refl [simp]: "equalIgnoreCase s s"
  by (simp add: equalIgnoreCase_def)

end
