(* ===== verification/Amf0.thy ===== *)
theory Amf0
  imports Prelude Strings
begin

text \<open>
  \<open>src/proav/amf0.cpp\<close>: the AMF0 value tree, its writer and its reader, as RTMP commands and FLV
  metadata use them. A double is the 64 bits the code copies it through; a string is its UTF-8 bytes,
  and the normalisation \<open>String::fromUtf8\<close> applies to bytes off the wire is the argument \<open>norm\<close>.
  The writer returns the bytes it appended together with the error it stopped at (\<open>Ok\<close> when it did
  not). The reader's recursion runs on fuel, and running out of fuel is \<open>None\<close>, a value apart.
\<close>

section \<open>Values\<close>

datatype amf =
    Null | Undefined | Unsupported
  | Boolean bool
  | Number u64
  | String "byte list"
  | XmlDocument "byte list"
  | Date u64 u16
  | Reference u16
  | StrictArray "amf list"
  | Object "(byte list \<times> amf) list"
  | EcmaArray u32 "(byte list \<times> amf) list"
  | TypedObject "byte list" "(byte list \<times> amf) list"

type_synonym fields = "(byte list \<times> amf) list"

text \<open>Field lists: lookup finds the first field of the name, assignment replaces it in place or appends.\<close>

fun find_field :: "byte list \<Rightarrow> fields \<Rightarrow> amf option" where
  "find_field key [] = None"
| "find_field key ((k, v) # fs) = (if k = key then Some v else find_field key fs)"

fun setField :: "byte list \<Rightarrow> amf \<Rightarrow> fields \<Rightarrow> fields" where
  "setField key value [] = [(key, value)]"
| "setField key value ((k, v) # fs) = (if k = key then (k, value) # fs else (k, v) # setField key value fs)"

section \<open>Writer\<close>

definition be64 :: "u64 \<Rightarrow> byte list" where
  "be64 w = be32 (ucast (drop_bit 32 w)) @ be32 (ucast w)"

type_synonym written = "byte list \<times> error"

text \<open>Append, and go on only when nothing has failed.\<close>

definition andThen :: "written \<Rightarrow> written \<Rightarrow> written" where
  "andThen a b = (if snd a = Ok then (fst a @ fst b, snd b) else a)"

definition put :: "byte list \<Rightarrow> written" where "put bs = (bs, Ok)"

definition appendShortString :: "byte list \<Rightarrow> written" where
  "appendShortString s =
     (if 0xFFFF < length s then ([], OutOfRange) else put (be16 (of_nat (length s)) @ s))"

definition appendLongString :: "byte list \<Rightarrow> written" where
  "appendLongString s =
     (if 0xFFFFFFFF < length s then ([], OutOfRange) else put (be32 (of_nat (length s)) @ s))"

definition writeString :: "byte list \<Rightarrow> written" where
  "writeString s =
     (if length s \<le> 0xFFFF then andThen (put [0x02]) (appendShortString s)
      else andThen (put [0x0C]) (appendLongString s))"

definition appendObjectEnd :: written where "appendObjectEnd = put [0x00, 0x00, 0x09]"

fun writeValue :: "amf \<Rightarrow> written" and writeItems :: "amf list \<Rightarrow> written" and writeFields :: "fields \<Rightarrow> written" where
  "writeValue Null = put [0x05]"
| "writeValue Undefined = put [0x06]"
| "writeValue (Boolean b) = put [0x01, if b then 0x01 else 0x00]"
| "writeValue (Number n) = put (0x00 # be64 n)"
| "writeValue (String s) = writeString s"
| "writeValue (XmlDocument s) = andThen (put [0x0F]) (appendLongString s)"
| "writeValue (Date ms tz) = put (0x0B # be64 ms @ be16 tz)"
| "writeValue (StrictArray vs) = andThen (put (0x0A # be32 (of_nat (length vs)))) (writeItems vs)"
| "writeValue (Object fs) = andThen (put [0x03]) (andThen (writeFields fs) appendObjectEnd)"
| "writeValue (EcmaArray hint fs) = andThen (put (0x08 # be32 hint)) (andThen (writeFields fs) appendObjectEnd)"
| "writeValue (TypedObject cls fs) =
     (if 0xFFFF < length cls then ([], OutOfRange)
      else andThen (put [0x10]) (andThen (appendShortString cls) (andThen (writeFields fs) appendObjectEnd)))"
| "writeValue (Reference i) = put (0x07 # be16 i)"
| "writeValue Unsupported = put [0x0D]"
| "writeItems [] = put []"
| "writeItems (v # vs) = andThen (writeValue v) (writeItems vs)"
| "writeFields [] = put []"
| "writeFields ((k, v) # fs) =
     (if 0xFFFF < length k then ([], OutOfRange)
      else andThen (appendShortString k) (andThen (writeValue v) (writeFields fs)))"

section \<open>Reader\<close>

definition loadU16 :: "byte list \<Rightarrow> u16" where "loadU16 d = rd16 (d ! 0) (d ! 1)"
definition loadU32 :: "byte list \<Rightarrow> u32" where "loadU32 d = rd32 (d ! 0) (d ! 1) (d ! 2) (d ! 3)"
definition loadU64 :: "byte list \<Rightarrow> u64" where
  "loadU64 d = push_bit 32 (ucast (loadU32 d)) OR ucast (loadU32 (drop 4 d))"

definition readBytesString :: "(byte list \<Rightarrow> byte list) \<Rightarrow> nat \<Rightarrow> byte list \<Rightarrow> (byte list \<times> byte list) result" where
  "readBytesString norm n d =
     (if length d < n then Inl OutOfRange else Inr (norm (take n d), drop n d))"

definition readShortString :: "(byte list \<Rightarrow> byte list) \<Rightarrow> byte list \<Rightarrow> (byte list \<times> byte list) result" where
  "readShortString norm d =
     (if length d < 2 then Inl OutOfRange else readBytesString norm (unat (loadU16 d)) (drop 2 d))"

definition readLongString :: "(byte list \<Rightarrow> byte list) \<Rightarrow> byte list \<Rightarrow> (byte list \<times> byte list) result" where
  "readLongString norm d =
     (if length d < 4 then Inl OutOfRange else readBytesString norm (unat (loadU32 d)) (drop 4 d))"

text \<open>Carry a result on, through errors and exhausted fuel.\<close>

definition then_read :: "('a \<times> byte list) result option \<Rightarrow> ('a \<Rightarrow> byte list \<Rightarrow> ('b \<times> byte list) result option)
    \<Rightarrow> ('b \<times> byte list) result option" where
  "then_read r k = (case r of None \<Rightarrow> None | Some (Inl e) \<Rightarrow> Some (Inl e) | Some (Inr (x, d)) \<Rightarrow> k x d)"

fun readValue :: "(byte list \<Rightarrow> byte list) \<Rightarrow> nat \<Rightarrow> byte list \<Rightarrow> (amf \<times> byte list) result option"
  and readItems :: "(byte list \<Rightarrow> byte list) \<Rightarrow> nat \<Rightarrow> nat \<Rightarrow> byte list \<Rightarrow> (amf list \<times> byte list) result option"
  and readObjectBody :: "(byte list \<Rightarrow> byte list) \<Rightarrow> nat \<Rightarrow> byte list \<Rightarrow> (fields \<times> byte list) result option"
where
  "readValue norm 0 inp = None"
| "readValue norm (Suc n) [] = Some (Inl OutOfRange)"
| "readValue norm (Suc n) (m # d) =
     (if m = 0x00 then Some (if length d < 8 then Inl OutOfRange else Inr (Number (loadU64 d), drop 8 d))
      else if m = 0x01 then Some (if length d < 1 then Inl OutOfRange else Inr (Boolean (d ! 0 \<noteq> 0), drop 1 d))
      else if m = 0x02 then then_read (Some (readShortString norm d)) (\<lambda>s d. Some (Inr (String s, d)))
      else if m = 0x0C then then_read (Some (readLongString norm d)) (\<lambda>s d. Some (Inr (String s, d)))
      else if m = 0x05 then Some (Inr (Null, d))
      else if m = 0x06 then Some (Inr (Undefined, d))
      else if m = 0x0D then Some (Inr (Unsupported, d))
      else if m = 0x07 then Some (if length d < 2 then Inl OutOfRange else Inr (Reference (loadU16 d), drop 2 d))
      else if m = 0x0B then Some (if length d < 10 then Inl OutOfRange
                                  else Inr (Date (loadU64 d) (loadU16 (drop 8 d)), drop 10 d))
      else if m = 0x0A then
        (if length d < 4 then Some (Inl OutOfRange)
         else then_read (readItems norm n (unat (loadU32 d)) (drop 4 d)) (\<lambda>vs d. Some (Inr (StrictArray vs, d))))
      else if m = 0x03 then then_read (readObjectBody norm n d) (\<lambda>fs d. Some (Inr (Object fs, d)))
      else if m = 0x08 then
        (if length d < 4 then Some (Inl OutOfRange)
         else then_read (readObjectBody norm n (drop 4 d)) (\<lambda>fs d'. Some (Inr (EcmaArray (loadU32 d) fs, d'))))
      else if m = 0x10 then
        then_read (Some (readShortString norm d)) (\<lambda>cls d.
          then_read (readObjectBody norm n d) (\<lambda>fs d. Some (Inr (TypedObject cls fs, d))))
      else if m = 0x0F then then_read (Some (readLongString norm d)) (\<lambda>s d. Some (Inr (XmlDocument s, d)))
      else if m = 0x11 then Some (Inl NotSupported)
      else Some (Inl CorruptData))"
| "readItems norm 0 c d = None"
| "readItems norm (Suc n) 0 d = Some (Inr ([], d))"
| "readItems norm (Suc n) (Suc c) d =
     then_read (readValue norm n d) (\<lambda>v d. then_read (readItems norm n c d) (\<lambda>vs d. Some (Inr (v # vs, d))))"
| "readObjectBody norm 0 d = None"
| "readObjectBody norm (Suc n) d =
     (if length d < 2 then Some (Inl OutOfRange)
      else let keyLen = unat (loadU16 d) in
        if keyLen = 0 then
          Some (if length d < 3 then Inl OutOfRange
                else if d ! 2 \<noteq> 0x09 then Inl CorruptData else Inr ([], drop 3 d))
        else if length d < 2 + keyLen then Some (Inl OutOfRange)
        else let key = norm (take keyLen (drop 2 d)) in
          then_read (readValue norm n (drop (2 + keyLen) d)) (\<lambda>v d.
            then_read (readObjectBody norm n d) (\<lambda>fs d. Some (Inr ((key, v) # fs, d)))))"

text \<open>\<open>Amf0Reader::readOne\<close>, with fuel for the worst case, and \<open>Amf0Reader::read\<close>, which returns the
  values read before an error together with the error.\<close>

definition readOne :: "(byte list \<Rightarrow> byte list) \<Rightarrow> byte list \<Rightarrow> (amf \<times> byte list) result" where
  "readOne norm d = (case readValue norm (2 * length d + 1) d of None \<Rightarrow> Inl NotImplemented | Some r \<Rightarrow> r)"

fun read_loop :: "(byte list \<Rightarrow> byte list) \<Rightarrow> nat \<Rightarrow> byte list \<Rightarrow> amf list \<times> error" where
  "read_loop norm n [] = ([], Ok)"
| "read_loop norm 0 d = ([], NotImplemented)"
| "read_loop norm (Suc n) d =
     (case readOne norm d of
        Inl e \<Rightarrow> ([], e)
      | Inr (v, rest) \<Rightarrow> (case read_loop norm n rest of (vs, e) \<Rightarrow> (v # vs, e)))"

definition amf_read :: "(byte list \<Rightarrow> byte list) \<Rightarrow> byte list \<Rightarrow> amf list \<times> error" where
  "amf_read norm d = read_loop norm (length d) d"

section \<open>Reading terminates\<close>

lemma then_read_Inr [simp]:
  "then_read r k = Some (Inr y) \<longleftrightarrow> (\<exists>x d. r = Some (Inr (x, d)) \<and> k x d = Some (Inr y))"
  by (auto simp: then_read_def split: option.splits sum.splits)

lemma then_read_None [simp]: "then_read r k = None \<longleftrightarrow> r = None \<or> (\<exists>x d. r = Some (Inr (x, d)) \<and> k x d = None)"
  by (auto simp: then_read_def split: option.splits sum.splits)

lemma readString_shrinks:
  "readShortString norm d = Inr (s, r) \<Longrightarrow> length r < length d" "readLongString norm d = Inr (s, r) \<Longrightarrow> length r < length d"
  by (auto simp: readShortString_def readLongString_def readBytesString_def split: if_splits)

text \<open>A successful read consumes bytes.\<close>

lemma read_shrinks:
  "(\<forall>d v r. readValue norm n d = Some (Inr (v, r)) \<longrightarrow> length r < length d) \<and>
   (\<forall>c d vs r. readItems norm n c d = Some (Inr (vs, r)) \<longrightarrow> length r \<le> length d) \<and>
   (\<forall>d fs r. readObjectBody norm n d = Some (Inr (fs, r)) \<longrightarrow> length r < length d)"
proof (induction n)
  case 0
  then show ?case by simp
next
  case (Suc n)
  note V = Suc [THEN conjunct1, rule_format] and I = Suc [THEN conjunct2, THEN conjunct1, rule_format]
    and B = Suc [THEN conjunct2, THEN conjunct2, rule_format]
  have "length r < length d" if "readValue norm (Suc n) d = Some (Inr (v, r))" for d v r
    using that by (cases d) (auto split: if_splits dest!: I B readString_shrinks intro: less_trans)
  moreover have "length r \<le> length d" if "readItems norm (Suc n) c d = Some (Inr (vs, r))" for c d vs r
    using that by (cases c) (auto dest!: V I)
  moreover have "length r < length d" if "readObjectBody norm (Suc n) d = Some (Inr (fs, r))" for d fs r
    using that by (auto simp: Let_def split: if_splits dest!: V B)
  ultimately show ?case by blast
qed

lemma read_fuel:
  "(\<forall>d. 2 * length d < n \<longrightarrow> readValue norm n d \<noteq> None) \<and>
   (\<forall>c d. 2 * length d + 1 < n \<longrightarrow> readItems norm n c d \<noteq> None) \<and>
   (\<forall>d. 2 * length d + 1 < n \<longrightarrow> readObjectBody norm n d \<noteq> None)"
proof (induction n)
  case 0
  then show ?case by simp
next
  case (Suc n)
  note V = Suc [THEN conjunct1, rule_format] and I = Suc [THEN conjunct2, THEN conjunct1, rule_format]
    and B = Suc [THEN conjunct2, THEN conjunct2, rule_format]
  note shrinks = read_shrinks [of norm n, THEN conjunct1, rule_format]
  have "readValue norm (Suc n) d \<noteq> None" if "2 * length d < Suc n" for d
    using that by (cases d) (auto simp del: not_None_eq dest!: readString_shrinks intro!: I B split: if_splits)
  moreover have "readItems norm (Suc n) c d \<noteq> None" if "2 * length d + 1 < Suc n" for c d
    using that V [of d] by (cases c) (auto dest!: shrinks intro!: I [simplified not_None_eq])
  moreover have "readObjectBody norm (Suc n) d \<noteq> None" if "2 * length d + 1 < Suc n" for d
    using that by (auto simp: Let_def simp del: not_None_eq dest!: shrinks intro!: V B B [simplified not_None_eq])
  ultimately show ?case by blast
qed

section \<open>Reading back what was written\<close>

lemma loads_written [simp]:
  "loadU16 (be16 w @ d) = w" "loadU32 (be32 u @ d) = u"
  by (simp_all add: loadU16_def be16_def loadU32_def be32_def be_simps)

lemma loadU64_written [simp]: "loadU64 (be64 w @ d) = w"
proof -
  have d4: "drop 4 (be32 u @ e) = e" for u e by (simp add: be32_def)
  have "loadU64 (be64 w @ d) = push_bit 32 (ucast (ucast (drop_bit 32 w) :: u32)) OR ucast (ucast w :: u32)"
    by (simp add: loadU64_def be64_def d4)
  also have "\<dots> = w"
    by (rule bit_word_eqI) (auto simp: bit_simps)
  finally show ?thesis .
qed

lemma length_be64 [simp]: "length (be64 w) = 8"
  by (simp add: be64_def be32_def)

lemma andThen_Ok [simp]: "snd (andThen a b) = Ok \<longleftrightarrow> snd a = Ok \<and> snd b = Ok"
  by (auto simp: andThen_def)

lemma fst_andThen: "snd a = Ok \<Longrightarrow> fst (andThen a b) = fst a @ fst b"
  by (simp add: andThen_def)

lemma put_simps [simp]: "fst (put bs) = bs" "snd (put bs) = Ok"
  by (simp_all add: put_def)

text \<open>The trees a peer can be sent: keys not empty, every text unchanged by the normalisation, sizes
  within their length fields.\<close>

fun wf_amf :: "(byte list \<Rightarrow> byte list) \<Rightarrow> amf \<Rightarrow> bool" where
  "wf_amf norm (String s) \<longleftrightarrow> norm s = s \<and> length s \<le> 0xFFFFFFFF"
| "wf_amf norm (XmlDocument s) \<longleftrightarrow> norm s = s \<and> length s \<le> 0xFFFFFFFF"
| "wf_amf norm (StrictArray vs) \<longleftrightarrow> length vs \<le> 0xFFFFFFFF \<and> list_all (wf_amf norm) vs"
| "wf_amf norm (Object fs) \<longleftrightarrow> list_all (\<lambda>(k, v). k \<noteq> [] \<and> length k \<le> 0xFFFF \<and> norm k = k \<and> wf_amf norm v) fs"
| "wf_amf norm (EcmaArray h fs) \<longleftrightarrow> list_all (\<lambda>(k, v). k \<noteq> [] \<and> length k \<le> 0xFFFF \<and> norm k = k \<and> wf_amf norm v) fs"
| "wf_amf norm (TypedObject c fs) \<longleftrightarrow> length c \<le> 0xFFFF \<and> norm c = c \<and>
     list_all (\<lambda>(k, v). k \<noteq> [] \<and> length k \<le> 0xFFFF \<and> norm k = k \<and> wf_amf norm v) fs"
| "wf_amf norm v \<longleftrightarrow> True"

definition wf_fields :: "(byte list \<Rightarrow> byte list) \<Rightarrow> fields \<Rightarrow> bool" where
  "wf_fields norm fs \<longleftrightarrow> list_all (\<lambda>(k, v). k \<noteq> [] \<and> length k \<le> 0xFFFF \<and> norm k = k \<and> wf_amf norm v) fs"

lemma unat_of_nat_16 [simp]: "n \<le> 0xFFFF \<Longrightarrow> unat (of_nat n :: u16) = n"
  by (simp add: unsigned_of_nat take_bit_nat_eq_self)

lemma unat_of_nat_32 [simp]: "n \<le> 0xFFFFFFFF \<Longrightarrow> unat (of_nat n :: u32) = n"
  by (simp add: unsigned_of_nat take_bit_nat_eq_self)

lemma short_read_back:
  assumes "length s \<le> 0xFFFF" "norm s = s"
  shows "appendShortString s = put (be16 (of_nat (length s)) @ s)"
    "readShortString norm ((be16 (of_nat (length s)) @ s) @ d) = Inr (s, d)"
  using assms by (simp_all add: appendShortString_def readShortString_def readBytesString_def)

lemma long_read_back:
  assumes "length s \<le> 0xFFFFFFFF" "norm s = s"
  shows "appendLongString s = put (be32 (of_nat (length s)) @ s)"
    "readLongString norm ((be32 (of_nat (length s)) @ s) @ d) = Inr (s, d)"
  using assms by (simp_all add: appendLongString_def readLongString_def readBytesString_def)

lemma then_read_simps [simp]:
  "then_read None k = None" "then_read (Some (Inl e)) k = Some (Inl e)" "then_read (Some (Inr (x, d))) k = k x d"
  by (simp_all add: then_read_def)

lemma writeString_read_back:
  assumes "norm s = s" "length s \<le> 0xFFFFFFFF"
  shows "snd (writeString s) = Ok \<and> readValue norm (Suc n) (fst (writeString s) @ d) = Some (Inr (String s, d))"
proof (cases "length s \<le> 0xFFFF")
  case True
  then show ?thesis using short_read_back [of s norm] assms(1) True by (simp add: writeString_def fst_andThen)
next
  case False
  then show ?thesis using long_read_back [of s norm] assms by (simp add: writeString_def fst_andThen)
qed

definition reads_back :: "(byte list \<Rightarrow> byte list) \<Rightarrow> amf \<Rightarrow> bool" where
  "reads_back norm v \<longleftrightarrow> snd (writeValue v) = Ok \<and>
     (\<forall>m d. 2 * length (fst (writeValue v) @ d) \<le> m \<longrightarrow>
        readValue norm (Suc m) (fst (writeValue v) @ d) = Some (Inr (v, d)))"

definition items_read_back :: "(byte list \<Rightarrow> byte list) \<Rightarrow> amf list \<Rightarrow> bool" where
  "items_read_back norm vs \<longleftrightarrow> snd (writeItems vs) = Ok \<and>
     (\<forall>m d. 2 * length (fst (writeItems vs) @ d) + 2 \<le> m \<longrightarrow>
        readItems norm m (length vs) (fst (writeItems vs) @ d) = Some (Inr (vs, d)))"

definition fields_read_back :: "(byte list \<Rightarrow> byte list) \<Rightarrow> fields \<Rightarrow> bool" where
  "fields_read_back norm fs \<longleftrightarrow> snd (writeFields fs) = Ok \<and>
     (\<forall>m d. 2 * length (fst (writeFields fs) @ 0 # 0 # 9 # d) + 2 \<le> m \<longrightarrow>
        readObjectBody norm m (fst (writeFields fs) @ 0 # 0 # 9 # d) = Some (Inr (fs, d)))"

lemma body_end: "readObjectBody norm (Suc m) (0 # 0 # 9 # d) = Some (Inr ([], d))"
  by (simp add: loadU16_def rd16_def Let_def)

lemma body_field:
  assumes "k \<noteq> []" "length k \<le> 0xFFFF" "norm k = k"
  shows "readObjectBody norm (Suc m) (be16 (of_nat (length k)) @ k @ d) =
    then_read (readValue norm m d) (\<lambda>v d. then_read (readObjectBody norm m d) (\<lambda>fs d. Some (Inr ((k, v) # fs, d))))"
proof -
  have "drop (Suc (Suc (length k))) (be16 (of_nat (length k)) @ k @ d) = d" by simp
  then show ?thesis using assms by (simp add: Let_def)
qed

lemma write_read:
  "wf_amf norm v \<Longrightarrow> reads_back norm v"
  "list_all (wf_amf norm) vs \<Longrightarrow> items_read_back norm vs"
  "wf_fields norm fs \<Longrightarrow> fields_read_back norm fs"
proof (induction v and vs and fs rule: writeValue_writeItems_writeFields.induct)
  case (3 b)
  then show ?case by (simp add: reads_back_def)
next
  case (5 s)
  then show ?case using writeString_read_back [of norm s] by (simp add: reads_back_def)
next
  case (6 s)
  then show ?case using long_read_back [of s norm] by (simp add: reads_back_def fst_andThen)
next
  case (8 vs)
  then have "items_read_back norm vs" "length vs \<le> 0xFFFFFFFF" by simp_all
  then show ?case by (simp add: reads_back_def items_read_back_def fst_andThen)
next
  case (9 fs)
  then have "fields_read_back norm fs" by (simp add: wf_fields_def)
  then show ?case by (simp add: reads_back_def fields_read_back_def fst_andThen appendObjectEnd_def)
next
  case (10 hint fs)
  then have "fields_read_back norm fs" by (simp add: wf_fields_def)
  then show ?case by (simp add: reads_back_def fields_read_back_def fst_andThen appendObjectEnd_def)
next
  case (11 cls fs)
  then have "fields_read_back norm fs" "length cls \<le> 0xFFFF" "norm cls = cls" by (simp_all add: wf_fields_def)
  then show ?case
    using short_read_back [of cls norm] by (simp add: reads_back_def fields_read_back_def fst_andThen appendObjectEnd_def)
next
  case 14
  show ?case unfolding items_read_back_def
  proof (intro conjI allI impI)
    fix m d assume "2 * length (fst (writeItems []) @ d) + 2 \<le> m"
    then obtain m' where "m = Suc m'" by (cases m) simp_all
    then show "readItems norm m (length ([] :: amf list)) (fst (writeItems []) @ d) = Some (Inr ([], d))" by simp
  qed simp
next
  case (15 v vs)
  then have v: "reads_back norm v" and vs: "items_read_back norm vs" by (simp_all add: reads_back_def)
  show ?case unfolding items_read_back_def
  proof (intro conjI allI impI)
    show "snd (writeItems (v # vs)) = Ok" using v vs by (simp add: reads_back_def items_read_back_def)
    fix m d assume m: "2 * length (fst (writeItems (v # vs)) @ d) + 2 \<le> m"
    have w: "fst (writeItems (v # vs)) = fst (writeValue v) @ fst (writeItems vs)"
      using v by (simp add: reads_back_def fst_andThen)
    obtain m' where m': "m = Suc (Suc m')" using m by (cases m; cases "m - 1") simp_all
    have "readValue norm (Suc m') (fst (writeValue v) @ fst (writeItems vs) @ d) = Some (Inr (v, fst (writeItems vs) @ d))"
      using v m unfolding reads_back_def w m' by simp
    moreover have "readItems norm (Suc m') (length vs) (fst (writeItems vs) @ d) = Some (Inr (vs, d))"
    proof -
      have "length (fst (writeValue v)) > 0"
        using read_shrinks [of norm "Suc m'", THEN conjunct1, rule_format, OF calculation] by simp
      then obtain l where "length (fst (writeValue v)) = Suc l" using gr0_implies_Suc by blast
      then show ?thesis using vs m unfolding items_read_back_def w m' by simp
    qed
    ultimately show "readItems norm m (length (v # vs)) (fst (writeItems (v # vs)) @ d) = Some (Inr (v # vs, d))"
      unfolding m' w by simp
  qed
next
  case 16
  show ?case unfolding fields_read_back_def
  proof (intro conjI allI impI)
    fix m d assume "2 * length (fst (writeFields []) @ 0 # 0 # 9 # d) + 2 \<le> m"
    then obtain m' where "m = Suc m'" by (cases m) simp_all
    then show "readObjectBody norm m (fst (writeFields []) @ 0 # 0 # 9 # d) = Some (Inr ([], d))"
      using body_end by simp
  qed simp
next
  case (17 k v fs)
  then have k: "k \<noteq> []" "length k \<le> 0xFFFF" "norm k = k" and v: "reads_back norm v" and fs: "fields_read_back norm fs"
    by (simp_all add: wf_fields_def reads_back_def)
  show ?case unfolding fields_read_back_def
  proof (intro conjI allI impI)
    show "snd (writeFields ((k, v) # fs)) = Ok"
      using v fs k short_read_back [of k norm] by (simp add: reads_back_def fields_read_back_def)
    fix m d assume m: "2 * length (fst (writeFields ((k, v) # fs)) @ 0 # 0 # 9 # d) + 2 \<le> m"
    have w: "fst (writeFields ((k, v) # fs)) = be16 (of_nat (length k)) @ k @ fst (writeValue v) @ fst (writeFields fs)"
      using v k short_read_back [of k norm] by (simp add: reads_back_def fst_andThen)
    obtain m' where m': "m = Suc (Suc m')" using m by (cases m; cases "m - 1") simp_all
    have "readValue norm (Suc m') (fst (writeValue v) @ fst (writeFields fs) @ 0 # 0 # 9 # d)
        = Some (Inr (v, fst (writeFields fs) @ 0 # 0 # 9 # d))"
      using v m unfolding reads_back_def w m' by simp
    moreover have "readObjectBody norm (Suc m') (fst (writeFields fs) @ 0 # 0 # 9 # d) = Some (Inr (fs, d))"
      using fs m unfolding fields_read_back_def w m' by (simp del: readObjectBody.simps)
    ultimately show "readObjectBody norm m (fst (writeFields ((k, v) # fs)) @ 0 # 0 # 9 # d) = Some (Inr ((k, v) # fs, d))"
      unfolding m' w append_assoc body_field [of k norm, OF k] by simp
  qed
qed (simp_all add: reads_back_def)

section \<open>Messages\<close>

lemma readOne_terminates: "readValue norm (2 * length d + 1) d \<noteq> None"
  using read_fuel [where n = "2 * length d + 1" and norm = norm] by simp

lemma readOne_write:
  assumes "wf_amf norm v"
  shows "readOne norm (fst (writeValue v) @ d) = Inr (v, d)"
  using write_read(1) [OF assms] by (simp add: readOne_def reads_back_def)

lemma readOne_shrinks: "readOne norm d = Inr (v, r) \<Longrightarrow> length r < length d"
  using read_shrinks [of norm "2 * length d + 1"] by (auto simp: readOne_def split: option.splits)

interpretation amf0: prefix_codec "\<lambda>v. fst (writeValue v)" "readOne norm" "wf_amf norm" for norm
proof unfold_locales
  show "readOne norm (fst (writeValue v) @ rest) = Inr (v, rest)" if "wf_amf norm v" for v rest
    using that by (rule readOne_write)
  show "fst (writeValue v) \<noteq> []" if "wf_amf norm v" for v
    using readOne_shrinks [OF readOne_write [OF that, of "[]"]] by auto
qed

lemma read_loop_dec_all: "dec_all (readOne norm) n d = Inr vs \<Longrightarrow> read_loop norm n d = (vs, Ok)"
proof (induction n arbitrary: d vs)
  case 0
  then show ?case by (cases d) simp_all
next
  case (Suc n)
  show ?case
  proof (cases d)
    case (Cons b bs)
    then obtain v r ws where "readOne norm d = Inr (v, r)" "dec_all (readOne norm) n r = Inr ws" "vs = v # ws"
      using Suc.prems by (auto split: sum.splits)
    then show ?thesis using Suc.IH Cons by simp
  qed (use Suc.prems in simp)
qed

text \<open>C19: A message of AMF0 values written one after another, objects, arrays and typed objects nested to
  any depth, is read back as the same list, without error.\<close>

theorem amf_message_roundtrip:
  assumes "\<forall>v\<in>set vs. wf_amf norm v"
  shows "amf_read norm (concat (map (\<lambda>v. fst (writeValue v)) vs)) = (vs, Ok) \<and> (\<forall>v\<in>set vs. snd (writeValue v) = Ok)"
proof
  have "dec_all (readOne norm) (length (concat (map (\<lambda>v. fst (writeValue v)) vs)))
      (concat (map (\<lambda>v. fst (writeValue v)) vs)) = Inr vs"
    by (rule amf0.dec_all_concat [OF assms amf0.length_concat_ge [OF assms]])
  then show "amf_read norm (concat (map (\<lambda>v. fst (writeValue v)) vs)) = (vs, Ok)"
    unfolding amf_read_def by (rule read_loop_dec_all)
  show "\<forall>v\<in>set vs. snd (writeValue v) = Ok" using assms write_read(1) by (auto simp: reads_back_def)
qed

theorem amf_message_roundtrip_witness:
  "amf_read (\<lambda>s. s) (concat (map (\<lambda>v. fst (writeValue v))
     [String [0x61], Number 7, Object [([0x62], StrictArray [Null, Boolean True])]])) =
   ([String [0x61], Number 7, Object [([0x62], StrictArray [Null, Boolean True])]], Ok)"
  using amf_message_roundtrip [where norm = "\<lambda>s. s"
      and vs = "[String [0x61], Number 7, Object [([0x62], StrictArray [Null, Boolean True])]]"]
  by simp

text \<open>C31: On every input the recursive reader ends: with twice the number of bytes plus one as fuel it
  never runs out, and a value it returns has consumed at least one byte and left a shorter rest.\<close>

theorem amf_reader_ends:
  "\<exists>r. readValue norm (2 * length d + 1) d = Some r \<and> (case r of Inl e \<Rightarrow> True | Inr (v, rest) \<Rightarrow> length rest < length d)"
proof -
  obtain r where r: "readValue norm (2 * length d + 1) d = Some r" using readOne_terminates by blast
  moreover have "case r of Inl e \<Rightarrow> True | Inr (v, rest) \<Rightarrow> length rest < length d"
    using read_shrinks [of norm "2 * length d + 1"] r by (auto split: sum.split)
  ultimately show ?thesis by blast
qed

lemma first_byte_not_end: "snd (writeValue v) = Ok \<Longrightarrow> \<exists>b bs. fst (writeValue v) = b # bs \<and> b \<noteq> 9"
  by (cases v) (auto simp: writeString_def fst_andThen appendObjectEnd_def)

text \<open>A field with an empty name is written without complaint, but its two zero length bytes are what ends
  an object: whatever value follows, the reader rejects the object as corrupt.\<close>

theorem amf_empty_key_unreadable:
  assumes "snd (writeValue v) = Ok" "snd (writeFields fs) = Ok"
  shows "snd (writeValue (Object (([], v) # fs))) = Ok \<and>
    readOne norm (fst (writeValue (Object (([], v) # fs)))) = Inl CorruptData"
proof -
  obtain b bs where b: "fst (writeValue v) = b # bs" "b \<noteq> 9" using first_byte_not_end [OF assms(1)] by blast
  have w: "fst (writeValue (Object (([], v) # fs))) = 0x03 # 0 # 0 # b # bs @ fst (writeFields fs) @ [0, 0, 9]"
    using assms b(1) by (simp add: fst_andThen appendShortString_def appendObjectEnd_def be16_def)
  have body: "readObjectBody norm (Suc m) (0 # 0 # b # d) = Some (Inl CorruptData)" for m d
    using b(2) by (simp add: loadU16_def rd16_def Let_def)
  have "readOne norm (0x03 # 0 # 0 # b # d) = Inl CorruptData" for d
    by (simp add: readOne_def body del: readObjectBody.simps)
  then show ?thesis using assms w by (simp add: appendShortString_def appendObjectEnd_def del: readValue.simps)
qed

theorem amf_empty_key_unreadable_witness:
  "readOne (\<lambda>s. s) (fst (writeValue (Object (([], Number 1) # [([0x61], Null)])))) = Inl CorruptData"
  using amf_empty_key_unreadable [of "Number 1" "[([0x61], Null)]" "\<lambda>s. s"]
  by (simp add: appendShortString_def del: readValue.simps)

section \<open>Field lists\<close>

lemma find_setField: "find_field key (setField k v fs) = (if key = k then Some v else find_field key fs)"
  by (induction k v fs rule: setField.induct) auto

lemma setField_keys: "map fst (setField k v fs) = (if k \<in> fst ` set fs then map fst fs else map fst fs @ [k])"
  by (induction k v fs rule: setField.induct) auto

section \<open>What a reader returns\<close>

lemma unat_le_16: "unat (w :: u16) \<le> 0xFFFF"
  using unsigned_less [of w, where ?'a = nat] by simp

lemma unat_le_32: "unat (w :: u32) \<le> 0xFFFFFFFF"
  using unsigned_less [of w, where ?'a = nat] by simp

lemma readString_wf:
  "readShortString (\<lambda>s. s) d = Inr (s, r) \<Longrightarrow> length s \<le> 0xFFFF"
  "readLongString (\<lambda>s. s) d = Inr (s, r) \<Longrightarrow> length s \<le> 0xFFFFFFFF"
  by (auto simp: readShortString_def readLongString_def readBytesString_def unat_le_16 unat_le_32 split: if_splits)

lemma readShort_wf_long: "readShortString (\<lambda>s. s) d = Inr (s, r) \<Longrightarrow> length s \<le> 0xFFFFFFFF"
  by (drule readString_wf(1)) simp

lemma reads_wf:
  "readValue (\<lambda>s. s) n d = Some (Inr (v, r)) \<Longrightarrow> wf_amf (\<lambda>s. s) v"
  "readItems (\<lambda>s. s) n c d = Some (Inr (vs, r)) \<Longrightarrow> length vs = c \<and> list_all (wf_amf (\<lambda>s. s)) vs"
  "readObjectBody (\<lambda>s. s) n d = Some (Inr (fs, r)) \<Longrightarrow> wf_fields (\<lambda>s. s) fs"
proof (induction n arbitrary: d c v vs fs r)
  case (Suc n)
  note body = Suc.IH(3) [unfolded wf_fields_def]
  { case 1
    show ?case
    proof (cases d)
      case (Cons m d')
      then show ?thesis
        using 1 by (auto simp: unat_le_32 split: if_splits dest: readString_wf readShort_wf_long Suc.IH(1,2) body)
          (auto dest: readString_wf(1) body)
    qed (use 1 in simp)
  next
    case 2
    then show ?case using Suc.IH by (cases c) auto
  next
    case 3
    then show ?case
      using Suc.IH(1) Suc.IH(3) by (auto simp: wf_fields_def Let_def unat_le_16 split: if_splits) }
qed simp_all

lemma read_loop_wf: "v \<in> set (fst (read_loop (\<lambda>s. s) n d)) \<Longrightarrow> wf_amf (\<lambda>s. s) v"
proof (induction n arbitrary: d)
  case 0
  then show ?case by (cases d) simp_all
next
  case (Suc n)
  show ?case
  proof (cases "d = []")
    case False
    then obtain w rest where w: "readOne (\<lambda>s. s) d = Inr (w, rest)" "v = w \<or> v \<in> set (fst (read_loop (\<lambda>s. s) n rest))"
      using Suc.prems by (cases d) (auto split: sum.splits prod.splits)
    have "readValue (\<lambda>s. s) (2 * length d + 1) d = Some (Inr (w, rest))"
      using w(1) by (auto simp: readOne_def split: option.splits)
    then show ?thesis using w(2) Suc.IH reads_wf(1) by blast
  qed (use Suc.prems in simp)
qed

text \<open>A received text is a string made from the bytes, and its \<open>cstr()\<close> gives them back.\<close>

definition received_text :: "byte list \<Rightarrow> byte list" where
  "received_text bs = cstr (makeDataFromUtf8 bs)"

lemma received_text_id: "received_text = (\<lambda>s. s)"
  by (simp add: received_text_def fun_eq_iff)

text \<open>C22: Whatever bytes arrive, every value the reader returns is well formed, also those before an error: its texts
  and counts fit their length fields and no field name is empty. So the writer takes it back without error, and what
  it writes reads as the same value.\<close>

theorem amf_reader_returns_well_formed:
  assumes "amf_read received_text d = (vs, e)" "v \<in> set vs"
  shows "wf_amf received_text v \<and> snd (writeValue v) = Ok \<and>
    readOne received_text (fst (writeValue v) @ rest) = Inr (v, rest)"
proof -
  have wf: "wf_amf received_text v"
    using read_loop_wf [of v "length d" d] assms by (simp add: amf_read_def received_text_id)
  then show ?thesis using write_read(1) [OF wf] by (simp add: reads_back_def amf0.pdec_penc)
qed

theorem amf_reader_returns_well_formed_witness:
  "wf_amf received_text (StrictArray [Boolean True])"
  using amf_reader_returns_well_formed [of "[0x0A, 0, 0, 0, 1, 0x01, 1, 0x7F]" "[StrictArray [Boolean True]]" CorruptData]
  by (simp add: amf_read_def readOne_def received_text_id loadU32_def rd32_def)

end
