(* ===== verification/RtmpChunk.thy ===== *)
theory RtmpChunk
  imports Prelude
begin

text \<open>
  \<open>src/network/rtmpchunkstream.cpp\<close>: the RTMP chunk stream, writer and reader, with the per-stream
  header compression state of each side, the extended timestamps, chunk-size negotiation, window
  acknowledgements and the control messages. The device is a byte supply \<open>rx\<close> that ends, and a byte
  sink \<open>tx\<close> that takes \<open>tx_room\<close> more bytes before it fails; calls are those without a deadline.
  The content of a freshly allocated \<open>Buffer\<close> is the argument \<open>fresh\<close>. A write past the end of the
  reassembly buffer is an outcome of its own, \<open>BufferOverrun\<close>.
\<close>

unbundle bit_operations_syntax

section \<open>State\<close>

record message =
  m_type :: byte
  m_msid :: u32
  m_ts :: u32
  m_payload :: "byte list"
  m_csid :: u32

record wstate =
  w_ts :: u32
  w_delta :: u32
  w_len :: u32
  w_type :: byte
  w_msid :: u32
  w_est :: bool

record rstate =
  rs_ts :: u32
  rs_delta :: u32
  rs_len :: u32
  rs_type :: byte
  rs_msid :: u32
  rs_ext :: bool
  rs_est :: bool
  rs_buf :: "byte list"
  rs_got :: u32

record chunk_stream =
  dev :: bool
  localChunk :: int
  peerChunk :: int
  localWindow :: int
  peerWindow :: int
  bytesSent :: int
  bytesReceived :: int
  lastAck :: int
  wstates :: "u32 \<Rightarrow> wstate"
  rstates :: "u32 \<Rightarrow> rstate"
  rx :: "byte list"
  tx :: "byte list"
  tx_room :: nat

definition new_wstate :: wstate where
  "new_wstate = \<lparr>w_ts = 0, w_delta = 0, w_len = 0, w_type = 0, w_msid = 0, w_est = False\<rparr>"

definition new_rstate :: rstate where
  "new_rstate = \<lparr>rs_ts = 0, rs_delta = 0, rs_len = 0, rs_type = 0, rs_msid = 0, rs_ext = False, rs_est = False,
     rs_buf = [], rs_got = 0\<rparr>"

definition new_chunk_stream :: "byte list \<Rightarrow> nat \<Rightarrow> chunk_stream" where
  "new_chunk_stream incoming room =
     \<lparr>dev = True, localChunk = 128, peerChunk = 128, localWindow = 5000000, peerWindow = 0, bytesSent = 0,
      bytesReceived = 0, lastAck = 0, wstates = (\<lambda>_. new_wstate), rstates = (\<lambda>_. new_rstate), rx = incoming,
      tx = [], tx_room = room\<rparr>"

section \<open>Writer\<close>

definition le32 :: "u32 \<Rightarrow> byte list" where
  "le32 w = [ucast w, ucast (drop_bit 8 w), ucast (drop_bit 16 w), ucast (drop_bit 24 w)]"

definition encodeBasicHeader :: "byte \<Rightarrow> u32 \<Rightarrow> byte list" where
  "encodeBasicHeader fmt csid =
     (if 64 \<le> csid \<and> csid \<le> 319 then [push_bit 6 fmt, ucast (csid - 64)]
      else if 320 \<le> csid \<and> csid \<le> 65599
        then [push_bit 6 fmt OR 1, ucast (csid - 64), ucast (drop_bit 8 (csid - 64))]
      else [push_bit 6 fmt OR ucast (csid AND 0x3F)])"

definition defaultCsidForType :: "byte \<Rightarrow> u32" where
  "defaultCsidForType ty =
     (if ty \<in> {1, 2, 3, 4, 5, 6} then 2 else if ty = 8 then 4 else if ty = 9 then 6 else 3)"

definition writeBytes :: "byte list \<Rightarrow> chunk_stream \<Rightarrow> chunk_stream \<times> error" where
  "writeBytes d st =
     (if \<not> dev st then (st, Invalid)
      else if tx_room st < length d
        then (st\<lparr>tx := tx st @ take (tx_room st) d, tx_room := 0\<rparr>, IOError)
      else (st\<lparr>tx := tx st @ d, tx_room := tx_room st - length d, bytesSent := bytesSent st + int (length d)\<rparr>, Ok))"

fun write_all :: "byte list list \<Rightarrow> chunk_stream \<Rightarrow> chunk_stream \<times> error" where
  "write_all [] st = (st, Ok)"
| "write_all (d # ds) st =
     (case writeBytes d st of (st', e) \<Rightarrow> if e \<noteq> Ok then (st', e) else write_all ds st')"

text \<open>The most compressed header the stream's history allows, and the timestamp or delta it carries.\<close>

definition choose_fmt :: "wstate \<Rightarrow> message \<Rightarrow> u32 \<Rightarrow> byte \<times> u32" where
  "choose_fmt w m bodyLen =
     (if w_est w \<and> m_msid m = w_msid w \<and> w_ts w \<le> m_ts m
      then let delta = m_ts m - w_ts w in
        (if bodyLen = w_len w \<and> m_type m = w_type w
         then (if delta = w_delta w \<and> delta \<noteq> 0 then 3 else 2) else 1, delta)
      else (0, m_ts m))"

text \<open>Whether an extended timestamp follows, the 24-bit field and the extended value.\<close>

definition timestamp_fields :: "wstate \<Rightarrow> byte \<Rightarrow> u32 \<Rightarrow> bool \<times> u32 \<times> u32" where
  "timestamp_fields w fmt value =
     (if fmt \<noteq> 3 then (if 0xFFFFFF \<le> value then (True, 0xFFFFFF, value) else (False, value, 0))
      else (0xFFFFFF \<le> w_delta w \<or> (0xFFFFFF \<le> w_ts w \<and> \<not> w_est w), 0, 0))"

definition leading_header :: "byte \<Rightarrow> u32 \<Rightarrow> u32 \<Rightarrow> u32 \<Rightarrow> byte \<Rightarrow> u32 \<Rightarrow> byte list" where
  "leading_header fmt csid headerTs bodyLen ty msid =
     encodeBasicHeader fmt csid @
     (if fmt = 0 then be24 headerTs @ be24 bodyLen @ [ty] @ le32 msid
      else if fmt = 1 then be24 headerTs @ be24 bodyLen @ [ty]
      else if fmt = 2 then be24 headerTs else [])"

function continuation :: "nat \<Rightarrow> byte list \<Rightarrow> byte list \<Rightarrow> byte list list" where
  "continuation cs hdr body =
     (if body = [] \<or> cs = 0 then [] else hdr # take cs body # continuation cs hdr (drop cs body))"
  by pat_completeness auto
termination by (relation "measure (\<lambda>(cs, hdr, body). length body)") auto

declare continuation.simps [simp del]

definition update_wstate :: "byte \<Rightarrow> message \<Rightarrow> u32 \<Rightarrow> u32 \<Rightarrow> wstate \<Rightarrow> wstate" where
  "update_wstate fmt m bodyLen delta w =
     (if fmt = 0 then \<lparr>w_ts = m_ts m, w_delta = 0, w_len = bodyLen, w_type = m_type m, w_msid = m_msid m, w_est = True\<rparr>
      else if fmt = 1 then w\<lparr>w_ts := m_ts m, w_delta := delta, w_len := bodyLen, w_type := m_type m\<rparr>
      else if fmt = 2 then w\<lparr>w_ts := m_ts m, w_delta := delta\<rparr>
      else w\<lparr>w_ts := m_ts m\<rparr>)"

text \<open>The writes of one message, in order.\<close>

definition message_pieces :: "wstate \<Rightarrow> u32 \<Rightarrow> nat \<Rightarrow> message \<Rightarrow> byte list list" where
  "message_pieces w csid cs m =
     (let bodyLen = of_nat (length (m_payload m));
          body = take (unat bodyLen) (m_payload m);
          (fmt, value) = choose_fmt w m bodyLen;
          (useExt, headerTs, extTs) = timestamp_fields w fmt value;
          ext = (if useExt then be32 extTs else [])
      in [leading_header fmt csid headerTs bodyLen (m_type m) (m_msid m) @ ext]
         @ (if body \<noteq> [] then [take cs body] else [])
         @ continuation cs (encodeBasicHeader 3 csid @ ext) (drop cs body))"

definition writeMessage :: "message \<Rightarrow> chunk_stream \<Rightarrow> chunk_stream \<times> error" where
  "writeMessage m st =
     (if \<not> dev st then (st, Invalid)
      else let csid = (if m_csid m = 0 then defaultCsidForType (m_type m) else m_csid m) in
        if csid < 2 then (st, InvalidArgument)
        else if 65599 < csid then (st, InvalidArgument)
        else if localChunk st \<le> 0 then (st, Invalid)
        else let w = wstates st csid;
                 bodyLen = of_nat (length (m_payload m));
                 (fmt, value) = choose_fmt w m bodyLen
             in case write_all (message_pieces w csid (nat (localChunk st)) m) st of
                  (st', e) \<Rightarrow>
                    if e \<noteq> Ok then (st', e)
                    else (st'\<lparr>wstates := (wstates st')(csid := update_wstate fmt m bodyLen value w)\<rparr>, Ok))"

definition control_message :: "byte \<Rightarrow> u32 \<Rightarrow> message" where
  "control_message ty v = \<lparr>m_type = ty, m_msid = 0, m_ts = 0, m_payload = be32 v, m_csid = 2\<rparr>"

definition sendSetChunkSize :: "int \<Rightarrow> chunk_stream \<Rightarrow> chunk_stream \<times> error" where
  "sendSetChunkSize n = writeMessage (control_message 1 (word_of_int n AND 0x7FFFFFFF))"

definition sendWindowAckSize :: "int \<Rightarrow> chunk_stream \<Rightarrow> chunk_stream \<times> error" where
  "sendWindowAckSize n = writeMessage (control_message 5 (word_of_int n))"

definition sendAck :: "u32 \<Rightarrow> chunk_stream \<Rightarrow> chunk_stream \<times> error" where
  "sendAck count = writeMessage (control_message 3 count)"

definition setLocalChunkSize :: "int \<Rightarrow> chunk_stream \<Rightarrow> chunk_stream \<times> error" where
  "setLocalChunkSize n st =
     (if n < 128 \<or> 65535 < n then (st, InvalidArgument)
      else case sendSetChunkSize n st of (st', e) \<Rightarrow> if e \<noteq> Ok then (st', e) else (st'\<lparr>localChunk := n\<rparr>, Ok))"

definition setLocalWindowAckSize :: "int \<Rightarrow> chunk_stream \<Rightarrow> chunk_stream \<times> error" where
  "setLocalWindowAckSize n st =
     (if n \<le> 0 then (st, InvalidArgument)
      else case sendWindowAckSize n st of (st', e) \<Rightarrow> if e \<noteq> Ok then (st', e) else (st'\<lparr>localWindow := n\<rparr>, Ok))"

section \<open>Reader\<close>

text \<open>Exactly \<open>n\<close> bytes, then the acknowledgement that may have fallen due. The bytes delivered come back
  even when the supply ends early.\<close>

definition acknowledge :: "chunk_stream \<Rightarrow> chunk_stream" where
  "acknowledge st =
     (if 0 < peerWindow st \<and> peerWindow st \<le> bytesReceived st - lastAck st
      then (fst (sendAck (word_of_int (bytesReceived st)) st))\<lparr>lastAck := bytesReceived st\<rparr> else st)"

definition readBytesExact :: "nat \<Rightarrow> chunk_stream \<Rightarrow> chunk_stream \<times> byte list \<times> error" where
  "readBytesExact n st =
     (if \<not> dev st then (st, [], Invalid)
      else if length (rx st) < n
        then (st\<lparr>rx := [], bytesReceived := bytesReceived st + int (length (rx st))\<rparr>, rx st, IOError)
      else (acknowledge (st\<lparr>rx := drop n (rx st), bytesReceived := bytesReceived st + int n\<rparr>), take n (rx st), Ok))"

definition rd_le32 :: "byte list \<Rightarrow> u32" where "rd_le32 d = rd32 (d ! 3) (d ! 2) (d ! 1) (d ! 0)"
definition rd_be24 :: "byte list \<Rightarrow> u32" where "rd_be24 d = rd24 (d ! 0) (d ! 1) (d ! 2)"
definition rd_be32 :: "byte list \<Rightarrow> u32" where "rd_be32 d = rd32 (d ! 0) (d ! 1) (d ! 2) (d ! 3)"

definition read_basic :: "chunk_stream \<Rightarrow> chunk_stream \<times> (byte \<times> u32) result" where
  "read_basic st =
     (case readBytesExact 1 st of (st1, b, e) \<Rightarrow>
        if e \<noteq> Ok then (st1, Inl e)
        else let fmt = drop_bit 6 (b ! 0) AND 3; low = (ucast (b ! 0 AND 0x3F) :: u32) in
          if low = 0 then
            (case readBytesExact 1 st1 of (st2, c, e) \<Rightarrow>
               if e \<noteq> Ok then (st2, Inl e) else (st2, Inr (fmt, 64 + ucast (c ! 0))))
          else if low = 1 then
            (case readBytesExact 2 st1 of (st2, c, e) \<Rightarrow>
               if e \<noteq> Ok then (st2, Inl e)
               else (st2, Inr (fmt, 64 + ucast (c ! 0) + push_bit 8 (ucast (c ! 1)))))
          else (st1, Inr (fmt, low)))"

definition header_size :: "byte \<Rightarrow> nat" where
  "header_size fmt = (if fmt = 0 then 11 else if fmt = 1 then 7 else if fmt = 2 then 3 else 0)"

text \<open>Timestamp field, message length, type and stream id, from the header or the stream's memory.\<close>

definition header_fields :: "byte \<Rightarrow> byte list \<Rightarrow> rstate \<Rightarrow> u32 \<times> u32 \<times> byte \<times> u32" where
  "header_fields fmt mh r =
     (if fmt = 0 then (rd_be24 mh, rd_be24 (drop 3 mh), mh ! 6, rd_le32 (drop 7 mh))
      else if fmt = 1 then (rd_be24 mh, rd_be24 (drop 3 mh), mh ! 6, rs_msid r)
      else if fmt = 2 then (rd_be24 mh, rs_len r, rs_type r, rs_msid r)
      else (0, rs_len r, rs_type r, rs_msid r))"

definition has_ext :: "byte \<Rightarrow> u32 \<Rightarrow> rstate \<Rightarrow> bool" where
  "has_ext fmt headerTs r \<longleftrightarrow> (0 < header_size fmt \<and> headerTs = 0xFFFFFF) \<or> (fmt = 3 \<and> rs_ext r)"

definition update_rstate :: "(nat \<Rightarrow> byte list) \<Rightarrow> byte \<Rightarrow> u32 \<Rightarrow> u32 \<Rightarrow> byte \<Rightarrow> u32 \<Rightarrow> bool \<Rightarrow> rstate \<Rightarrow> rstate" where
  "update_rstate fresh fmt headerTs msgLen ty msid ext r =
     (let r1 = (if fmt = 0 then r\<lparr>rs_ts := headerTs, rs_delta := 0\<rparr>
                else if fmt = 1 \<or> fmt = 2 then r\<lparr>rs_delta := headerTs, rs_ts := rs_ts r + headerTs\<rparr>
                else if rs_got r = 0 then r\<lparr>rs_ts := rs_ts r + rs_delta r\<rparr> else r)
      in r1\<lparr>rs_len := msgLen, rs_type := ty, rs_msid := msid, rs_ext := ext, rs_est := True,
            rs_buf := (if rs_got r = 0 then (if 0 < msgLen then fresh (unat msgLen) else []) else rs_buf r)\<rparr>)"

datatype chunk_outcome = ChunkError error | ChunkMore | ChunkMessage message | BufferOverrun

definition overwrite :: "nat \<Rightarrow> byte list \<Rightarrow> byte list \<Rightarrow> byte list" where
  "overwrite off d buf = take off buf @ d @ drop (off + length d) buf"

text \<open>The payload of one chunk into the reassembly buffer, and the message when it is complete.\<close>

definition read_payload :: "u32 \<Rightarrow> chunk_stream \<Rightarrow> chunk_stream \<times> chunk_outcome" where
  "read_payload csid st =
     (let r = rstates st csid;
          remainingMsg = rs_len r - rs_got r;
          chunk = word_of_int (peerChunk st) :: u32;
          n = (if remainingMsg < chunk then remainingMsg else chunk)
      in if 0 < n \<and> length (rs_buf r) < unat (rs_got r) + unat n then (st, BufferOverrun)
         else case (if 0 < n then readBytesExact (unat n) st else (st, [], Ok)) of
           (st1, d, e) \<Rightarrow>
             let r1 = r\<lparr>rs_buf := overwrite (unat (rs_got r)) d (rs_buf r)\<rparr> in
             if e \<noteq> Ok then (st1\<lparr>rstates := (rstates st1)(csid := r1)\<rparr>, ChunkError e)
             else let r2 = r1\<lparr>rs_got := rs_got r + n\<rparr> in
               if rs_len r \<le> rs_got r2
               then (st1\<lparr>rstates := (rstates st1)(csid := r2\<lparr>rs_buf := [], rs_got := 0\<rparr>)\<rparr>,
                     ChunkMessage \<lparr>m_type = rs_type r, m_msid = rs_msid r, m_ts = rs_ts r, m_payload = rs_buf r1,
                                   m_csid = csid\<rparr>)
               else (st1\<lparr>rstates := (rstates st1)(csid := r2)\<rparr>, ChunkMore))"

definition read_chunk :: "(nat \<Rightarrow> byte list) \<Rightarrow> chunk_stream \<Rightarrow> chunk_stream \<times> chunk_outcome" where
  "read_chunk fresh st =
     (case read_basic st of
        (st1, Inl e) \<Rightarrow> (st1, ChunkError e)
      | (st1, Inr (fmt, csid)) \<Rightarrow>
          (case (if 0 < header_size fmt then readBytesExact (header_size fmt) st1 else (st1, [], Ok)) of (st2, mh, e) \<Rightarrow>
             if e \<noteq> Ok then (st2, ChunkError e)
             else case header_fields fmt mh (rstates st2 csid) of (headerTs, msgLen, ty, msid) \<Rightarrow>
               let ext = has_ext fmt headerTs (rstates st2 csid) in
               case (if ext then readBytesExact 4 st2 else (st2, [], Ok)) of (st3, x, e) \<Rightarrow>
                 if e \<noteq> Ok then (st3, ChunkError e)
                 else let ts = (if ext then rd_be32 x else headerTs);
                          r = update_rstate fresh fmt ts msgLen ty msid ext (rstates st3 csid)
                      in read_payload csid (st3\<lparr>rstates := (rstates st3)(csid := r)\<rparr>)))"

definition handleControl :: "message \<Rightarrow> chunk_stream \<Rightarrow> chunk_stream" where
  "handleControl m st =
     (if length (m_payload m) < 4 then st
      else if m_type m = 1 then
        let cs = uint (rd_be32 (m_payload m) AND 0x7FFFFFFF) in st\<lparr>peerChunk := min 65535 (max 128 cs)\<rparr>
      else if m_type m = 5 then st\<lparr>peerWindow := sint (rd_be32 (m_payload m))\<rparr>
      else if m_type m = 2 then
        let csid = rd_be32 (m_payload m); r = rstates st csid in
        st\<lparr>rstates := (rstates st)(csid := r\<lparr>rs_buf := [], rs_got := 0\<rparr>)\<rparr>
      else st)"

text \<open>A complete message is handed up; a control message is acted upon first.\<close>

definition dispatch_control :: "message \<Rightarrow> chunk_stream \<Rightarrow> chunk_stream" where
  "dispatch_control m st = (if m_type m \<in> {1, 2, 3, 4, 5, 6} then handleControl m st else st)"

datatype read_outcome = ReadError error | ReadMessage message | ReadOverrun

section \<open>What reading leaves alone\<close>

text \<open>The writer, and so an acknowledgement, touches nothing the reader reads.\<close>

definition same_reader :: "chunk_stream \<Rightarrow> chunk_stream \<Rightarrow> bool" where
  "same_reader a b \<longleftrightarrow> rx a = rx b \<and> rstates a = rstates b \<and> peerChunk a = peerChunk b \<and> dev a = dev b \<and>
     peerWindow a = peerWindow b \<and> bytesReceived a = bytesReceived b \<and> localChunk a = localChunk b"

lemma same_reader_refl [simp]: "same_reader a a"
  by (simp add: same_reader_def)

lemma same_reader_trans: "same_reader a b \<Longrightarrow> same_reader b c \<Longrightarrow> same_reader a c"
  by (simp add: same_reader_def)

lemma writeBytes_reader: "same_reader (fst (writeBytes d st)) st"
  by (simp add: writeBytes_def same_reader_def)

lemma write_all_reader: "same_reader (fst (write_all ds st)) st"
proof (induction ds arbitrary: st)
  case (Cons d ds)
  obtain st' e where w: "writeBytes d st = (st', e)" by fastforce
  then have "same_reader st' st" using writeBytes_reader [of d st] by simp
  then have "same_reader (fst (write_all ds st')) st" by (rule same_reader_trans [OF Cons])
  then show ?case using \<open>same_reader st' st\<close> by (simp add: w)
qed simp

lemma writeMessage_reader: "same_reader (fst (writeMessage m st)) st"
proof -
  have "same_reader (u\<lparr>wstates := w\<rparr>) v = same_reader u v" for u v w by (simp add: same_reader_def)
  then show ?thesis
    by (auto simp: writeMessage_def Let_def case_prod_unfold write_all_reader)
qed

lemma acknowledge_reader: "same_reader (acknowledge st) st"
proof -
  have "same_reader (u\<lparr>lastAck := n\<rparr>) v = same_reader u v" for u v n by (simp add: same_reader_def)
  then show ?thesis by (simp add: acknowledge_def sendAck_def writeMessage_reader)
qed

lemma readBytesExact_reader:
  assumes "readBytesExact n st = (st', d, e)"
  shows "rstates st' = rstates st" "peerChunk st' = peerChunk st" "dev st' = dev st" "localChunk st' = localChunk st"
    "e = Ok \<Longrightarrow> dev st \<and> n \<le> length (rx st) \<and> d = take n (rx st) \<and> rx st' = drop n (rx st)"
    "length (rx st') \<le> length (rx st)" "length d \<le> n"
  using assms acknowledge_reader [of "st\<lparr>rx := drop n (rx st), bytesReceived := bytesReceived st + int n\<rparr>"]
  by (auto simp: readBytesExact_def same_reader_def split: if_splits)

lemma readBytesExact_less:
  "readBytesExact n st = (st', d, Ok) \<Longrightarrow> 0 < n \<Longrightarrow> length (rx st') < length (rx st)"
  using readBytesExact_reader(5) [of n st st' d Ok] by (auto intro!: diff_less)

lemma readBytesExact_Ok:
  assumes "dev st" "rx st = d @ rest" "length d = n"
  shows "\<exists>st'. readBytesExact n st = (st', d, Ok) \<and> rx st' = rest \<and> rstates st' = rstates st \<and>
    peerChunk st' = peerChunk st \<and> dev st' = dev st"
  using assms acknowledge_reader [of "st\<lparr>rx := drop n (rx st), bytesReceived := bytesReceived st + int n\<rparr>"]
  by (auto simp: readBytesExact_def same_reader_def)

lemma read_basic_consumes: "read_basic st = (st', Inr x) \<Longrightarrow> length (rx st') < length (rx st)"
  by (auto simp: read_basic_def Let_def split: prod.splits if_splits dest!: readBytesExact_less intro: less_trans)

lemma read_payload_rx: "read_payload csid st = (st', o') \<Longrightarrow> length (rx st') \<le> length (rx st)"
  by (auto simp: read_payload_def Let_def split: prod.splits if_splits dest!: readBytesExact_reader(6))

lemma read_chunk_consumes:
  assumes "read_chunk fresh st = (st', ChunkMore)"
  shows "length (rx st') < length (rx st)"
proof -
  obtain st1 fmt csid where b: "read_basic st = (st1, Inr (fmt, csid))"
    using assms by (cases "read_basic st"; cases "snd (read_basic st)") (auto simp: read_chunk_def)
  have 1: "length (rx st1) < length (rx st)" using read_basic_consumes [OF b] .
  obtain st2 mh e where h: "(if 0 < header_size fmt then readBytesExact (header_size fmt) st1 else (st1, [], Ok)) = (st2, mh, e)"
    by (metis prod_cases3)
  then have 2: "length (rx st2) \<le> length (rx st1)" by (auto split: if_splits dest: readBytesExact_reader(6))
  obtain headerTs msgLen ty msid where f: "header_fields fmt mh (rstates st2 csid) = (headerTs, msgLen, ty, msid)"
    by (metis prod_cases4)
  obtain st3 x e3 where x: "(if has_ext fmt headerTs (rstates st2 csid) then readBytesExact 4 st2 else (st2, [], Ok)) = (st3, x, e3)"
    by (metis prod_cases3)
  then have 3: "length (rx st3) \<le> length (rx st2)" by (auto split: if_splits dest: readBytesExact_reader(6))
  show ?thesis
    using assms 1 2 3 unfolding read_chunk_def by (auto simp: b h f x Let_def split: if_splits dest!: read_payload_rx)
qed

text \<open>\<open>readMessage\<close>: chunks until a message is complete; a control message is acted upon first.\<close>

function readMessage :: "(nat \<Rightarrow> byte list) \<Rightarrow> chunk_stream \<Rightarrow> chunk_stream \<times> read_outcome" where
  "readMessage fresh st =
     (if \<not> dev st then (st, ReadError Invalid)
      else case read_chunk fresh st of
        (st', ChunkError e) \<Rightarrow> (st', ReadError e)
      | (st', BufferOverrun) \<Rightarrow> (st', ReadOverrun)
      | (st', ChunkMessage m) \<Rightarrow> (dispatch_control m st', ReadMessage m)
      | (st', ChunkMore) \<Rightarrow> readMessage fresh st')"
  by pat_completeness auto
termination
  by (relation "measure (\<lambda>(fresh, st). length (rx st))") (auto dest: read_chunk_consumes [OF sym])

declare readMessage.simps [simp del]

section \<open>Reading one chunk\<close>

lemma fmt_cases: "fmt < 4 \<Longrightarrow> fmt = 0 \<or> fmt = 1 \<or> fmt = 2 \<or> fmt = (3 :: byte)"
proof -
  assume "fmt < 4"
  then have "unat fmt = 0 \<or> unat fmt = 1 \<or> unat fmt = 2 \<or> unat fmt = 3" by (auto simp: word_less_nat_alt)
  then show ?thesis by (simp add: word_unat_eq_iff)
qed

lemma basic_byte_fmt:
  "fmt < 4 \<Longrightarrow> drop_bit 6 (push_bit 6 fmt OR (x AND 0x3F)) AND 3 = (fmt :: byte)"
  "fmt < 4 \<Longrightarrow> drop_bit 6 (push_bit 6 fmt) AND 3 = (fmt :: byte)"
  "fmt < 4 \<Longrightarrow> drop_bit 6 (push_bit 6 fmt OR 1) AND 3 = (fmt :: byte)"
  by (drule fmt_cases; auto intro!: bit_byte_eqI simp: bit_simps)+

lemma basic_byte_low:
  "(push_bit 6 fmt OR (x AND 0x3F)) AND 0x3F = (x AND 0x3F :: byte)"
  "push_bit 6 fmt AND 0x3F = (0 :: byte)"
  "(push_bit 6 fmt OR 1) AND 0x3F = (1 :: byte)"
  by (rule bit_byte_eqI; simp add: bit_simps)+

lemma csid_low:
  assumes "c < 64"
  shows "ucast (ucast (c :: u32) AND 0x3F :: byte) = c" "(ucast (c AND 0x3F) :: byte) = ucast c AND 0x3F"
proof -
  have hi: "\<not> bit c n" if "6 \<le> n" for n
    by (rule word_less_exp_bit [of c 6 n]) (use assms that in simp_all)
  show "ucast (ucast c AND 0x3F :: byte) = c"
  proof (rule bit_word_eqI)
    fix n assume "n < LENGTH(32)"
    show "bit (ucast (ucast c AND 0x3F :: byte) :: u32) n = bit c n"
      using hi [of n] mask_eq_exp_minus_1 [of 6, where ?'a = byte]
      by (cases "n < 6") (auto simp: bit_simps bit_mask_iff
          simp flip: mask_eq_exp_minus_1 [of 6, where ?'a = byte, simplified])
  qed
  show "(ucast (c AND 0x3F) :: byte) = ucast c AND 0x3F"
    by (rule bit_byte_eqI; simp add: bit_simps)
qed

lemma csid_high:
  fixes v :: u32
  shows "v < 256 \<Longrightarrow> ucast (ucast v :: byte) = v"
    and "v < 65536 \<Longrightarrow> ucast (ucast v :: byte) + push_bit 8 (ucast (ucast (drop_bit 8 v) :: byte)) = v"
proof -
  show "v < 256 \<Longrightarrow> ucast (ucast v :: byte) = v"
    by (simp add: word_unat_eq_iff unsigned_ucast_eq unsigned_take_bit_eq take_bit_nat_eq_self word_less_nat_alt)
  assume "v < 65536"
  then have hi: "\<not> bit v n" if "16 \<le> n" for n using that by (intro word_less_exp_bit [of v 16 n]) simp_all
  have "ucast (ucast v :: byte) + push_bit 8 (ucast (ucast (drop_bit 8 v) :: byte)) =
      (ucast (ucast v :: byte) OR push_bit 8 (ucast (ucast (drop_bit 8 v) :: byte)) :: u32)"
    by (rule disjunctive_add) (auto simp: bit_simps)
  also have "\<dots> = v"
  proof (rule bit_word_eqI)
    fix n assume "n < LENGTH(32)"
    then show "bit (ucast (ucast v :: byte) OR push_bit 8 (ucast (ucast (drop_bit 8 v) :: byte)) :: u32) n = bit v n"
      using hi [of n] by (cases "n < 8"; cases "n < 16") (auto simp: bit_simps)
  qed
  finally show "ucast (ucast v :: byte) + push_bit 8 (ucast (ucast (drop_bit 8 v) :: byte)) = v" .
qed

text \<open>\<open>moved_to rest st st'\<close>: the device has moved on to \<open>rest\<close>, everything the reader keeps is as it was.\<close>

definition moved_to :: "byte list \<Rightarrow> chunk_stream \<Rightarrow> chunk_stream \<Rightarrow> bool" where
  "moved_to rest st st' \<longleftrightarrow> rx st' = rest \<and> rstates st' = rstates st \<and> peerChunk st' = peerChunk st \<and> dev st' = dev st"

lemma moved_trans: "moved_to r st st' \<Longrightarrow> moved_to r' st' st'' \<Longrightarrow> moved_to r' st st''"
  by (simp add: moved_to_def)

lemma moved_refl: "rx st = r \<Longrightarrow> moved_to r st st"
  by (simp add: moved_to_def)

lemma readBytesExact_moves:
  assumes "dev st" "rx st = d @ rest" "length d = n"
  obtains st' where "readBytesExact n st = (st', d, Ok)" "moved_to rest st st'"
  using readBytesExact_Ok [OF assms] by (auto simp: moved_to_def)

lemma read_basic_moves:
  assumes "dev st" "rx st = encodeBasicHeader fmt csid @ rest" "fmt < 4" "2 \<le> csid" "csid \<le> 65599"
  obtains st' where "read_basic st = (st', Inr (fmt, csid))" "moved_to rest st st'"
proof -
  consider "csid < 64" | "64 \<le> csid" "csid \<le> 319" | "320 \<le> csid" by unat_arith
  then show thesis
  proof cases
    case 1
    then have e: "encodeBasicHeader fmt csid = [push_bit 6 fmt OR (ucast csid AND 0x3F)]"
      by (auto simp: encodeBasicHeader_def csid_low word_le_nat_alt word_less_nat_alt)
    obtain st1 where "readBytesExact 1 st = (st1, [push_bit 6 fmt OR (ucast csid AND 0x3F)], Ok)" "moved_to rest st st1"
      using readBytesExact_moves [OF assms(1), of "[push_bit 6 fmt OR (ucast csid AND 0x3F)]" rest 1] assms(2) e by auto
    then show thesis
      using assms(3,4) 1 by (intro that [of st1])
        (auto simp: read_basic_def Let_def basic_byte_fmt basic_byte_low csid_low word_le_nat_alt)
  next
    case 2
    obtain st1 where 1: "readBytesExact 1 st = (st1, [push_bit 6 fmt], Ok)" "moved_to (ucast (csid - 64) # rest) st st1"
      using readBytesExact_moves [OF assms(1), of "[push_bit 6 fmt]" "ucast (csid - 64) # rest" 1] assms(2) 2
      by (auto simp: encodeBasicHeader_def)
    then have "dev st1" "rx st1 = [ucast (csid - 64)] @ rest" using assms(1) by (simp_all add: moved_to_def)
    then obtain st2 where 3: "readBytesExact 1 st1 = (st2, [ucast (csid - 64)], Ok)" "moved_to rest st1 st2"
      using readBytesExact_moves [of st1 "[ucast (csid - 64)]" rest 1] by auto
    have "csid - 64 < 256" using 2 by unat_arith
    then have "64 + ucast (ucast (csid - 64) :: byte) = csid" by (simp add: csid_high)
    with 1 3 show thesis
      using assms(3) moved_trans [OF 1(2) 3(2)]
      by (intro that [of st2]) (auto simp: read_basic_def Let_def basic_byte_fmt basic_byte_low)
  next
    case 3
    let ?v = "csid - 64" let ?b = "[ucast ?v, ucast (drop_bit 8 ?v)] :: byte list"
    have e: "encodeBasicHeader fmt csid = [push_bit 6 fmt OR 1] @ ?b"
      using 3 assms(5) by (auto simp: encodeBasicHeader_def word_le_nat_alt)
    then obtain st1 where 1: "readBytesExact 1 st = (st1, [push_bit 6 fmt OR 1], Ok)" "moved_to (?b @ rest) st st1"
      using readBytesExact_moves [OF assms(1), of "[push_bit 6 fmt OR 1]" "?b @ rest" 1] assms(2) by auto
    then have "dev st1" "rx st1 = ?b @ rest" using assms(1) by (simp_all add: moved_to_def)
    then obtain st2 where 4: "readBytesExact 2 st1 = (st2, ?b, Ok)" "moved_to rest st1 st2"
      using readBytesExact_moves [of st1 ?b rest 2] by auto
    have "?v < 65536" using 3 assms(5) by unat_arith
    then have "64 + ucast (ucast ?v :: byte) + push_bit 8 (ucast (ucast (drop_bit 8 ?v) :: byte)) = csid"
      using csid_high(2) [of ?v] by (simp add: add.assoc)
    with 1 4 show thesis
      using assms(3) moved_trans [OF 1(2) 4(2)]
      by (intro that [of st2]) (auto simp: read_basic_def Let_def basic_byte_fmt basic_byte_low)
  qed
qed

text \<open>The first \<open>g\<close> bytes of \<open>body\<close> are in the reassembly buffer.\<close>

definition assembling :: "byte list \<Rightarrow> nat \<Rightarrow> rstate \<Rightarrow> bool" where
  "assembling body g r \<longleftrightarrow> rs_len r = of_nat (length body) \<and> rs_got r = of_nat g \<and>
     length (rs_buf r) = length body \<and> take g (rs_buf r) = take g body"

definition done_message :: "byte list \<Rightarrow> u32 \<Rightarrow> rstate \<Rightarrow> message" where
  "done_message body csid r =
     \<lparr>m_type = rs_type r, m_msid = rs_msid r, m_ts = rs_ts r, m_payload = body, m_csid = csid\<rparr>"

lemma overwrite_assembles:
  assumes "assembling body g r" "g \<le> length body" "d = take cs (drop g body)"
  shows "length (overwrite g d (rs_buf r)) = length body"
    and "take (g + cs) (overwrite g d (rs_buf r)) = take (g + cs) body"
proof -
  have len: "length (rs_buf r) = length body" and tg: "take g (rs_buf r) = take g body"
    using assms(1) by (simp_all add: assembling_def)
  have "length d \<le> length body - g" using assms(3) by simp
  then show "length (overwrite g d (rs_buf r)) = length body"
    using len assms(2) by (simp add: overwrite_def)
  have "take (g + cs) body = take g body @ take cs (drop g body)" by (simp add: take_add)
  moreover have "take (g + cs) (overwrite g d (rs_buf r)) = take g body @ take cs (d @ drop (g + length d) (rs_buf r))"
    using assms(2) by (simp add: overwrite_def tg)
  moreover have "take cs (d @ drop (g + length d) (rs_buf r)) = take cs (drop g body)"
    using len assms(2,3) by auto
  ultimately show "take (g + cs) (overwrite g d (rs_buf r)) = take (g + cs) body" by simp
qed

lemma u32_of_nat:
  shows "a < 2 ^ 32 \<Longrightarrow> b < 2 ^ 32 \<Longrightarrow> ((of_nat a :: u32) \<le> of_nat b) = (a \<le> b)"
    and "a < 2 ^ 32 \<Longrightarrow> b < 2 ^ 32 \<Longrightarrow> ((of_nat a :: u32) < of_nat b) = (a < b)"
    and "a < 2 ^ 32 \<Longrightarrow> unat (of_nat a :: u32) = a"
  by (simp_all add: word_le_nat_alt word_less_nat_alt unsigned_of_nat take_bit_nat_eq_self)

lemma chunk_amount:
  fixes n :: u32
  assumes "g \<le> L" "L < 2 ^ 24" "0 < cs" "cs \<le> 65535"
    and n_def: "n = (if (of_nat L - of_nat g :: u32) < word_of_int (int cs) then of_nat L - of_nat g else word_of_int (int cs))"
  shows "unat n = min (L - g) cs" and "(0 < n) = (g < L)" and "(of_nat L \<le> of_nat g + n) = (L \<le> g + cs)"
proof -
  define m where "m = min (L - g) cs"
  have m: "m < 2 ^ 32" "L < 2 ^ 32" "g + m < 2 ^ 32" using assms by (auto simp: m_def)
  have n: "n = of_nat m"
    using assms by (simp add: n_def m_def u32_of_nat min_def flip: of_nat_diff)
  show "unat n = min (L - g) cs" using u32_of_nat(3) [OF m(1)] by (simp add: n m_def)
  show "(0 < n) = (g < L)"
    using u32_of_nat(2) [of 0 m] m(1) assms(1,3) by (simp add: n) (auto simp: m_def)
  have "(of_nat L \<le> (of_nat g + n :: u32)) = (L \<le> g + m)"
    using u32_of_nat(1) [OF m(2,3)] by (simp add: n)
  then show "(of_nat L \<le> of_nat g + n) = (L \<le> g + cs)" using assms(1,3) by (auto simp: m_def)
qed

lemma read_payload_moves:
  assumes "dev st" "assembling body g (rstates st csid)" "g \<le> length body" "length body < 2 ^ 24"
    and "peerChunk st = int cs" "0 < cs" "cs \<le> 65535" "rx st = take cs (drop g body) @ rest"
  obtains st' where
    "length body \<le> g + cs \<Longrightarrow> read_payload csid st = (st', ChunkMessage (done_message body csid (rstates st csid))) \<and>
       rstates st' = (rstates st)(csid := (rstates st csid)\<lparr>rs_buf := [], rs_got := 0\<rparr>)"
    "g + cs < length body \<Longrightarrow> read_payload csid st = (st', ChunkMore) \<and>
       (\<exists>buf. let r = (rstates st csid)\<lparr>rs_buf := buf, rs_got := of_nat (g + cs)\<rparr> in
          assembling body (g + cs) r \<and> rstates st' = (rstates st)(csid := r))"
    "rx st' = rest" "peerChunk st' = peerChunk st" "dev st' = dev st"
proof -
  let ?r = "rstates st csid" let ?d = "take cs (drop g body)"
  define n :: u32 where "n = (if (of_nat (length body) - of_nat g :: u32) < word_of_int (int cs)
    then of_nat (length body) - of_nat g else word_of_int (int cs))"
  note am = chunk_amount [OF assms(3,4,6,7) n_def]
  have ld: "length ?d = unat n" using am by (simp add: min_def)
  have g32: "unat (of_nat g :: u32) = g" using assms(3,4) by (intro u32_of_nat) auto
  obtain st1 where s1: "(if 0 < n then readBytesExact (unat n) st else (st, [], Ok)) = (st1, ?d, Ok)" "moved_to rest st st1"
  proof (cases "0 < n")
    case True
    then show ?thesis using readBytesExact_moves [OF assms(1,8) ld] that by auto
  next
    case False
    then have "?d = []" using am by simp
    then show ?thesis using False that [of st] assms(8) by (simp add: moved_refl)
  qed
  have ok: "\<not> (0 < n \<and> length (rs_buf ?r) < unat (rs_got ?r) + unat n)"
    using assms(2,3) am(1) g32 by (auto simp: assembling_def min_def)
  have r: "rs_len ?r = of_nat (length body)" "rs_got ?r = of_nat g" using assms(2) by (simp_all add: assembling_def)
  note ow = overwrite_assembles [OF assms(2,3) refl, of cs]
  let ?r1 = "?r\<lparr>rs_buf := overwrite g ?d (rs_buf ?r)\<rparr>"
  let ?r2 = "?r1\<lparr>rs_got := of_nat g + n\<rparr>"
  let ?st' = "st1\<lparr>rstates := (rstates st1)(csid := if length body \<le> g + cs then ?r\<lparr>rs_buf := [], rs_got := 0\<rparr> else ?r2)\<rparr>"
  have rp: "read_payload csid st = (?st', if length body \<le> g + cs
      then ChunkMessage \<lparr>m_type = rs_type ?r, m_msid = rs_msid ?r, m_ts = rs_ts ?r,
        m_payload = overwrite g ?d (rs_buf ?r), m_csid = csid\<rparr> else ChunkMore)"
    using ok s1 am(3) unfolding read_payload_def Let_def assms(5) r n_def [symmetric] g32 by simp
  show thesis
  proof (rule that [of ?st'])
    assume "length body \<le> g + cs"
    then show "read_payload csid st = (?st', ChunkMessage (done_message body csid ?r)) \<and>
       rstates ?st' = (rstates st)(csid := ?r\<lparr>rs_buf := [], rs_got := 0\<rparr>)"
      using rp s1(2) ow by (simp add: done_message_def moved_to_def)
  next
    assume l: "g + cs < length body"
    then have "n = of_nat cs" using am(1) assms(7) u32_of_nat(3) [of cs] by (simp add: word_unat_eq_iff)
    then show "read_payload csid st = (?st', ChunkMore) \<and>
       (\<exists>buf. let r = ?r\<lparr>rs_buf := buf, rs_got := of_nat (g + cs)\<rparr> in
          assembling body (g + cs) r \<and> rstates ?st' = (rstates st)(csid := r))"
      using l rp s1(2) ow r by (auto simp: moved_to_def assembling_def Let_def)
  qed (use s1(2) in \<open>simp_all add: moved_to_def\<close>)
qed

lemma optional_read_moves:
  assumes "dev st" "rx st = d @ rest" "length d = (if c then n else 0)"
  obtains st' where "(if c then readBytesExact n st else (st, [], Ok)) = (st', d, Ok)" "moved_to rest st st'"
proof (cases c)
  case True
  then show thesis using readBytesExact_moves [OF assms(1,2)] assms(3) that by (metis (full_types))
next
  case False
  then show thesis using assms that [of st] by (simp add: moved_refl)
qed

lemma read_chunk_head:
  assumes "dev st" "fmt < 4" "2 \<le> csid" "csid \<le> 65599" "length mh = header_size fmt"
    and "header_fields fmt mh (rstates st csid) = (hts, len, ty, msid)"
    and xt_def: "xt = has_ext fmt hts (rstates st csid)" and "length ext = (if xt then 4 else 0)"
    and "rx st = encodeBasicHeader fmt csid @ mh @ ext @ tail"
  obtains st' where "read_chunk fresh st = read_payload csid st'" "rx st' = tail" "dev st' = dev st"
    "peerChunk st' = peerChunk st" "rstates st' = (rstates st)(csid :=
       update_rstate fresh fmt (if xt then rd_be32 ext else hts) len ty msid xt (rstates st csid))"
proof -
  obtain st1 where 1: "read_basic st = (st1, Inr (fmt, csid))" "moved_to (mh @ ext @ tail) st st1"
    using read_basic_moves [OF assms(1,9,2,3,4)] .
  then have d1: "dev st1" "rx st1 = mh @ ext @ tail" "length mh = (if 0 < header_size fmt then header_size fmt else 0)"
    using assms(1,5) by (simp_all add: moved_to_def)
  obtain st2 where 2: "(if 0 < header_size fmt then readBytesExact (header_size fmt) st1 else (st1, [], Ok)) = (st2, mh, Ok)"
      "moved_to (ext @ tail) st1 st2"
    using optional_read_moves [OF d1] .
  then have d2: "dev st2" "rx st2 = ext @ tail" using d1 by (simp_all add: moved_to_def)
  obtain st3 where 3: "(if xt then readBytesExact 4 st2 else (st2, [], Ok)) = (st3, ext, Ok)" "moved_to tail st2 st3"
    using optional_read_moves [OF d2 assms(8)] .
  note m2 = moved_trans [OF 1(2) 2(2)] note m3 = moved_trans [OF m2 3(2)]
  let ?r = "update_rstate fresh fmt (if xt then rd_be32 ext else hts) len ty msid xt (rstates st csid)"
  have "rstates st2 = rstates st" "rstates st3 = rstates st" using m2 m3 by (simp_all add: moved_to_def)
  then have "read_chunk fresh st = read_payload csid (st3\<lparr>rstates := (rstates st3)(csid := ?r)\<rparr>)"
    unfolding read_chunk_def 1(1) by (simp add: 2(1) assms(6) 3(1) flip: xt_def)
  then show thesis
    using that [of "st3\<lparr>rstates := (rstates st3)(csid := ?r)\<rparr>"] m3 by (simp add: moved_to_def)
qed

lemma continuation_step:
  "0 < cs \<Longrightarrow> body \<noteq> [] \<Longrightarrow>
   concat (continuation cs hdr body) = hdr @ take cs body @ concat (continuation cs hdr (drop cs body))"
  by (subst continuation.simps) simp

text \<open>A message whose leading chunk has been read is completed by its continuation chunks.\<close>

lemma read_continuation:
  assumes "dev st" "2 \<le> csid" "csid \<le> 65599" "0 < cs" "cs \<le> 65535" "peerChunk st = int cs" "length body < 2 ^ 24"
    and "rx st = concat (continuation cs (encodeBasicHeader 3 csid @ ext) (drop g body)) @ rest"
    and "0 < g" "g < length body" "assembling body g r" "rstates st csid = r" "rs_est r"
    and "length ext = (if rs_ext r then 4 else 0)"
  obtains st' where "readMessage fresh st =
      (dispatch_control (done_message body csid r) st', ReadMessage (done_message body csid r))"
    "rx st' = rest" "dev st'" "peerChunk st' = int cs"
    "rstates st' = (rstates st)(csid := r\<lparr>rs_buf := [], rs_got := 0\<rparr>)"
  using assms
proof (induction "length body - g" arbitrary: st g r thesis rule: less_induct)
  case less
  note p = less.prems
  let ?tail = "concat (continuation cs (encodeBasicHeader 3 csid @ ext) (drop (g + cs) body)) @ rest"
  have rx: "rx st = encodeBasicHeader 3 csid @ [] @ ext @ take cs (drop g body) @ ?tail"
    using p(9) continuation_step [OF p(5), of "drop g body" "encodeBasicHeader 3 csid @ ext"] p(11)
    by (simp add: add.commute)
  have got: "rs_got r = of_nat g" "rs_got r \<noteq> 0"
    using p(10,11,12) p(8) u32_of_nat(3) [of g] by (auto simp: assembling_def)
  have xt: "has_ext 3 0 (rstates st csid) = rs_ext r" using p(13) by (simp add: has_ext_def header_size_def)
  have up: "update_rstate fresh 3 t (rs_len r) (rs_type r) (rs_msid r) (rs_ext r) r = r" for t
    using got p(14) by (simp add: update_rstate_def Let_def)
  obtain st1 where 1: "read_chunk fresh st = read_payload csid st1" "rx st1 = take cs (drop g body) @ ?tail"
      "dev st1 = dev st" "peerChunk st1 = peerChunk st" "rstates st1 = (rstates st)(csid := r)"
    using read_chunk_head [OF p(2) _ p(3,4), of 3 "[]" 0 "rs_len r" "rs_type r" "rs_msid r" "rs_ext r" ext
        "take cs (drop g body) @ ?tail" fresh] rx xt p(13,15) up
    by (auto simp: header_size_def header_fields_def word_less_nat_alt)
  then have d: "dev st1" "assembling body g (rstates st1 csid)" "g \<le> length body" "peerChunk st1 = int cs"
    using p by simp_all
  obtain st2 where 2:
    "length body \<le> g + cs \<Longrightarrow> read_payload csid st1 = (st2, ChunkMessage (done_message body csid r)) \<and>
       rstates st2 = (rstates st1)(csid := r\<lparr>rs_buf := [], rs_got := 0\<rparr>)"
    "g + cs < length body \<Longrightarrow> read_payload csid st1 = (st2, ChunkMore) \<and>
       (\<exists>buf. let r' = r\<lparr>rs_buf := buf, rs_got := of_nat (g + cs)\<rparr> in
          assembling body (g + cs) r' \<and> rstates st2 = (rstates st1)(csid := r'))"
    "rx st2 = ?tail" "peerChunk st2 = peerChunk st1" "dev st2 = dev st1"
    using read_payload_moves [OF d(1,2,3) p(8) d(4) p(5,6) 1(2)] 1(5) by auto
  show ?case
  proof (cases "length body \<le> g + cs")
    case True
    have "rx st2 = rest" using 2(3) True by (simp add: continuation.simps)
    then show ?thesis
      using 1 2(1) [OF True] 2(4,5) d p(2) by (intro p(1) [of st2]) (simp_all add: readMessage.simps [of fresh st])
  next
    case False
    then obtain buf where b: "read_payload csid st1 = (st2, ChunkMore)"
        "assembling body (g + cs) (r\<lparr>rs_buf := buf, rs_got := of_nat (g + cs)\<rparr>)"
        "rstates st2 = (rstates st1)(csid := r\<lparr>rs_buf := buf, rs_got := of_nat (g + cs)\<rparr>)"
      using 2(2) by (auto simp: Let_def)
    let ?r = "r\<lparr>rs_buf := buf, rs_got := of_nat (g + cs)\<rparr>"
    have dm: "done_message body csid ?r = done_message body csid r" by (simp add: done_message_def)
    have rm: "readMessage fresh st = readMessage fresh st2"
      using 1(1) b(1) p(2) by (simp add: readMessage.simps [of fresh st])
    obtain st3 where 3: "readMessage fresh st2 = (dispatch_control (done_message body csid ?r) st3, ReadMessage (done_message body csid ?r))"
        "rx st3 = rest" "dev st3" "peerChunk st3 = int cs" "rstates st3 = (rstates st2)(csid := ?r\<lparr>rs_buf := [], rs_got := 0\<rparr>)"
      by (rule less.hyps [of "g + cs" st2 ?r]) (use p b 2 d False in auto)
    then show ?thesis using b(3) 1(5) rm unfolding dm by (intro p(1) [of st3]) auto
  qed
qed

section \<open>Writer and reader in step\<close>

text \<open>What one side remembers of a chunk stream and what the other does, between messages.\<close>

definition csid_synced :: "wstate \<Rightarrow> rstate \<Rightarrow> bool" where
  "csid_synced w r \<longleftrightarrow> rs_got r = 0 \<and>
     (w_est w \<longrightarrow> rs_ts r = w_ts w \<and> rs_delta r = w_delta w \<and> rs_len r = w_len w \<and> rs_type r = w_type w \<and>
        rs_msid r = w_msid w \<and> (w_delta w \<noteq> 0 \<longrightarrow> rs_ext r = (0xFFFFFF \<le> w_delta w)))"

definition in_step :: "chunk_stream \<Rightarrow> chunk_stream \<Rightarrow> bool" where
  "in_step a b \<longleftrightarrow> dev a \<and> dev b \<and> 128 \<le> localChunk a \<and> localChunk a \<le> 65535 \<and> peerChunk b = localChunk a \<and>
     (\<forall>csid. csid_synced (wstates a csid) (rstates b csid))"

definition allocates :: "(nat \<Rightarrow> byte list) \<Rightarrow> bool" where
  "allocates fresh \<longleftrightarrow> (\<forall>n. length (fresh n) = n)"

lemma length_le32: "length (le32 s) = 4"
  by (simp add: le32_def)

lemma header_read_back:
  assumes "h < 2 ^ 24" "l < 2 ^ 24"
  shows "rd_be24 (be24 h @ x) = h" "rd_be24 (be24 h) = h" "rd_be24 (drop 3 (be24 h @ be24 l @ x)) = l"
    "(be24 h @ be24 l @ ty # x) ! 6 = ty" "rd_le32 (drop 7 (be24 h @ be24 l @ ty # le32 s)) = s"
    "rd_be32 (be32 v) = v" "rd_le32 (le32 s) = s"
  using assms by (simp_all add: rd_be24_def be24_def rd_le32_def le32_def rd_be32_def be32_def be_simps)

lemma timestamp_fields_not3:
  assumes "timestamp_fields w fmt value = (useExt, hts, x)" "fmt \<noteq> 3"
  shows "hts < 2 ^ 24" "(hts = 0xFFFFFF) = useExt" "(if useExt then x else hts) = value" "useExt = (0xFFFFFF \<le> value)"
proof -
  have u: "useExt = (0xFFFFFF \<le> value)" "hts = (if useExt then 0xFFFFFF else value)" "useExt \<Longrightarrow> x = value"
    using assms by (auto simp: timestamp_fields_def split: if_splits)
  show "(hts = 0xFFFFFF) = useExt" "(if useExt then x else hts) = value" "useExt = (0xFFFFFF \<le> value)" using u by auto
  have "value < 0xFFFFFF \<Longrightarrow> value < 2 ^ 24" by unat_arith
  then show "hts < 2 ^ 24" using u by (auto simp: not_le)
qed

text \<open>The leading chunk of a message, as the reader of a synchronised stream takes it.\<close>

definition leads :: "wstate \<Rightarrow> rstate \<Rightarrow> message \<Rightarrow> byte \<Rightarrow> u32 \<Rightarrow> rstate \<Rightarrow> bool" where
  "leads w r m fmt value r' \<longleftrightarrow> rs_ts r' = m_ts m \<and> rs_type r' = m_type m \<and> rs_msid r' = m_msid m \<and> rs_est r' \<and>
     assembling (m_payload m) 0 r' \<and>
     csid_synced (update_wstate fmt m (of_nat (length (m_payload m))) value w) (r'\<lparr>rs_buf := [], rs_got := 0\<rparr>)"

lemma choose_fmt_cases:
  assumes "choose_fmt w m len = (fmt, value)"
  obtains "fmt = 0" "value = m_ts m"
  | "fmt = 1" "value = m_ts m - w_ts w" "w_est w" "m_msid m = w_msid w"
  | "fmt = 2" "value = m_ts m - w_ts w" "w_est w" "m_msid m = w_msid w" "len = w_len w" "m_type m = w_type w"
  | "fmt = 3" "value = m_ts m - w_ts w" "w_est w" "m_msid m = w_msid w" "len = w_len w" "m_type m = w_type w"
    "value = w_delta w" "value \<noteq> 0"
proof -
  define d where "d = m_ts m - w_ts w"
  have "choose_fmt w m len =
      (if w_est w \<and> m_msid m = w_msid w \<and> w_ts w \<le> m_ts m
       then (if len = w_len w \<and> m_type m = w_type w then (if d = w_delta w \<and> d \<noteq> 0 then 3 else 2) else 1, d)
       else (0, m_ts m))"
    unfolding choose_fmt_def Let_def d_def by (rule refl)
  then show thesis
    using assms that [folded d_def] by (auto split: if_splits)
qed

lemma u24_of_nat: "n < 2 ^ 24 \<Longrightarrow> (of_nat n :: u32) < 2 ^ 24" "n < 2 ^ 24 \<Longrightarrow> unat (of_nat n :: u32) = n"
  unfolding word_less_nat_alt by (simp_all add: u32_of_nat(3))

lemma leading_chunk:
  assumes "csid_synced w r" "allocates fresh" "length (m_payload m) < 2 ^ 24"
    and len_def: "len = of_nat (length (m_payload m))"
    and cf: "choose_fmt w m len = (fmt, value)" and tf: "timestamp_fields w fmt value = (useExt, hts, x)"
  obtains mh where "leading_header fmt csid hts len (m_type m) (m_msid m) = encodeBasicHeader fmt csid @ mh"
    "length mh = header_size fmt" "header_fields fmt mh r = (hts, len, m_type m, m_msid m)"
    "has_ext fmt hts r = useExt"
    "leads w r m fmt value (update_rstate fresh fmt (if useExt then x else hts) len (m_type m) (m_msid m) useExt r)"
    "rs_ext (update_rstate fresh fmt (if useExt then x else hts) len (m_type m) (m_msid m) useExt r) = useExt"
proof -
  have l24: "len < 2 ^ 24" "unat len = length (m_payload m)" using u24_of_nat [OF assms(3)] by (simp_all add: len_def)
  have buf: "0 < len \<Longrightarrow> length (fresh (unat len)) = length (m_payload m)" "\<not> 0 < len \<Longrightarrow> m_payload m = []"
    using assms(2) l24(2) by (auto simp: allocates_def word_less_nat_alt)
  have got: "rs_got r = 0" using assms(1) by (simp add: csid_synced_def)
  let ?ts = "if useExt then x else hts"
  have ext: "rs_ext (update_rstate fresh fmt ?ts len (m_type m) (m_msid m) useExt r) = useExt"
    by (simp add: update_rstate_def Let_def)
  from cf show thesis
  proof (cases rule: choose_fmt_cases)
    case 1
    note t = timestamp_fields_not3 [OF tf, unfolded 1, simplified]
    show thesis
      by (rule that [of "be24 hts @ be24 len @ m_type m # le32 (m_msid m)"])
        (use 1 t l24 buf got ext in \<open>simp_all add: leading_header_def header_size_def header_fields_def header_read_back has_ext_def
           leads_def update_rstate_def update_wstate_def csid_synced_def assembling_def length_le32 len_def\<close>)
  next
    case 2
    note t = timestamp_fields_not3 [OF tf, unfolded 2(1), simplified]
    show thesis
      by (rule that [of "be24 hts @ be24 len @ [m_type m]"])
        (use assms(1) 2 t l24 buf got ext in \<open>simp_all add: leading_header_def header_size_def header_fields_def header_read_back has_ext_def
           leads_def update_rstate_def update_wstate_def csid_synced_def assembling_def len_def\<close>)
  next
    case 3
    note t = timestamp_fields_not3 [OF tf, unfolded 3(1), simplified]
    show thesis
      by (rule that [of "be24 hts"])
        (use assms(1) 3 t l24 buf got ext in \<open>simp_all add: leading_header_def header_size_def header_fields_def header_read_back has_ext_def
           leads_def update_rstate_def update_wstate_def csid_synced_def assembling_def len_def\<close>)
  next
    case 4
    show thesis
      by (rule that [of "[]"])
        (use assms(1) 4 tf l24 buf got ext in \<open>auto simp: leading_header_def header_size_def header_fields_def has_ext_def
           leads_def update_rstate_def update_wstate_def csid_synced_def assembling_def len_def timestamp_fields_def\<close>)
  qed
qed

text \<open>The message as it arrives: its chunk stream id is the one the writer chose.\<close>

definition addressed :: "message \<Rightarrow> message" where
  "addressed m = m\<lparr>m_csid := if m_csid m = 0 then defaultCsidForType (m_type m) else m_csid m\<rparr>"

lemma write_all_Ok:
  assumes "write_all ds st = (st', Ok)"
  shows "tx st' = tx st @ concat ds" "dev st' = dev st" "localChunk st' = localChunk st" "wstates st' = wstates st"
  using assms
  by (induction ds arbitrary: st; force simp: writeBytes_def split: if_splits prod.splits)+

lemma writeMessage_Ok:
  assumes "writeMessage m a = (a', Ok)"
  defines "csid \<equiv> m_csid (addressed m)"
  defines "w \<equiv> wstates a csid"
  defines "len \<equiv> of_nat (length (m_payload m))"
  shows "2 \<le> csid \<and> csid \<le> 65599 \<and> 0 < localChunk a \<and> dev a' = dev a \<and> localChunk a' = localChunk a \<and>
    tx a' = tx a @ concat (message_pieces w csid (nat (localChunk a)) m) \<and>
    wstates a' = (wstates a)(csid := update_wstate (fst (choose_fmt w m len)) m len (snd (choose_fmt w m len)) w)"
proof -
  have csid: "(if m_csid m = 0 then defaultCsidForType (m_type m) else m_csid m) = csid"
    by (simp add: csid_def addressed_def)
  obtain st e where w: "write_all (message_pieces w csid (nat (localChunk a)) m) a = (st, e)" by fastforce
  show ?thesis
    using assms(1) write_all_Ok [of "message_pieces w csid (nat (localChunk a)) m" a st] w
    unfolding writeMessage_def csid Let_def w_def [symmetric] len_def [symmetric]
    by (auto simp: not_less case_prod_unfold split: if_splits)
qed

lemma concat_message_pieces:
  assumes "length (m_payload m) < 2 ^ 24" "len = of_nat (length (m_payload m))"
    and "choose_fmt w m len = (fmt, stamp)" "timestamp_fields w fmt stamp = (useExt, hts, x)"
    and "ext = (if useExt then be32 x else [])"
  shows "concat (message_pieces w csid cs m) = leading_header fmt csid hts len (m_type m) (m_msid m) @ ext @
    take cs (m_payload m) @ concat (continuation cs (encodeBasicHeader 3 csid @ ext) (drop cs (m_payload m)))"
  using assms u24_of_nat(2) [OF assms(1)] by (simp add: message_pieces_def Let_def)

lemma message_arrives:
  assumes sync: "in_step a b" and al: "allocates fresh" and wr: "writeMessage m a = (a', Ok)"
    and small: "length (m_payload m) < 2 ^ 24" and tx: "tx a' = tx a @ bs" and rx: "rx b = bs @ rest"
  obtains b' where "readMessage fresh b = (dispatch_control (addressed m) b', ReadMessage (addressed m))"
    "rx b' = rest" "in_step a' b'"
proof -
  define csid where "csid = m_csid (addressed m)"
  define w where "w = wstates a csid"
  define len :: u32 where "len = of_nat (length (m_payload m))"
  define cs where "cs = nat (localChunk a)"
  obtain fmt stamp where cf: "choose_fmt w m len = (fmt, stamp)" by fastforce
  obtain useExt hts x where tf: "timestamp_fields w fmt stamp = (useExt, hts, x)" by (metis prod_cases3)
  define ext where "ext = (if useExt then be32 x else [])"
  have ok: "2 \<le> csid" "csid \<le> 65599" "tx a' = tx a @ concat (message_pieces w csid cs m)" "dev a' = dev a"
      "localChunk a' = localChunk a" "wstates a' = (wstates a)(csid := update_wstate fmt m len stamp w)"
    using writeMessage_Ok [OF wr] cf by (simp_all add: csid_def w_def len_def cs_def)
  have in_step: "dev b" "128 \<le> localChunk a" "localChunk a \<le> 65535" "peerChunk b = localChunk a" "dev a"
      "csid_synced (wstates a i) (rstates b i)" for i
    using sync by (simp_all add: in_step_def)
  have cs: "0 < cs" "cs \<le> 65535" "peerChunk b = int cs" using in_step by (simp_all add: cs_def)
  let ?body = "m_payload m" let ?r = "rstates b csid"
  define r' where "r' = update_rstate fresh fmt (if useExt then x else hts) len (m_type m) (m_msid m) useExt ?r"
  obtain mh where mh: "leading_header fmt csid hts len (m_type m) (m_msid m) = encodeBasicHeader fmt csid @ mh"
      "length mh = header_size fmt" "header_fields fmt mh ?r = (hts, len, m_type m, m_msid m)"
      "has_ext fmt hts ?r = useExt" "leads w ?r m fmt stamp r'" "rs_ext r' = useExt"
    by (rule leading_chunk [OF in_step(6) [of csid, folded w_def] al small len_def cf tf, folded r'_def])
  let ?tail = "concat (continuation cs (encodeBasicHeader 3 csid @ ext) (drop cs ?body)) @ rest"
  have rx': "rx b = encodeBasicHeader fmt csid @ mh @ ext @ take cs ?body @ ?tail"
    using rx tx ok(3) concat_message_pieces [OF small len_def cf tf ext_def] mh(1) by simp
  have lext: "length ext = (if useExt then 4 else 0)" by (simp add: ext_def)
  have fmt: "fmt < 4" using cf by (cases rule: choose_fmt_cases) simp_all
  have ts: "(if useExt then rd_be32 ext else hts) = (if useExt then x else hts)"
    by (simp add: ext_def rd_be32_def be32_def be_simps)
  obtain b1 where b1: "read_chunk fresh b = read_payload csid b1" "rx b1 = take cs ?body @ ?tail"
      "dev b1 = dev b" "peerChunk b1 = peerChunk b" "rstates b1 = (rstates b)(csid := r')"
    by (rule read_chunk_head [OF in_step(1) fmt ok(1,2) mh(2,3) mh(4) [symmetric] lext rx', where fresh = fresh,
          unfolded ts, folded r'_def])
  have dm: "done_message ?body csid r' = addressed m" and asm: "assembling ?body 0 r'" and est: "rs_est r'"
    and synced: "csid_synced (update_wstate fmt m len stamp w) (r'\<lparr>rs_buf := [], rs_got := 0\<rparr>)"
    using mh(5) by (simp_all add: leads_def done_message_def csid_def addressed_def len_def)
  have fin: "in_step a' c" if "dev c" "peerChunk c = peerChunk b"
      "rstates c = (rstates b)(csid := r'\<lparr>rs_buf := [], rs_got := 0\<rparr>)" for c
    using that in_step ok(4,5,6) synced by (simp add: in_step_def)
  obtain b2 where b2:
    "length ?body \<le> 0 + cs \<Longrightarrow> read_payload csid b1 = (b2, ChunkMessage (addressed m)) \<and>
       rstates b2 = (rstates b1)(csid := r'\<lparr>rs_buf := [], rs_got := 0\<rparr>)"
    "0 + cs < length ?body \<Longrightarrow> read_payload csid b1 = (b2, ChunkMore) \<and>
       (\<exists>buf. let r = r'\<lparr>rs_buf := buf, rs_got := of_nat (0 + cs)\<rparr> in
          assembling ?body (0 + cs) r \<and> rstates b2 = (rstates b1)(csid := r))"
    "rx b2 = ?tail" "peerChunk b2 = peerChunk b1" "dev b2 = dev b1"
    using read_payload_moves [of b1 ?body 0 csid cs ?tail] b1 in_step(1) asm small cs dm by auto
  show thesis
  proof (cases "length ?body \<le> cs")
    case True
    have "rx b2 = rest" using b2(3) True by (simp add: continuation.simps)
    then show thesis
      using b1 b2 True in_step(1)
      by (intro that [of b2] fin) (simp_all add: readMessage.simps [of fresh b])
  next
    case False
    then obtain buf where c: "read_payload csid b1 = (b2, ChunkMore)"
        "assembling ?body cs (r'\<lparr>rs_buf := buf, rs_got := of_nat cs\<rparr>)"
        "rstates b2 = (rstates b1)(csid := r'\<lparr>rs_buf := buf, rs_got := of_nat cs\<rparr>)"
      using b2(2) by (auto simp: Let_def)
    let ?rm = "r'\<lparr>rs_buf := buf, rs_got := of_nat cs\<rparr>"
    have dm': "done_message ?body csid ?rm = addressed m" using dm by (simp add: done_message_def)
    have pc: "peerChunk b2 = int cs" "dev b2" "rstates b2 csid = ?rm" "rs_est ?rm" "length ext = (if rs_ext ?rm then 4 else 0)"
        "cs < length ?body"
      using b1 b2 cs in_step(1) c est mh(6) lext False by simp_all
    obtain b3 where b3: "readMessage fresh b2 = (dispatch_control (addressed m) b3, ReadMessage (addressed m))" "rx b3 = rest"
        "dev b3" "peerChunk b3 = int cs" "rstates b3 = (rstates b2)(csid := ?rm\<lparr>rs_buf := [], rs_got := 0\<rparr>)"
      using read_continuation [OF pc(2) ok(1,2) cs(1,2) pc(1) small b2(3) cs(1) pc(6) c(2) pc(3,4,5), where fresh = fresh, unfolded dm'] .
    have "readMessage fresh b = readMessage fresh b2"
      using b1(1) c(1) in_step(1) by (simp add: readMessage.simps [of fresh b])
    then show thesis using b3 c(3) b1(5) cs(3) by (intro that [of b3] fin) simp_all
  qed
qed

section \<open>A conversation\<close>

datatype command = Say message | SetChunk int

definition perform :: "command \<Rightarrow> chunk_stream \<Rightarrow> chunk_stream option" where
  "perform c a =
     (case (case c of Say m \<Rightarrow> writeMessage m a | SetChunk n \<Rightarrow> setLocalChunkSize n a) of
        (a', e) \<Rightarrow> if e = Ok then Some a' else None)"

text \<open>The commands whose effect the wire format can carry: a 24-bit length, and a chunk size announced only by
  the operation that also adopts it.\<close>

definition carried :: "command \<Rightarrow> bool" where
  "carried c = (case c of Say m \<Rightarrow> length (m_payload m) < 2 ^ 24 \<and> m_type m \<noteq> 1 | SetChunk n \<Rightarrow> True)"

definition arrival :: "command \<Rightarrow> read_outcome" where
  "arrival c = ReadMessage (case c of Say m \<Rightarrow> addressed m | SetChunk n \<Rightarrow> control_message 1 (word_of_int n AND 0x7FFFFFFF))"

lemma in_step_dispatch:
  "in_step a b \<Longrightarrow> m_type m \<noteq> 1 \<Longrightarrow> in_step a (dispatch_control m b)"
  by (auto simp: in_step_def dispatch_control_def handleControl_def Let_def csid_synced_def)

lemma rx_dispatch: "rx (dispatch_control m b) = rx b"
  by (simp add: dispatch_control_def handleControl_def Let_def)

lemma writeMessage_appends: "writeMessage m a = (a', Ok) \<Longrightarrow> \<exists>bs. tx a' = tx a @ bs"
  using writeMessage_Ok [of m a a'] by auto

lemma setLocalChunkSize_Ok:
  assumes "setLocalChunkSize n a = (a', Ok)"
  obtains a1 where "128 \<le> n" "n \<le> 65535" "writeMessage (control_message 1 (word_of_int n AND 0x7FFFFFFF)) a = (a1, Ok)"
    "a' = a1\<lparr>localChunk := n\<rparr>"
  using assms by (auto simp: setLocalChunkSize_def sendSetChunkSize_def split: if_splits prod.splits)

lemma chunk_size_carried:
  assumes "128 \<le> n" "n \<le> 65535"
  shows "uint (rd_be32 (be32 (word_of_int n AND 0x7FFFFFFF)) AND 0x7FFFFFFF) = n"
proof -
  have "rd_be32 (be32 v) = v" for v by (simp add: rd_be32_def be32_def be_simps)
  moreover have "(w AND 0x7FFFFFFF) AND 0x7FFFFFFF = (w AND 0x7FFFFFFF :: u32)" for w by (simp add: and.assoc)
  moreover have "(w AND 0x7FFFFFFF :: u32) = take_bit 31 w" for w by (simp add: take_bit_eq_mask mask_eq_exp_minus_1)
  ultimately show ?thesis
    using assms by (simp add: unsigned_take_bit_eq uint_word_of_int_eq take_bit_int_eq_self)
qed

lemma perform_appends: "perform c a = Some a' \<Longrightarrow> \<exists>bs. tx a' = tx a @ bs"
proof (cases c)
  case (Say m)
  assume "perform c a = Some a'"
  with Say have "writeMessage m a = (a', Ok)" by (auto simp: perform_def split: prod.splits if_splits)
  then show ?thesis by (rule writeMessage_appends)
next
  case (SetChunk n)
  assume "perform c a = Some a'"
  with SetChunk have "setLocalChunkSize n a = (a', Ok)" by (auto simp: perform_def split: prod.splits if_splits)
  then obtain a1 where a1: "writeMessage (control_message 1 (word_of_int n AND 0x7FFFFFFF)) a = (a1, Ok)"
    "a' = a1\<lparr>localChunk := n\<rparr>" by (rule setLocalChunkSize_Ok)
  show ?thesis using writeMessage_appends [OF a1(1)] a1(2) by simp
qed

lemma perform_read:
  assumes "allocates fresh" "in_step a b" "carried c" "perform c a = Some a'" "tx a' = tx a @ bs" "rx b = bs @ rest"
  shows "\<exists>b'. readMessage fresh b = (b', arrival c) \<and> rx b' = rest \<and> in_step a' b'"
proof (cases c)
  case (Say m)
  then have "writeMessage m a = (a', Ok)" "length (m_payload m) < 2 ^ 24" "m_type m \<noteq> 1"
    using assms by (auto simp: perform_def carried_def split: prod.splits if_splits)
  note w = this
  obtain b1 where b1: "readMessage fresh b = (dispatch_control (addressed m) b1, ReadMessage (addressed m))"
      "rx b1 = rest" "in_step a' b1"
    by (rule message_arrives [OF assms(2,1) w(1,2) assms(5,6)])
  have "m_type (addressed m) \<noteq> 1" using w(3) by (simp add: addressed_def)
  then have "in_step a' (dispatch_control (addressed m) b1)" by (rule in_step_dispatch [OF b1(3)])
  then show ?thesis using b1 Say by (simp add: arrival_def rx_dispatch)
next
  case (SetChunk n)
  let ?m = "control_message 1 (word_of_int n AND 0x7FFFFFFF)"
  have "setLocalChunkSize n a = (a', Ok)"
    using assms(4) SetChunk by (auto simp: perform_def split: prod.splits if_splits)
  then obtain a1 where a1: "128 \<le> n" "n \<le> 65535" "writeMessage ?m a = (a1, Ok)" "a' = a1\<lparr>localChunk := n\<rparr>"
    by (rule setLocalChunkSize_Ok)
  have m: "addressed ?m = ?m" "length (m_payload ?m) < 2 ^ 24" by (simp_all add: addressed_def control_message_def)
  have "tx a1 = tx a @ bs" using assms(5) a1(4) by simp
  then obtain b1 where b1: "readMessage fresh b = (dispatch_control ?m b1, ReadMessage ?m)" "rx b1 = rest" "in_step a1 b1"
    by (rule message_arrives [OF assms(2,1) a1(3) m(2) _ assms(6), unfolded m(1)])
  have "dispatch_control ?m b1 = b1\<lparr>peerChunk := n\<rparr>"
    using a1(1,2) chunk_size_carried [OF a1(1,2)]
    by (simp add: dispatch_control_def handleControl_def control_message_def)
  then show ?thesis
    using b1 a1 SetChunk by (auto simp: arrival_def in_step_def)
qed

text \<open>The sender and the receiver of one direction are an instance of the simulation, whatever a fresh buffer holds.\<close>

lemma lockstep_rtmp:
  assumes "allocates fresh"
  shows "lockstep perform tx (readMessage fresh) rx in_step carried arrival"
proof
  fix c a a' assume "perform c a = Some a'"
  then show "\<exists>bs. tx a' = tx a @ bs" by (rule perform_appends)
next
  fix a b c a' bs rest
  assume "in_step a b" "carried c" "perform c a = Some a'" "tx a' = tx a @ bs" "rx b = bs @ rest"
  then show "\<exists>b'. readMessage fresh b = (b', arrival c) \<and> rx b' = rest \<and> in_step a' b'"
    by (intro perform_read [OF assms])
qed

definition blank :: "nat \<Rightarrow> byte list" where "blank n = replicate n 0"

lemma allocates_blank: "allocates blank"
  by (simp add: allocates_def blank_def)

interpretation rtmp: lockstep perform tx "readMessage blank" rx in_step carried arrival
  by (rule lockstep_rtmp [OF allocates_blank])

section \<open>Properties\<close>

lemma in_step_new: "in_step (new_chunk_stream i r) (new_chunk_stream j s)"
  by (simp add: in_step_def new_chunk_stream_def csid_synced_def new_rstate_def new_wstate_def)

text \<open>C4: writer and reader refine a message queue. Whatever messages and chunk-size changes one side
  performs successfully, the other side, from the bytes alone, reads exactly those messages in that order,
  with their types, message streams, timestamps and payloads, and stops at the byte after the last one. It
  holds across header compression, extended timestamps, chunking at every negotiated size, interleaved chunk
  streams and acknowledgements sent in between, for payloads that fit the 24-bit length and message types other than 1
  (a chunk size is announced only by the operation that also adopts it), in a reader whose allocations succeed.\<close>

theorem rtmp_conversation_delivered:
  assumes "allocates fresh" "\<forall>c\<in>set cs. carried c"
    and "send_all perform cs (new_chunk_stream i room) = Some a"
  shows "\<exists>b. recv_n (readMessage fresh) (length cs) (new_chunk_stream (tx a @ rest) room') = (b, map arrival cs) \<and>
    rx b = rest"
proof -
  have "tx a = tx (new_chunk_stream i room) @ tx a" "rx (new_chunk_stream (tx a @ rest) room') = tx a @ rest"
    by (simp_all add: new_chunk_stream_def)
  from lockstep.lockstep_run [OF lockstep_rtmp [OF assms(1)] in_step_new assms(2,3) this] show ?thesis by blast
qed

lemma witness_writes:
  "send_all perform [SetChunk 4096, Say \<lparr>m_type = 9, m_msid = 1, m_ts = 40, m_payload = [1, 2], m_csid = 0\<rparr>]
     (new_chunk_stream [] 100) \<noteq> None"
  by code_simp

lemma witness_arrivals:
  "map arrival [SetChunk 4096, Say \<lparr>m_type = 9, m_msid = 1, m_ts = 40, m_payload = [1, 2], m_csid = 0\<rparr>] =
    [ReadMessage \<lparr>m_type = 1, m_msid = 0, m_ts = 0, m_payload = [0, 0, 16, 0], m_csid = 2\<rparr>,
     ReadMessage \<lparr>m_type = 9, m_msid = 1, m_ts = 40, m_payload = [1, 2], m_csid = 6\<rparr>]"
  by (simp add: arrival_def addressed_def control_message_def be32_def defaultCsidForType_def)

theorem rtmp_conversation_delivered_witness:
  "\<exists>a b. send_all perform [SetChunk 4096, Say \<lparr>m_type = 9, m_msid = 1, m_ts = 40, m_payload = [1, 2], m_csid = 0\<rparr>]
       (new_chunk_stream [] 100) = Some a \<and>
     recv_n (readMessage blank) 2 (new_chunk_stream (tx a) 0) =
       (b, [ReadMessage \<lparr>m_type = 1, m_msid = 0, m_ts = 0, m_payload = [0, 0, 16, 0], m_csid = 2\<rparr>,
            ReadMessage \<lparr>m_type = 9, m_msid = 1, m_ts = 40, m_payload = [1, 2], m_csid = 6\<rparr>])"
proof -
  let ?cs = "[SetChunk 4096, Say \<lparr>m_type = 9, m_msid = 1, m_ts = 40, m_payload = [1, 2], m_csid = 0\<rparr>]"
  obtain a where a: "send_all perform ?cs (new_chunk_stream [] 100) = Some a" using witness_writes by auto
  have "\<forall>c\<in>set ?cs. carried c" by (simp add: carried_def)
  from rtmp_conversation_delivered [OF allocates_blank this a, of "[]" 0]
  obtain b where b: "recv_n (readMessage blank) (length ?cs) (new_chunk_stream (tx a) 0) = (b, map arrival ?cs)"
    by (auto simp only: append_Nil2)
  have "length ?cs = 2" by simp
  with a b show ?thesis unfolding witness_arrivals by (intro exI [of _ a] exI [of _ b] conjI) (simp_all only:)
qed
lemma read_payload_overrun:
  assumes "n = (if rs_len (rstates st csid) - rs_got (rstates st csid) < word_of_int (peerChunk st)
      then rs_len (rstates st csid) - rs_got (rstates st csid) else word_of_int (peerChunk st))"
    and "0 < n" "length (rs_buf (rstates st csid)) < unat (rs_got (rstates st csid)) + unat n"
  shows "read_payload csid st = (st, BufferOverrun)"
  using assms(2,3) unfolding read_payload_def Let_def assms(1) [symmetric] by (simp only: if_True simp_thms)

lemma read_payload_more:
  assumes "dev st" "assembling body g (rstates st csid)" "g \<le> length body" "length body < 2 ^ 24"
    and "peerChunk st = int cs" "0 < cs" "cs \<le> 65535" "rx st = take cs (drop g body) @ rest" "g + cs < length body"
  shows "\<exists>st' buf. read_payload csid st = (st', ChunkMore) \<and>
    assembling body (g + cs) ((rstates st csid)\<lparr>rs_buf := buf, rs_got := of_nat (g + cs)\<rparr>) \<and>
    rstates st' = (rstates st)(csid := (rstates st csid)\<lparr>rs_buf := buf, rs_got := of_nat (g + cs)\<rparr>) \<and>
    rx st' = rest \<and> peerChunk st' = peerChunk st \<and> dev st' = dev st"
  by (rule read_payload_moves [OF assms(1-8)]) (use assms(9) in \<open>auto simp: Let_def\<close>)

lemma read_full_header:
  assumes "dev st" "2 \<le> csid" "csid \<le> 65599" "n < 2 ^ 24"
    and "rx st = leading_header 0 csid 0 (of_nat n) ty ms @ tail"
  obtains st' where "read_chunk fresh st = read_payload csid st'" "rx st' = tail" "dev st' = dev st"
    "peerChunk st' = peerChunk st"
    "rstates st' = (rstates st)(csid := update_rstate fresh 0 0 (of_nat n) ty ms False (rstates st csid))"
proof -
  let ?mh = "be24 0 @ be24 (of_nat n) @ ty # le32 ms"
  have "header_fields 0 ?mh (rstates st csid) = (0, of_nat n, ty, ms)" "has_ext 0 0 (rstates st csid) = False"
    using u24_of_nat(1) [OF assms(4)] by (simp_all add: header_fields_def header_read_back has_ext_def header_size_def)
  moreover have "length ?mh = header_size 0" by (simp add: header_size_def length_le32)
  moreover have "rx st = encodeBasicHeader 0 csid @ ?mh @ [] @ tail" using assms(5) by (simp add: leading_header_def)
  ultimately show thesis
    using that by (rule_tac read_chunk_head [of st 0 csid ?mh 0 "of_nat n" ty ms False "[]" tail fresh])
      (simp_all add: assms(1,2,3) word_less_nat_alt)
qed

text \<open>A peer can make the reader write past its reassembly buffer. The buffer is allocated when a message
  starts; a full header that arrives before the message is complete changes its length but not the buffer, and
  the next payload bytes are stored at the old offset up to the new length.\<close>

theorem rtmp_header_mid_message_overruns:
  assumes "allocates fresh" "2 \<le> csid" "csid \<le> 65599" "length p = 128"
    and "128 < k" "k < 256" "k < l" "l < 2 ^ 24"
  shows "\<exists>b. readMessage fresh (new_chunk_stream (leading_header 0 csid 0 (of_nat k) ty ms @ p @
      leading_header 0 csid 0 (of_nat l) ty ms @ rest) room) = (b, ReadOverrun)"
proof -
  let ?st = "new_chunk_stream (leading_header 0 csid 0 (of_nat k) ty ms @ p @
      leading_header 0 csid 0 (of_nat l) ty ms @ rest) room"
  let ?body = "p @ replicate (k - 128) 0"
  have bounds: "length ?body = k" "length ?body < 2 ^ 24" "k < 2 ^ 24" using assms by simp_all
  obtain st1 where 1: "read_chunk fresh ?st = read_payload csid st1" "rx st1 = p @ leading_header 0 csid 0 (of_nat l) ty ms @ rest"
      "dev st1 = dev ?st" "peerChunk st1 = peerChunk ?st"
      "rstates st1 = (rstates ?st)(csid := update_rstate fresh 0 0 (of_nat k) ty ms False new_rstate)"
    using read_full_header [of ?st csid k ty ms "p @ leading_header 0 csid 0 (of_nat l) ty ms @ rest" fresh thesis]
      assms(2,3) bounds(3) that by (simp add: new_chunk_stream_def)
  have a1: "assembling ?body 0 (rstates st1 csid)"
    using assms bounds 1(5) by (simp add: assembling_def update_rstate_def new_rstate_def allocates_def u24_of_nat
      word_less_nat_alt)
  have pre: "dev st1" "0 \<le> length ?body" "peerChunk st1 = int 128" "(0::nat) < 128" "(128::nat) \<le> 65535"
      "rx st1 = take 128 (drop 0 ?body) @ leading_header 0 csid 0 (of_nat l) ty ms @ rest" "0 + 128 < length ?body"
    using 1 assms(4,5) bounds(1) by (simp_all add: new_chunk_stream_def)
  obtain st2 buf where 2: "read_payload csid st1 = (st2, ChunkMore)"
      "assembling ?body 128 ((rstates st1 csid)\<lparr>rs_buf := buf, rs_got := 128\<rparr>)"
      "rstates st2 = (rstates st1)(csid := (rstates st1 csid)\<lparr>rs_buf := buf, rs_got := 128\<rparr>)"
      "rx st2 = leading_header 0 csid 0 (of_nat l) ty ms @ rest" "peerChunk st2 = peerChunk st1" "dev st2 = dev st1"
    using read_payload_more [OF pre(1) a1 pre(2) bounds(2) pre(3-7)] by auto
  define r where "r = rstates st2 csid"
  have r: "rs_got r = 128" "length (rs_buf r) = k"
    using 2(2,3) bounds(1) by (simp_all add: r_def assembling_def)
  obtain st3 where 3: "read_chunk fresh st2 = read_payload csid st3" "rx st3 = rest" "dev st3 = dev st2"
      "peerChunk st3 = peerChunk st2" "rstates st3 = (rstates st2)(csid := update_rstate fresh 0 0 (of_nat l) ty ms False r)"
    using read_full_header [of st2 csid l ty ms rest fresh thesis] that 1(3) 2(4,6) assms(2,3,8)
    by (simp add: new_chunk_stream_def r_def)
  define n :: u32 where "n = (if (of_nat l - of_nat 128 :: u32) < word_of_int (int 128)
    then of_nat l - of_nat 128 else word_of_int (int 128))"
  have n: "unat n = min (l - 128) 128" "0 < n"
    using chunk_amount [OF _ assms(8) _ _ n_def] assms by auto
  let ?r' = "update_rstate fresh 0 0 (of_nat l) ty ms False r"
  have r': "rs_len ?r' = of_nat l" "rs_got ?r' = 128" "length (rs_buf ?r') = k"
    using r by (simp_all add: update_rstate_def)
  have "peerChunk st3 = 128" using 1 2 3 by (simp add: new_chunk_stream_def)
  then have "read_payload csid st3 = (st3, BufferOverrun)"
    using n r' 3(5) assms(5-7) by (intro read_payload_overrun [of n]) (simp_all add: n_def)
  then have "readMessage fresh st2 = (st3, ReadOverrun)"
    using 3(1) 2(6) 1(3) by (simp add: readMessage.simps [of fresh st2] new_chunk_stream_def)
  moreover have "readMessage fresh ?st = readMessage fresh st2"
    using 1(1) 2(1) by (subst readMessage.simps) (simp add: new_chunk_stream_def)
  ultimately show ?thesis by simp
qed

theorem rtmp_header_mid_message_overruns_witness:
  "\<exists>b. readMessage blank (new_chunk_stream (leading_header 0 3 0 (of_nat 200) 9 1 @ replicate 128 7 @
      leading_header 0 3 0 (of_nat 100000) 9 1 @ []) 0) = (b, ReadOverrun)"
  by (rule rtmp_header_mid_message_overruns [OF allocates_blank]) simp_all

end
