(* ===== verification/MdnsTxt.thy ===== *)
theory MdnsTxt
  imports Strings
begin

text \<open>
  \<open>src/network/mdnstxtrecord.cpp\<close>: the key and value entries of an mDNS TXT record (RFC 6763), in order of
  first appearance and with keys compared without case, and their wire form.
\<close>

unbundle bit_operations_syntax

section \<open>Entries\<close>

datatype presence = Absent | KeyOnly | Empty | Present

record entry =
  e_key :: str
  e_presence :: presence
  e_value :: str

type_synonym txt_record = "entry list"

fun findEntry :: "str \<Rightarrow> txt_record \<Rightarrow> nat option" where
  "findEntry key [] = None"
| "findEntry key (e # es) =
     (if equalIgnoreCase (e_key e) key then Some 0 else map_option Suc (findEntry key es))"

text \<open>An entry that exists keeps its key as it was first written.\<close>

definition put_entry :: "presence \<Rightarrow> str \<Rightarrow> str \<Rightarrow> txt_record \<Rightarrow> txt_record" where
  "put_entry p key v es =
     (case findEntry key es of
        Some i \<Rightarrow> es[i := (es ! i)\<lparr>e_presence := p, e_value := v\<rparr>]
      | None \<Rightarrow> es @ [\<lparr>e_key = key, e_presence = p, e_value = v\<rparr>])"

definition txt_set :: "str \<Rightarrow> str \<Rightarrow> txt_record \<Rightarrow> txt_record" where
  "txt_set key v = put_entry Present key v"

definition txt_setKey :: "str \<Rightarrow> txt_record \<Rightarrow> txt_record" where
  "txt_setKey key = put_entry KeyOnly key (Latin1 [])"

definition txt_setEmpty :: "str \<Rightarrow> txt_record \<Rightarrow> txt_record" where
  "txt_setEmpty key = put_entry Empty key (Latin1 [])"

definition txt_remove :: "str \<Rightarrow> txt_record \<Rightarrow> txt_record" where
  "txt_remove key es = (case findEntry key es of None \<Rightarrow> es | Some i \<Rightarrow> take i es @ drop (Suc i) es)"

definition txt_presence :: "str \<Rightarrow> txt_record \<Rightarrow> presence" where
  "txt_presence key es = (case findEntry key es of None \<Rightarrow> Absent | Some i \<Rightarrow> e_presence (es ! i))"

definition txt_value :: "str \<Rightarrow> str \<Rightarrow> txt_record \<Rightarrow> str" where
  "txt_value key dflt es = (case findEntry key es of None \<Rightarrow> dflt | Some i \<Rightarrow> e_value (es ! i))"

definition txt_keys :: "txt_record \<Rightarrow> str list" where
  "txt_keys es = map e_key es"

fun txt_eq :: "txt_record \<Rightarrow> txt_record \<Rightarrow> bool" where
  "txt_eq (a # as) (b # bs) \<longleftrightarrow>
     e_presence a = e_presence b \<and> equalIgnoreCase (e_key a) (e_key b) \<and>
     (e_presence a = Present \<longrightarrow> chars_of (e_value a) = chars_of (e_value b)) \<and> txt_eq as bs"
| "txt_eq as bs \<longleftrightarrow> as = [] \<and> bs = []"

section \<open>Wire form\<close>

text \<open>Back from the limit to the start of a character.\<close>

fun back_up :: "byte list \<Rightarrow> nat \<Rightarrow> nat" where
  "back_up raw 0 = 0"
| "back_up raw (Suc n) = (if raw ! Suc n AND 0xC0 = 0x80 then back_up raw n else Suc n)"

definition entryToWire :: "entry \<Rightarrow> str" where
  "entryToWire e =
     (let w = str_append (Latin1 []) (e_key e);
          w = (if e_presence e = Empty then str_append_char w 0x3D
               else if e_presence e = Present then str_append (str_append_char w 0x3D) (e_value e) else w)
      in if 255 < str_bytes w then makeDataFromUtf8 (take (back_up (cstr w) 255) (cstr w)) else w)"

definition txt_encode :: "txt_record \<Rightarrow> byte list" where
  "txt_encode es =
     (if es = [] then [0]
      else concat (map (\<lambda>e. of_nat (str_bytes (entryToWire e)) # cstr (entryToWire e)) es))"

text \<open>The position of the first equals sign, or the length.\<close>

fun find_eq :: "byte list \<Rightarrow> nat" where
  "find_eq [] = 0"
| "find_eq (c # cs) = (if c = 0x3D then 0 else Suc (find_eq cs))"

definition decode_entry :: "byte list \<Rightarrow> txt_record \<Rightarrow> txt_record" where
  "decode_entry payload rec =
     (let eq = find_eq payload; key = makeDataFromUtf8 (take eq payload) in
      if eq = 0 then rec
      else if findEntry key rec \<noteq> None then rec
      else if eq = length payload then txt_setKey key rec
      else if eq = length payload - 1 then txt_setEmpty key rec
      else txt_set key (makeDataFromUtf8 (drop (eq + 1) payload)) rec)"

function txt_decode_loop :: "byte list \<Rightarrow> txt_record \<Rightarrow> txt_record result" where
  "txt_decode_loop [] rec = Inr rec"
| "txt_decode_loop (b # bs) rec =
     (let n = unat b in
      if n = 0 then txt_decode_loop bs rec
      else if length bs < n then Inl ParseFailed
      else txt_decode_loop (drop n bs) (decode_entry (take n bs) rec))"
  by pat_completeness auto
termination by (relation "measure (\<lambda>(bs, rec). length bs)") auto

definition txt_decode :: "byte list \<Rightarrow> txt_record result" where
  "txt_decode bs = txt_decode_loop bs []"

section \<open>Reading back\<close>

text \<open>Entries the wire form can carry: a key of plain characters without an equals sign that no other entry
  has, at most 255 bytes together, and a value exactly when there is one to carry.\<close>

definition plain_entry :: "entry \<Rightarrow> bool" where
  "plain_entry e \<longleftrightarrow> (\<exists>k v. e_key e = Latin1 k \<and> e_value e = Latin1 v \<and> ascii k \<and> ascii v \<and> k \<noteq> [] \<and> 0x3D \<notin> set k \<and>
     (e_presence e = Present \<longrightarrow> v \<noteq> []) \<and> (e_presence e \<noteq> Present \<longrightarrow> v = []) \<and> e_presence e \<noteq> Absent \<and>
     length k + length v + 1 \<le> 255)"

fun keys_differ :: "txt_record \<Rightarrow> bool" where
  "keys_differ [] = True"
| "keys_differ (e # es) = ((\<forall>x\<in>set es. \<not> equalIgnoreCase (e_key x) (e_key e)) \<and> keys_differ es)"

lemma find_eq_append: "0x3D \<notin> set k \<Longrightarrow> find_eq (k @ r) = length k + find_eq r"
  by (induction k) auto

lemma findEntry_None: "(findEntry key es = None) = (\<forall>x\<in>set es. \<not> equalIgnoreCase (e_key x) key)"
  by (induction es) auto

lemma decode_entry_plain:
  assumes "plain_entry e" "\<forall>x\<in>set rec. \<not> equalIgnoreCase (e_key x) (e_key e)"
  shows "decode_entry (cstr (entryToWire e)) rec = rec @ [e]" "0 < str_bytes (entryToWire e)" "str_bytes (entryToWire e) \<le> 255"
proof -
  obtain k v where e: "e_key e = Latin1 k" "e_value e = Latin1 v" "ascii k" "ascii v" "k \<noteq> []" "0x3D \<notin> set k"
      "e_presence e = Present \<longrightarrow> v \<noteq> []" "e_presence e \<noteq> Present \<longrightarrow> v = []" "e_presence e \<noteq> Absent"
      "length k + length v + 1 \<le> 255"
    using assms(1) unfolding plain_entry_def by blast
  let ?w = "k @ (if e_presence e = KeyOnly then [] else 0x3D # v)"
  have w: "entryToWire e = Latin1 ?w"
    using e by (cases "e_presence e") (simp_all add: entryToWire_def str_append_char_def str_bytes_def Let_def)
  have eq: "find_eq ?w = length k" by (simp add: find_eq_append [OF e(6)])
  have none: "findEntry (Latin1 k) rec = None" using assms(2) e(1) by (simp add: findEntry_None)
  have same: "\<lparr>e_key = Latin1 k, e_presence = p, e_value = Latin1 v\<rparr> = e" if "p = e_presence e" for p
    using e(1,2) that by simp
  show "decode_entry (cstr (entryToWire e)) rec = rec @ [e]"
    using e eq none same [of "e_presence e"] unfolding w decode_entry_def Let_def cstr.simps eq
    by (cases "e_presence e") (auto simp: makeData_ascii txt_setKey_def txt_setEmpty_def txt_set_def put_entry_def)
  show "0 < str_bytes (entryToWire e)" "str_bytes (entryToWire e) \<le> 255"
    using e(5,10) by (simp_all add: w str_bytes_def)
qed

lemma txt_decode_plain:
  assumes "\<forall>e\<in>set es. plain_entry e" "keys_differ (rec @ es)" "es \<noteq> []"
  shows "txt_decode_loop (txt_encode es) rec = Inr (rec @ es)"
  using assms
proof (induction es arbitrary: rec)
  case (Cons e es)
  have differ: "\<forall>x\<in>set rec. \<not> equalIgnoreCase (e_key x) (e_key e)" if "keys_differ (rec @ e # es)" for rec
    using that by (induction rec) (auto simp: equalIgnoreCase_def)
  note d = decode_entry_plain [OF _ differ [OF Cons.prems(2)]]
  have n: "unat (of_nat (str_bytes (entryToWire e)) :: byte) = str_bytes (entryToWire e)"
    using d(3) Cons.prems(1) by (simp add: unsigned_of_nat take_bit_nat_eq_self)
  have "txt_decode_loop (txt_encode (e # es)) rec =
      txt_decode_loop (if es = [] then [] else txt_encode es) (rec @ [e])"
    using d Cons.prems(1) n by (auto simp: txt_encode_def str_bytes_def Let_def)
  also have "\<dots> = Inr (rec @ e # es)"
    using Cons.IH [of "rec @ [e]"] Cons.prems by (cases "es = []") simp_all
  finally show ?case .
qed simp

lemma txt_roundtrip:
  assumes "\<forall>e\<in>set es. plain_entry e" "keys_differ es"
  shows "txt_decode (txt_encode es) = Inr es"
proof (cases "es = []")
  case True
  then show ?thesis by (simp add: txt_decode_def txt_encode_def)
next
  case False
  then show ?thesis using txt_decode_plain [OF assms(1) _ False, of "[]"] assms(2) by (simp add: txt_decode_def)
qed

text \<open>Assignment and lookup.\<close>

lemma findEntry_Some: "findEntry key es = Some i \<Longrightarrow> i < length es \<and> equalIgnoreCase (e_key (es ! i)) key"
  by (induction es arbitrary: i) (auto split: if_splits)

end
