(* ===== verification/DnsName.thy ===== *)
theory DnsName
  imports Strings
begin

text \<open>
  \<open>src/network/dnsname.cpp\<close>: domain names between text and wire. Names are \<open>String\<close> values of
  \<open>Strings\<close>; the loops of this file see their \<open>str_view\<close>. The decoder's loop runs on fuel, running out of
  which is \<open>None\<close>; it is called with 146, and 144 is shown to be enough for every message.
\<close>

unbundle bit_operations_syntax

section \<open>Text form\<close>

definition asciiLower :: "byte \<Rightarrow> byte" where
  "asciiLower c = (if 0x41 \<le> c \<and> c \<le> 0x5A then c + 0x20 else c)"

fun appendEscaped :: "byte list \<Rightarrow> byte list" where
  "appendEscaped [] = []"
| "appendEscaped (c # cs) = (if c = 0x2E \<or> c = 0x5C then [0x5C, c] else [c]) @ appendEscaped cs"

definition dnsEscapeLabel :: "str \<Rightarrow> byte list" where
  "dnsEscapeLabel raw = appendEscaped (str_view raw)"

definition is_digit :: "byte \<Rightarrow> bool" where
  "is_digit c \<longleftrightarrow> 0x30 \<le> c \<and> c \<le> 0x39"

definition digits_value :: "byte \<Rightarrow> byte \<Rightarrow> byte \<Rightarrow> nat" where
  "digits_value a b c = (unat a - 0x30) * 100 + (unat b - 0x30) * 10 + (unat c - 0x30)"

text \<open>One escape after a backslash: the byte it stands for and what follows, or \<open>None\<close> when it is not an
  escape the code knows.\<close>

fun read_escape :: "byte list \<Rightarrow> (byte \<times> byte list) option" where
  "read_escape [] = None"
| "read_escape (c # cs) =
     (if c = 0x2E \<or> c = 0x5C then Some (c, cs)
      else case cs of
        d # e # rest \<Rightarrow>
          if is_digit c \<and> is_digit d \<and> is_digit e \<and> digits_value c d e \<le> 255
          then Some (of_nat (digits_value c d e), rest) else None
      | _ \<Rightarrow> None)"

lemma read_escape_shrinks: "read_escape cs = Some (c, rest) \<Longrightarrow> length rest < length cs"
  by (cases cs) (auto split: if_splits list.splits)

function unescape :: "byte list \<Rightarrow> byte list" where
  "unescape [] = []"
| "unescape (c # cs) =
     (if c \<noteq> 0x5C then c # unescape cs
      else case read_escape cs of Some (v, rest) \<Rightarrow> v # unescape rest | None \<Rightarrow> c # unescape cs)"
  by pat_completeness auto
termination by (relation "measure length") (auto dest: read_escape_shrinks)

definition dnsUnescapeLabel :: "str \<Rightarrow> byte list" where
  "dnsUnescapeLabel s = unescape (str_view s)"

text \<open>Labels: \<open>cur\<close> is the label in progress; a last unescaped dot ends the name and adds no label.\<close>

function split_loop :: "byte list \<Rightarrow> byte list \<Rightarrow> byte list list \<times> byte list" where
  "split_loop cur [] = ([], cur)"
| "split_loop cur (c # cs) =
     (if c = 0x5C \<and> cs \<noteq> [] then
        (case read_escape cs of Some (v, rest) \<Rightarrow> split_loop (cur @ [v]) rest | None \<Rightarrow> split_loop (cur @ [c]) cs)
      else if c = 0x2E then
        (if cs = [] then ([], cur) else (case split_loop [] cs of (ls, last_cur) \<Rightarrow> (cur # ls, last_cur)))
      else split_loop (cur @ [c]) cs)"
  by pat_completeness auto
termination by (relation "measure (\<lambda>(cur, cs). length cs)") (auto dest: read_escape_shrinks)

definition dnsSplitName :: "str \<Rightarrow> byte list list" where
  "dnsSplitName name =
     (let src = str_view name; (ls, cur) = split_loop [] src in
      if cur \<noteq> [] \<or> (src \<noteq> [] \<and> last src \<noteq> 0x2E) then ls @ [cur] else ls)"

definition join_labels :: "byte list list \<Rightarrow> byte list" where
  "join_labels ls = concat (map (\<lambda>l. appendEscaped l @ [0x2E]) ls)"

definition dnsJoinName :: "byte list list \<Rightarrow> byte list" where
  "dnsJoinName ls = (if join_labels ls = [] then [0x2E] else join_labels ls)"

definition suffix_key :: "byte list list \<Rightarrow> byte list" where
  "suffix_key ls = concat (map (\<lambda>l. map asciiLower l @ [0x2E]) ls)"

definition dnsCanonicalName :: "str \<Rightarrow> byte list" where
  "dnsCanonicalName name =
     (let k = suffix_key (dnsSplitName name) in if k = [] then [0x2E] else k)"

section \<open>Decoding\<close>

text \<open>The loop of \<open>decodeName\<close>: the cursor, the offset after the name once it is known, the hops taken, the
  bytes materialised and the text so far.\<close>

fun decode_loop :: "nat \<Rightarrow> byte list \<Rightarrow> nat \<Rightarrow> nat option \<Rightarrow> nat \<Rightarrow> nat \<Rightarrow> byte list \<Rightarrow> (byte list \<times> nat) result option" where
  "decode_loop 0 data cursor next_off hops mat name = None"
| "decode_loop (Suc fuel) data cursor next_off hops mat name =
     (if length data \<le> cursor then Some (Inl ParseFailed)
      else let b = data ! cursor in
        if b AND 0xC0 = 0xC0 then
          (if length data \<le> cursor + 1 then Some (Inl ParseFailed)
           else let target = unat (b AND 0x3F) * 256 + unat (data ! (cursor + 1));
                    next' = (case next_off of None \<Rightarrow> Some (cursor + 2) | Some k \<Rightarrow> Some k)
                in if cursor \<le> target then Some (Inl ParseFailed)
                   else if 16 < hops + 1 then Some (Inl ParseFailed)
                   else decode_loop fuel data target next' (hops + 1) mat name)
        else if b AND 0xC0 \<noteq> 0 then Some (Inl ParseFailed)
        else let n = unat (b AND 0x3F) in
          if n = 0 then
            Some (Inr (name, case next_off of None \<Rightarrow> cursor + 1 | Some k \<Rightarrow> k))
          else if 63 < n then Some (Inl ParseFailed)
          else if length data < cursor + 1 + n then Some (Inl ParseFailed)
          else if 255 < mat + n + 1 then Some (Inl ParseFailed)
          else decode_loop fuel data (cursor + 1 + n) next_off hops (mat + n + 1)
                 (name @ appendEscaped (take n (drop (cursor + 1) data)) @ [0x2E]))"

definition decodeName :: "byte list option \<Rightarrow> nat \<Rightarrow> (byte list \<times> nat) result" where
  "decodeName data offset =
     (case data of
        None \<Rightarrow> Inl Invalid
      | Some d \<Rightarrow>
          (case decode_loop 146 d offset None 0 0 [] of
             None \<Rightarrow> Inl NotImplemented
           | Some (Inl e) \<Rightarrow> Inl e
           | Some (Inr (name, k)) \<Rightarrow> Inr (if name = [] then [0x2E] else name, k)))"

function skip_loop :: "byte list \<Rightarrow> nat \<Rightarrow> nat result" where
  "skip_loop data cursor =
     (if length data \<le> cursor then Inl ParseFailed
      else let b = data ! cursor in
        if b AND 0xC0 = 0xC0 then (if length data \<le> cursor + 1 then Inl ParseFailed else Inr (cursor + 2))
        else if b AND 0xC0 \<noteq> 0 then Inl ParseFailed
        else let n = unat (b AND 0x3F) in
          if n = 0 then Inr (cursor + 1)
          else if 63 < n then Inl ParseFailed
          else if length data < cursor + 1 + n then Inl ParseFailed
          else skip_loop data (cursor + 1 + n))"
  by pat_completeness auto
termination by (relation "measure (\<lambda>(data, cursor). length data - cursor)") auto

declare skip_loop.simps [simp del]

definition skipName :: "byte list option \<Rightarrow> nat \<Rightarrow> nat result" where
  "skipName data offset = (case data of None \<Rightarrow> Inl Invalid | Some d \<Rightarrow> skip_loop d offset)"

section \<open>Encoding\<close>

type_synonym dictionary = "byte list \<Rightarrow> u16 option"

definition lookup_suffix :: "dictionary option \<Rightarrow> byte list list \<Rightarrow> u16 option" where
  "lookup_suffix dict ls =
     (case dict of
        None \<Rightarrow> None
      | Some m \<Rightarrow> (case m (suffix_key ls) of None \<Rightarrow> None | Some t \<Rightarrow> if t \<le> 0x3FFF then Some t else None))"

definition register_suffix :: "dictionary option \<Rightarrow> byte list list \<Rightarrow> nat \<Rightarrow> dictionary option" where
  "register_suffix dict ls off =
     (case dict of
        None \<Rightarrow> None
      | Some m \<Rightarrow>
          if off \<le> 0x3FFF \<and> m (suffix_key ls) = None then Some (m(suffix_key ls \<mapsto> of_nat off)) else Some m)"

definition pointer_bytes :: "u16 \<Rightarrow> byte list" where
  "pointer_bytes t = [ucast (0xC0 OR (drop_bit 8 t AND 0x3F)), ucast t]"

fun encode_loop :: "nat \<Rightarrow> byte list list \<Rightarrow> byte list \<Rightarrow> dictionary option \<Rightarrow> byte list \<times> dictionary option \<times> error" where
  "encode_loop start [] out dict =
     (let out' = out @ [0] in (out', dict, if 255 < length out' - start then Invalid else Ok))"
| "encode_loop start (lab # labs) out dict =
     (if 63 < length lab then (out, dict, Invalid)
      else case lookup_suffix dict (lab # labs) of
        Some t \<Rightarrow>
          (let out' = out @ pointer_bytes t in (out', dict, if 255 < length out' - start then Invalid else Ok))
      | None \<Rightarrow>
          encode_loop start labs (out @ of_nat (length lab) # lab) (register_suffix dict (lab # labs) (length out)))"

definition encodeName :: "str \<Rightarrow> byte list \<Rightarrow> dictionary option \<Rightarrow> byte list \<times> dictionary option \<times> error" where
  "encodeName name out dict =
     (let labels = dnsSplitName name in
      if labels = [] then (out @ [0], dict, Ok) else encode_loop (length out) labels out dict)"

section \<open>Bytes of a name\<close>

text \<open>The two flag bits sort a length byte into label, reserved and pointer.\<close>

lemma byte_eq_iff:
  "a = b \<longleftrightarrow> bit a 0 = bit b 0 \<and> bit a 1 = bit b 1 \<and> bit a 2 = bit b 2 \<and> bit a 3 = bit b 3 \<and>
     bit a 4 = bit b 4 \<and> bit a 5 = bit b 5 \<and> bit a 6 = bit b 6 \<and> bit a 7 = bit b 7" for a b :: byte
  using bit_byte_eqI [of a b] by auto

lemma length_byte:
  "(b AND 0xC0 = 0xC0) = (192 \<le> unat b)" "(b AND 0xC0 \<noteq> 0) = (64 \<le> unat b)" "unat (b AND 0x3F) = unat b mod 64"
  for b :: byte
proof -
  have q: "unat (drop_bit 6 b) = unat b div 64" by (subst unat_drop_bit_eq) (simp add: drop_bit_eq_div)
  have lt: "unat b div 64 < 4" using unat_byte_less [of b] by (simp add: div_less_iff_less_mult)
  have "(b AND 0xC0 = 0xC0) = (drop_bit 6 b = 3)" "(b AND 0xC0 = 0) = (drop_bit 6 b = 0)"
    by (auto simp: byte_eq_iff bit_simps)
  moreover have "(drop_bit 6 b = 3) = (unat b div 64 = 3)" "(drop_bit 6 b = 0) = (unat b div 64 = 0)"
    using q by (simp_all add: word_unat_eq_iff)
  ultimately show "(b AND 0xC0 = 0xC0) = (192 \<le> unat b)" "(b AND 0xC0 \<noteq> 0) = (64 \<le> unat b)"
    using lt by (simp_all, linarith+)
  have "b AND 0x3F = take_bit 6 b" by (rule bit_byte_eqI; simp add: bit_simps)
  then show "unat (b AND 0x3F) = unat b mod 64" by (simp only: unsigned_take_bit_eq) (simp add: take_bit_eq_mod)
qed

text \<open>The meaning of a name in a message, as RFC 1035 has it: \<open>reads_at d c ls h k\<close> when the name at offset
  \<open>c\<close> has the labels \<open>ls\<close>, \<open>h\<close> compression pointers are followed, and the encoding in place ends before \<open>k\<close>.\<close>

inductive reads_at :: "byte list \<Rightarrow> nat \<Rightarrow> byte list list \<Rightarrow> nat \<Rightarrow> nat \<Rightarrow> bool" for d where
  root: "c < length d \<Longrightarrow> unat (d ! c) = 0 \<Longrightarrow> reads_at d c [] 0 (c + 1)"
| label: "c < length d \<Longrightarrow> n = unat (d ! c) \<Longrightarrow> 0 < n \<Longrightarrow> n < 64 \<Longrightarrow> c + 1 + n \<le> length d \<Longrightarrow>
    reads_at d (c + 1 + n) ls h k \<Longrightarrow> reads_at d c (take n (drop (c + 1) d) # ls) h k"
| pointer: "c + 1 < length d \<Longrightarrow> 192 \<le> unat (d ! c) \<Longrightarrow> t = (unat (d ! c) - 192) * 256 + unat (d ! (c + 1)) \<Longrightarrow> t < c \<Longrightarrow>
    reads_at d t ls h k \<Longrightarrow> reads_at d c ls (Suc h) (c + 2)"

inductive_cases reads_atE: "reads_at d c ls h k"

definition name_bytes :: "byte list list \<Rightarrow> nat" where
  "name_bytes ls = sum_list (map (\<lambda>l. length l + 1) ls)"

lemma name_bytes_simps [simp]: "name_bytes [] = 0" "name_bytes (l # ls) = length l + 1 + name_bytes ls"
  by (simp_all add: name_bytes_def)

lemma join_labels_simps [simp]:
  "join_labels [] = []" "join_labels (l # ls) = appendEscaped l @ [0x2E] @ join_labels ls"
  by (simp_all add: join_labels_def)

lemma mod_64_high: "192 \<le> n \<Longrightarrow> n < 256 \<Longrightarrow> n mod 64 = n - (192 :: nat)"
  by (rule mod_nat_eqI) (simp_all add: dvd_diff_nat)

lemma decode_loop_step:
  "decode_loop (Suc fuel) data cursor next_off hops mat name =
     (if length data \<le> cursor then Some (Inl ParseFailed)
      else let n = unat (data ! cursor) in
        if 192 \<le> n then
          (if length data \<le> cursor + 1 then Some (Inl ParseFailed)
           else let t = (n - 192) * 256 + unat (data ! (cursor + 1)) in
             if cursor \<le> t \<or> 15 < hops then Some (Inl ParseFailed)
             else decode_loop fuel data t (Some (case next_off of None \<Rightarrow> cursor + 2 | Some k \<Rightarrow> k)) (hops + 1) mat name)
        else if 64 \<le> n then Some (Inl ParseFailed)
        else if n = 0 then Some (Inr (name, case next_off of None \<Rightarrow> cursor + 1 | Some k \<Rightarrow> k))
        else if length data < cursor + 1 + n \<or> 255 < mat + n + 1 then Some (Inl ParseFailed)
        else decode_loop fuel data (cursor + 1 + n) next_off hops (mat + n + 1)
               (name @ appendEscaped (take n (drop (cursor + 1) data)) @ [0x2E]))"
proof -
  define n where "n = unat (data ! cursor)"
  have n256: "n < 256" by (simp add: n_def)
  note unf = decode_loop.simps(2) Let_def length_byte n_def [symmetric]
  show ?thesis
  proof (cases "192 \<le> n")
    case True
    note m = mod_64_high [OF True n256]
    from True show ?thesis unfolding unf m if_P [OF True] by (simp only: not_less_eq_eq Suc_eq_plus1 split: option.split) auto
  next
    case f: False
    show ?thesis
    proof (cases "64 \<le> n")
      case True
      with f show ?thesis unfolding unf by (simp only: if_True if_False)
    next
      case False
      then have m: "n mod 64 = n" "\<not> 63 < n" by simp_all
      show ?thesis unfolding unf m(1) if_not_P [OF f] if_not_P [OF False] if_not_P [OF m(2)] by auto
    qed
  qed
qed

declare decode_loop.simps(2) [simp del]

lemma decode_label:
  assumes "c < length d" "unat (d ! c) = n" "0 < n" "n < 64" "c + 1 + n \<le> length d" "mat + n + 1 \<le> 255"
  shows "decode_loop (Suc f) d c next_off hops mat name =
    decode_loop f d (c + 1 + n) next_off hops (mat + n + 1) (name @ appendEscaped (take n (drop (c + 1) d)) @ [0x2E])"
proof -
  have "\<not> length d \<le> c" "\<not> 192 \<le> n" "\<not> 64 \<le> n" "n \<noteq> 0" "\<not> (length d < c + 1 + n \<or> 255 < mat + n + 1)"
    using assms by simp_all
  then show ?thesis unfolding decode_loop_step Let_def assms(2) by (simp only: if_False)
qed

lemma decode_pointer:
  assumes "c + 1 < length d" "unat (d ! c) = n" "192 \<le> n" "(n - 192) * 256 + unat (d ! (c + 1)) = t" "t < c" "hops \<le> 15"
  shows "decode_loop (Suc f) d c next_off hops mat name =
    decode_loop f d t (Some (case next_off of None \<Rightarrow> c + 2 | Some k \<Rightarrow> k)) (hops + 1) mat name"
proof -
  have "\<not> length d \<le> c" "\<not> length d \<le> c + 1" "\<not> (c \<le> t \<or> 15 < hops)" using assms by simp_all
  then show ?thesis using assms(3) unfolding decode_loop_step Let_def assms(2,4) by (simp only: if_False if_True)
qed

lemma decode_loop_complete:
  assumes "reads_at d c ls h k" "hops + h \<le> 16" "mat + name_bytes ls \<le> 255" "length ls + h < fuel"
  shows "decode_loop fuel d c next_off hops mat name =
    Some (Inr (name @ join_labels ls, case next_off of None \<Rightarrow> k | Some k' \<Rightarrow> k'))"
  using assms
proof (induction arbitrary: next_off hops mat name fuel)
  case (root c)
  then obtain f where "fuel = Suc f" by (cases fuel) auto
  with root show ?case by (simp add: decode_loop_step)
next
  case (label c n ls h k)
  then obtain f where f: "fuel = Suc f" by (cases fuel) auto
  have "length (take n (drop (c + 1) d)) = n" using label.hyps by simp
  then have "decode_loop f d (c + 1 + n) next_off hops (mat + n + 1) (name @ appendEscaped (take n (drop (c + 1) d)) @ [0x2E]) =
      Some (Inr ((name @ appendEscaped (take n (drop (c + 1) d)) @ [0x2E]) @ join_labels ls,
        case next_off of None \<Rightarrow> k | Some k' \<Rightarrow> k'))"
    using label.prems f by (intro label.IH) simp_all
  moreover have "decode_loop fuel d c next_off hops mat name =
      decode_loop f d (c + 1 + n) next_off hops (mat + n + 1) (name @ appendEscaped (take n (drop (c + 1) d)) @ [0x2E])"
    unfolding f using label.hyps label.prems \<open>length _ = n\<close> by (intro decode_label) simp_all
  ultimately show ?case by simp
next
  case (pointer c t ls h k)
  then obtain f where f: "fuel = Suc f" by (cases fuel) auto
  have "decode_loop f d t (Some (case next_off of None \<Rightarrow> c + 2 | Some k \<Rightarrow> k)) (hops + 1) mat name =
      Some (Inr (name @ join_labels ls, case next_off of None \<Rightarrow> c + 2 | Some k \<Rightarrow> k))"
    using pointer.IH [of "hops + 1" mat f "Some (case next_off of None \<Rightarrow> c + 2 | Some k \<Rightarrow> k)"] pointer.prems f by simp
  moreover have "decode_loop fuel d c next_off hops mat name =
      decode_loop f d t (Some (case next_off of None \<Rightarrow> c + 2 | Some k \<Rightarrow> k)) (hops + 1) mat name"
    unfolding f using pointer.hyps pointer.prems(1) by (intro decode_pointer) simp_all
  ultimately show ?case by simp
qed

text \<open>The three ways a step goes on.\<close>

lemma decode_loop_cases [consumes 2]:
  fixes d :: "byte list" and c :: nat
  defines "n \<equiv> unat (d ! c)"
  defines "t \<equiv> (n - 192) * 256 + unat (d ! (c + 1))"
  assumes "decode_loop (Suc f) d c next_off hops mat name = r" "r \<noteq> Some (Inl ParseFailed)"
  obtains (ptr) "c + 1 < length d" "192 \<le> n" "t < c" "hops \<le> 15"
      "decode_loop f d t (Some (case next_off of None \<Rightarrow> c + 2 | Some k \<Rightarrow> k)) (hops + 1) mat name = r"
    | (zero) "c < length d" "n = 0" "r = Some (Inr (name, case next_off of None \<Rightarrow> c + 1 | Some k \<Rightarrow> k))"
    | (lab) "c < length d" "0 < n" "n < 64" "c + 1 + n \<le> length d" "mat + n + 1 \<le> 255"
      "decode_loop f d (c + 1 + n) next_off hops (mat + n + 1)
         (name @ appendEscaped (take n (drop (c + 1) d)) @ [0x2E]) = r"
  using assms(3,4) unfolding decode_loop_step Let_def n_def [symmetric] t_def [symmetric]
  by (simp only: not_le not_less split: if_split_asm) (auto simp: not_le not_less)

lemma decode_loop_sound:
  assumes "decode_loop fuel d c next_off hops mat name = Some (Inr (name', k'))" "hops \<le> 16" "mat \<le> 255"
  shows "\<exists>ls h k. reads_at d c ls h k \<and> hops + h \<le> 16 \<and> mat + name_bytes ls \<le> 255 \<and> name' = name @ join_labels ls \<and>
    k' = (case next_off of None \<Rightarrow> k | Some k' \<Rightarrow> k')"
  using assms
proof (induction fuel arbitrary: c next_off hops mat name)
  case (Suc fuel)
  let ?n = "unat (d ! c)"
  have "Some (Inr (name', k')) \<noteq> Some (Inl ParseFailed :: (byte list \<times> nat) result)" by simp
  from Suc.prems(1) this show ?case
  proof (cases rule: decode_loop_cases)
    case ptr
    then obtain ls h k where r: "reads_at d ((?n - 192) * 256 + unat (d ! (c + 1))) ls h k" "hops + 1 + h \<le> 16"
        "mat + name_bytes ls \<le> 255" "name' = name @ join_labels ls" "k' = (case next_off of None \<Rightarrow> c + 2 | Some k \<Rightarrow> k)"
      using Suc.IH [OF ptr(5)] Suc.prems(3) by auto
    then show ?thesis using reads_at.pointer [OF ptr(1,2) refl ptr(3) r(1)]
      by (intro exI [of _ ls] exI [of _ "Suc h"] exI [of _ "c + 2"]) simp
  next
    case zero
    then show ?thesis using reads_at.root [OF zero(1,2)] Suc.prems(2,3)
      by (intro exI [of _ "[]"] exI [of _ 0] exI [of _ "c + 1"]) simp
  next
    case lab
    then obtain ls h k where r: "reads_at d (c + 1 + ?n) ls h k" "hops + h \<le> 16" "mat + ?n + 1 + name_bytes ls \<le> 255"
        "name' = (name @ appendEscaped (take ?n (drop (c + 1) d)) @ [0x2E]) @ join_labels ls"
        "k' = (case next_off of None \<Rightarrow> k | Some k' \<Rightarrow> k')"
      using Suc.IH [OF lab(6) Suc.prems(2) lab(5)] by blast
    have "length (take ?n (drop (c + 1) d)) = ?n" using lab(4) by simp
    then show ?thesis
      using reads_at.label [OF lab(1) refl lab(2,3,4) r(1)] r(2-)
      by (intro exI [of _ "take ?n (drop (c + 1) d) # ls"] exI [of _ h] exI [of _ k]) simp
  qed
qed simp

lemma decode_loop_ends:
  "(16 - hops) + (255 - mat) div 2 < fuel \<Longrightarrow> decode_loop fuel d c next_off hops mat name \<noteq> None"
proof (induction fuel arbitrary: c next_off hops mat name)
  case (Suc fuel)
  show ?case
  proof
    assume "decode_loop (Suc fuel) d c next_off hops mat name = None"
    then show False using option.distinct(1)
    proof (cases rule: decode_loop_cases)
      case ptr
      have "(16 - (hops + 1)) + (255 - mat) div 2 < fuel" using ptr(4) Suc.prems by linarith
      then show False using Suc.IH ptr(5) by blast
    next
      case lab
      have "(16 - hops) + (255 - (mat + unat (d ! c) + 1)) div 2 < fuel" using lab(2,5) Suc.prems by linarith
      then show False using Suc.IH lab(6) by blast
    qed simp_all
  qed
qed simp

lemma reads_at_labels: "reads_at d c ls h k \<Longrightarrow> 2 * length ls \<le> name_bytes ls"
  by (induction rule: reads_at.induct) (auto simp: min_def)

section \<open>What the encoder writes\<close>

lemma reads_at_append: "reads_at d c ls h k \<Longrightarrow> reads_at (d @ x) c ls h k"
proof (induction rule: reads_at.induct)
  case (root c)
  then show ?case by (intro reads_at.root) (simp_all add: nth_append)
next
  case (label c n ls h k)
  have "reads_at (d @ x) c (take n (drop (c + 1) (d @ x)) # ls) h k"
    using label by (intro reads_at.label) (simp_all add: nth_append)
  then show ?case using label.hyps by simp
next
  case (pointer c t ls h k)
  show ?case
    by (rule reads_at.pointer [of _ _ t]) (use pointer in \<open>simp_all add: nth_append\<close>)
qed

lemma reads_at_bound: "reads_at d c ls h k \<Longrightarrow> c < length d"
  by (cases rule: reads_at.cases) auto

lemma reads_at_nonempty: "reads_at d c ls h k \<Longrightarrow> \<forall>l\<in>set ls. l \<noteq> []"
  by (induction rule: reads_at.induct) auto

lemma reads_label_at:
  assumes "l \<noteq> []" "length l < 64" "reads_at (out @ of_nat (length l) # l @ x) (length out + 1 + length l) ls h k"
  shows "reads_at (out @ of_nat (length l) # l @ x) (length out) (l # ls) h k"
proof -
  have "unat (of_nat (length l) :: byte) = length l"
    using assms(2) by (simp add: unsigned_of_nat take_bit_nat_eq_self)
  then show ?thesis
    using reads_at.label [of "length out" "out @ of_nat (length l) # l @ x" "length l" ls h k] assms
    by (simp add: nth_append)
qed

lemma reads_root_at: "reads_at (out @ 0 # x) (length out) [] 0 (length out + 1)"
  by (rule reads_at.root) simp_all

lemma unat_low_byte: "unat (ucast (t :: u16) :: byte) = unat t mod 256"
  by (simp add: unsigned_ucast_eq take_bit_eq_mod)

lemma unat_pointer_bytes:
  fixes t :: u16
  assumes "t \<le> 0x3FFF"
  shows "unat (ucast (0xC0 OR (drop_bit 8 t AND 0x3F)) :: byte) = 192 + unat t div 256"
    and "unat (ucast t :: byte) = unat t mod 256"
proof -
  show "unat (ucast t :: byte) = unat t mod 256" by (rule unat_low_byte)
  have lt: "unat t < 16384" using assms by (simp add: word_le_nat_alt)
  have du: "unat (drop_bit 8 t) = unat t div 256" by (subst unat_drop_bit_eq) (simp add: drop_bit_eq_div)
  have "drop_bit 8 t AND 0x3F = drop_bit 8 t"
  proof (rule bit_word_eqI)
    fix n assume "n < LENGTH(16)"
    have "\<not> bit t n" if "14 \<le> n" for n
      using word_less_exp_bit [of t 14 n] lt that by (simp add: word_less_nat_alt)
    moreover have "bit (0x3F :: u16) n = (n < 6)"
      using bit_mask_iff [of 6 n, where ?'a = u16] \<open>n < LENGTH(16)\<close> by (simp add: mask_eq_exp_minus_1)
    ultimately show "bit (drop_bit 8 t AND 0x3F) n = bit (drop_bit 8 t) n"
      by (auto simp: bit_simps)
  qed
  moreover have "0xC0 OR drop_bit 8 t = 0xC0 + drop_bit 8 t"
  proof (rule disjunctive_add [symmetric])
    fix n
    have d: "drop_bit 8 t < 2 ^ 6"
      using lt unfolding word_less_nat_alt du by (simp add: div_less_iff_less_mult)
    have "bit (0xC0 :: u16) n \<Longrightarrow> 6 \<le> n"
      by (rule ccontr) (auto simp: bit_simps not_le less_Suc_eq numeral_eq_Suc)
    then show "\<not> bit (0xC0 :: u16) n \<or> \<not> bit (drop_bit 8 t) n" using word_less_exp_bit [OF d, of n] by blast
  qed
  moreover have "unat (0xC0 + drop_bit 8 t) = 192 + unat t div 256"
    using lt unfolding unat_word_ariths du by (simp add: div_less_iff_less_mult)
  ultimately show "unat (ucast (0xC0 OR (drop_bit 8 t AND 0x3F)) :: byte) = 192 + unat t div 256"
    using lt by (simp add: unat_low_byte)
qed

lemma reads_pointer_at:
  assumes "t \<le> 0x3FFF" "unat t < length out" "reads_at out (unat t) ls h k"
  shows "reads_at (out @ pointer_bytes t @ x) (length out) ls (Suc h) (length out + 2)"
proof (rule reads_at.pointer [of _ _ "unat t"])
  show "reads_at (out @ pointer_bytes t @ x) (unat t) ls h k" by (rule reads_at_append [OF assms(3)])
qed (use assms in \<open>simp_all add: pointer_bytes_def nth_append unat_pointer_bytes\<close>)

text \<open>Compression keys of labels without dots tell the labels apart, up to case.\<close>

definition lowered :: "byte list list \<Rightarrow> byte list list" where
  "lowered ls = map (map asciiLower) ls"

definition dotless :: "byte list list \<Rightarrow> bool" where
  "dotless ls \<longleftrightarrow> (\<forall>l\<in>set ls. 0x2E \<notin> set l)"

lemma asciiLower_dot: "(asciiLower c = 0x2E) = (c = 0x2E)"
proof -
  have "c + 0x20 = 0x2E \<Longrightarrow> c = 0x0E" by (drule arg_cong [where f = "\<lambda>w. w - 0x20"]) simp
  then show ?thesis by (auto simp: asciiLower_def)
qed

lemma suffix_key_simps [simp]:
  "suffix_key [] = []" "suffix_key (l # ls) = map asciiLower l @ 0x2E # suffix_key ls"
  by (simp_all add: suffix_key_def)

lemma lowered_simps [simp]:
  "lowered [] = []" "lowered (l # ls) = map asciiLower l # lowered ls" "(lowered ls = []) = (ls = [])"
  by (simp_all add: lowered_def)

lemma dotless_simps [simp]: "dotless []" "dotless (l # ls) = (0x2E \<notin> set l \<and> dotless ls)"
  by (simp_all add: dotless_def)

lemma split_at_dot:
  "x \<notin> set a \<Longrightarrow> x \<notin> set b \<Longrightarrow> a @ x # r = b @ x # s \<Longrightarrow> a = b \<and> r = s"
  by (induction a arbitrary: b) (auto simp: Cons_eq_append_conv)

lemma suffix_key_lowered: "lowered ls = lowered ls' \<Longrightarrow> suffix_key ls = suffix_key ls'"
proof -
  have "suffix_key xs = concat (map (\<lambda>l. l @ [0x2E]) (lowered xs))" for xs
    by (simp add: suffix_key_def lowered_def comp_def)
  then show "lowered ls = lowered ls' \<Longrightarrow> suffix_key ls = suffix_key ls'" by simp
qed

lemma suffix_key_inj: "dotless ls \<Longrightarrow> dotless ls' \<Longrightarrow> suffix_key ls = suffix_key ls' \<Longrightarrow> lowered ls = lowered ls'"
proof (induction ls arbitrary: ls')
  case Nil
  then show ?case by (cases ls') auto
next
  case (Cons l ls)
  have nd: "0x2E \<notin> set (map asciiLower x)" if "0x2E \<notin> set x" for x
    using that asciiLower_dot by (auto simp: eq_commute)
  from Cons.prems obtain l' rest where ls': "ls' = l' # rest" by (cases ls') auto
  with Cons.prems have "map asciiLower l = map asciiLower l' \<and> suffix_key ls = suffix_key rest"
    by (intro split_at_dot [of "0x2E"] nd) auto
  then show ?case using Cons ls' by auto
qed

text \<open>A dictionary entry points at a name that has the key.\<close>

definition entry_reads :: "byte list \<Rightarrow> byte list \<Rightarrow> u16 \<Rightarrow> bool" where
  "entry_reads out key t \<longleftrightarrow> (\<exists>ls h k. reads_at out (unat t) ls h k \<and> suffix_key ls = key \<and> dotless ls)"

definition dictionary_ok :: "byte list \<Rightarrow> dictionary \<Rightarrow> bool" where
  "dictionary_ok out m \<longleftrightarrow> (\<forall>key t. m key = Some t \<longrightarrow> entry_reads out key t)"

lemma entry_reads_append: "entry_reads out key t \<Longrightarrow> entry_reads (out @ x) key t"
  unfolding entry_reads_def using reads_at_append by blast

lemma dictionary_ok_append: "dictionary_ok out m \<Longrightarrow> dictionary_ok (out @ x) m"
  by (simp add: dictionary_ok_def entry_reads_append)

lemma encode_loop_reads:
  assumes "encode_loop start ls out (Some m) = (out', Some m', Ok)" "dotless ls" "[] \<notin> set ls"
    and "\<And>key t. m key = Some t \<Longrightarrow> length key \<le> length (suffix_key ls) \<Longrightarrow> entry_reads out key t"
  shows "\<exists>x ls' h. out' = out @ x \<and> reads_at out' (length out) ls' h (length out') \<and> lowered ls' = lowered ls \<and>
    dotless ls' \<and> (\<forall>key t. m' key = Some t \<longrightarrow> m key = Some t \<or> entry_reads out' key t)"
  using assms
proof (induction ls arbitrary: out m)
  case Nil
  then show ?case using reads_root_at [of out "[]"] by (auto simp: Let_def split: if_splits)
next
  case (Cons l ls)
  from Cons.prems(1) have l63: "\<not> 63 < length l" by (auto split: if_splits)
  show ?case
  proof (cases "lookup_suffix (Some m) (l # ls)")
    case (Some t)
    then have t: "m (suffix_key (l # ls)) = Some t" "t \<le> 0x3FFF"
      by (auto simp: lookup_suffix_def split: option.splits if_splits)
    then have "entry_reads out (suffix_key (l # ls)) t" using Cons.prems(4) by blast
    then obtain ls' h k where r: "reads_at out (unat t) ls' h k" "suffix_key ls' = suffix_key (l # ls)" "dotless ls'"
      unfolding entry_reads_def by blast
    have o': "out' = out @ pointer_bytes t" "m' = m"
      using Cons.prems(1) l63 Some by (simp_all add: Let_def split: if_splits)
    have "reads_at out' (length out) ls' (Suc h) (length out')"
      using reads_pointer_at [OF t(2) reads_at_bound [OF r(1)] r(1), of "[]"] by (simp add: o' pointer_bytes_def)
    moreover have "lowered ls' = lowered (l # ls)" by (rule suffix_key_inj [OF r(3) Cons.prems(2) r(2)])
    ultimately show ?thesis using o' r(3) by blast
  next
    case None
    let ?out = "out @ of_nat (length l) # l"
    define m1 where "m1 = (if length out \<le> 0x3FFF \<and> m (suffix_key (l # ls)) = None
      then m(suffix_key (l # ls) \<mapsto> of_nat (length out)) else m)"
    have reg: "register_suffix (Some m) (l # ls) (length out) = Some m1"
      by (simp add: register_suffix_def m1_def)
    have "encode_loop start ls ?out (Some m1) = (out', Some m', Ok)"
      using Cons.prems(1) l63 None by (simp add: reg)
    moreover have "entry_reads ?out key t" if "m1 key = Some t" "length key \<le> length (suffix_key ls)" for key t
    proof -
      have "key \<noteq> suffix_key (l # ls)" using that(2) by auto
      then have "m key = Some t" using that(1) by (auto simp: m1_def split: if_splits)
      then show ?thesis using Cons.prems(4) [of key t] that(2) by (intro entry_reads_append) simp
    qed
    moreover have "dotless ls" "[] \<notin> set ls" using Cons.prems(2,3) by simp_all
    ultimately obtain x ls' h where r: "out' = ?out @ x" "reads_at out' (length ?out) ls' h (length out')"
        "lowered ls' = lowered ls" "dotless ls'" "\<And>key t. m' key = Some t \<Longrightarrow> m1 key = Some t \<or> entry_reads out' key t"
      using Cons.IH [of ?out m1] by metis
    have rd: "reads_at out' (length out) (l # ls') h (length out')"
      using reads_label_at [of l out x ls' h "length out'"] r(1,2) Cons.prems(3) l63 by auto
    have low: "lowered (l # ls') = lowered (l # ls)" "dotless (l # ls')" using r(3,4) Cons.prems(2) by simp_all
    have "m key = Some t \<or> entry_reads out' key t" if "m' key = Some t" for key t
    proof (cases "m key = Some t \<or> entry_reads out' key t")
      case False
      then have "m1 key = Some t" "m key \<noteq> Some t" using r(5) that by auto
      then have k: "key = suffix_key (l # ls)" "t = of_nat (length out)" "length out \<le> 0x3FFF"
        by (auto simp: m1_def split: if_splits)
      then have "unat t = length out" by (simp add: unsigned_of_nat take_bit_nat_eq_self)
      then have "entry_reads out' key t"
        using rd low suffix_key_lowered [OF low(1)] unfolding entry_reads_def k(1) by metis
      then show ?thesis ..
    qed simp
    then show ?thesis using r(1) rd low
      by (intro exI [of _ "of_nat (length l) # l @ x"] exI [of _ "l # ls'"] exI [of _ h]) simp
  qed
qed

definition wire_labels :: "byte list list \<Rightarrow> byte list" where
  "wire_labels ls = concat (map (\<lambda>l. of_nat (length l) # l) ls) @ [0]"

lemma wire_labels_simps [simp]:
  "wire_labels [] = [0]" "wire_labels (l # ls) = of_nat (length l) # l @ wire_labels ls"
  "length (wire_labels ls) = name_bytes ls + 1"
  by (simp_all add: wire_labels_def name_bytes_def length_concat comp_def)

lemma reads_wire_labels:
  "\<forall>l\<in>set ls. l \<noteq> [] \<and> length l < 64 \<Longrightarrow>
   reads_at (pre @ wire_labels ls @ rest) (length pre) ls 0 (length pre + name_bytes ls + 1)"
proof (induction ls arbitrary: pre)
  case Nil
  then show ?case using reads_root_at [of pre rest] by simp
next
  case (Cons l ls)
  have "reads_at ((pre @ of_nat (length l) # l) @ wire_labels ls @ rest) (length (pre @ of_nat (length l) # l)) ls 0
      (length (pre @ of_nat (length l) # l) + name_bytes ls + 1)"
    using Cons by (intro Cons.IH) simp
  then show ?case
    using reads_label_at [of l pre "wire_labels ls @ rest" ls 0 "length pre + name_bytes (l # ls) + 1"] Cons.prems
    by (simp add: add.assoc)
qed

lemma encode_loop_plain:
  assumes "encode_loop start ls out None = (out', dict, Ok)" "start \<le> length out"
  shows "out' = out @ wire_labels ls \<and> dict = None \<and> (\<forall>l\<in>set ls. length l < 64) \<and> length out' - start \<le> 255"
  using assms
proof (induction ls arbitrary: out)
  case Nil
  then show ?case by (auto simp: Let_def split: if_splits)
next
  case (Cons l ls)
  from Cons.prems(1) have l63: "\<not> 63 < length l" by (auto split: if_splits)
  let ?out = "out @ of_nat (length l) # l"
  have "encode_loop start ls ?out None = (out', dict, Ok)"
    using Cons.prems(1) l63 by (simp add: lookup_suffix_def register_suffix_def)
  then show ?case using Cons.IH [of ?out] Cons.prems(2) l63 by auto
qed

section \<open>Text form and back\<close>

lemma split_loop_escaped: "split_loop cur (appendEscaped l @ ys) = split_loop (cur @ l) ys"
  by (induction l arbitrary: cur) auto

lemma split_loop_joined:
  "ls \<noteq> [] \<Longrightarrow> split_loop [] (join_labels ls) = (butlast ls, last ls)"
proof (induction ls)
  case (Cons l ls)
  have "join_labels ls = [] \<longleftrightarrow> ls = []" by (cases ls) auto
  with Cons show ?case by (simp add: split_loop_escaped)
qed simp

lemma split_join:
  assumes "[] \<notin> set ls"
  shows "dnsSplitName (Latin1 (dnsJoinName ls)) = ls"
proof (cases "ls = []")
  case True
  then show ?thesis by (simp add: dnsSplitName_def dnsJoinName_def str_view_def)
next
  case False
  then have "join_labels ls \<noteq> []" "last ls \<noteq> []" using assms last_in_set [OF False] by (cases ls; auto)+
  then show ?thesis
    using False by (simp add: dnsSplitName_def dnsJoinName_def str_view_def split_loop_joined Let_def)
qed

section \<open>Properties\<close>

lemma decodeName_iff:
  "decodeName (Some d) c = Inr (name, k) \<longleftrightarrow>
     (\<exists>ls h. reads_at d c ls h k \<and> h \<le> 16 \<and> name_bytes ls \<le> 255 \<and> name = dnsJoinName ls)"
proof
  assume "decodeName (Some d) c = Inr (name, k)"
  then obtain nm where "decode_loop 146 d c None 0 0 [] = Some (Inr (nm, k))" "name = (if nm = [] then [0x2E] else nm)"
    by (auto simp: decodeName_def split: option.splits sum.splits)
  then show "\<exists>ls h. reads_at d c ls h k \<and> h \<le> 16 \<and> name_bytes ls \<le> 255 \<and> name = dnsJoinName ls"
    using decode_loop_sound [of 146 d c None 0 0 "[]" nm k] by (auto simp: dnsJoinName_def)
next
  assume "\<exists>ls h. reads_at d c ls h k \<and> h \<le> 16 \<and> name_bytes ls \<le> 255 \<and> name = dnsJoinName ls"
  then obtain ls h where r: "reads_at d c ls h k" "h \<le> 16" "name_bytes ls \<le> 255" "name = dnsJoinName ls" by blast
  have "length ls + h < 146" using reads_at_labels [OF r(1)] r(2,3) by linarith
  then have "decode_loop 146 d c None 0 0 [] = Some (Inr (join_labels ls, k))"
    using decode_loop_complete [of d c ls h k 0 0 146 None "[]"] r by simp
  then show "decodeName (Some d) c = Inr (name, k)" by (simp add: decodeName_def dnsJoinName_def r(4))
qed

lemma plain_name_decodes:
  assumes "encodeName name out None = (out', dict, Ok)" "[] \<notin> set (dnsSplitName name)"
  shows "\<exists>x. out' = out @ x \<and> x \<noteq> [] \<and> dict = None \<and>
    (\<forall>pre rest. decodeName (Some (pre @ x @ rest)) (length pre) = Inr (dnsJoinName (dnsSplitName name), length pre + length x))"
proof -
  let ?ls = "dnsSplitName name"
  have x: "out' = out @ wire_labels ?ls \<and> dict = None \<and> (\<forall>l\<in>set ?ls. l \<noteq> [] \<and> length l < 64) \<and> name_bytes ?ls \<le> 255"
  proof (cases "?ls = []")
    case True
    then show ?thesis using assms(1) by (simp add: encodeName_def)
  next
    case False
    then have "encode_loop (length out) ?ls out None = (out', dict, Ok)"
      using assms(1) by (simp add: encodeName_def Let_def)
    from encode_loop_plain [OF this] assms(2) show ?thesis by auto
  qed
  then have "decodeName (Some (pre @ wire_labels ?ls @ rest)) (length pre) = Inr (dnsJoinName ?ls, length pre + length (wire_labels ?ls))"
    for pre rest
    unfolding decodeName_iff using reads_wire_labels [of ?ls pre rest] by (auto simp: add.assoc)
  then show ?thesis using x by (intro exI [of _ "wire_labels ?ls"]) (auto simp: wire_labels_def)
qed


text \<open>C28: no message makes the decoder loop. Whatever the bytes, their number and the offset, the loop ends
  after at most 144 rounds, pointer cycles included.\<close>

theorem dns_decode_ends:
  "\<exists>r. decode_loop 144 d c None 0 0 [] = Some r"
  using decode_loop_ends [of 0 0 144 d c None "[]"] by auto

text \<open>A name encoded without compression is read back. The decoder finds the same labels, written out in
  the escaped text form, which splits into those labels again, and stops at the byte after the name.\<close>

theorem dns_name_roundtrip:
  assumes "encodeName name out None = (out', dict, Ok)" "[] \<notin> set (dnsSplitName name)"
  shows "decodeName (Some (out' @ rest)) (length out) = Inr (dnsJoinName (dnsSplitName name), length out') \<and>
    dnsSplitName (Latin1 (dnsJoinName (dnsSplitName name))) = dnsSplitName name"
proof -
  have "decodeName (Some (out' @ rest)) (length out) = Inr (dnsJoinName (dnsSplitName name), length out')"
    using plain_name_decodes [OF assms] by auto
  then show ?thesis using split_join [OF assms(2)] by simp
qed

theorem dns_name_roundtrip_witness:
  "decodeName (Some [9, 3, 0x77, 0x2E, 0x5C, 2, 0x74, 0x76, 0]) 1 = Inr ([0x77, 0x5C, 0x2E, 0x5C, 0x5C, 0x2E, 0x74, 0x76, 0x2E], 9)"
proof -
  let ?s = "Latin1 [0x77, 0x5C, 0x2E, 0x5C, 0x5C, 0x2E, 0x74, 0x76]"
  have ls: "dnsSplitName ?s = [[0x77, 0x2E, 0x5C], [0x74, 0x76]]"
    by (simp add: dnsSplitName_def str_view_def)
  then have "encodeName ?s [9] None = ([9, 3, 0x77, 0x2E, 0x5C, 2, 0x74, 0x76, 0], None, Ok)"
    by (simp add: encodeName_def lookup_suffix_def register_suffix_def)
  from dns_name_roundtrip [OF this, of "[]"] ls show ?thesis by (simp add: dnsJoinName_def)
qed

text \<open>Name compression is sound for names without dots inside labels. Encoding into a message whose
  dictionary points at the names it records keeps it so, and the new name is in the message, equal to the one
  asked for up to ASCII case; it decodes to that when it is within the decoder's limits.\<close>

theorem dns_compressed_name_read_back:
  assumes "dictionary_ok out m" "encodeName name out (Some m) = (out', Some m', Ok)"
    and "[] \<notin> set (dnsSplitName name)" "dotless (dnsSplitName name)"
  shows "dictionary_ok out' m' \<and>
    (\<exists>ls h. reads_at (out' @ rest) (length out) ls h (length out') \<and> lowered ls = lowered (dnsSplitName name) \<and>
       (h \<le> 16 \<and> name_bytes ls \<le> 255 \<longrightarrow>
          decodeName (Some (out' @ rest)) (length out) = Inr (dnsJoinName ls, length out')))"
proof (cases "dnsSplitName name = []")
  case True
  then have o': "out' = out @ [0]" "m' = m" using assms(2) by (simp_all add: encodeName_def)
  have r: "reads_at (out' @ rest) (length out) [] 0 (length out')"
    using reads_root_at [of out rest] by (simp add: o')
  then have "decodeName (Some (out' @ rest)) (length out) = Inr (dnsJoinName [], length out')"
    unfolding decodeName_iff by (intro exI [of _ "[]"] exI [of _ 0]) simp
  moreover have "dictionary_ok out' m'" using dictionary_ok_append [OF assms(1)] o' by simp
  ultimately show ?thesis using r True by (intro conjI exI [of _ "[]"] exI [of _ 0]) simp_all
next
  case False
  then have "encode_loop (length out) (dnsSplitName name) out (Some m) = (out', Some m', Ok)"
    using assms(2) by (simp add: encodeName_def Let_def)
  note run = this
  have pre: "entry_reads out key t" if "m key = Some t" for key t
    using assms(1) that by (simp add: dictionary_ok_def)
  from encode_loop_reads [OF run assms(4,3) pre] obtain x ls h where r: "out' = out @ x" "reads_at out' (length out) ls h (length out')"
      "lowered ls = lowered (dnsSplitName name)" "\<forall>key t. m' key = Some t \<longrightarrow> m key = Some t \<or> entry_reads out' key t"
    by blast
  have "dictionary_ok out' m'"
    unfolding dictionary_ok_def
  proof (intro allI impI)
    fix key t assume "m' key = Some t"
    then have "m key = Some t \<or> entry_reads out' key t" using r(4) by blast
    then show "entry_reads out' key t" using pre [of key t] entry_reads_append [of out key t x] r(1) by auto
  qed
  moreover have rd: "reads_at (out' @ rest) (length out) ls h (length out')" by (rule reads_at_append [OF r(2)])
  moreover have "decodeName (Some (out' @ rest)) (length out) = Inr (dnsJoinName ls, length out')" if "h \<le> 16 \<and> name_bytes ls \<le> 255"
    unfolding decodeName_iff using that rd by blast
  ultimately show ?thesis using r(3) by blast
qed

theorem dns_compressed_name_read_back_witness:
  "\<exists>ls h. reads_at [2, 0x74, 0x76, 0, 1, 0x61, 0xC0, 0] 4 ls h 8 \<and> lowered ls = [[0x61], [0x74, 0x76]]"
proof -
  let ?m = "(\<lambda>_. None)([0x74, 0x76, 0x2E] \<mapsto> 0)" let ?out = "[2, 0x74, 0x76, 0] :: byte list" let ?s = "Latin1 [0x61, 0x2E, 0x54, 0x56]"
  let ?m' = "?m([0x61, 0x2E, 0x74, 0x76, 0x2E] \<mapsto> 4)"
  have ls: "dnsSplitName ?s = [[0x61], [0x54, 0x56]]" by (simp add: dnsSplitName_def str_view_def)
  have "reads_at ?out 0 [[0x74, 0x76]] 0 4"
    using reads_label_at [of "[0x74, 0x76]" "[]" "[0]" "[]" 0 4] reads_root_at [of "[2, 0x74, 0x76]" "[]"]
    by (simp add: eval_nat_numeral)
  then have "dictionary_ok ?out ?m"
    by (auto simp: dictionary_ok_def entry_reads_def asciiLower_def intro!: exI [of _ "[[0x74, 0x76]]"])
  moreover have e: "encodeName ?s ?out (Some ?m) = (?out @ [1, 0x61, 0xC0, 0], Some ?m', Ok)"
    by (simp add: encodeName_def ls lookup_suffix_def register_suffix_def asciiLower_def pointer_bytes_def)
  moreover have "[] \<notin> set (dnsSplitName ?s)" "dotless (dnsSplitName ?s)" by (simp_all add: ls)
  ultimately obtain lb h where "reads_at ((?out @ [1, 0x61, 0xC0, 0]) @ []) (length ?out) lb h (length (?out @ [1, 0x61, 0xC0, 0]))"
      "lowered lb = lowered (dnsSplitName ?s)"
    using dns_compressed_name_read_back [of ?out ?m ?s "?out @ [1, 0x61, 0xC0, 0]" ?m' "[]"] by blast
  moreover have "length ?out = 4" "length (?out @ [1, 0x61, 0xC0, 0]) = 8" "(?out @ [1, 0x61, 0xC0, 0]) @ [] =
      [2, 0x74, 0x76, 0, 1, 0x61, 0xC0, 0]" "lowered (dnsSplitName ?s) = [[0x61], [0x74, 0x76]]"
    by (simp_all add: ls asciiLower_def)
  ultimately show ?thesis by (intro exI [of _ lb] exI [of _ h]) (simp only: simp_thms)
qed

text \<open>A dot inside a label is lost to the dictionary. The names \<open>x\.y.\<close> and \<open>x.y.\<close> have one key, so
  encoding the second after the first writes a pointer to the first, and a receiver reads the wrong name.\<close>

theorem dns_dot_in_label_confused:
  assumes "x \<noteq> []" "y \<noteq> []" "length x + length y < 63" "0x2E \<notin> set x" "0x2E \<notin> set y" "length out \<le> 0x3FFF"
    and "encodeName (Latin1 (dnsJoinName [x @ [0x2E] @ y])) out (Some (\<lambda>_. None)) = (out1, dict, Ok)"
    and "encodeName (Latin1 (dnsJoinName [x, y])) out1 dict = (out2, dict', Ok)"
  shows "decodeName (Some out2) (length out1) = Inr (dnsJoinName [x @ [0x2E] @ y], length out2) \<and>
    dnsJoinName [x @ [0x2E] @ y] \<noteq> dnsJoinName [x, y]"
proof -
  let ?l = "x @ [0x2E] @ y" let ?key = "suffix_key [?l]" let ?t = "of_nat (length out) :: u16"
  have s: "dnsSplitName (Latin1 (dnsJoinName [?l])) = [?l]" "dnsSplitName (Latin1 (dnsJoinName [x, y])) = [x, y]"
    using assms(1,2) split_join [of "[?l]"] split_join [of "[x, y]"] by auto
  have t: "unat ?t = length out" "?t \<le> 0x3FFF"
    using assms(6) by (simp_all add: unsigned_of_nat take_bit_nat_eq_self word_le_nat_alt)
  have key: "suffix_key [x, y] = ?key" by (simp add: asciiLower_def)
  have o1: "out1 = out @ of_nat (length ?l) # ?l @ [0]" "dict = Some ((\<lambda>_. None)(?key \<mapsto> ?t))"
    using assms(3,6,7) unfolding encodeName_def s
    by (simp_all add: lookup_suffix_def register_suffix_def Let_def split: if_splits)
  have lk: "lookup_suffix dict [x, y] = Some ?t"
    unfolding o1(2) lookup_suffix_def key using t(2) by simp
  have o2: "out2 = out1 @ pointer_bytes ?t"
    using assms(3,8) unfolding encodeName_def s by (simp add: lk Let_def split: if_splits)
  have "reads_at out1 (length out) [?l] 0 (length out1)"
    using reads_label_at [of ?l out "[0]" "[]" 0 "length out1"] reads_root_at [of "out @ of_nat (length ?l) # ?l" "[]"] assms(3)
    by (simp add: o1(1))
  then have "reads_at out2 (length out1) [?l] 1 (length out2)"
    using reads_pointer_at [of ?t out1 "[?l]" 0 "length out1" "[]"] t by (simp add: o2 o1(1) pointer_bytes_def)
  then have "decodeName (Some out2) (length out1) = Inr (dnsJoinName [?l], length out2)"
    unfolding decodeName_iff using assms(3) by (intro exI [of _ "[?l]"] exI [of _ 1]) simp
  moreover have "dnsJoinName [?l] \<noteq> dnsJoinName [x, y]" using s by fastforce
  ultimately show ?thesis by blast
qed

theorem dns_dot_in_label_confused_witness:
  "decodeName (Some [3, 0x61, 0x2E, 0x62, 0, 0xC0, 0]) 5 = Inr ([0x61, 0x5C, 0x2E, 0x62, 0x2E], 7)"
proof -
  have s: "dnsSplitName (Latin1 (dnsJoinName [[0x61] @ [0x2E] @ [0x62]])) = [[0x61, 0x2E, 0x62]]"
      "dnsSplitName (Latin1 (dnsJoinName [[0x61], [0x62]])) = [[0x61], [0x62]]"
    by (simp_all add: split_join)
  let ?d = "Some ((\<lambda>_. None)([0x61, 0x2E, 0x62, 0x2E] \<mapsto> 0 :: u16))"
  have "encodeName (Latin1 (dnsJoinName [[0x61] @ [0x2E] @ [0x62]])) [] (Some (\<lambda>_. None)) = ([3, 0x61, 0x2E, 0x62, 0], ?d, Ok)"
    unfolding encodeName_def s by (simp add: lookup_suffix_def register_suffix_def asciiLower_def)
  note A = this
  have "encodeName (Latin1 (dnsJoinName [[0x61], [0x62]])) [3, 0x61, 0x2E, 0x62, 0] ?d =
      ([3, 0x61, 0x2E, 0x62, 0, 0xC0, 0], ?d, Ok)"
    unfolding encodeName_def s by (simp add: lookup_suffix_def asciiLower_def pointer_bytes_def)
  note B = this
  have "decodeName (Some [3, 0x61, 0x2E, 0x62, 0, 0xC0, 0]) (length [3, 0x61, 0x2E, 0x62, 0 :: byte]) =
      Inr (dnsJoinName [[0x61] @ [0x2E] @ [0x62]], length [3, 0x61, 0x2E, 0x62, 0, 0xC0, 0 :: byte])"
    by (rule conjunct1 [OF dns_dot_in_label_confused [OF _ _ _ _ _ _ A B]]) simp_all
  moreover have "length [3, 0x61, 0x2E, 0x62, 0 :: byte] = 5" "length [3, 0x61, 0x2E, 0x62, 0, 0xC0, 0 :: byte] = 7"
      "dnsJoinName [[0x61] @ [0x2E] @ [0x62]] = [0x61, 0x5C, 0x2E, 0x62, 0x2E]"
    by (simp_all add: dnsJoinName_def)
  ultimately show ?thesis by (simp only:)
qed

end
