(* ===== verification/DnsPacket.thy ===== *)
theory DnsPacket
  imports DnsName MdnsTxt "HOL-Library.Signed_Division"
begin

text \<open>
  \<open>src/network/dnspacket.cpp\<close>: DNS and mDNS messages, the parser and the builder. Offsets are positions in
  the message; the parser's loops run over the counts of the header. The builder threads the bytes written
  and the compression dictionary, and a failed encoding is \<open>None\<close>. A time to live is a \<open>Duration\<close>, its count of
  nanoseconds.
\<close>

unbundle bit_operations_syntax

section \<open>Durations\<close>

text \<open>\<open>INT64_MIN\<close> marks a duration nobody has set.\<close>

definition invalid_duration :: int where
  "invalid_duration = - (2 ^ 63)"

definition fromSeconds :: "int \<Rightarrow> int" where
  "fromSeconds s = s * 1000000000"

definition duration_seconds :: "int \<Rightarrow> int" where
  "duration_seconds d = (if d = invalid_duration then 0 else d sdiv 1000000000)"

section \<open>Data\<close>

record question =
  q_name :: str
  q_type :: u16
  q_klass :: u16
  q_unicast :: bool

datatype dns_section = Question | Answer | Authority | Additional

record dns_record =
  r_type :: u16
  r_section :: dns_section
  r_klass :: u16
  r_name :: str
  r_ttl :: int
  r_flush :: bool
  ptrTarget :: str
  cnameTarget :: str
  nsTarget :: str
  srvPriority :: u16
  srvWeight :: u16
  srvPort :: u16
  srvTarget :: str
  mxPreference :: u16
  mxExchange :: str
  r_txt :: txt_record
  r_a :: u32
  r_aaaa :: "byte list"
  soaMname :: str
  soaRname :: str
  soaSerial :: u32
  soaRefresh :: u32
  soaRetry :: u32
  soaExpire :: u32
  soaMinimum :: u32
  naptrOrder :: u16
  naptrPreference :: u16
  naptrFlags :: str
  naptrService :: str
  naptrRegexp :: str
  naptrReplacement :: str
  caaFlags :: byte
  caaTag :: str
  caaValue :: str
  rawRdata :: "byte list"

record dns_packet =
  p_id :: u16
  p_flags :: u16
  p_questions :: "question list"
  p_records :: "dns_record list"

definition new_record :: dns_record where
  "new_record = \<lparr>r_type = 0, r_section = Answer, r_klass = 1, r_name = Latin1 [], r_ttl = invalid_duration, r_flush = False,
     ptrTarget = Latin1 [], cnameTarget = Latin1 [], nsTarget = Latin1 [], srvPriority = 0, srvWeight = 0, srvPort = 0,
     srvTarget = Latin1 [], mxPreference = 0, mxExchange = Latin1 [], r_txt = [], r_a = 0, r_aaaa = replicate 16 0,
     soaMname = Latin1 [], soaRname = Latin1 [], soaSerial = 0, soaRefresh = 0, soaRetry = 0, soaExpire = 0, soaMinimum = 0,
     naptrOrder = 0, naptrPreference = 0, naptrFlags = Latin1 [], naptrService = Latin1 [], naptrRegexp = Latin1 [],
     naptrReplacement = Latin1 [], caaFlags = 0, caaTag = Latin1 [], caaValue = Latin1 [], rawRdata = []\<rparr>"

definition isResponse :: "dns_packet \<Rightarrow> bool" where "isResponse p \<longleftrightarrow> p_flags p AND 0x8000 \<noteq> 0"
definition isAuthoritative :: "dns_packet \<Rightarrow> bool" where "isAuthoritative p \<longleftrightarrow> p_flags p AND 0x0400 \<noteq> 0"
definition isTruncated :: "dns_packet \<Rightarrow> bool" where "isTruncated p \<longleftrightarrow> p_flags p AND 0x0200 \<noteq> 0"
definition isRecursionDesired :: "dns_packet \<Rightarrow> bool" where "isRecursionDesired p \<longleftrightarrow> p_flags p AND 0x0100 \<noteq> 0"
definition isRecursionAvailable :: "dns_packet \<Rightarrow> bool" where "isRecursionAvailable p \<longleftrightarrow> p_flags p AND 0x0080 \<noteq> 0"
definition rcode :: "dns_packet \<Rightarrow> byte" where "rcode p = ucast (p_flags p AND 0x000F)"
definition opcode :: "dns_packet \<Rightarrow> byte" where "opcode p = ucast (drop_bit 11 (p_flags p) AND 0x0F)"

definition recordsInSection :: "dns_section \<Rightarrow> dns_packet \<Rightarrow> dns_record list" where
  "recordsInSection s p = filter (\<lambda>r. r_section r = s) (p_records p)"

section \<open>Parser\<close>

definition readU16 :: "byte list \<Rightarrow> nat \<Rightarrow> u16" where
  "readU16 d c = rd16 (d ! c) (d ! (c + 1))"

definition readU32 :: "byte list \<Rightarrow> nat \<Rightarrow> u32" where
  "readU32 d c = rd32 (d ! c) (d ! (c + 1)) (d ! (c + 2)) (d ! (c + 3))"

definition readCharString :: "byte list \<Rightarrow> nat \<Rightarrow> (str \<times> nat) result" where
  "readCharString d c =
     (if length d \<le> c then Inl ParseFailed
      else let n = unat (d ! c) in
        if length d < c + 1 + n then Inl ParseFailed
        else Inr (makeDataFromUtf8 (take n (drop (c + 1) d)), c + 1 + n))"

text \<open>A name of the message, and on with it.\<close>

definition with_name :: "byte list \<Rightarrow> nat \<Rightarrow> (str \<Rightarrow> nat \<Rightarrow> 'a result) \<Rightarrow> 'a result" where
  "with_name d c k = (case decodeName (Some d) c of Inl e \<Rightarrow> Inl e | Inr (name, next) \<Rightarrow> k (Latin1 name) next)"

definition with_string :: "byte list \<Rightarrow> nat \<Rightarrow> (str \<Rightarrow> nat \<Rightarrow> 'a result) \<Rightarrow> 'a result" where
  "with_string d c k = (case readCharString d c of Inl e \<Rightarrow> Inl e | Inr (s, next) \<Rightarrow> k s next)"

definition parseRdata :: "byte list \<Rightarrow> nat \<Rightarrow> nat \<Rightarrow> bool \<Rightarrow> dns_record \<Rightarrow> dns_record result" where
  "parseRdata d start n mdns r =
     (let ty = r_type r in
      if ty = 1 then (if n < 4 then Inl ParseFailed else Inr (r\<lparr>r_a := readU32 d start\<rparr>))
      else if ty = 28 then (if n < 16 then Inl ParseFailed else Inr (r\<lparr>r_aaaa := take 16 (drop start d)\<rparr>))
      else if ty = 12 then with_name d start (\<lambda>nm _. Inr (r\<lparr>ptrTarget := nm\<rparr>))
      else if ty = 5 then with_name d start (\<lambda>nm _. Inr (r\<lparr>cnameTarget := nm, ptrTarget := nm\<rparr>))
      else if ty = 2 then with_name d start (\<lambda>nm _. Inr (r\<lparr>nsTarget := nm, ptrTarget := nm\<rparr>))
      else if ty = 15 then
        (if n < 3 then Inl ParseFailed
         else with_name d (start + 2) (\<lambda>nm _. Inr (r\<lparr>mxPreference := readU16 d start, mxExchange := nm\<rparr>)))
      else if ty = 33 then
        (if n < 7 then Inl ParseFailed
         else with_name d (start + 6) (\<lambda>nm _.
           Inr (r\<lparr>srvPriority := readU16 d start, srvWeight := readU16 d (start + 2), srvPort := readU16 d (start + 4),
                  srvTarget := nm\<rparr>)))
      else if ty = 6 then
        with_name d start (\<lambda>m c. with_name d c (\<lambda>rn c.
          if length d < c + 20 then Inl ParseFailed
          else Inr (r\<lparr>soaMname := m, soaRname := rn, soaSerial := readU32 d c, soaRefresh := readU32 d (c + 4),
                      soaRetry := readU32 d (c + 8), soaExpire := readU32 d (c + 12), soaMinimum := readU32 d (c + 16)\<rparr>)))
      else if ty = 16 then
        (if mdns then (case txt_decode (take n (drop start d)) of Inl e \<Rightarrow> Inl ParseFailed | Inr t \<Rightarrow> Inr (r\<lparr>r_txt := t\<rparr>))
         else Inr r)
      else if ty = 35 then
        (if n < 7 then Inl ParseFailed
         else with_string d (start + 4) (\<lambda>fl c. with_string d c (\<lambda>svc c. with_string d c (\<lambda>rgx c. with_name d c (\<lambda>rep _.
           Inr (r\<lparr>naptrOrder := readU16 d start, naptrPreference := readU16 d (start + 2), naptrFlags := fl,
                  naptrService := svc, naptrRegexp := rgx, naptrReplacement := rep\<rparr>))))))
      else if ty = 257 then
        (if n < 2 then Inl ParseFailed
         else let tagLen = unat (d ! (start + 1)) in
           if n < 2 + tagLen then Inl ParseFailed
           else Inr (r\<lparr>caaFlags := d ! start, caaTag := makeDataFromUtf8 (take tagLen (drop (start + 2) d)),
                       caaValue := makeDataFromUtf8 (take (n - 2 - tagLen) (drop (start + 2 + tagLen) d))\<rparr>))
      else Inr r)"

definition parse_question :: "bool \<Rightarrow> byte list \<Rightarrow> nat \<Rightarrow> (question \<times> nat) result" where
  "parse_question mdns d cursor =
     (case decodeName (Some d) cursor of
        Inl e \<Rightarrow> Inl ParseFailed
      | Inr (name, c) \<Rightarrow>
          if length d < c + 4 then Inl ParseFailed
          else let wire = readU16 d (c + 2) in
            Inr (\<lparr>q_name = Latin1 name, q_type = readU16 d c, q_klass = (if mdns then wire AND 0x7FFF else wire),
                  q_unicast = (mdns \<and> wire AND 0x8000 \<noteq> 0)\<rparr>, c + 4))"

definition parse_record :: "bool \<Rightarrow> dns_section \<Rightarrow> byte list \<Rightarrow> nat \<Rightarrow> (dns_record \<times> nat) result" where
  "parse_record mdns sec d cursor =
     (case decodeName (Some d) cursor of
        Inl e \<Rightarrow> Inl ParseFailed
      | Inr (name, c) \<Rightarrow>
          if length d < c + 10 then Inl ParseFailed
          else let ty = readU16 d c; kl = readU16 d (c + 2); n = unat (readU16 d (c + 8)); start = c + 10;
                   r = new_record\<lparr>r_section := sec, r_name := Latin1 name, r_type := ty,
                         r_ttl := fromSeconds (uint (readU32 d (c + 4))),
                         r_flush := (mdns \<and> ty \<noteq> 12 \<and> kl AND 0x8000 \<noteq> 0),
                         r_klass := (if mdns then kl AND 0x7FFF else kl)\<rparr>
               in if length d < start + n then Inl ParseFailed
                  else case parseRdata d start n mdns (r\<lparr>rawRdata := take n (drop start d)\<rparr>) of
                    Inl e \<Rightarrow> Inl e
                  | Inr r \<Rightarrow> Inr (r, start + n))"

fun repeat_parse :: "(nat \<Rightarrow> ('a \<times> nat) result) \<Rightarrow> nat \<Rightarrow> nat \<Rightarrow> ('a list \<times> nat) result" where
  "repeat_parse p 0 cursor = Inr ([], cursor)"
| "repeat_parse p (Suc n) cursor =
     (case p cursor of
        Inl e \<Rightarrow> Inl e
      | Inr (x, c) \<Rightarrow> (case repeat_parse p n c of Inl e \<Rightarrow> Inl e | Inr (xs, c') \<Rightarrow> Inr (x # xs, c')))"

definition parsePacket :: "bool \<Rightarrow> byte list \<Rightarrow> dns_packet result" where
  "parsePacket mdns d =
     (if length d < 12 then Inl ParseFailed
      else case repeat_parse (parse_question mdns d) (unat (readU16 d 4)) 12 of
        Inl e \<Rightarrow> Inl e
      | Inr (qs, c) \<Rightarrow>
        (case repeat_parse (parse_record mdns Answer d) (unat (readU16 d 6)) c of
           Inl e \<Rightarrow> Inl e
         | Inr (an, c) \<Rightarrow>
           (case repeat_parse (parse_record mdns Authority d) (unat (readU16 d 8)) c of
              Inl e \<Rightarrow> Inl e
            | Inr (ns, c) \<Rightarrow>
              (case repeat_parse (parse_record mdns Additional d) (unat (readU16 d 10)) c of
                 Inl e \<Rightarrow> Inl e
               | Inr (ar, c) \<Rightarrow>
                   Inr \<lparr>p_id = readU16 d 0, p_flags = readU16 d 2, p_questions = qs, p_records = an @ ns @ ar\<rparr>))))"

section \<open>Builder\<close>

type_synonym enc = "byte list \<times> dictionary option \<times> error"

definition then_enc :: "enc \<Rightarrow> (byte list \<Rightarrow> dictionary option \<Rightarrow> enc) \<Rightarrow> enc" where
  "then_enc a k = (case a of (out, dict, e) \<Rightarrow> if e \<noteq> Ok then (out, dict, e) else k out dict)"

definition emit :: "byte list \<Rightarrow> byte list \<Rightarrow> dictionary option \<Rightarrow> enc" where
  "emit bs out dict = (out @ bs, dict, Ok)"

text \<open>A name that must not be compressed is written without the dictionary, which stays as it was.\<close>

definition encode_uncompressed :: "str \<Rightarrow> byte list \<Rightarrow> dictionary option \<Rightarrow> enc" where
  "encode_uncompressed name out dict = (case encodeName name out None of (out', _, e) \<Rightarrow> (out', dict, e))"

definition write_string :: "str \<Rightarrow> byte list" where
  "write_string s = of_nat (str_size s) # str_view s"

definition or_else :: "str \<Rightarrow> str \<Rightarrow> str" where
  "or_else a b = (if str_size a = 0 then b else a)"

definition encodeRdata :: "bool \<Rightarrow> dns_record \<Rightarrow> byte list \<Rightarrow> dictionary option \<Rightarrow> enc" where
  "encodeRdata mdns r out dict =
     (let ty = r_type r in
      if ty = 1 then emit (be32 (r_a r)) out dict
      else if ty = 28 then emit (take 16 (r_aaaa r)) out dict
      else if ty = 12 then encodeName (ptrTarget r) out dict
      else if ty = 5 then encodeName (or_else (cnameTarget r) (ptrTarget r)) out dict
      else if ty = 2 then encodeName (or_else (nsTarget r) (ptrTarget r)) out dict
      else if ty = 15 then encodeName (mxExchange r) (out @ be16 (mxPreference r)) dict
      else if ty = 33 then
        encode_uncompressed (srvTarget r) (out @ be16 (srvPriority r) @ be16 (srvWeight r) @ be16 (srvPort r)) dict
      else if ty = 6 then
        then_enc (encodeName (soaMname r) out dict) (\<lambda>out dict.
          then_enc (encodeName (soaRname r) out dict)
            (emit (be32 (soaSerial r) @ be32 (soaRefresh r) @ be32 (soaRetry r) @ be32 (soaExpire r) @ be32 (soaMinimum r))))
      else if ty = 16 then emit (if mdns then txt_encode (r_txt r) else rawRdata r) out dict
      else if ty = 35 then
        encode_uncompressed (naptrReplacement r)
          (out @ be16 (naptrOrder r) @ be16 (naptrPreference r) @ write_string (naptrFlags r) @
             write_string (naptrService r) @ write_string (naptrRegexp r)) dict
      else if ty = 257 then
        emit (caaFlags r # of_nat (str_size (caaTag r)) # str_view (caaTag r) @ str_view (caaValue r)) out dict
      else emit (rawRdata r) out dict)"

definition encode_question :: "question \<Rightarrow> byte list \<Rightarrow> dictionary option \<Rightarrow> enc" where
  "encode_question q out dict =
     then_enc (encodeName (q_name q) out dict)
       (emit (be16 (q_type q) @ be16 (q_klass q OR (if q_unicast q then 0x8000 else 0))))"

definition wire_ttl :: "int \<Rightarrow> u32" where
  "wire_ttl d =
     (let t = duration_seconds d in word_of_int (if t < 0 then 0 else if 0xFFFFFFFF < t then 0xFFFFFFFF else t))"

definition encode_record :: "dns_record \<Rightarrow> byte list \<Rightarrow> dictionary option \<Rightarrow> enc" where
  "encode_record r out dict =
     then_enc (encodeName (r_name r) out dict) (\<lambda>out dict.
       let out1 = out @ be16 (r_type r) @ be16 (if r_flush r \<and> r_type r \<noteq> 12 then r_klass r OR 0x8000 else r_klass r) @
             be32 (wire_ttl (r_ttl r));
           pos = length out1
       in then_enc (encodeRdata True r (out1 @ [0, 0]) dict) (\<lambda>out2 dict.
            let n = length out2 - (pos + 2) in
            if 0xFFFF < n then (out2, dict, Invalid)
            else (out2[pos := of_nat (n div 256), pos + 1 := of_nat n], dict, Ok)))"

fun encode_all :: "('a \<Rightarrow> byte list \<Rightarrow> dictionary option \<Rightarrow> enc) \<Rightarrow> 'a list \<Rightarrow> byte list \<Rightarrow> dictionary option \<Rightarrow> enc" where
  "encode_all f [] out dict = (out, dict, Ok)"
| "encode_all f (x # xs) out dict = then_enc (f x out dict) (encode_all f xs)"

record builder =
  b_id :: u16
  b_flags :: u16
  b_compress :: bool
  b_questions :: "question list"
  b_answers :: "dns_record list"
  b_authority :: "dns_record list"
  b_additional :: "dns_record list"

definition new_builder :: builder where
  "new_builder = \<lparr>b_id = 0, b_flags = 0, b_compress = True, b_questions = [], b_answers = [], b_authority = [],
     b_additional = []\<rparr>"

definition set_flag :: "u16 \<Rightarrow> bool \<Rightarrow> builder \<Rightarrow> builder" where
  "set_flag m on b = b\<lparr>b_flags := (b_flags b AND NOT m) OR (if on then m else 0)\<rparr>"

definition setResponse :: "bool \<Rightarrow> builder \<Rightarrow> builder" where "setResponse = set_flag 0x8000"
definition setAuthoritative :: "bool \<Rightarrow> builder \<Rightarrow> builder" where "setAuthoritative = set_flag 0x0400"
definition setTruncated :: "bool \<Rightarrow> builder \<Rightarrow> builder" where "setTruncated = set_flag 0x0200"
definition setRecursionDesired :: "bool \<Rightarrow> builder \<Rightarrow> builder" where "setRecursionDesired = set_flag 0x0100"
definition setRecursionAvailable :: "bool \<Rightarrow> builder \<Rightarrow> builder" where "setRecursionAvailable = set_flag 0x0080"

definition setOpcode :: "byte \<Rightarrow> builder \<Rightarrow> builder" where
  "setOpcode c b = b\<lparr>b_flags := (b_flags b AND NOT 0x7800) OR push_bit 11 (ucast (c AND 0x0F))\<rparr>"

definition setRcode :: "byte \<Rightarrow> builder \<Rightarrow> builder" where
  "setRcode c b = b\<lparr>b_flags := (b_flags b AND NOT 0x000F) OR ucast (c AND 0x0F)\<rparr>"

definition setTransactionId :: "u16 \<Rightarrow> builder \<Rightarrow> builder" where
  "setTransactionId i b = b\<lparr>b_id := i\<rparr>"

definition setCompressionEnabled :: "bool \<Rightarrow> builder \<Rightarrow> builder" where
  "setCompressionEnabled on b = b\<lparr>b_compress := on\<rparr>"

definition addQuestion :: "question \<Rightarrow> builder \<Rightarrow> builder" where
  "addQuestion q b = b\<lparr>b_questions := b_questions b @ [q]\<rparr>"

definition addAnswer :: "dns_record \<Rightarrow> builder \<Rightarrow> builder" where
  "addAnswer r b = b\<lparr>b_answers := b_answers b @ [r]\<rparr>"

definition addAuthority :: "dns_record \<Rightarrow> builder \<Rightarrow> builder" where
  "addAuthority r b = b\<lparr>b_authority := b_authority b @ [r]\<rparr>"

definition addAdditional :: "dns_record \<Rightarrow> builder \<Rightarrow> builder" where
  "addAdditional r b = b\<lparr>b_additional := b_additional b @ [r]\<rparr>"

definition addEdns0 :: "u16 \<Rightarrow> bool \<Rightarrow> builder \<Rightarrow> builder" where
  "addEdns0 udpSize doBit b = b\<lparr>b_additional := b_additional b @
     [new_record\<lparr>r_type := 41, r_name := Latin1 [0x2E], r_klass := udpSize, r_ttl := fromSeconds (if doBit then 0x8000 else 0),
        r_section := Additional\<rparr>]\<rparr>"

definition header_bytes :: "builder \<Rightarrow> byte list" where
  "header_bytes b = be16 (b_id b) @ be16 (b_flags b) @ be16 (of_nat (length (b_questions b))) @
     be16 (of_nat (length (b_answers b))) @ be16 (of_nat (length (b_authority b))) @
     be16 (of_nat (length (b_additional b)))"

definition finish :: "builder \<Rightarrow> byte list option" where
  "finish b =
     (case then_enc (encode_all encode_question (b_questions b) (header_bytes b) (if b_compress b then Some (\<lambda>_. None) else None))
         (\<lambda>out dict. then_enc (encode_all encode_record (b_answers b) out dict)
           (\<lambda>out dict. then_enc (encode_all encode_record (b_authority b) out dict)
             (encode_all encode_record (b_additional b)))) of
        (out, dict, e) \<Rightarrow> if e = Ok then Some out else None)"

section \<open>Resource data is read back\<close>

text \<open>The name as a receiver writes it, and the names and strings that survive the wire.\<close>

definition received_name :: "str \<Rightarrow> str" where
  "received_name n = Latin1 (dnsJoinName (dnsSplitName n))"

definition proper_name :: "str \<Rightarrow> bool" where
  "proper_name n \<longleftrightarrow> [] \<notin> set (dnsSplitName n)"

definition short_ascii :: "str \<Rightarrow> bool" where
  "short_ascii s \<longleftrightarrow> (\<exists>b. s = Latin1 b \<and> ascii b \<and> length b \<le> 255)"

definition plain_ascii :: "str \<Rightarrow> bool" where
  "plain_ascii s \<longleftrightarrow> (\<exists>b. s = Latin1 b \<and> ascii b)"

definition rdata_ok :: "bool \<Rightarrow> dns_record \<Rightarrow> bool" where
  "rdata_ok mdns r =
     (let ty = r_type r in
      if ty = 28 then length (r_aaaa r) = 16
      else if ty = 12 then proper_name (ptrTarget r)
      else if ty = 5 then proper_name (or_else (cnameTarget r) (ptrTarget r))
      else if ty = 2 then proper_name (or_else (nsTarget r) (ptrTarget r))
      else if ty = 15 then proper_name (mxExchange r)
      else if ty = 33 then proper_name (srvTarget r)
      else if ty = 6 then proper_name (soaMname r) \<and> proper_name (soaRname r)
      else if ty = 16 then mdns \<longrightarrow> (\<forall>e\<in>set (r_txt r). plain_entry e) \<and> keys_differ (r_txt r)
      else if ty = 35 then short_ascii (naptrFlags r) \<and> short_ascii (naptrService r) \<and> short_ascii (naptrRegexp r) \<and>
        proper_name (naptrReplacement r)
      else if ty = 257 then short_ascii (caaTag r) \<and> plain_ascii (caaValue r)
      else True)"

definition read_rdata :: "bool \<Rightarrow> dns_record \<Rightarrow> dns_record \<Rightarrow> dns_record" where
  "read_rdata mdns r base =
     (let ty = r_type r in
      if ty = 1 then base\<lparr>r_a := r_a r\<rparr>
      else if ty = 28 then base\<lparr>r_aaaa := r_aaaa r\<rparr>
      else if ty = 12 then base\<lparr>ptrTarget := received_name (ptrTarget r)\<rparr>
      else if ty = 5 then let n = received_name (or_else (cnameTarget r) (ptrTarget r)) in base\<lparr>cnameTarget := n, ptrTarget := n\<rparr>
      else if ty = 2 then let n = received_name (or_else (nsTarget r) (ptrTarget r)) in base\<lparr>nsTarget := n, ptrTarget := n\<rparr>
      else if ty = 15 then base\<lparr>mxPreference := mxPreference r, mxExchange := received_name (mxExchange r)\<rparr>
      else if ty = 33 then
        base\<lparr>srvPriority := srvPriority r, srvWeight := srvWeight r, srvPort := srvPort r,
             srvTarget := received_name (srvTarget r)\<rparr>
      else if ty = 6 then
        base\<lparr>soaMname := received_name (soaMname r), soaRname := received_name (soaRname r), soaSerial := soaSerial r,
             soaRefresh := soaRefresh r, soaRetry := soaRetry r, soaExpire := soaExpire r, soaMinimum := soaMinimum r\<rparr>
      else if ty = 16 then if mdns then base\<lparr>r_txt := r_txt r\<rparr> else base
      else if ty = 35 then
        base\<lparr>naptrOrder := naptrOrder r, naptrPreference := naptrPreference r, naptrFlags := naptrFlags r,
             naptrService := naptrService r, naptrRegexp := naptrRegexp r, naptrReplacement := received_name (naptrReplacement r)\<rparr>
      else if ty = 257 then base\<lparr>caaFlags := caaFlags r, caaTag := caaTag r, caaValue := caaValue r\<rparr>
      else base)"

text \<open>The bytes on the wire of the types whose content is numbers, text entries or opaque.\<close>

definition raw_content :: "dns_record \<Rightarrow> byte list option" where
  "raw_content r =
     (let ty = r_type r in
      if ty = 1 then Some (be32 (r_a r))
      else if ty = 28 then Some (r_aaaa r)
      else if ty = 16 then Some (txt_encode (r_txt r))
      else if ty = 257 then Some ([caaFlags r, of_nat (str_size (caaTag r))] @ str_view (caaTag r) @ str_view (caaValue r))
      else if ty \<in> {12, 5, 2, 15, 33, 6, 35} then None
      else Some (rawRdata r))"

lemma readU16_at: "c = length p \<Longrightarrow> readU16 (p @ be16 v @ s) c = v"
  by (simp add: readU16_def be16_def nth_append be_simps)

lemma readU32_at: "c = length p \<Longrightarrow> readU32 (p @ be32 v @ s) c = v"
  by (simp add: readU32_def be32_def nth_append be_simps)

lemma name_written:
  assumes "encodeName n out None = (out', dict, Ok)" "proper_name n"
  shows "\<exists>x. out' = out @ x \<and> x \<noteq> [] \<and> dict = None \<and> (\<forall>pre rest.
    decodeName (Some (pre @ x @ rest)) (length pre) = Inr (dnsJoinName (dnsSplitName n), length pre + length x))"
  using plain_name_decodes [OF assms(1) assms(2) [unfolded proper_name_def]] by auto

lemma string_written:
  assumes "short_ascii s" "c = length p"
  shows "with_string (p @ write_string s @ rest) c k = k s (length p + length (write_string s))"
proof -
  obtain b where b: "s = Latin1 b" "ascii b" "length b \<le> 255" using assms(1) by (auto simp: short_ascii_def)
  then have "unat (of_nat (length b) :: byte) = length b" by (simp add: unsigned_of_nat take_bit_nat_eq_self)
  then show ?thesis
    using b assms(2) by (simp add: with_string_def readCharString_def write_string_def nth_append makeData_ascii)
qed

lemma uncompressed_written:
  "encode_uncompressed n out None = (out', dict, Ok) \<Longrightarrow> encodeName n out None = (out', fst (snd (encodeName n out None)), Ok) \<and> dict = None"
  by (auto simp: encode_uncompressed_def split: prod.splits)

definition rdata_reads :: "bool \<Rightarrow> dns_record \<Rightarrow> byte list \<Rightarrow> byte list \<Rightarrow> dictionary option \<Rightarrow> bool" where
  "rdata_reads mdns r out out' dict \<longleftrightarrow> (\<exists>x. out' = out @ x \<and> dict = None \<and>
     (\<forall>c. raw_content r = Some c \<longrightarrow> x = c) \<and>
     (\<forall>pre base rest. r_type base = r_type r \<longrightarrow>
        parseRdata (pre @ x @ rest) (length pre) (length x) mdns base = Inr (read_rdata mdns r base)))"

lemma rdata_readsI:
  assumes "out' = out @ x" "dict = None"
    and "\<And>pre base rest. r_type base = r_type r \<Longrightarrow>
      parseRdata (pre @ x @ rest) (length pre) (length x) mdns base = Inr (read_rdata mdns r base)"
    and "raw_content r = None \<or> raw_content r = Some x"
  shows "rdata_reads mdns r out out' dict"
  using assms by (auto simp: rdata_reads_def)

lemma rdata_name:
  assumes "encodeRdata True r out None = (out', dict, Ok)" "rdata_ok mdns r" "r_type r = 12 \<or> r_type r = 5 \<or> r_type r = 2"
  shows "rdata_reads mdns r out out' dict"
proof -
  define n where "n = (if r_type r = 12 then ptrTarget r else if r_type r = 5 then or_else (cnameTarget r) (ptrTarget r)
    else or_else (nsTarget r) (ptrTarget r))"
  have e: "encodeName n out None = (out', dict, Ok)" "proper_name n"
    using assms by (auto simp: encodeRdata_def rdata_ok_def n_def)
  obtain x where x: "out' = out @ x" "x \<noteq> []" "dict = None"
      "\<forall>pre rest. decodeName (Some (pre @ x @ rest)) (length pre) = Inr (dnsJoinName (dnsSplitName n), length pre + length x)"
    using name_written [OF e] by blast
  note unf = parseRdata_def read_rdata_def with_name_def received_name_def Let_def x(4) [rule_format, unfolded n_def]
  from assms(3) show ?thesis
  proof (elim disjE)
    assume "r_type r = 12" then show ?thesis by (intro rdata_readsI [OF x(1,3)]) (simp_all add: unf raw_content_def)
  next
    assume "r_type r = 5" then show ?thesis by (intro rdata_readsI [OF x(1,3)]) (simp_all add: unf raw_content_def)
  next
    assume "r_type r = 2" then show ?thesis by (intro rdata_readsI [OF x(1,3)]) (simp_all add: unf raw_content_def)
  qed
qed

lemma rdata_mx:
  assumes "encodeRdata True r out None = (out', dict, Ok)" "rdata_ok mdns r" "r_type r = 15"
  shows "rdata_reads mdns r out out' dict"
proof -
  let ?p = "be16 (mxPreference r)"
  have e: "encodeName (mxExchange r) (out @ ?p) None = (out', dict, Ok)" "proper_name (mxExchange r)"
    using assms by (simp_all add: encodeRdata_def rdata_ok_def)
  obtain x where x: "out' = (out @ ?p) @ x" "x \<noteq> []" "dict = None"
      "\<forall>pre rest. decodeName (Some (pre @ x @ rest)) (length pre) =
         Inr (dnsJoinName (dnsSplitName (mxExchange r)), length pre + length x)"
    using name_written [OF e] by blast
  note nm = x(4) [rule_format, of "pre @ ?p" for pre, simplified]
  have l: "\<not> length (?p @ x) < 3" using x(2) by (cases x) auto
  show ?thesis
    by (rule rdata_readsI [of out' out "?p @ x"])
      (use x(1,3) l assms(3) in \<open>simp_all add: parseRdata_def read_rdata_def readU16_at with_name_def received_name_def nm raw_content_def\<close>)
qed

lemma rdata_srv:
  assumes "encodeRdata True r out None = (out', dict, Ok)" "rdata_ok mdns r" "r_type r = 33"
  shows "rdata_reads mdns r out out' dict"
proof -
  let ?p = "be16 (srvPriority r) @ be16 (srvWeight r) @ be16 (srvPort r)"
  have "encode_uncompressed (srvTarget r) (out @ ?p) None = (out', dict, Ok)" "proper_name (srvTarget r)"
    using assms by (simp_all add: encodeRdata_def rdata_ok_def)
  note e = uncompressed_written [OF this(1), THEN conjunct1] uncompressed_written [OF this(1), THEN conjunct2] this(2)
  obtain x where x: "out' = (out @ ?p) @ x" "x \<noteq> []"
      "\<forall>pre rest. decodeName (Some (pre @ x @ rest)) (length pre) =
         Inr (dnsJoinName (dnsSplitName (srvTarget r)), length pre + length x)"
    using name_written [OF e(1,3)] by blast
  note nm = x(3) [rule_format, of "pre @ ?p" for pre, simplified]
  have l: "\<not> length (?p @ x) < 7" using x(2) by (cases x) auto
  have "readU16 (pre @ be16 a @ be16 b @ be16 c @ y) (length pre + 2) = b" for a b c pre y
    using readU16_at [of "length pre + 2" "pre @ be16 a" b "be16 c @ y"] by simp
  moreover have "readU16 (pre @ be16 a @ be16 b @ be16 c @ y) (length pre + 4) = c" for a b c pre y
    using readU16_at [of "length pre + 4" "pre @ be16 a @ be16 b" c y] by simp
  ultimately show ?thesis
    by (intro rdata_readsI [of out' out "?p @ x"])
      (use x(1) e(2) l assms(3) in \<open>simp_all add: parseRdata_def read_rdata_def readU16_at with_name_def received_name_def nm raw_content_def\<close>)
qed

lemma rdata_fixed:
  assumes "encodeRdata True r out None = (out', dict, Ok)" "rdata_ok mdns r"
    and "r_type r = 1 \<or> r_type r = 28 \<or> r_type r = 16 \<or> r_type r \<notin> {1, 28, 12, 5, 2, 15, 33, 6, 16, 35, 257}"
  shows "rdata_reads mdns r out out' dict"
proof -
  consider "r_type r = 1" | "r_type r = 28" | "r_type r = 16" | "r_type r \<notin> {1, 28, 12, 5, 2, 15, 33, 6, 16, 35, 257}"
    using assms(3) by blast
  then show ?thesis
  proof cases
    case 1
    then show ?thesis using assms(1)
      by (intro rdata_readsI [of out' out "be32 (r_a r)"])
        (simp_all add: encodeRdata_def emit_def parseRdata_def read_rdata_def readU32_at raw_content_def)
  next
    case 2
    then show ?thesis using assms(1,2)
      by (intro rdata_readsI [of out' out "r_aaaa r"])
        (simp_all add: encodeRdata_def emit_def parseRdata_def read_rdata_def rdata_ok_def raw_content_def)
  next
    case 3
    then show ?thesis using assms(1,2)
      by (intro rdata_readsI [of out' out "txt_encode (r_txt r)"])
        (simp_all add: encodeRdata_def emit_def parseRdata_def read_rdata_def rdata_ok_def txt_roundtrip raw_content_def)
  next
    case 4
    then show ?thesis using assms(1)
      by (intro rdata_readsI [of out' out "rawRdata r"])
        (simp_all add: encodeRdata_def emit_def parseRdata_def read_rdata_def raw_content_def)
  qed
qed

lemma then_enc_Ok:
  "then_enc a k = (out', dict', Ok) \<longleftrightarrow> (\<exists>out dict. a = (out, dict, Ok) \<and> k out dict = (out', dict', Ok))"
  by (cases a) (auto simp: then_enc_def)

lemma rdata_soa:
  assumes "encodeRdata True r out None = (out', dict, Ok)" "rdata_ok mdns r" "r_type r = 6"
  shows "rdata_reads mdns r out out' dict"
proof -
  let ?n = "be32 (soaSerial r) @ be32 (soaRefresh r) @ be32 (soaRetry r) @ be32 (soaExpire r) @ be32 (soaMinimum r)"
  obtain o1 d1 o2 d2 where e: "encodeName (soaMname r) out None = (o1, d1, Ok)" "encodeName (soaRname r) o1 d1 = (o2, d2, Ok)"
      "emit ?n o2 d2 = (out', dict, Ok)"
    using assms(1,3) by (auto simp: encodeRdata_def then_enc_Ok)
  have p: "proper_name (soaMname r)" "proper_name (soaRname r)" using assms(2,3) by (simp_all add: rdata_ok_def)
  obtain x where x: "o1 = out @ x" "d1 = None"
      "\<forall>pre rest. decodeName (Some (pre @ x @ rest)) (length pre) = Inr (dnsJoinName (dnsSplitName (soaMname r)), length pre + length x)"
    using name_written [OF e(1) p(1)] by blast
  obtain y where y: "o2 = o1 @ y" "d2 = None"
      "\<forall>pre rest. decodeName (Some (pre @ y @ rest)) (length pre) = Inr (dnsJoinName (dnsSplitName (soaRname r)), length pre + length y)"
    using name_written [OF e(2) [unfolded x(2)] p(2)] by blast
  have o': "out' = out @ (x @ y @ ?n)" "dict = None" using e(3) x y by (simp_all add: emit_def)
  have num: "readU32 (pre @ x @ y @ ?n @ rest) (length pre + (length x + length y)) = soaSerial r"
      "readU32 (pre @ x @ y @ ?n @ rest) (length pre + (length x + length y) + 4) = soaRefresh r"
      "readU32 (pre @ x @ y @ ?n @ rest) (length pre + (length x + length y) + 8) = soaRetry r"
      "readU32 (pre @ x @ y @ ?n @ rest) (length pre + (length x + length y) + 12) = soaExpire r"
      "readU32 (pre @ x @ y @ ?n @ rest) (length pre + (length x + length y) + 16) = soaMinimum r" for pre rest
    using readU32_at [of _ "pre @ x @ y" "soaSerial r" "be32 (soaRefresh r) @ be32 (soaRetry r) @ be32 (soaExpire r) @ be32 (soaMinimum r) @ rest"]
      readU32_at [of _ "pre @ x @ y @ be32 (soaSerial r)" "soaRefresh r" "be32 (soaRetry r) @ be32 (soaExpire r) @ be32 (soaMinimum r) @ rest"]
      readU32_at [of _ "pre @ x @ y @ be32 (soaSerial r) @ be32 (soaRefresh r)" "soaRetry r" "be32 (soaExpire r) @ be32 (soaMinimum r) @ rest"]
      readU32_at [of _ "pre @ x @ y @ be32 (soaSerial r) @ be32 (soaRefresh r) @ be32 (soaRetry r)" "soaExpire r" "be32 (soaMinimum r) @ rest"]
      readU32_at [of _ "pre @ x @ y @ be32 (soaSerial r) @ be32 (soaRefresh r) @ be32 (soaRetry r) @ be32 (soaExpire r)" "soaMinimum r" rest]
    by (simp_all add: add.assoc)
  have nm: "decodeName (Some (pre @ x @ y @ ?n @ rest)) (length pre) = Inr (dnsJoinName (dnsSplitName (soaMname r)), length pre + length x)"
      "decodeName (Some (pre @ x @ y @ ?n @ rest)) (length pre + length x) =
        Inr (dnsJoinName (dnsSplitName (soaRname r)), length pre + (length x + length y))" for pre rest
    using x(3) [rule_format, of pre "y @ ?n @ rest"] y(3) [rule_format, of "pre @ x" "?n @ rest"] by (simp_all add: add.assoc)
  show ?thesis
    by (rule rdata_readsI [OF o'])
      (use assms(3) nm num in \<open>simp_all add: parseRdata_def read_rdata_def with_name_def received_name_def raw_content_def\<close>)
qed

lemma rdata_naptr:
  assumes "encodeRdata True r out None = (out', dict, Ok)" "rdata_ok mdns r" "r_type r = 35"
  shows "rdata_reads mdns r out out' dict"
proof -
  let ?a = "be16 (naptrOrder r)" let ?b = "be16 (naptrPreference r)" let ?f = "write_string (naptrFlags r)"
  let ?s = "write_string (naptrService r)" let ?g = "write_string (naptrRegexp r)"
  let ?p = "?a @ ?b @ ?f @ ?s @ ?g"
  have "encode_uncompressed (naptrReplacement r) (out @ ?p) None = (out', dict, Ok)" "proper_name (naptrReplacement r)"
    using assms by (simp_all add: encodeRdata_def rdata_ok_def)
  note e = uncompressed_written [OF this(1), THEN conjunct1] uncompressed_written [OF this(1), THEN conjunct2] this(2)
  obtain x where x: "out' = (out @ ?p) @ x" "x \<noteq> []"
      "\<forall>pre rest. decodeName (Some (pre @ x @ rest)) (length pre) =
         Inr (dnsJoinName (dnsSplitName (naptrReplacement r)), length pre + length x)"
    using name_written [OF e(1,3)] by blast
  have ok: "short_ascii (naptrFlags r)" "short_ascii (naptrService r)" "short_ascii (naptrRegexp r)"
    using assms(2,3) by (simp_all add: rdata_ok_def)
  have str: "with_string (pre @ ?p @ x @ rest) (length pre + 4) k = k (naptrFlags r) (length (pre @ ?a @ ?b @ ?f))"
      "with_string (pre @ ?p @ x @ rest) (length (pre @ ?a @ ?b @ ?f)) k = k (naptrService r) (length (pre @ ?a @ ?b @ ?f @ ?s))"
      "with_string (pre @ ?p @ x @ rest) (length (pre @ ?a @ ?b @ ?f @ ?s)) k = k (naptrRegexp r) (length (pre @ ?p))"
    for pre rest and k :: "str \<Rightarrow> nat \<Rightarrow> dns_record result"
    using string_written [OF ok(1), of "length pre + 4" "pre @ ?a @ ?b" "?s @ ?g @ x @ rest" k]
      string_written [OF ok(2), of "length (pre @ ?a @ ?b @ ?f)" "pre @ ?a @ ?b @ ?f" "?g @ x @ rest" k]
      string_written [OF ok(3), of "length (pre @ ?a @ ?b @ ?f @ ?s)" "pre @ ?a @ ?b @ ?f @ ?s" "x @ rest" k]
    by (simp_all add: add.assoc numeral_eq_Suc)
  have nm: "decodeName (Some (pre @ ?p @ x @ rest)) (length (pre @ ?p)) =
      Inr (dnsJoinName (dnsSplitName (naptrReplacement r)), length (pre @ ?p) + length x)" for pre rest
    using x(3) [rule_format, of "pre @ ?p" rest] by simp
  have l: "\<not> length (?p @ x) < 7" using x(2) by (cases x) (auto simp: write_string_def)
  have pr: "readU16 (pre @ ?p @ x @ rest) (length pre + 2) = naptrPreference r"
      "readU16 (pre @ ?p @ x @ rest) (length pre) = naptrOrder r" for pre rest
    using readU16_at [of "length pre + 2" "pre @ ?a" "naptrPreference r" "?f @ ?s @ ?g @ x @ rest"]
      readU16_at [of "length pre" pre "naptrOrder r" "?b @ ?f @ ?s @ ?g @ x @ rest"] by simp_all
  have "parseRdata (pre @ (?p @ x) @ rest) (length pre) (length (?p @ x)) mdns base = Inr (read_rdata mdns r base)"
    if "r_type base = r_type r" for pre base rest
  proof -
    have as: "pre @ (?p @ x) @ rest = pre @ ?p @ x @ rest" by simp
    show ?thesis unfolding as parseRdata_def Let_def
      using that assms(3) l by (simp only: if_False str pr with_name_def nm) (simp add: read_rdata_def received_name_def)
  qed
  then show ?thesis using x(1) e(2) assms(3) by (intro rdata_readsI [of out' out "?p @ x"]) (simp_all add: raw_content_def)
qed

lemma rdata_caa:
  assumes "encodeRdata True r out None = (out', dict, Ok)" "rdata_ok mdns r" "r_type r = 257"
  shows "rdata_reads mdns r out out' dict"
proof -
  obtain t v where tv: "caaTag r = Latin1 t" "caaValue r = Latin1 v" "ascii t" "ascii v" "length t \<le> 255"
    using assms(2,3) by (auto simp: rdata_ok_def short_ascii_def plain_ascii_def)
  let ?x = "caaFlags r # of_nat (length t) # t @ v"
  have n: "unat (of_nat (length t) :: byte) = length t" using tv(5) by (simp add: unsigned_of_nat take_bit_nat_eq_self)
  have nth: "(pre @ ?x @ rest) ! (length pre + 1) = of_nat (length t)" "(pre @ ?x @ rest) ! length pre = caaFlags r"
      "drop (length pre + 2) (pre @ ?x @ rest) = t @ v @ rest" for pre rest
    by (simp_all add: nth_append)
  have dr: "drop (length pre + 2 + length t) (pre @ ?x @ rest) = v @ rest" for pre rest
    by (simp add: drop_append)
  show ?thesis
    by (rule rdata_readsI [of out' out ?x])
      (use assms(1,3) tv n nth dr in \<open>simp_all add: encodeRdata_def emit_def parseRdata_def read_rdata_def makeData_ascii raw_content_def\<close>)
qed

lemma rdata_written:
  assumes "encodeRdata True r out None = (out', dict, Ok)" "rdata_ok mdns r"
  shows "rdata_reads mdns r out out' dict"
  using rdata_name [OF assms] rdata_mx [OF assms] rdata_srv [OF assms] rdata_fixed [OF assms] rdata_soa [OF assms]
    rdata_naptr [OF assms] rdata_caa [OF assms]
  by blast

section \<open>Messages are read back\<close>

definition received_question :: "bool \<Rightarrow> question \<Rightarrow> question" where
  "received_question mdns q =
     \<lparr>q_name = received_name (q_name q), q_type = q_type q,
      q_klass = (if mdns \<or> \<not> q_unicast q then q_klass q else q_klass q OR 0x8000), q_unicast = (mdns \<and> q_unicast q)\<rparr>"

definition received_record :: "bool \<Rightarrow> dns_section \<Rightarrow> dns_record \<Rightarrow> dns_record" where
  "received_record mdns sec r =
     (let flush = (r_flush r \<and> r_type r \<noteq> 12) in
      read_rdata mdns r (new_record\<lparr>r_section := sec, r_name := received_name (r_name r), r_type := r_type r,
        r_ttl := fromSeconds (duration_seconds (r_ttl r)), r_flush := (mdns \<and> flush),
        r_klass := (if mdns \<or> \<not> flush then r_klass r else r_klass r OR 0x8000)\<rparr>))"

text \<open>In mDNS the top bit of the class is the flag's.\<close>

definition question_ok :: "bool \<Rightarrow> question \<Rightarrow> bool" where
  "question_ok mdns q \<longleftrightarrow> proper_name (q_name q) \<and> (mdns \<longrightarrow> q_klass q AND 0x8000 = 0)"

definition record_ok :: "bool \<Rightarrow> dns_record \<Rightarrow> bool" where
  "record_ok mdns r \<longleftrightarrow> proper_name (r_name r) \<and> rdata_ok mdns r \<and> 0 \<le> r_ttl r \<and> duration_seconds (r_ttl r) \<le> 0xFFFFFFFF \<and>
     (mdns \<longrightarrow> r_klass r AND 0x8000 = 0)"

definition without_raw :: "dns_record \<Rightarrow> dns_record" where
  "without_raw r = r\<lparr>rawRdata := []\<rparr>"

lemma top_bit_class:
  fixes k :: u16
  shows "(k OR 0x8000) AND 0x8000 \<noteq> 0" "k AND 0x8000 = 0 \<Longrightarrow> k AND 0x7FFF = k"
    "k AND 0x8000 = 0 \<Longrightarrow> (k OR 0x8000) AND 0x7FFF = k"
proof -
  have e: "(0x8000 :: u16) = 2 ^ 15" "(0x7FFF :: u16) = mask 15" by (simp_all add: mask_eq_exp_minus_1)
  show "(k OR 0x8000) AND 0x8000 \<noteq> 0"
    unfolding e and_exp_eq_0_iff_not_bit by (simp add: bit_simps)
  assume "k AND 0x8000 = 0"
  then have b: "\<not> bit k 15" unfolding e and_exp_eq_0_iff_not_bit .
  have lt: "n < 15" if "bit k n" for n
    using that b bit_imp_le_length [of k n] by (cases "n = 15") simp_all
  show "k AND 0x7FFF = k"
    unfolding e by (rule bit_word_eqI) (auto simp: bit_simps bit_mask_iff dest: lt)
  show "(k OR 0x8000) AND 0x7FFF = k"
    unfolding e
  proof (rule bit_word_eqI)
    fix n assume n: "n < LENGTH(16)"
    then show "bit ((k OR 2 ^ 15) AND mask 15) n = bit k n"
      using lt [of n] by (cases "n < 15") (simp_all only: bit_and_iff bit_or_iff bit_exp_iff bit_mask_iff, auto)
  qed
qed

text \<open>
  What is received for a record: every typed field, and the raw bytes where the content is no name. In unicast mode
  they are all there is of a text record, in both modes all there is of one of an unknown type.
\<close>

definition record_received :: "bool \<Rightarrow> dns_section \<Rightarrow> dns_record \<Rightarrow> dns_record \<Rightarrow> bool" where
  "record_received mdns sec r y \<longleftrightarrow> without_raw y = received_record mdns sec r \<and>
     (\<forall>c. raw_content r = Some c \<longrightarrow> rawRdata y = c)"

lemma read_rdata_raw:
  "read_rdata mdns r (base\<lparr>rawRdata := w\<rparr>) = (read_rdata mdns r base)\<lparr>rawRdata := w\<rparr>"
  by (simp add: read_rdata_def Let_def)

text \<open>A part of a message: what the builder appends for an item, the parser reads at that place.\<close>

locale message_part =
  fixes enc_item :: "'a \<Rightarrow> byte list \<Rightarrow> dictionary option \<Rightarrow> enc"
    and parse_item :: "byte list \<Rightarrow> nat \<Rightarrow> ('b \<times> nat) result"
    and item_ok :: "'a \<Rightarrow> bool" and received :: "'a \<Rightarrow> 'b \<Rightarrow> bool"
  assumes item_read: "item_ok i \<Longrightarrow> enc_item i out None = (out', dict, Ok) \<Longrightarrow>
    \<exists>w. out' = out @ w \<and> dict = None \<and>
      (\<forall>pre rest. \<exists>y. parse_item (pre @ w @ rest) (length pre) = Inr (y, length pre + length w) \<and> received i y)"
begin

lemma items_read:
  assumes "\<forall>i\<in>set items. item_ok i" "encode_all enc_item items out None = (out', dict, Ok)"
  shows "\<exists>w. out' = out @ w \<and> dict = None \<and>
    (\<forall>pre rest. \<exists>ys. repeat_parse (parse_item (pre @ w @ rest)) (length items) (length pre) = Inr (ys, length pre + length w) \<and>
      list_all2 received items ys)"
  using assms
proof (induction items arbitrary: out)
  case Nil
  then show ?case by simp
next
  case (Cons i items)
  obtain o1 d1 where e: "enc_item i out None = (o1, d1, Ok)" "encode_all enc_item items o1 d1 = (out', dict, Ok)"
    using Cons.prems(2) by (auto simp: then_enc_Ok)
  obtain w where w: "o1 = out @ w" "d1 = None"
      "\<forall>pre rest. \<exists>y. parse_item (pre @ w @ rest) (length pre) = Inr (y, length pre + length w) \<and> received i y"
    using item_read [of i out o1 d1] Cons.prems(1) e(1) by auto
  obtain v where v: "out' = o1 @ v" "dict = None"
      "\<forall>pre rest. \<exists>ys. repeat_parse (parse_item (pre @ v @ rest)) (length items) (length pre) = Inr (ys, length pre + length v) \<and>
        list_all2 received items ys"
    using Cons.IH [of o1] Cons.prems(1) e(2) w(2) by auto
  have "\<exists>ys. repeat_parse (parse_item (pre @ (w @ v) @ rest)) (length (i # items)) (length pre) =
      Inr (ys, length pre + length (w @ v)) \<and> list_all2 received (i # items) ys" for pre rest
  proof -
    obtain y where y: "parse_item (pre @ w @ v @ rest) (length pre) = Inr (y, length pre + length w)" "received i y"
      using w(3) by blast
    obtain ys where ys: "repeat_parse (parse_item ((pre @ w) @ v @ rest)) (length items) (length (pre @ w)) =
        Inr (ys, length (pre @ w) + length v)" "list_all2 received items ys"
      using v(3) by blast
    show ?thesis using y ys by (intro exI [of _ "y # ys"]) (simp add: add.assoc)
  qed
  then show ?case using w(1) v(1,2) by (intro exI [of _ "w @ v"]) simp
qed

end

interpretation questions: message_part encode_question "parse_question mdns" "question_ok mdns"
    "\<lambda>q y. y = received_question mdns q" for mdns
proof
  fix q out out' dict
  assume ok: "question_ok mdns q" and e: "encode_question q out None = (out', dict, Ok)"
  let ?k = "q_klass q OR (if q_unicast q then 0x8000 else 0)"
  obtain o1 d1 where n: "encodeName (q_name q) out None = (o1, d1, Ok)" "emit (be16 (q_type q) @ be16 ?k) o1 d1 = (out', dict, Ok)"
    using e by (auto simp: encode_question_def then_enc_Ok)
  obtain x where x: "o1 = out @ x" "d1 = None"
      "\<forall>pre rest. decodeName (Some (pre @ x @ rest)) (length pre) = Inr (dnsJoinName (dnsSplitName (q_name q)), length pre + length x)"
    using name_written [OF n(1)] ok by (auto simp: question_ok_def)
  have "parse_question mdns (pre @ (x @ be16 (q_type q) @ be16 ?k) @ rest) (length pre) =
      Inr (received_question mdns q, length pre + length (x @ be16 (q_type q) @ be16 ?k))" for pre rest
  proof -
    have "readU16 (pre @ x @ be16 (q_type q) @ be16 ?k @ rest) (length pre + length x) = q_type q"
        "readU16 (pre @ x @ be16 (q_type q) @ be16 ?k @ rest) (length pre + length x + 2) = ?k"
      using readU16_at [of _ "pre @ x" "q_type q" "be16 ?k @ rest"] readU16_at [of _ "pre @ x @ be16 (q_type q)" ?k rest]
      by (simp_all add: add.assoc)
    then show ?thesis
      using x(3) [rule_format, of pre "be16 (q_type q) @ be16 ?k @ rest"] ok
      by (auto simp: parse_question_def received_question_def received_name_def question_ok_def top_bit_class Let_def)
  qed
  then show "\<exists>w. out' = out @ w \<and> dict = None \<and> (\<forall>pre rest. \<exists>y. parse_question mdns (pre @ w @ rest) (length pre) =
      Inr (y, length pre + length w) \<and> y = received_question mdns q)"
    using n(2) x(1,2) by (intro exI [of _ "x @ be16 (q_type q) @ be16 ?k"]) (simp add: emit_def)
qed

lemma back_patch:
  "(p @ [a, b] @ y)[length p := c, length p + 1 := d] = p @ [c, d] @ y"
  by (simp add: list_update_append)

lemma be16_length: "n \<le> 0xFFFF \<Longrightarrow> [of_nat (n div 256), of_nat n] = be16 (of_nat n)"
proof -
  assume n: "n \<le> 0xFFFF"
  have "unat (drop_bit 8 (of_nat n :: u16)) = n div 256"
    using n by (subst unat_drop_bit_eq) (simp add: drop_bit_eq_div unsigned_of_nat take_bit_nat_eq_self)
  then have "unat (ucast (drop_bit 8 (of_nat n :: u16)) :: byte) = take_bit 8 (n div 256)"
    by (simp only: unsigned_ucast_eq) simp
  then have "(of_nat (n div 256) :: byte) = ucast (drop_bit 8 (of_nat n :: u16))"
    by (simp only: word_unat_eq_iff unsigned_of_nat) simp
  moreover have "(of_nat n :: byte) = ucast (of_nat n :: u16)"
    by (simp add: word_unat_eq_iff unsigned_ucast_eq unsigned_of_nat take_bit_take_bit)
  ultimately show ?thesis by (simp add: be16_def)
qed

lemma duration_seconds_nonneg: "0 \<le> d \<Longrightarrow> 0 \<le> duration_seconds d"
  by (simp add: duration_seconds_def signed_divide_int_def sgn_if)

lemma wire_ttl_read:
  "0 \<le> d \<Longrightarrow> duration_seconds d \<le> 0xFFFFFFFF \<Longrightarrow> uint (wire_ttl d) = duration_seconds d"
  using duration_seconds_nonneg [of d] by (simp add: wire_ttl_def Let_def uint_word_of_int_eq take_bit_int_eq_self)

interpretation records: message_part encode_record "parse_record mdns sec" "record_ok mdns"
    "record_received mdns sec" for mdns sec
proof
  fix r out out' dict
  assume ok: "record_ok mdns r" and e: "encode_record r out None = (out', dict, Ok)"
  define kl where "kl = (if r_flush r \<and> r_type r \<noteq> 12 then r_klass r OR 0x8000 else r_klass r)"
  let ?h = "be16 (r_type r) @ be16 kl @ be32 (wire_ttl (r_ttl r))"
  obtain o1 d1 where n: "encodeName (r_name r) out None = (o1, d1, Ok)"
    using e by (auto simp: encode_record_def then_enc_Ok)
  obtain x where x: "o1 = out @ x" "d1 = None"
      "\<forall>pre rest. decodeName (Some (pre @ x @ rest)) (length pre) = Inr (dnsJoinName (dnsSplitName (r_name r)), length pre + length x)"
    using name_written [OF n] ok by (auto simp: record_ok_def)
  obtain o2 d2 where rd: "encodeRdata True r ((o1 @ ?h) @ [0, 0]) None = (o2, d2, Ok)"
      and pat: "\<not> 0xFFFF < length o2 - (length (o1 @ ?h) + 2)" "dict = d2"
        "out' = o2[length (o1 @ ?h) := of_nat ((length o2 - (length (o1 @ ?h) + 2)) div 256),
          length (o1 @ ?h) + 1 := of_nat (length o2 - (length (o1 @ ?h) + 2))]"
    using e n x(2) unfolding encode_record_def Let_def kl_def [symmetric] by (auto simp: then_enc_Ok split: if_splits)
  have typed: "rdata_ok mdns r" using ok by (simp add: record_ok_def)
  obtain y where y: "o2 = ((o1 @ ?h) @ [0, 0]) @ y" "d2 = None"
      "\<forall>pre base rest. r_type base = r_type r \<longrightarrow> parseRdata (pre @ y @ rest) (length pre) (length y) mdns base = Inr (read_rdata mdns r base)"
      "\<forall>c. raw_content r = Some c \<longrightarrow> y = c"
    using rdata_written [OF rd typed] unfolding rdata_reads_def by blast
  let ?w = "x @ ?h @ be16 (of_nat (length y)) @ y"
  have len: "length o2 - (length (o1 @ ?h) + 2) = length y" by (simp add: y(1))
  then have y16: "length y \<le> 0xFFFF" using pat(1) by simp
  have "out' = (o1 @ ?h) @ [of_nat (length y div 256), of_nat (length y)] @ y"
    using pat(3) back_patch [of "o1 @ ?h" 0 0 y] unfolding len by (simp add: y(1))
  then have o': "out' = out @ ?w" using be16_length [OF y16] x(1) by simp
  have "\<exists>z. parse_record mdns sec (pre @ ?w @ rest) (length pre) = Inr (z, length pre + length ?w) \<and>
      record_received mdns sec r z" for pre rest
  proof -
    let ?m = "pre @ ?w @ rest"
    have u: "unat (of_nat (length y) :: u16) = length y"
      using y16 by (simp add: unsigned_of_nat take_bit_nat_eq_self)
    have fields: "readU16 ?m (length pre + length x) = r_type r" "readU16 ?m (length pre + length x + 2) = kl"
        "readU32 ?m (length pre + length x + 4) = wire_ttl (r_ttl r)"
        "readU16 ?m (length pre + length x + 8) = of_nat (length y)"
      using readU16_at [of _ "pre @ x" "r_type r" "be16 kl @ be32 (wire_ttl (r_ttl r)) @ be16 (of_nat (length y)) @ y @ rest"]
        readU16_at [of _ "pre @ x @ be16 (r_type r)" kl "be32 (wire_ttl (r_ttl r)) @ be16 (of_nat (length y)) @ y @ rest"]
        readU32_at [of _ "pre @ x @ be16 (r_type r) @ be16 kl" "wire_ttl (r_ttl r)" "be16 (of_nat (length y)) @ y @ rest"]
        readU16_at [of _ "pre @ x @ ?h" "of_nat (length y)" "y @ rest"]
      by (simp_all add: add.assoc)
    have name: "decodeName (Some ?m) (length pre) = Inr (dnsJoinName (dnsSplitName (r_name r)), length pre + length x)"
      using x(3) [rule_format, of pre "?h @ be16 (of_nat (length y)) @ y @ rest"] by simp
    have rdata: "parseRdata ?m (length pre + length x + 10) (length y) mdns base = Inr (read_rdata mdns r base)"
      if "r_type base = r_type r" for base
      using y(3) [rule_format, OF that, of "pre @ x @ ?h @ be16 (of_nat (length y))" rest] by (simp add: add.assoc)
    have raw: "take (length y) (drop (length pre + length x + 10) ?m) = y" by simp
    define base where "base = new_record\<lparr>r_section := sec, r_name := received_name (r_name r), r_type := r_type r,
        r_ttl := fromSeconds (duration_seconds (r_ttl r)), r_flush := (mdns \<and> r_type r \<noteq> 12 \<and> kl AND 0x8000 \<noteq> 0),
        r_klass := (if mdns then kl AND 0x7FFF else kl)\<rparr>"
    have ttl: "uint (wire_ttl (r_ttl r)) = duration_seconds (r_ttl r)" using ok by (simp add: wire_ttl_read record_ok_def)
    have "parse_record mdns sec ?m (length pre) =
        Inr ((read_rdata mdns r base)\<lparr>rawRdata := y\<rparr>, length pre + length ?w)"
    proof -
      have base': "new_record\<lparr>r_section := sec, r_name := Latin1 (dnsJoinName (dnsSplitName (r_name r))), r_type := r_type r,
        r_ttl := fromSeconds (duration_seconds (r_ttl r)), r_flush := (mdns \<and> r_type r \<noteq> 12 \<and> kl AND 0x8000 \<noteq> 0),
        r_klass := (if mdns then kl AND 0x7FFF else kl)\<rparr> = base"
        by (simp add: base_def received_name_def)
      have "\<not> length ?m < length pre + length x + 10" "\<not> length ?m < length pre + length x + 10 + length y" by simp_all
      moreover have "parseRdata ?m (length pre + length x + 10) (length y) mdns (base\<lparr>rawRdata := y\<rparr>) =
          Inr ((read_rdata mdns r base)\<lparr>rawRdata := y\<rparr>)"
        using rdata [of "base\<lparr>rawRdata := y\<rparr>"] by (simp add: read_rdata_raw base_def)
      ultimately show ?thesis
        unfolding parse_record_def name sum.case prod.case Let_def fields u raw ttl base' by (simp add: add.assoc)
    qed
    moreover have "without_raw ((read_rdata mdns r base)\<lparr>rawRdata := y\<rparr>) = received_record mdns sec r"
    proof -
      have "rawRdata (read_rdata mdns r base) = []" by (simp add: read_rdata_def Let_def base_def new_record_def)
      then have "without_raw ((read_rdata mdns r base)\<lparr>rawRdata := y\<rparr>) = read_rdata mdns r base" by (simp add: without_raw_def)
      also have "\<dots> = received_record mdns sec r"
        using ok by (cases mdns) (auto simp: received_record_def base_def record_ok_def top_bit_class kl_def Let_def)
      finally show ?thesis .
    qed
    moreover have "\<forall>c. raw_content r = Some c \<longrightarrow> rawRdata ((read_rdata mdns r base)\<lparr>rawRdata := y\<rparr>) = c" using y(4) by simp
    ultimately show ?thesis unfolding record_received_def by blast
  qed
  then show "\<exists>w. out' = out @ w \<and> dict = None \<and> (\<forall>pre rest. \<exists>z. parse_record mdns sec (pre @ w @ rest) (length pre) =
      Inr (z, length pre + length w) \<and> record_received mdns sec r z)"
    using o' pat(2) y(2) by blast
qed

lemma list_all2_images: "list_all2 (\<lambda>x y. g y = f x) xs ys \<Longrightarrow> map g ys = map f xs"
  by (induction rule: list_all2_induct) auto

lemma section_count: "n < 65536 \<Longrightarrow> unat (of_nat n :: u16) = n"
  by (simp add: unsigned_of_nat take_bit_nat_eq_self)

text \<open>C24: A message built without compression is parsed back, in both modes. Identifier, flags, questions and
  the records of each section arrive in order with every typed field, names in their escaped text form. Where the content
  of a record is no name, its raw bytes arrive too: the entries of a text record, which unicast mode does not take apart,
  and the opaque content of every type the parser does not know. Names must have no empty label, strings must be plain
  and short enough for their length bytes, and in mDNS the top bit of a class is left to the flag it carries.\<close>

theorem dns_message_roundtrip:
  assumes "finish b = Some d" "\<not> b_compress b" "\<forall>q\<in>set (b_questions b). question_ok mdns q"
    and "\<forall>r\<in>set (b_answers b @ b_authority b @ b_additional b). record_ok mdns r"
    and "length (b_questions b) < 65536" "length (b_answers b) < 65536" "length (b_authority b) < 65536"
      "length (b_additional b) < 65536"
  shows "\<exists>p. parsePacket mdns d = Inr p \<and> p_id p = b_id b \<and> p_flags p = b_flags b \<and>
    p_questions p = map (received_question mdns) (b_questions b) \<and>
    (\<exists>an ns ar. p_records p = an @ ns @ ar \<and> list_all2 (record_received mdns Answer) (b_answers b) an \<and>
      list_all2 (record_received mdns Authority) (b_authority b) ns \<and>
      list_all2 (record_received mdns Additional) (b_additional b) ar)"
proof -
  let ?h = "header_bytes b"
  obtain o1 d1 o2 d2 o3 d3 d4 where e: "encode_all encode_question (b_questions b) ?h None = (o1, d1, Ok)"
      "encode_all encode_record (b_answers b) o1 d1 = (o2, d2, Ok)"
      "encode_all encode_record (b_authority b) o2 d2 = (o3, d3, Ok)"
      "encode_all encode_record (b_additional b) o3 d3 = (d, d4, Ok)"
    using assms(1,2) by (auto simp: finish_def then_enc_Ok split: prod.splits if_splits)
  obtain w1 where w1: "o1 = ?h @ w1" "d1 = None" "\<forall>pre rest. \<exists>ys.
      repeat_parse (parse_question mdns (pre @ w1 @ rest)) (length (b_questions b)) (length pre) = Inr (ys, length pre + length w1) \<and>
      list_all2 (\<lambda>q y. y = received_question mdns q) (b_questions b) ys"
    using questions.items_read [OF assms(3) e(1)] by blast
  have rec: "\<forall>r\<in>set (b_answers b). record_ok mdns r" "\<forall>r\<in>set (b_authority b). record_ok mdns r"
      "\<forall>r\<in>set (b_additional b). record_ok mdns r" using assms(4) by simp_all
  obtain w2 where w2: "o2 = o1 @ w2" "d2 = None" "\<forall>pre rest. \<exists>ys.
      repeat_parse (parse_record mdns Answer (pre @ w2 @ rest)) (length (b_answers b)) (length pre) = Inr (ys, length pre + length w2) \<and>
      list_all2 (record_received mdns Answer) (b_answers b) ys"
    using records.items_read [OF rec(1) e(2) [unfolded w1(2)], of Answer] by blast
  obtain w3 where w3: "o3 = o2 @ w3" "d3 = None" "\<forall>pre rest. \<exists>ys.
      repeat_parse (parse_record mdns Authority (pre @ w3 @ rest)) (length (b_authority b)) (length pre) = Inr (ys, length pre + length w3) \<and>
      list_all2 (record_received mdns Authority) (b_authority b) ys"
    using records.items_read [OF rec(2) e(3) [unfolded w2(2)], of Authority] by blast
  obtain w4 where w4: "d = o3 @ w4" "\<forall>pre rest. \<exists>ys.
      repeat_parse (parse_record mdns Additional (pre @ w4 @ rest)) (length (b_additional b)) (length pre) = Inr (ys, length pre + length w4) \<and>
      list_all2 (record_received mdns Additional) (b_additional b) ys"
    using records.items_read [OF rec(3) e(4) [unfolded w3(2)], of Additional] by blast
  have d: "d = ?h @ w1 @ w2 @ w3 @ w4" using w1(1) w2(1) w3(1) w4(1) by simp
  have h12: "length ?h = 12" by (simp add: header_bytes_def)
  have counts: "readU16 d 0 = b_id b" "readU16 d 2 = b_flags b" "readU16 d 4 = of_nat (length (b_questions b))"
      "readU16 d 6 = of_nat (length (b_answers b))" "readU16 d 8 = of_nat (length (b_authority b))"
      "readU16 d 10 = of_nat (length (b_additional b))"
    by (simp_all add: d header_bytes_def readU16_def be16_def be_simps)
  obtain qs where qs: "repeat_parse (parse_question mdns d) (length (b_questions b)) 12 = Inr (qs, 12 + length w1)"
      "list_all2 (\<lambda>q y. y = received_question mdns q) (b_questions b) qs"
    using w1(3) [rule_format, of ?h "w2 @ w3 @ w4"] h12 d by auto
  obtain an where an: "repeat_parse (parse_record mdns Answer d) (length (b_answers b)) (12 + length w1) = Inr (an, 12 + length (w1 @ w2))"
      "list_all2 (record_received mdns Answer) (b_answers b) an"
    using w2(3) [rule_format, of "?h @ w1" "w3 @ w4"] h12 d by (auto simp: add.assoc)
  obtain ns where ns: "repeat_parse (parse_record mdns Authority d) (length (b_authority b)) (12 + length (w1 @ w2)) =
        Inr (ns, 12 + length (w1 @ w2 @ w3))"
      "list_all2 (record_received mdns Authority) (b_authority b) ns"
    using w3(3) [rule_format, of "?h @ w1 @ w2" w4] h12 d by (auto simp: add.assoc)
  obtain ar where ar: "repeat_parse (parse_record mdns Additional d) (length (b_additional b)) (12 + length (w1 @ w2 @ w3)) =
        Inr (ar, 12 + length (w1 @ w2 @ w3 @ w4))"
      "list_all2 (record_received mdns Additional) (b_additional b) ar"
    using w4(2) [rule_format, of "?h @ w1 @ w2 @ w3" "[]"] h12 d by (auto simp: add.assoc)
  have "\<not> length d < 12" using d h12 by simp
  then have "parsePacket mdns d =
      Inr \<lparr>p_id = b_id b, p_flags = b_flags b, p_questions = qs, p_records = an @ ns @ ar\<rparr>"
    unfolding parsePacket_def counts section_count [OF assms(5)] section_count [OF assms(6)] section_count [OF assms(7)]
      section_count [OF assms(8)] qs(1) an(1) ns(1) ar(1) sum.case prod.case
    by (simp only: if_False)
  moreover have "qs = map (received_question mdns) (b_questions b)" using list_all2_images [of id, simplified, OF qs(2)] by simp
  ultimately show ?thesis using an(2) ns(2) ar(2) by fastforce
qed

theorem dns_message_roundtrip_witness:
  "\<exists>d p. finish (new_builder\<lparr>b_compress := False, b_id := 7,
       b_questions := [\<lparr>q_name = Latin1 [0x61, 0x2E], q_type = 1, q_klass = 1, q_unicast = True\<rparr>],
       b_answers := [new_record\<lparr>r_type := 1, r_name := Latin1 [0x61, 0x2E], r_a := 0x7F000001, r_ttl := fromSeconds 60\<rparr>,
         new_record\<lparr>r_type := 99, r_name := Latin1 [0x61, 0x2E], r_ttl := fromSeconds 60, rawRdata := [1, 2, 3]\<rparr>]\<rparr>) = Some d \<and>
     parsePacket True d = Inr p \<and> p_id p = 7 \<and> map r_type (p_records p) = [1, 99] \<and>
     r_a (p_records p ! 0) = 0x7F000001 \<and> rawRdata (p_records p ! 1) = [1, 2, 3]"
proof -
  let ?q = "\<lparr>q_name = Latin1 [0x61, 0x2E], q_type = 1, q_klass = 1, q_unicast = True\<rparr>"
  let ?r = "new_record\<lparr>r_type := 1, r_name := Latin1 [0x61, 0x2E], r_a := 0x7F000001, r_ttl := fromSeconds 60\<rparr>"
  let ?u = "new_record\<lparr>r_type := 99, r_name := Latin1 [0x61, 0x2E], r_ttl := fromSeconds 60, rawRdata := [1, 2, 3]\<rparr>"
  let ?b = "new_builder\<lparr>b_compress := False, b_id := 7, b_questions := [?q], b_answers := [?r, ?u]\<rparr>"
  have nm: "dnsSplitName (Latin1 [0x61, 0x2E]) = [[0x61]]" by (simp add: dnsSplitName_def)
  have "finish ?b \<noteq> None"
    by (simp add: finish_def then_enc_def encode_question_def encode_record_def encodeRdata_def encodeName_def nm
      lookup_suffix_def register_suffix_def emit_def header_bytes_def new_builder_def new_record_def be16_def be32_def Let_def)
  then obtain d where d: "finish ?b = Some d" by blast
  have "question_ok True ?q" "record_ok True ?r" "record_ok True ?u"
    by (simp_all add: question_ok_def record_ok_def rdata_ok_def proper_name_def nm new_record_def fromSeconds_def duration_seconds_def
      invalid_duration_def signed_divide_int_def)
  then obtain p an where p: "parsePacket True d = Inr p" "p_id p = b_id ?b" "p_records p = an"
      "list_all2 (record_received True Answer) [?r, ?u] an"
    using dns_message_roundtrip [OF d, of True] by (auto simp: new_builder_def)
  then obtain y z where yz: "an = [y, z]" "record_received True Answer ?r y" "record_received True Answer ?u z"
    by (auto simp: list_all2_Cons1)
  have "r_type y = r_type (without_raw y)" "r_a y = r_a (without_raw y)" "r_type z = r_type (without_raw z)"
    by (simp_all add: without_raw_def)
  then have "r_type y = 1" "r_a y = 0x7F000001" "r_type z = 99" "rawRdata z = [1, 2, 3]"
    using yz(2,3) by (simp_all add: record_received_def received_record_def read_rdata_def raw_content_def Let_def)
  then show ?thesis using d p(1-3) yz(1) by (intro exI [of _ d] exI [of _ p]) (simp add: new_builder_def)
qed

end
