(* ===== verification/DnsCache.thy ===== *)
theory DnsCache
  imports DnsPacket "HOL-Library.List_Lexorder"
begin

text \<open>
  \<open>src/network/dnscache.cpp\<close>: the resolver's answer cache. The map is the list of its entries in key order, as
  the iterators of the code see them; clock readings are arguments, two where the code reads the clock twice.
\<close>

section \<open>Keys\<close>

datatype cache_key = Key (k_name: "byte list") (k_type: u16) (k_klass: u16)

text \<open>The comparison operator of the key, which orders the keys of the cache.\<close>

definition key_before :: "cache_key \<Rightarrow> cache_key \<Rightarrow> bool" where
  "key_before a b \<longleftrightarrow>
     (if k_name a < k_name b then True
      else if k_name b < k_name a then False
      else if k_type a < k_type b then True
      else if k_type b < k_type a then False
      else k_klass a < k_klass b)"

instantiation cache_key :: linorder
begin

definition less_cache_key :: "cache_key \<Rightarrow> cache_key \<Rightarrow> bool" where
  "a < b \<longleftrightarrow> key_before a b"

definition less_eq_cache_key :: "cache_key \<Rightarrow> cache_key \<Rightarrow> bool" where
  "a \<le> b \<longleftrightarrow> a = b \<or> (a :: cache_key) < b"

instance
proof
  fix a b c :: cache_key
  show "a < b \<longleftrightarrow> a \<le> b \<and> \<not> b \<le> a"
    by (auto simp: less_cache_key_def key_before_def less_eq_cache_key_def split: if_splits)
  show "a \<le> a" by (simp add: less_eq_cache_key_def)
  show "a \<le> b \<Longrightarrow> b \<le> c \<Longrightarrow> a \<le> c"
    by (auto simp: less_cache_key_def key_before_def less_eq_cache_key_def dest: less_trans split: if_splits)
  show "a \<le> b \<Longrightarrow> b \<le> a \<Longrightarrow> a = b"
    by (auto simp: less_cache_key_def key_before_def less_eq_cache_key_def split: if_splits)
  show "a \<le> b \<or> b \<le> a"
    by (cases a; cases b) (auto simp: less_cache_key_def key_before_def less_eq_cache_key_def)
qed

end

section \<open>Operations\<close>

record cache_entry =
  expiresAt :: int
  negative :: bool
  c_rcode :: int
  c_records :: "dns_record list"

record dns_cache =
  c_entries :: "(cache_key \<times> cache_entry) list"
  maxTtl :: int
  maxNegTtl :: int
  cap :: nat

record cache_hit =
  h_found :: bool
  h_negative :: bool
  h_rcode :: int
  h_records :: "dns_record list"

definition new_cache :: dns_cache where
  "new_cache = \<lparr>c_entries = [], maxTtl = fromSeconds 3600, maxNegTtl = fromSeconds 300, cap = 4096\<rparr>"

fun map_assign :: "cache_key \<Rightarrow> 'e \<Rightarrow> (cache_key \<times> 'e) list \<Rightarrow> (cache_key \<times> 'e) list" where
  "map_assign k v [] = [(k, v)]"
| "map_assign k v ((k', v') # es) =
     (if k < k' then (k, v) # (k', v') # es
      else if k' < k then (k', v') # map_assign k v es
      else (k', v) # es)"

text \<open>The first of the entries that expire soonest.\<close>

definition soonest :: "(cache_key \<times> cache_entry) list \<Rightarrow> nat" where
  "soonest es = foldl (\<lambda>v i. if expiresAt (snd (es ! i)) < expiresAt (snd (es ! v)) then i else v) 0 [0..<length es]"

lemma soonest_fold:
  assumes "v < n" "m \<le> n"
  shows "foldl (\<lambda>v i. if (f i :: int) < f v then i else v) v [0..<m] < n \<and>
    (\<forall>i<m. f (foldl (\<lambda>v i. if f i < f v then i else v) v [0..<m]) \<le> f i) \<and>
    f (foldl (\<lambda>v i. if f i < f v then i else v) v [0..<m]) \<le> f v"
  using assms(2)
proof (induction m)
  case 0
  then show ?case using assms(1) by simp
next
  case (Suc m)
  then show ?case by (auto simp: less_Suc_eq)
qed

lemma soonest_first: "es \<noteq> [] \<Longrightarrow> soonest es < length es"
  using soonest_fold [of 0 "length es" "length es" "\<lambda>i. expiresAt (snd (es ! i))"] by (simp add: soonest_def)

lemma soonest_least: "p \<in> set es \<Longrightarrow> expiresAt (snd (es ! soonest es)) \<le> expiresAt (snd p)"
  using soonest_fold [of 0 "length es" "length es" "\<lambda>i. expiresAt (snd (es ! i))"] length_pos_if_in_set [of p es]
  by (auto simp: soonest_def in_set_conv_nth)

function shrink_to :: "nat \<Rightarrow> (cache_key \<times> cache_entry) list \<Rightarrow> (cache_key \<times> cache_entry) list" where
  "shrink_to n es =
     (if length es \<le> n then es else shrink_to n (take (soonest es) es @ drop (Suc (soonest es)) es))"
  by pat_completeness auto
termination
proof (relation "measure (\<lambda>(n, es). length es)")
  fix n and es :: "(cache_key \<times> cache_entry) list"
  assume "\<not> length es \<le> n"
  then have "soonest es < length es" by (intro soonest_first) auto
  then show "((n, take (soonest es) es @ drop (Suc (soonest es)) es), n, es) \<in> measure (\<lambda>(n, es). length es)" by simp
qed simp

declare shrink_to.simps [simp del]

definition evictIfOversized :: "int \<Rightarrow> dns_cache \<Rightarrow> dns_cache" where
  "evictIfOversized now c =
     (if cap c = 0 \<or> length (c_entries c) \<le> cap c then c
      else c\<lparr>c_entries := shrink_to (cap c) (filter (\<lambda>(k, e). \<not> expiresAt e \<le> now) (c_entries c))\<rparr>)"

definition setMaxTtl :: "int \<Rightarrow> dns_cache \<Rightarrow> dns_cache" where "setMaxTtl d c = c\<lparr>maxTtl := d\<rparr>"
definition setMaxNegativeTtl :: "int \<Rightarrow> dns_cache \<Rightarrow> dns_cache" where "setMaxNegativeTtl d c = c\<lparr>maxNegTtl := d\<rparr>"
definition setCapacity :: "int \<Rightarrow> nat \<Rightarrow> dns_cache \<Rightarrow> dns_cache" where
  "setCapacity now n c = evictIfOversized now (c\<lparr>cap := n\<rparr>)"
definition cache_clear :: "dns_cache \<Rightarrow> dns_cache" where "cache_clear c = c\<lparr>c_entries := []\<rparr>"
definition cache_size :: "dns_cache \<Rightarrow> nat" where "cache_size c = length (c_entries c)"

definition cache_key_of :: "str \<Rightarrow> u16 \<Rightarrow> u16 \<Rightarrow> cache_key" where
  "cache_key_of name ty kl = Key (dnsCanonicalName name) ty kl"

definition miss :: cache_hit where
  "miss = \<lparr>h_found = False, h_negative = False, h_rcode = 0, h_records = []\<rparr>"

definition hit_of :: "cache_entry \<Rightarrow> cache_hit" where
  "hit_of e = \<lparr>h_found = True, h_negative = negative e, h_rcode = c_rcode e, h_records = c_records e\<rparr>"

definition cache_get :: "int \<Rightarrow> str \<Rightarrow> u16 \<Rightarrow> u16 \<Rightarrow> dns_cache \<Rightarrow> dns_cache \<times> cache_hit" where
  "cache_get now name ty kl c =
     (let key = cache_key_of name ty kl in
      case map_of (c_entries c) key of
        None \<Rightarrow> (c, miss)
      | Some e \<Rightarrow>
          if expiresAt e \<le> now then (c\<lparr>c_entries := filter (\<lambda>p. fst p \<noteq> key) (c_entries c)\<rparr>, miss)
          else (c, hit_of e))"

text \<open>The time to live of a negative and of a positive entry.\<close>

definition negative_ttl :: "int \<Rightarrow> int \<Rightarrow> int" where
  "negative_ttl maxNeg ttlCap = (let ttl = (if 0 < ttlCap then ttlCap else maxNeg) in if maxNeg < ttl then maxNeg else ttl)"

definition min_ttl :: "dns_record list \<Rightarrow> int" where
  "min_ttl rs = foldl (\<lambda>m r. if r_ttl r < m then r_ttl r else m) (r_ttl (hd rs)) rs"

definition positive_ttl :: "int \<Rightarrow> int \<Rightarrow> dns_record list \<Rightarrow> int" where
  "positive_ttl maxPos ttlCap rs =
     (let ttl = min_ttl rs; ttl = (if 0 < ttlCap \<and> ttlCap < ttl then ttlCap else ttl)
      in if maxPos < ttl then maxPos else ttl)"

definition store :: "int \<Rightarrow> cache_key \<Rightarrow> cache_entry \<Rightarrow> dns_cache \<Rightarrow> dns_cache" where
  "store now key e c = evictIfOversized now (c\<lparr>c_entries := map_assign key e (c_entries c)\<rparr>)"

definition cache_put :: "int \<Rightarrow> int \<Rightarrow> str \<Rightarrow> u16 \<Rightarrow> u16 \<Rightarrow> dns_record list \<Rightarrow> int \<Rightarrow> dns_cache \<Rightarrow> dns_cache" where
  "cache_put now now' name ty kl rs ttlCap c =
     (if rs = [] then
        let ttl = negative_ttl (maxNegTtl c) ttlCap in
        if ttl \<le> 0 then c
        else store now' (cache_key_of name ty kl) \<lparr>expiresAt = now + ttl, negative = True, c_rcode = 0, c_records = []\<rparr> c
      else
        let ttl = positive_ttl (maxTtl c) ttlCap rs in
        if ttl \<le> 0 then c
        else store now' (cache_key_of name ty kl) \<lparr>expiresAt = now + ttl, negative = False, c_rcode = 0, c_records = rs\<rparr> c)"

definition putNegative :: "int \<Rightarrow> int \<Rightarrow> str \<Rightarrow> u16 \<Rightarrow> u16 \<Rightarrow> int \<Rightarrow> int \<Rightarrow> dns_cache \<Rightarrow> dns_cache" where
  "putNegative now now' name ty kl rc ttlCap c =
     (let ttl = negative_ttl (maxNegTtl c) ttlCap in
      if ttl \<le> 0 then c
      else store now' (cache_key_of name ty kl) \<lparr>expiresAt = now + ttl, negative = True, c_rcode = rc, c_records = []\<rparr> c)"

section \<open>The map of the entries\<close>

lemma map_of_assign [simp]: "map_of (map_assign k v es) = (map_of es)(k \<mapsto> v)"
  by (induction k v es rule: map_assign.induct) (auto simp: fun_eq_iff not_less_iff_gr_or_eq)

lemma map_assign_keys: "fst ` set (map_assign k v es) = insert k (fst ` set es)"
  by (induction k v es rule: map_assign.induct) (auto simp: not_less_iff_gr_or_eq)

lemma map_assign_sorted: "sorted_wrt (<) (map fst es) \<Longrightarrow> sorted_wrt (<) (map fst (map_assign k v es))"
proof (induction k v es rule: map_assign.induct)
  case (2 k v k' v' es)
  have "\<forall>x\<in>fst ` set (map_assign k v es). k' < x" if "k' < k"
    using that 2(2) by (simp add: map_assign_keys)
  with 2 show ?case by (auto simp: not_less_iff_gr_or_eq dest: less_trans)
qed simp

lemma map_assign_length: "length (map_assign k v es) \<le> Suc (length es)"
  by (induction k v es rule: map_assign.induct) auto

lemma map_assign_set: "set (map_assign k v es) \<subseteq> insert (k, v) (set es)"
  by (induction k v es rule: map_assign.induct) auto

lemma sorted_key_distinct: "sorted_wrt (<) (map fst (es :: (cache_key \<times> 'e) list)) \<Longrightarrow> distinct (map fst es)"
  by (simp add: strict_sorted_iff)

text \<open>Entries taken away leave a part of the map.\<close>

lemma map_of_part:
  fixes es es' :: "(cache_key \<times> 'e) list"
  assumes "sorted_wrt (<) (map fst es)" "set es' \<subseteq> set es" "sorted_wrt (<) (map fst es')"
  shows "map_of es' \<subseteq>\<^sub>m map_of es"
proof (unfold map_le_def, rule ballI)
  fix k
  assume "k \<in> dom (map_of es')"
  then obtain v where v: "map_of es' k = Some v" by blast
  then have "(k, v) \<in> set es" using map_of_SomeD assms(2) by fastforce
  then show "map_of es' k = map_of es k" using v sorted_key_distinct [OF assms(1)] by simp
qed

section \<open>Eviction\<close>

lemma drop_one:
  assumes "v < length es"
  shows "set es = insert (es ! v) (set (take v es @ drop (Suc v) es))"
    and "sorted_wrt (<) (map fst es) \<Longrightarrow> sorted_wrt (<) (map fst (take v es @ drop (Suc v) es))"
proof -
  have es: "es = take v es @ es ! v # drop (Suc v) es" using assms by (rule id_take_nth_drop)
  have "set es = set (take v es @ es ! v # drop (Suc v) es)" by (rule arg_cong [OF es])
  then show "set es = insert (es ! v) (set (take v es @ drop (Suc v) es))" by simp
  have e: "sorted_wrt (<) (map fst es) = sorted_wrt (<) (map fst (take v es @ es ! v # drop (Suc v) es))"
    by (rule arg_cong [OF es])
  assume "sorted_wrt (<) (map fst es)"
  then have "sorted_wrt (<) (map fst (take v es @ es ! v # drop (Suc v) es))" by (rule iffD1 [OF e])
  then show "sorted_wrt (<) (map fst (take v es @ drop (Suc v) es))" by (simp add: sorted_wrt_append)
qed

lemma shrink_to_facts:
  "length (shrink_to n es) \<le> n \<and> length (shrink_to n es) \<le> length es \<and> set (shrink_to n es) \<subseteq> set es \<and>
   (sorted_wrt (<) (map fst es) \<longrightarrow> sorted_wrt (<) (map fst (shrink_to n es)))"
proof (induction n es rule: shrink_to.induct)
  case (1 n es)
  show ?case
  proof (cases "length es \<le> n")
    case False
    have v: "soonest es < length es" using False by (intro soonest_first) auto
    define es' where "es' = take (soonest es) es @ drop (Suc (soonest es)) es"
    note d = drop_one [OF v, folded es'_def]
    have "shrink_to n es = shrink_to n es'" using False by (simp add: shrink_to.simps [of n es] es'_def)
    moreover have "set es' \<subseteq> set es" using d(1) by blast
    moreover have "length es' \<le> length es" using v by (simp add: es'_def)
    moreover note d(2) "1.IH" [OF False, folded es'_def]
    ultimately show ?thesis by auto
  qed (simp add: shrink_to.simps)
qed

lemma shrink_to_full: "n \<le> length es \<Longrightarrow> length (shrink_to n es) = n"
proof (induction n es rule: shrink_to.induct)
  case (1 n es)
  show ?case
  proof (cases "length es \<le> n")
    case False
    then have v: "soonest es < length es" by (intro soonest_first) auto
    have "n \<le> length (take (soonest es) es @ drop (Suc (soonest es)) es)" using False v by simp
    then show ?thesis using "1.IH" [OF False] False by (simp add: shrink_to.simps [of n es])
  qed (use 1(2) in \<open>simp add: shrink_to.simps\<close>)
qed

lemma shrink_to_soonest:
  assumes "p \<in> set es" "p \<notin> set (shrink_to n es)" "q \<in> set (shrink_to n es)"
  shows "expiresAt (snd p) \<le> expiresAt (snd q)"
  using assms
proof (induction n es rule: shrink_to.induct)
  case (1 n es)
  show ?case
  proof (cases "length es \<le> n")
    case True
    then show ?thesis using 1(2,3) by (simp add: shrink_to.simps)
  next
    case False
    let ?es = "take (soonest es) es @ drop (Suc (soonest es)) es"
    have v: "soonest es < length es" using False by (intro soonest_first) auto
    have e: "shrink_to n es = shrink_to n ?es" using False by (simp add: shrink_to.simps [of n es])
    show ?thesis
    proof (cases "p \<in> set ?es")
      case True
      show ?thesis by (rule "1.IH" [OF False True]) (use 1(3,4) e in simp_all)
    next
      case p: False
      then have "p = es ! soonest es" using 1(2) drop_one(1) [OF v] by blast
      moreover have "q \<in> set es" using 1(4) shrink_to_facts [of n es] by blast
      ultimately show ?thesis using soonest_least by simp
    qed
  qed
qed

lemma evict_part:
  "set (c_entries (evictIfOversized now c)) \<subseteq> set (c_entries c)"
  "sorted_wrt (<) (map fst (c_entries c)) \<Longrightarrow> sorted_wrt (<) (map fst (c_entries (evictIfOversized now c)))"
  using shrink_to_facts [of "cap c" "filter (\<lambda>(k, e). \<not> expiresAt e \<le> now) (c_entries c)"]
  by (auto simp: evictIfOversized_def sorted_wrt_map sorted_wrt_filter)

lemma evict_policy [simp]:
  "maxTtl (evictIfOversized now c) = maxTtl c" "maxNegTtl (evictIfOversized now c) = maxNegTtl c"
  "cap (evictIfOversized now c) = cap c"
  by (simp_all add: evictIfOversized_def)

lemma evict_bound: "cap c \<noteq> 0 \<Longrightarrow> length (c_entries (evictIfOversized now c)) \<le> cap c"
  using shrink_to_facts [of "cap c" "filter (\<lambda>(k, e). \<not> expiresAt e \<le> now) (c_entries c)"]
  by (auto simp: evictIfOversized_def)

section \<open>Histories\<close>

text \<open>A call on the cache with its clock readings.\<close>

datatype cache_op =
    CGet int str u16 u16
  | CPut int int str u16 u16 "dns_record list" int
  | CPutNegative int int str u16 u16 int int
  | CMaxTtl int
  | CMaxNegativeTtl int
  | CCapacity int nat
  | CClear

fun cache_step :: "cache_op \<Rightarrow> dns_cache \<Rightarrow> dns_cache" where
  "cache_step (CGet now name ty kl) c = fst (cache_get now name ty kl c)"
| "cache_step (CPut now now' name ty kl rs ttlCap) c = cache_put now now' name ty kl rs ttlCap c"
| "cache_step (CPutNegative now now' name ty kl rc ttlCap) c = putNegative now now' name ty kl rc ttlCap c"
| "cache_step (CMaxTtl d) c = setMaxTtl d c"
| "cache_step (CMaxNegativeTtl d) c = setMaxNegativeTtl d c"
| "cache_step (CCapacity now n) c = setCapacity now n c"
| "cache_step CClear c = cache_clear c"

definition cache_ok :: "dns_cache \<Rightarrow> bool" where
  "cache_ok c \<longleftrightarrow> sorted_wrt (<) (map fst (c_entries c)) \<and> (cap c \<noteq> 0 \<longrightarrow> length (c_entries c) \<le> cap c) \<and>
     (\<forall>(k, e)\<in>set (c_entries c). negative e \<longleftrightarrow> c_records e = [])"

lemma cache_ok_store:
  assumes "cache_ok c" "negative e \<longleftrightarrow> c_records e = []"
  shows "cache_ok (store now k e c)"
proof -
  let ?c = "c\<lparr>c_entries := map_assign k e (c_entries c)\<rparr>"
  have "sorted_wrt (<) (map fst (c_entries ?c))" using assms(1) by (simp add: cache_ok_def map_assign_sorted)
  moreover have "\<forall>(k, e)\<in>set (c_entries ?c). negative e \<longleftrightarrow> c_records e = []"
    using assms map_assign_set [of k e "c_entries c"] by (fastforce simp: cache_ok_def)
  ultimately show ?thesis
    using evict_part [where c = ?c and now = now] evict_bound [of ?c now] unfolding store_def cache_ok_def by auto
qed

lemma cache_ok_evict:
  assumes "sorted_wrt (<) (map fst (c_entries c))" "\<forall>(k, e)\<in>set (c_entries c). negative e \<longleftrightarrow> c_records e = []"
  shows "cache_ok (evictIfOversized now c)"
  using assms evict_part [where c = c and now = now] evict_bound [of c now] unfolding cache_ok_def by auto

lemma cache_ok_get: "cache_ok c \<Longrightarrow> cache_ok (fst (cache_get now name ty kl c))"
  by (auto simp: cache_get_def Let_def cache_ok_def sorted_wrt_map sorted_wrt_filter split: option.splits
      intro: le_trans [OF length_filter_le])

lemma cache_ok_setters:
  "cache_ok (setMaxTtl d c) = cache_ok c" "cache_ok (setMaxNegativeTtl d c) = cache_ok c" "cache_ok (cache_clear c)"
  by (simp_all add: cache_ok_def setMaxTtl_def setMaxNegativeTtl_def cache_clear_def)

interpretation cache: event_machine cache_step "\<lambda>_. True" cache_ok
proof
  fix c op
  assume c: "cache_ok c"
  show "cache_ok (cache_step op c)"
  proof (cases op)
    case (CCapacity now n)
    moreover have "cache_ok (evictIfOversized now (c\<lparr>cap := n\<rparr>))"
      by (rule cache_ok_evict) (use c in \<open>simp_all add: cache_ok_def\<close>)
    ultimately show ?thesis by (simp add: setCapacity_def)
  qed (use c in \<open>auto simp: cache_ok_get cache_ok_setters cache_put_def putNegative_def Let_def intro!: cache_ok_store\<close>)
qed


text \<open>C26: after any calls at any times the keys of the cache are distinct and in order, the capacity is kept, and an
  entry is negative exactly when it holds no records.\<close>

theorem dns_cache_reachable:
  "cache_ok (fold cache_step ops new_cache)"
proof -
  have "cache_ok new_cache" by (simp add: cache_ok_def new_cache_def)
  then show ?thesis by (rule cache.inv_run) simp
qed

text \<open>When the cache is over its capacity it drops what has expired and then, until it fits, the entry that
  expires soonest: it keeps as many live entries as fit, and none it keeps expires before a live one it dropped.\<close>

theorem dns_cache_evicts_soonest:
  assumes "cap c \<noteq> 0" "cap c < length (c_entries c)"
  shows "length (c_entries (evictIfOversized now c)) =
      min (cap c) (length (filter (\<lambda>p. now < expiresAt (snd p)) (c_entries c))) \<and>
    (\<forall>p\<in>set (c_entries c). \<forall>q\<in>set (c_entries (evictIfOversized now c)).
       now < expiresAt (snd q) \<and>
       (p \<notin> set (c_entries (evictIfOversized now c)) \<longrightarrow> expiresAt (snd p) \<le> expiresAt (snd q)))"
proof -
  let ?live = "filter (\<lambda>p. now < expiresAt (snd p)) (c_entries c)"
  have e: "c_entries (evictIfOversized now c) = shrink_to (cap c) ?live"
    using assms by (simp add: evictIfOversized_def case_prod_unfold not_le)
  have "length (shrink_to (cap c) ?live) = min (cap c) (length ?live)"
    using shrink_to_full [of "cap c" ?live] by (cases "cap c \<le> length ?live") (simp_all add: shrink_to.simps)
  moreover have "now < expiresAt (snd q)" if "q \<in> set (shrink_to (cap c) ?live)" for q
    using that shrink_to_facts [of "cap c" ?live] by auto
  moreover have "expiresAt (snd p) \<le> expiresAt (snd q)"
    if "p \<in> set (c_entries c)" "p \<notin> set (shrink_to (cap c) ?live)" "q \<in> set (shrink_to (cap c) ?live)" for p q
  proof (cases "now < expiresAt (snd p)")
    case True
    then show ?thesis using that shrink_to_soonest [of p ?live "cap c" q] by simp
  next
    case False
    then show ?thesis using shrink_to_facts [of "cap c" ?live] that(3) by fastforce
  qed
  ultimately show ?thesis unfolding e by blast
qed

section \<open>What the cache promises\<close>

text \<open>
  The specification has no capacity and never forgets: per key the last answer that was worth keeping and the time it
  lapses. An answer lives as long as its shortest-lived record, no longer than the caller's cap and the cache's own.
\<close>

record cache_spec =
  s_answer :: "cache_key \<Rightarrow> cache_entry option"
  s_max :: int
  s_negative_max :: int

definition new_spec :: cache_spec where
  "new_spec = \<lparr>s_answer = (\<lambda>_. None), s_max = fromSeconds 3600, s_negative_max = fromSeconds 300\<rparr>"

definition lifetime :: "int \<Rightarrow> int \<Rightarrow> int set \<Rightarrow> int" where
  "lifetime limit ttlCap ttls = Min ({limit} \<union> (if 0 < ttlCap then {ttlCap} else {}) \<union> ttls)"

definition spec_answer :: "cache_key \<Rightarrow> int \<Rightarrow> int \<Rightarrow> cache_entry \<Rightarrow> cache_spec \<Rightarrow> cache_spec" where
  "spec_answer k now life e s = (if life \<le> 0 then s else s\<lparr>s_answer := (s_answer s)(k \<mapsto> e\<lparr>expiresAt := now + life\<rparr>)\<rparr>)"

fun spec_step :: "cache_op \<Rightarrow> cache_spec \<Rightarrow> cache_spec" where
  "spec_step (CPut now now' name ty kl rs ttlCap) s =
     spec_answer (cache_key_of name ty kl) now
       (if rs = [] then lifetime (s_negative_max s) ttlCap {} else lifetime (s_max s) ttlCap (r_ttl ` set rs))
       \<lparr>expiresAt = 0, negative = (rs = []), c_rcode = 0, c_records = rs\<rparr> s"
| "spec_step (CPutNegative now now' name ty kl rc ttlCap) s =
     spec_answer (cache_key_of name ty kl) now (lifetime (s_negative_max s) ttlCap {})
       \<lparr>expiresAt = 0, negative = True, c_rcode = rc, c_records = []\<rparr> s"
| "spec_step (CMaxTtl d) s = s\<lparr>s_max := d\<rparr>"
| "spec_step (CMaxNegativeTtl d) s = s\<lparr>s_negative_max := d\<rparr>"
| "spec_step CClear s = s\<lparr>s_answer := (\<lambda>_. None)\<rparr>"
| "spec_step op s = s"

definition spec_get :: "int \<Rightarrow> cache_key \<Rightarrow> cache_spec \<Rightarrow> cache_hit" where
  "spec_get now k s = (case s_answer s k of None \<Rightarrow> miss | Some e \<Rightarrow> if now < expiresAt e then hit_of e else miss)"

lemma negative_ttl_lifetime: "negative_ttl m ttlCap = lifetime m ttlCap {}"
  by (simp add: negative_ttl_def lifetime_def Let_def min_def)

lemma min_ttl_Min:
  assumes "rs \<noteq> []"
  shows "min_ttl rs = Min (r_ttl ` set rs)"
proof -
  have "(\<lambda>m r. if r_ttl r < m then r_ttl r else m) = (\<lambda>m (r :: dns_record). min m (r_ttl r))" by (auto simp: fun_eq_iff min_def)
  moreover have "foldl (\<lambda>m r. min m (r_ttl r)) a rs = Min (insert a (r_ttl ` set rs))" for a
  proof (induction rs arbitrary: a)
    case (Cons r rs)
    then show ?case by (cases "rs = []") (simp_all add: min.assoc)
  qed simp
  ultimately have "min_ttl rs = Min (insert (r_ttl (hd rs)) (r_ttl ` set rs))" by (simp only: min_ttl_def)
  also have "insert (r_ttl (hd rs)) (r_ttl ` set rs) = r_ttl ` set rs" using assms by auto
  finally show ?thesis .
qed

lemma positive_ttl_lifetime:
  assumes "rs \<noteq> []"
  shows "positive_ttl m ttlCap rs = lifetime m ttlCap (r_ttl ` set rs)"
proof -
  define t where "t = min_ttl rs"
  have "lifetime m ttlCap (r_ttl ` set rs) = min m (if 0 < ttlCap then min ttlCap t else t)"
    using assms by (simp add: lifetime_def t_def min_ttl_Min)
  then show ?thesis by (simp add: positive_ttl_def t_def [symmetric] Let_def min_def)
qed

text \<open>The cache holds a part of what the specification knows; \<open>whole\<close> says that no live answer is missing.\<close>

definition represents :: "dns_cache \<Rightarrow> cache_spec \<Rightarrow> bool" where
  "represents c s \<longleftrightarrow> maxTtl c = s_max s \<and> maxNegTtl c = s_negative_max s \<and> map_of (c_entries c) \<subseteq>\<^sub>m s_answer s"

definition whole :: "int \<Rightarrow> dns_cache \<Rightarrow> cache_spec \<Rightarrow> bool" where
  "whole now c s \<longleftrightarrow> (\<forall>k e. s_answer s k = Some e \<and> now < expiresAt e \<longrightarrow> map_of (c_entries c) k = Some e)"

lemma represents_evict:
  assumes "represents c s" "cache_ok c \<or> sorted_wrt (<) (map fst (c_entries c))"
  shows "represents (evictIfOversized now c) s"
proof -
  have "sorted_wrt (<) (map fst (c_entries c))" using assms(2) by (auto simp: cache_ok_def)
  then have "map_of (c_entries (evictIfOversized now c)) \<subseteq>\<^sub>m map_of (c_entries c)"
    by (intro map_of_part evict_part)
  then show ?thesis using assms(1) by (auto simp: represents_def intro: map_le_trans)
qed

lemma represents_store:
  assumes "represents c s" "cache_ok c" "s' = s\<lparr>s_answer := (s_answer s)(k \<mapsto> e)\<rparr>"
  shows "represents (store now k e c) s'"
  unfolding store_def
proof (rule represents_evict)
  show "represents (c\<lparr>c_entries := map_assign k e (c_entries c)\<rparr>) s'"
    using assms by (auto simp: represents_def map_le_def)
  show "cache_ok (c\<lparr>c_entries := map_assign k e (c_entries c)\<rparr>) \<or>
      sorted_wrt (<) (map fst (c_entries (c\<lparr>c_entries := map_assign k e (c_entries c)\<rparr>)))"
    using assms(2) by (simp add: cache_ok_def map_assign_sorted)
qed

text \<open>One answer, kept or not, on both sides.\<close>

lemma represents_answer:
  assumes "represents c s" "cache_ok c" "e = e0\<lparr>expiresAt := now + life\<rparr>"
  shows "represents (if life \<le> 0 then c else store now' k e c) (spec_answer k now life e0 s)"
  using assms by (auto simp: spec_answer_def intro!: represents_store)

lemma represents_step:
  assumes "represents c s" "cache_ok c"
  shows "represents (cache_step op c) (spec_step op s)"
proof (cases op)
  case (CGet now name ty kl)
  have "map_of (filter (\<lambda>p. fst p \<noteq> k) (c_entries c)) \<subseteq>\<^sub>m map_of (c_entries c)" for k
    using assms(2) by (intro map_of_part) (auto simp: cache_ok_def sorted_wrt_map sorted_wrt_filter)
  then show ?thesis
    using assms(1) CGet by (auto simp: cache_get_def Let_def represents_def split: option.splits intro: map_le_trans)
next
  case (CPut now now' name ty kl rs ttlCap)
  have "maxTtl c = s_max s" "maxNegTtl c = s_negative_max s" using assms(1) by (simp_all add: represents_def)
  then show ?thesis
    unfolding CPut cache_step.simps spec_step.simps cache_put_def Let_def
    by (cases "rs = []") (simp_all add: negative_ttl_lifetime positive_ttl_lifetime represents_answer [OF assms])
next
  case (CPutNegative now now' name ty kl rc ttlCap)
  have "maxNegTtl c = s_negative_max s" using assms(1) by (simp add: represents_def)
  then show ?thesis
    unfolding CPutNegative cache_step.simps spec_step.simps putNegative_def Let_def
    by (simp add: negative_ttl_lifetime represents_answer [OF assms])
next
  case (CCapacity now n)
  have "represents (c\<lparr>cap := n\<rparr>) s" using assms(1) by (simp add: represents_def)
  then show ?thesis using CCapacity assms(2) by (auto simp: setCapacity_def cache_ok_def intro!: represents_evict)
qed (use assms in \<open>auto simp: represents_def setMaxTtl_def setMaxNegativeTtl_def cache_clear_def\<close>)

text \<open>While the capacity has room for every call of the history, nothing live is lost.\<close>

definition roomy :: "cache_op list \<Rightarrow> bool" where
  "roomy ops \<longleftrightarrow> length ops \<le> 4096 \<and> (\<forall>now n. CCapacity now n \<in> set ops \<longrightarrow> n = 0 \<or> length ops \<le> n)"

fun op_time :: "cache_op \<Rightarrow> int option" where
  "op_time (CGet now name ty kl) = Some now"
| "op_time op = None"

definition room :: "nat \<Rightarrow> dns_cache \<Rightarrow> bool" where
  "room n c \<longleftrightarrow> cap c = 0 \<or> length (c_entries c) + n \<le> cap c"

lemma map_of_remove: "map_of (filter (\<lambda>p. fst p \<noteq> k) es) = (map_of es)(k := None)"
  by (induction es) (auto simp: fun_eq_iff)

lemma room_evict: "room n c \<Longrightarrow> evictIfOversized now c = c"
  by (auto simp: room_def evictIfOversized_def)

lemma room_store: "room (Suc n) c \<Longrightarrow> store now k e c = c\<lparr>c_entries := map_assign k e (c_entries c)\<rparr>"
  using map_assign_length [of k e "c_entries c"] unfolding store_def by (intro room_evict [of 0]) (auto simp: room_def)

lemma whole_answer:
  assumes "whole t c s" "room (Suc n) c" "e = e0\<lparr>expiresAt := now + life\<rparr>"
  shows "whole t (if life \<le> 0 then c else store now' k e c) (spec_answer k now life e0 s)"
  using assms by (auto simp: spec_answer_def room_store whole_def)

lemma whole_step:
  assumes "whole t c s" "represents c s" "cache_ok c" "room (Suc n) c"
    and "\<And>now. op_time op = Some now \<Longrightarrow> now \<le> t" "\<And>now m. op = CCapacity now m \<Longrightarrow> room (Suc n) (c\<lparr>cap := m\<rparr>)"
  shows "whole t (cache_step op c) (spec_step op s)"
proof (cases op)
  case (CGet now name ty kl)
  then have "now \<le> t" using assms(5) by simp
  then show ?thesis using assms(1) CGet by (auto simp: cache_get_def Let_def whole_def map_of_remove split: option.splits)
next
  case (CPut now now' name ty kl rs ttlCap)
  have "maxTtl c = s_max s" "maxNegTtl c = s_negative_max s" using assms(2) by (simp_all add: represents_def)
  then show ?thesis
    unfolding CPut cache_step.simps spec_step.simps cache_put_def Let_def
    by (cases "rs = []") (simp_all add: negative_ttl_lifetime positive_ttl_lifetime whole_answer [OF assms(1,4)])
next
  case (CPutNegative now now' name ty kl rc ttlCap)
  have "maxNegTtl c = s_negative_max s" using assms(2) by (simp add: represents_def)
  then show ?thesis
    unfolding CPutNegative cache_step.simps spec_step.simps putNegative_def Let_def
    by (simp add: negative_ttl_lifetime whole_answer [OF assms(1,4)])
next
  case (CCapacity now n)
  then show ?thesis using assms(1,6) by (simp add: setCapacity_def room_evict whole_def)
qed (use assms in \<open>auto simp: whole_def setMaxTtl_def setMaxNegativeTtl_def cache_clear_def\<close>)

lemma evict_shrinks: "length (c_entries (evictIfOversized now c)) \<le> length (c_entries c)"
  using shrink_to_facts [of "cap c" "filter (\<lambda>(k, e). \<not> expiresAt e \<le> now) (c_entries c)"]
  by (auto simp: evictIfOversized_def intro: order_trans [OF _ length_filter_le])

lemma store_grows: "length (c_entries (store now k e c)) \<le> Suc (length (c_entries c))"
  using evict_shrinks [of now "c\<lparr>c_entries := map_assign k e (c_entries c)\<rparr>"] map_assign_length [of k e "c_entries c"]
  by (simp add: store_def)

lemma cache_grows: "length (c_entries (cache_step op c)) \<le> Suc (length (c_entries c))"
proof (cases op)
  case (CGet now name ty kl)
  then show ?thesis
    by (auto simp: cache_get_def Let_def split: option.splits intro!: order_trans [OF length_filter_le])
next
  case (CCapacity now n)
  then show ?thesis using evict_shrinks [of now "c\<lparr>cap := n\<rparr>"] by (simp add: setCapacity_def)
qed (auto simp: cache_put_def putNegative_def Let_def setMaxTtl_def setMaxNegativeTtl_def cache_clear_def intro: store_grows)

lemma cache_step_cap: "cap (cache_step op c) = (case op of CCapacity now n \<Rightarrow> n | _ \<Rightarrow> cap c)"
  by (cases op) (auto simp: cache_get_def cache_put_def putNegative_def store_def Let_def setCapacity_def setMaxTtl_def
      setMaxNegativeTtl_def cache_clear_def split: option.splits)

lemma room_step:
  assumes "room (Suc n) c" "\<And>now m. op = CCapacity now m \<Longrightarrow> room (Suc n) (c\<lparr>cap := m\<rparr>)"
  shows "room n (cache_step op c)"
proof -
  define c' where "c' = cache_step op c"
  have "cap c' = (case op of CCapacity now n \<Rightarrow> n | _ \<Rightarrow> cap c)" "length (c_entries c') \<le> Suc (length (c_entries c))"
    by (simp_all only: c'_def cache_step_cap cache_grows)
  then show ?thesis unfolding c'_def [symmetric] using assms by (cases op) (auto simp: room_def)
qed

lemma run_represents:
  assumes "represents c s" "cache_ok c"
  shows "represents (fold cache_step ops c) (fold spec_step ops s)"
  using assms by (induction ops arbitrary: c s) (simp_all add: represents_step cache.inv_step)

lemma run_whole:
  assumes "whole t c s" "represents c s" "cache_ok c" "room (length ops) c"
    and "\<forall>op\<in>set ops. \<forall>now. op_time op = Some now \<longrightarrow> now \<le> t" "length (c_entries c) + length ops \<le> N"
    and "\<forall>now m. CCapacity now m \<in> set ops \<longrightarrow> m = 0 \<or> N \<le> m"
  shows "whole t (fold cache_step ops c) (fold spec_step ops s)"
  using assms
proof (induction ops arbitrary: c s)
  case (Cons op ops)
  have capc: "room (Suc (length ops)) (c\<lparr>cap := m\<rparr>)" if "op = CCapacity now m" for now m
    using Cons.prems(6,7) that by (auto simp: room_def)
  have r: "room (Suc (length ops)) c" using Cons.prems(4) by simp
  have "length (c_entries (cache_step op c)) \<le> Suc (length (c_entries c))"
    by (rule cache_grows)
  then show ?case
    using Cons.IH [of "cache_step op c" "spec_step op s"] Cons.prems capc r
    by (auto simp: represents_step cache.inv_step whole_step room_step)
qed simp

text \<open>A lookup on a represented state, and on a whole one.\<close>

lemma get_promised:
  assumes "represents c s"
  shows "snd (cache_get now name ty kl c) = spec_get now (cache_key_of name ty kl) s \<or>
      snd (cache_get now name ty kl c) = miss"
proof (cases "map_of (c_entries c) (cache_key_of name ty kl)")
  case (Some e)
  then have "s_answer s (cache_key_of name ty kl) = Some e" using assms by (auto simp: represents_def map_le_def dom_def)
  with Some show ?thesis by (simp add: cache_get_def spec_get_def)
qed (simp add: cache_get_def)

lemma get_whole:
  assumes "represents c s" "whole now c s"
  shows "snd (cache_get now name ty kl c) = spec_get now (cache_key_of name ty kl) s"
proof (cases "map_of (c_entries c) (cache_key_of name ty kl)")
  case None
  then have "\<not> now < expiresAt e" if "s_answer s (cache_key_of name ty kl) = Some e" for e
    using that assms(2) by (auto simp: whole_def)
  with None show ?thesis by (auto simp: cache_get_def spec_get_def split: option.split)
next
  case (Some e)
  then have "s_answer s (cache_key_of name ty kl) = Some e" using assms(1) by (auto simp: represents_def map_le_def dom_def)
  with Some show ?thesis by (simp add: cache_get_def spec_get_def)
qed

text \<open>C8: every lookup is answered from the last answer stored under its key, as long as that has not lapsed, or
  misses. After a history that the capacity has room for, it misses only when the specification does.\<close>

theorem dns_cache_refines_last_answer:
  fixes ops now name ty kl
  defines "hit \<equiv> snd (cache_get now name ty kl (fold cache_step ops new_cache))"
    and "promised \<equiv> spec_get now (cache_key_of name ty kl) (fold spec_step ops new_spec)"
  shows "(hit = promised \<or> hit = miss) \<and>
    (roomy ops \<and> (\<forall>op\<in>set ops. \<forall>t. op_time op = Some t \<longrightarrow> t \<le> now) \<longrightarrow> hit = promised)"
proof -
  let ?c = "fold cache_step ops new_cache" and ?s = "fold spec_step ops new_spec"
  have rep: "represents new_cache new_spec" by (simp add: represents_def new_cache_def new_spec_def)
  have ok: "cache_ok new_cache" by (simp add: cache_ok_def new_cache_def)
  have r: "represents ?c ?s" by (rule run_represents [OF rep ok])
  have "whole now ?c ?s" if "roomy ops" "\<forall>op\<in>set ops. \<forall>t. op_time op = Some t \<longrightarrow> t \<le> now"
    by (rule run_whole [OF _ rep ok _ that(2), where N = "length ops"])
      (use that(1) in \<open>auto simp: whole_def new_spec_def new_cache_def room_def roomy_def\<close>)
  then show ?thesis
    unfolding hit_def promised_def using get_promised [OF r] get_whole [OF r] by blast
qed

text \<open>An answer for the one name is served for the other when they differ only in a dot inside a label: the key of
  an entry is the canonical name, which drops the escapes.\<close>

lemma canonical_drops_escape:
  "cache_key_of (Latin1 [0x61, 0x5C, 0x2E, 0x62, 0x2E]) ty kl = cache_key_of (Latin1 [0x61, 0x2E, 0x62, 0x2E]) ty kl"
  by (simp add: cache_key_of_def dnsCanonicalName_def dnsSplitName_def suffix_key_def is_digit_def asciiLower_def Let_def)

text \<open>An answer cached for the two-label name \<open>a.b.\<close> is served for the one-label name \<open>a\.b.\<close>, whose dot is part
  of the label, though the two names are different.\<close>

theorem dns_cache_confuses_dotted_label:
  fixes ty :: u16
  assumes "rs \<noteq> []" "0 < lifetime (fromSeconds 3600) 0 (r_ttl ` set rs)"
  defines "c \<equiv> cache_put 0 0 (Latin1 [0x61, 0x2E, 0x62, 0x2E]) ty 1 rs 0 new_cache"
  shows "snd (cache_get 0 (Latin1 [0x61, 0x5C, 0x2E, 0x62, 0x2E]) ty 1 c) =
      \<lparr>h_found = True, h_negative = False, h_rcode = 0, h_records = rs\<rparr> \<and>
    dnsSplitName (Latin1 [0x61, 0x5C, 0x2E, 0x62, 0x2E]) \<noteq> dnsSplitName (Latin1 [0x61, 0x2E, 0x62, 0x2E])"
proof -
  have p: "positive_ttl (fromSeconds 3600) 0 rs = lifetime (fromSeconds 3600) 0 (r_ttl ` set rs)"
    using assms(1) by (rule positive_ttl_lifetime)
  have "snd (cache_get 0 (Latin1 [0x61, 0x5C, 0x2E, 0x62, 0x2E]) ty 1 c) =
      \<lparr>h_found = True, h_negative = False, h_rcode = 0, h_records = rs\<rparr>"
    using assms(1,2) p
    by (simp add: c_def cache_put_def cache_get_def canonical_drops_escape store_def new_cache_def evictIfOversized_def
        hit_of_def Let_def)
  moreover have "dnsSplitName (Latin1 [0x61, 0x5C, 0x2E, 0x62, 0x2E]) = [[0x61, 0x2E, 0x62]]"
    "dnsSplitName (Latin1 [0x61, 0x2E, 0x62, 0x2E]) = [[0x61], [0x62]]"
    by (simp_all add: dnsSplitName_def is_digit_def Let_def)
  ultimately show ?thesis by simp
qed

theorem dns_cache_confuses_dotted_label_witness:
  "snd (cache_get 0 (Latin1 [0x61, 0x5C, 0x2E, 0x62, 0x2E]) 1 1
      (cache_put 0 0 (Latin1 [0x61, 0x2E, 0x62, 0x2E]) 1 1 [new_record\<lparr>r_ttl := fromSeconds 60\<rparr>] 0 new_cache)) =
    \<lparr>h_found = True, h_negative = False, h_rcode = 0, h_records = [new_record\<lparr>r_ttl := fromSeconds 60\<rparr>]\<rparr>"
  using dns_cache_confuses_dotted_label [of "[new_record\<lparr>r_ttl := fromSeconds 60\<rparr>]" 1]
  by (simp add: lifetime_def fromSeconds_def)

theorem dns_cache_evicts_soonest_witness:
  "\<exists>c. length (c_entries (evictIfOversized 0 c)) = 1 \<and> fst (hd (c_entries (evictIfOversized 0 c))) = Key [] 2 1"
proof -
  define e where "e = (\<lambda>t. \<lparr>expiresAt = t, negative = True, c_rcode = 0, c_records = []\<rparr>)"
  define c where "c = new_cache\<lparr>cap := 1, c_entries := [(Key [] 1 1, e 5), (Key [] 2 1, e 9)]\<rparr>"
  have c: "cap c \<noteq> 0" "cap c < length (c_entries c)" by (simp_all add: c_def)
  let ?k = "c_entries (evictIfOversized 0 c)"
  have k: "length ?k = 1" "\<forall>p\<in>set (c_entries c). \<forall>q\<in>set ?k. p \<notin> set ?k \<longrightarrow> expiresAt (snd p) \<le> expiresAt (snd q)"
    using dns_cache_evicts_soonest [OF c, of 0] by (auto simp: c_def e_def)
  obtain q where q: "?k = [q]" using k(1) by (auto simp: length_Suc_conv)
  have "q \<in> set (c_entries c)" using evict_part(1) [of 0 c] q by auto
  then have "q = (Key [] 2 1, e 9)" using k(2) q by (auto simp: c_def e_def)
  then show ?thesis using q by (intro exI [of _ c]) simp
qed

theorem dns_cache_refines_last_answer_witness:
  "h_found (snd (cache_get 1 (Latin1 [0x61, 0x2E]) 1 1
     (fold cache_step [CPut 0 0 (Latin1 [0x61, 0x2E]) 1 1 [new_record\<lparr>r_ttl := fromSeconds 60\<rparr>] 0] new_cache)))"
  using dns_cache_refines_last_answer [of 1 "Latin1 [0x61, 0x2E]" 1 1
      "[CPut 0 0 (Latin1 [0x61, 0x2E]) 1 1 [new_record\<lparr>r_ttl := fromSeconds 60\<rparr>] 0]"]
  by (simp add: roomy_def spec_get_def spec_answer_def new_spec_def lifetime_def fromSeconds_def hit_of_def)

end
