(* ===== verification/FlvTag.thy ===== *)
theory FlvTag
  imports Amf0
begin

text \<open>
  \<open>src/proav/flvtag.cpp\<close>: the bodies of FLV video, audio and script tags as RTMP messages carry them, in the legacy
  and the enhanced layout. A buffer view is the list of its slices. \<open>pack\<close> is the bytes it appended and the error it
  stopped at, as in \<open>Amf0\<close>.
\<close>

section \<open>Video\<close>

record video_tag =
  v_frameType :: byte
  v_codec :: byte
  v_packetType :: byte
  v_cto :: u32
  v_data :: "byte list"

definition new_video_tag :: video_tag where
  "new_video_tag = \<lparr>v_frameType = 2, v_codec = 7, v_packetType = 1, v_cto = 0, v_data = []\<rparr>"

definition enhancedCodecFourCc :: "byte \<Rightarrow> u32" where
  "enhancedCodecFourCc c =
     (if c = 100 then 0x68766331 else if c = 101 then 0x76703039 else if c = 102 then 0x61763031 else 0)"

definition fourCcToEnhancedCodec :: "u32 \<Rightarrow> byte" where
  "fourCcToEnhancedCodec f =
     (if f = 0x68766331 then 100 else if f = 0x76703039 then 101 else if f = 0x61763031 then 102 else 0)"

definition isEnhancedCodec :: "byte \<Rightarrow> bool" where
  "isEnhancedCodec c \<longleftrightarrow> c = 100 \<or> c = 101 \<or> c = 102"

definition avcPacketTypeToExPacketType :: "byte \<Rightarrow> byte" where
  "avcPacketTypeToExPacketType pt = (if pt = 0 then 0 else if pt = 1 then 1 else if pt = 2 then 2 else 1)"

text \<open>The packet type and whether a composition time follows.\<close>

definition exPacketTypeToAvcPacketType :: "byte \<Rightarrow> (byte \<times> bool) result" where
  "exPacketTypeToAvcPacketType x =
     (if x = 0 then Inr (0, False) else if x = 1 then Inr (1, True) else if x = 2 then Inr (2, False)
      else if x = 3 then Inr (1, False) else Inl NotSupported)"

definition cto_field :: "u32 \<Rightarrow> written" where
  "cto_field cto =
     (if 0x7FFFFF < sint cto \<or> sint cto < - 0x800000 then ([], OutOfRange) else put (be24 (cto AND 0xFFFFFF)))"

definition read_cto :: "byte list \<Rightarrow> u32" where
  "read_cto d =
     (let raw = rd24 (d ! 0) (d ! 1) (d ! 2) in if raw AND 0x800000 \<noteq> 0 then raw OR 0xFF000000 else raw)"

definition video_pack :: "video_tag \<Rightarrow> written" where
  "video_pack t =
     (if isEnhancedCodec (v_codec t) then
        if v_frameType t AND NOT 0x07 \<noteq> 0 then ([], OutOfRange)
        else andThen (put [0x80 OR push_bit 3 (avcPacketTypeToExPacketType (v_packetType t) AND 0x0F) OR (v_frameType t AND 0x07)])
             (andThen (put (be32 (enhancedCodecFourCc (v_codec t))))
               (andThen (if v_packetType t = 1 then cto_field (v_cto t) else put []) (put (v_data t))))
      else if v_frameType t AND NOT 0x0F \<noteq> 0 then ([], OutOfRange)
      else if v_codec t AND NOT 0x0F \<noteq> 0 then ([], OutOfRange)
      else andThen (put [push_bit 4 (v_frameType t AND 0x0F) OR (v_codec t AND 0x0F)])
             (andThen (if v_codec t = 7 then andThen (put [v_packetType t]) (cto_field (v_cto t)) else put [])
               (put (v_data t))))"

definition video_unpack :: "byte list list \<Rightarrow> video_tag result" where
  "video_unpack slices =
     (if 1 < length slices then Inl NotSupported
      else let d = concat slices in
        if length d < 1 then Inl OutOfRange
        else let b0 = d ! 0 in
          if b0 AND 0x80 \<noteq> 0 then
            let exPt = drop_bit 3 b0 AND 0x0F; ft = b0 AND 0x07 in
            if length d < 1 + 4 then Inl OutOfRange
            else let cd = fourCcToEnhancedCodec (rd32 (d ! 1) (d ! 2) (d ! 3) (d ! 4)) in
              if cd = 0 then Inl NotSupported
              else (case exPacketTypeToAvcPacketType exPt of
                  Inl e \<Rightarrow> Inl e
                | Inr (pt, hasCto) \<Rightarrow>
                    if hasCto then
                      if length d < 5 + 3 then Inl OutOfRange
                      else Inr \<lparr>v_frameType = ft, v_codec = cd, v_packetType = pt, v_cto = read_cto (drop 5 d), v_data = drop 8 d\<rparr>
                    else Inr \<lparr>v_frameType = ft, v_codec = cd, v_packetType = pt, v_cto = 0, v_data = drop 5 d\<rparr>)
          else
            let ft = drop_bit 4 b0 AND 0x0F; cd = b0 AND 0x0F; tag = new_video_tag\<lparr>v_frameType := ft, v_codec := cd\<rparr> in
            if cd = 7 then
              if length d < 1 + 4 then Inl OutOfRange
              else Inr (tag\<lparr>v_packetType := d ! 1, v_cto := read_cto (drop 2 d), v_data := drop 5 d\<rparr>)
            else Inr (tag\<lparr>v_data := drop 1 d\<rparr>))"

section \<open>Audio\<close>

record audio_tag =
  a_format :: byte
  a_rate :: byte
  a_size :: byte
  a_channelType :: byte
  a_aacPacketType :: byte
  a_data :: "byte list"

definition new_audio_tag :: audio_tag where
  "new_audio_tag = \<lparr>a_format = 10, a_rate = 3, a_size = 1, a_channelType = 1, a_aacPacketType = 1, a_data = []\<rparr>"

definition audio_pack :: "audio_tag \<Rightarrow> written" where
  "audio_pack t =
     (if a_format t AND NOT 0x0F \<noteq> 0 then ([], OutOfRange)
      else andThen (put [push_bit 4 (a_format t AND 0x0F) OR push_bit 2 (a_rate t AND 0x03) OR push_bit 1 (a_size t AND 0x01)
               OR (a_channelType t AND 0x01)])
             (andThen (if a_format t = 10 then put [a_aacPacketType t] else put []) (put (a_data t))))"

definition audio_unpack :: "byte list list \<Rightarrow> audio_tag result" where
  "audio_unpack slices =
     (if 1 < length slices then Inl NotSupported
      else let d = concat slices in
        if length d < 1 then Inl OutOfRange
        else let b = d ! 0;
                 tag = new_audio_tag\<lparr>a_format := drop_bit 4 b AND 0x0F, a_rate := drop_bit 2 b AND 0x03,
                   a_size := drop_bit 1 b AND 0x01, a_channelType := b AND 0x01\<rparr> in
          if a_format tag = 10 then
            if length d < 2 then Inl OutOfRange
            else Inr (tag\<lparr>a_aacPacketType := d ! 1, a_data := drop 2 d\<rparr>)
          else Inr (tag\<lparr>a_data := drop 1 d\<rparr>))"

section \<open>Script\<close>

record script_tag =
  sc_name :: "byte list"
  sc_body :: amf

definition script_pack :: "script_tag \<Rightarrow> written" where
  "script_pack t = andThen (writeString (sc_name t)) (writeValue (sc_body t))"

definition amf_read_view :: "byte list list \<Rightarrow> amf list \<times> error" where
  "amf_read_view slices =
     (if 1 < length slices then ([], NotSupported)
      else if concat slices = [] then ([], Ok)
      else amf_read received_text (concat slices))"

definition script_unpack :: "byte list list \<Rightarrow> script_tag result" where
  "script_unpack slices =
     (case amf_read_view slices of (vals, e) \<Rightarrow>
        if e \<noteq> Ok then Inl e
        else if length vals < 2 then Inl CorruptData
        else (case vals ! 0 of String s \<Rightarrow> Inr \<lparr>sc_name = s, sc_body = vals ! 1\<rparr> | _ \<Rightarrow> Inl CorruptData))"

section \<open>Round trips\<close>

text \<open>What the receiver makes of a tag: the fields the layout carries, the others as a fresh tag has them.\<close>

definition received_video :: "video_tag \<Rightarrow> video_tag" where
  "received_video t =
     (if isEnhancedCodec (v_codec t) then (if v_packetType t = 1 then t else t\<lparr>v_cto := 0\<rparr>)
      else if v_codec t = 7 then t else t\<lparr>v_packetType := 1, v_cto := 0\<rparr>)"

definition received_audio :: "audio_tag \<Rightarrow> audio_tag" where
  "received_audio t =
     t\<lparr>a_rate := a_rate t AND 0x03, a_size := a_size t AND 0x01, a_channelType := a_channelType t AND 0x01,
       a_aacPacketType := (if a_format t = 10 then a_aacPacketType t else 1)\<rparr>"

lemma sint_range_bits:
  fixes w :: u32
  assumes "- 0x800000 \<le> sint w" "sint w \<le> 0x7FFFFF" "23 \<le> n" "n < 32"
  shows "bit w n \<longleftrightarrow> bit w 23"
proof -
  have s: "signed_take_bit 23 (sint w) = sint w" using assms(1,2) by (intro signed_take_bit_int_eq_self) simp_all
  have "bit w m \<longleftrightarrow> bit (sint w) m" if "m < 32" for m using that by (simp add: bit_sint_iff min_def)
  moreover have "bit (sint w) n \<longleftrightarrow> bit (sint w) 23"
    using arg_cong [OF s, of "\<lambda>k. bit k n"] assms(3) by (simp add: bit_signed_take_bit_iff min_def)
  ultimately show ?thesis using assms(4) by simp
qed

lemma low24: "(w :: u32) AND 0xFFFFFF = take_bit 24 w"
  by (simp add: take_bit_eq_mask mask_eq_exp_minus_1)

lemma high8: "(0xFF000000 :: u32) = NOT (mask 24)"
  by (simp add: mask_eq_exp_minus_1)

lemma read_cto_field:
  assumes "- 0x800000 \<le> sint cto" "sint cto \<le> 0x7FFFFF"
  shows "read_cto (be24 (cto AND 0xFFFFFF) @ d) = cto"
proof -
  have lt: "take_bit 24 cto < 2 ^ 24" unfolding take_bit_eq_mask by (rule and_mask_less') simp
  have raw: "rd24 ((be24 (take_bit 24 cto) @ d) ! 0) ((be24 (take_bit 24 cto) @ d) ! 1) ((be24 (take_bit 24 cto) @ d) ! 2) =
      take_bit 24 cto"
    using rd24_split [OF lt] by (simp add: be24_def)
  have bits: "bit cto n \<longleftrightarrow> bit cto 23" if "24 \<le> n" "n < 32" for n using sint_range_bits [OF assms, of n] that by simp
  have sgn: "take_bit 24 cto AND 0x800000 \<noteq> 0 \<longleftrightarrow> bit cto 23"
    using and_exp_eq_0_iff_not_bit [of "take_bit 24 cto" 23] by (simp add: bit_take_bit_iff)
  have "(if bit cto 23 then take_bit 24 cto OR NOT (mask 24) else take_bit 24 cto) = cto"
    by (rule bit_word_eqI) (auto simp: bit_simps bits not_less dest: bits [THEN iffD1, rotated 2])
  then show ?thesis unfolding read_cto_def low24 raw Let_def sgn high8 .
qed

lemma cto_field_Ok:
  "snd (cto_field c) = Ok \<longleftrightarrow> - 0x800000 \<le> sint c \<and> sint c \<le> 0x7FFFFF"
  "snd (cto_field c) = Ok \<Longrightarrow> fst (cto_field c) = be24 (c AND 0xFFFFFF)"
  by (auto simp: cto_field_def)

lemma outside_mask:
  assumes "(b :: byte) AND NOT m = 0" "\<not> bit m n" "n < 8"
  shows "\<not> bit b n"
proof -
  have "\<not> bit (b AND NOT m) n" by (simp add: assms(1))
  then show ?thesis using assms(2,3) by (simp add: bit_and_iff bit_not_iff)
qed

text \<open>The header bytes, taken apart again.\<close>

lemma ex_header:
  fixes p f :: byte
  assumes "p < 2 ^ 4" "f AND NOT 7 = 0"
  defines "h \<equiv> 0x80 OR push_bit 3 (p AND 0x0F) OR (f AND 7)"
  shows "h AND 0x80 \<noteq> 0" "drop_bit 3 h AND 0x0F = p" "h AND 7 = f"
proof -
  note p = word_less_exp_bit [OF assms(1)] and f = outside_mask [OF assms(2)]
  show "h AND 0x80 \<noteq> 0" by (simp add: h_def byte_bits bit_simps)
  show "drop_bit 3 h AND 0x0F = p" by (rule bit_byte_eqI) (simp_all add: h_def bit_simps p f)
  show "h AND 7 = f" by (rule bit_byte_eqI) (simp_all add: h_def bit_simps f)
qed

lemma legacy_header:
  fixes f c :: byte
  assumes "f < 2 ^ 3" "c AND NOT 0x0F = 0"
  defines "h \<equiv> push_bit 4 (f AND 0x0F) OR (c AND 0x0F)"
  shows "h AND 0x80 = 0" "drop_bit 4 h AND 0x0F = f" "h AND 0x0F = c"
proof -
  note f = word_less_exp_bit [OF assms(1)] and c = outside_mask [OF assms(2)]
  show "h AND 0x80 = 0" by (simp add: h_def byte_bits bit_simps f)
  show "drop_bit 4 h AND 0x0F = f" by (rule bit_byte_eqI) (simp_all add: h_def bit_simps f)
  show "h AND 0x0F = c" by (rule bit_byte_eqI) (simp_all add: h_def bit_simps c)
qed

lemma audio_header:
  fixes f r s c :: byte
  assumes "f AND NOT 0x0F = 0"
  defines "h \<equiv> push_bit 4 (f AND 0x0F) OR push_bit 2 (r AND 0x03) OR push_bit 1 (s AND 0x01) OR (c AND 0x01)"
  shows "drop_bit 4 h AND 0x0F = f" "drop_bit 2 h AND 0x03 = r AND 0x03" "drop_bit 1 h AND 0x01 = s AND 0x01"
    "h AND 0x01 = c AND 0x01"
proof -
  note f = outside_mask [OF assms(1)]
  show "drop_bit 4 h AND 0x0F = f" by (rule bit_byte_eqI) (simp_all add: h_def bit_simps f)
  show "drop_bit 2 h AND 0x03 = r AND 0x03" by (rule bit_byte_eqI) (simp_all add: h_def bit_simps)
  show "drop_bit 1 h AND 0x01 = s AND 0x01"
    by (rule bit_byte_eqI) (simp_all add: h_def bit_simps mult.commute [of s 2] bit_double_iff)
  show "h AND 0x01 = c AND 0x01" by (rule bit_byte_eqI) (simp_all add: h_def bit_simps)
qed


section \<open>Round trips of whole tags\<close>

lemma fourCc_roundtrip: "isEnhancedCodec c \<Longrightarrow> fourCcToEnhancedCodec (enhancedCodecFourCc c) = c \<and> c \<noteq> 0"
  by (auto simp: isEnhancedCodec_def fourCcToEnhancedCodec_def enhancedCodecFourCc_def)

lemma rd32_be32: "rd32 ((be32 w @ d) ! 0) ((be32 w @ d) ! 1) ((be32 w @ d) ! 2) ((be32 w @ d) ! 3) = w"
  by (simp add: be32_def be_simps)

lemma video_enhanced_read:
  assumes "snd (video_pack t) = Ok" "isEnhancedCodec (v_codec t)" "v_packetType t \<in> {0, 1, 2}"
  shows "video_unpack [fst (video_pack t)] = Inr (received_video t)"
proof -
  let ?p = "v_packetType t" and ?f = "v_frameType t"
  define h where "h = 0x80 OR push_bit 3 (?p AND 0x0F) OR (?f AND 7)"
  have f: "?f AND NOT 7 = 0" using assms(1,2) by (auto simp: video_pack_def split: if_splits)
  have p: "?p < 2 ^ 4" "avcPacketTypeToExPacketType ?p = ?p"
    using assms(3) by (auto simp: avcPacketTypeToExPacketType_def)
  note hdr = ex_header [OF p(1) f, folded h_def]
  define cto where "cto = (if ?p = 1 then be24 (v_cto t AND 0xFFFFFF) else [])"
  have w: "fst (video_pack t) = h # be32 (enhancedCodecFourCc (v_codec t)) @ cto @ v_data t"
    using assms(1,2) f cto_field_Ok by (auto simp: video_pack_def h_def p(2) cto_def fst_andThen)
  have cto_ok: "?p = 1 \<longrightarrow> read_cto (cto @ v_data t) = v_cto t"
    using assms(1,2) f cto_field_Ok(1) read_cto_field by (auto simp: video_pack_def cto_def)
  have fcc: "fourCcToEnhancedCodec (rd32 (fst (video_pack t) ! 1) (fst (video_pack t) ! 2) (fst (video_pack t) ! 3)
      (fst (video_pack t) ! 4)) = v_codec t" "v_codec t \<noteq> 0"
    using rd32_be32 [of "enhancedCodecFourCc (v_codec t)" "cto @ v_data t"] fourCc_roundtrip [OF assms(2)] by (simp_all add: w)
  have dr: "drop 5 (fst (video_pack t)) = cto @ v_data t" "fst (video_pack t) ! 0 = h"
    "drop 8 (fst (video_pack t)) = drop 3 (cto @ v_data t)" "length (fst (video_pack t)) = 5 + length cto + length (v_data t)"
    by (simp_all add: w)
  have lc: "?p = 1 \<Longrightarrow> length cto = 3" by (simp add: cto_def)
  have nc: "?p \<noteq> 1 \<Longrightarrow> cto = []" by (simp add: cto_def)
  show ?thesis
    unfolding video_unpack_def Let_def concat.simps append_Nil2 dr(2) hdr fcc(1)
    using assms(2,3) fcc(2) lc nc cto_ok hdr(1)
    by (auto simp: dr exPacketTypeToAvcPacketType_def received_video_def)
qed

lemma video_legacy_read:
  assumes "snd (video_pack t) = Ok" "\<not> isEnhancedCodec (v_codec t)" "v_frameType t < 2 ^ 3"
  shows "video_unpack [fst (video_pack t)] = Inr (received_video t)"
proof -
  let ?f = "v_frameType t" and ?c = "v_codec t"
  define h where "h = push_bit 4 (?f AND 0x0F) OR (?c AND 0x0F)"
  have fc: "?f AND NOT 0x0F = 0" "?c AND NOT 0x0F = 0" using assms(1,2) by (auto simp: video_pack_def split: if_splits)
  note hdr = legacy_header [OF assms(3) fc(2), folded h_def]
  define sub where "sub = (if ?c = 7 then v_packetType t # be24 (v_cto t AND 0xFFFFFF) else [])"
  have w: "fst (video_pack t) = h # sub @ v_data t"
    using assms(1,2) fc cto_field_Ok by (auto simp: video_pack_def h_def sub_def fst_andThen)
  have cto: "?c = 7 \<longrightarrow> read_cto (tl (sub @ v_data t)) = v_cto t"
    using assms(1,2) fc cto_field_Ok(1) read_cto_field by (auto simp: video_pack_def sub_def)
  have sub: "?c = 7 \<Longrightarrow> length sub = 4 \<and> hd (sub @ v_data t) = v_packetType t" "?c \<noteq> 7 \<Longrightarrow> sub = []"
    by (simp_all add: sub_def)
  have dr: "fst (video_pack t) ! 0 = h" "drop 5 (fst (video_pack t)) = drop 4 (sub @ v_data t)"
    "drop 2 (fst (video_pack t)) = tl (sub @ v_data t)" "drop 1 (fst (video_pack t)) = sub @ v_data t"
    "fst (video_pack t) ! 1 = (sub @ v_data t) ! 0" "length (fst (video_pack t)) = Suc (length sub + length (v_data t))"
    by (simp_all add: w drop_Suc numeral_2_eq_2 del: drop_append)
  show ?thesis
    unfolding video_unpack_def Let_def concat.simps append_Nil2 dr(1) hdr
    using assms(2) sub cto
    by (cases "?c = 7") (auto simp: dr dr(4,5) [unfolded One_nat_def] received_video_def new_video_tag_def sub_def
        intro: video_tag.equality)
qed

lemma audio_read:
  assumes "snd (audio_pack t) = Ok"
  shows "audio_unpack [fst (audio_pack t)] = Inr (received_audio t)"
proof -
  define h where "h = push_bit 4 (a_format t AND 0x0F) OR push_bit 2 (a_rate t AND 0x03) OR push_bit 1 (a_size t AND 0x01) OR
    (a_channelType t AND 0x01)"
  have f: "a_format t AND NOT 0x0F = 0" using assms by (auto simp: audio_pack_def split: if_splits)
  note hdr = audio_header [OF f, of "a_rate t" "a_size t" "a_channelType t", folded h_def]
  have w: "fst (audio_pack t) = h # (if a_format t = 10 then [a_aacPacketType t] else []) @ a_data t"
    using assms f by (auto simp: audio_pack_def h_def fst_andThen)
  show ?thesis
    unfolding audio_unpack_def Let_def concat.simps append_Nil2 w nth_Cons_0 hdr
    by (simp add: received_audio_def new_audio_tag_def)
qed

lemma script_read:
  assumes "length (sc_name t) \<le> 0xFFFFFFFF" "wf_amf received_text (sc_body t)"
  shows "script_unpack [fst (script_pack t)] = Inr t"
proof -
  let ?vs = "[String (sc_name t), sc_body t]"
  have wf: "\<forall>v\<in>set ?vs. wf_amf received_text v" using assms by (simp add: received_text_id)
  have ok: "snd (writeString (sc_name t)) = Ok"
    using write_read(1) [of received_text "String (sc_name t)"] wf by (simp add: reads_back_def)
  then have w: "fst (script_pack t) = concat (map (\<lambda>v. fst (writeValue v)) ?vs)" by (simp add: script_pack_def fst_andThen)
  have "dec_all (readOne received_text) (length (fst (script_pack t))) (fst (script_pack t)) = Inr ?vs"
    unfolding w by (rule amf0.dec_all_concat [OF wf amf0.length_concat_ge [OF wf]])
  then have "amf_read received_text (fst (script_pack t)) = (?vs, Ok)"
    unfolding amf_read_def by (rule read_loop_dec_all)
  moreover have "fst (script_pack t) \<noteq> []"
    using amf0.penc_nonempty [of received_text "String (sc_name t)"] wf unfolding w by simp
  ultimately show ?thesis by (simp add: script_unpack_def amf_read_view_def)
qed

text \<open>C33: what a publisher packs, a player unpacks. A video tag the packer accepts, with a packet type of the
  enumeration and a frame type below 8, a sound tag and a script tag are read back with every field their layout
  carries; the others are as in a fresh tag.\<close>

theorem flv_tags_roundtrip:
  "(snd (video_pack v) = Ok \<and> v_packetType v \<in> {0, 1, 2} \<and> v_frameType v < 8 \<longrightarrow>
      video_unpack [fst (video_pack v)] = Inr (received_video v)) \<and>
   (snd (audio_pack a) = Ok \<longrightarrow> audio_unpack [fst (audio_pack a)] = Inr (received_audio a)) \<and>
   (length (sc_name s) \<le> 0xFFFFFFFF \<and> wf_amf received_text (sc_body s) \<longrightarrow> script_unpack [fst (script_pack s)] = Inr s)"
  using video_enhanced_read [of v] video_legacy_read [of v] audio_read [of a] script_read [of s]
  by (cases "isEnhancedCodec (v_codec v)") simp_all

theorem flv_tags_roundtrip_witness:
  "video_unpack [fst (video_pack (new_video_tag\<lparr>v_codec := 100, v_cto := - 40, v_data := [1, 2]\<rparr>))] =
     Inr (new_video_tag\<lparr>v_codec := 100, v_cto := - 40, v_data := [1, 2]\<rparr>) \<and>
   audio_unpack [fst (audio_pack (new_audio_tag\<lparr>a_data := [9]\<rparr>))] = Inr (new_audio_tag\<lparr>a_data := [9]\<rparr>) \<and>
   script_unpack [fst (script_pack \<lparr>sc_name = [0x61], sc_body = Null\<rparr>)] = Inr \<lparr>sc_name = [0x61], sc_body = Null\<rparr>"
  using flv_tags_roundtrip [of "new_video_tag\<lparr>v_codec := 100, v_cto := - 40, v_data := [1, 2]\<rparr>"
      "new_audio_tag\<lparr>a_data := [9]\<rparr>" "\<lparr>sc_name = [0x61], sc_body = Null\<rparr>"]
  by (simp add: video_pack_def audio_pack_def new_video_tag_def new_audio_tag_def isEnhancedCodec_def cto_field_Ok
      received_video_def received_audio_def)

text \<open>A legacy frame type of 8 or more passes the packer's check, but its top bit is the mark of the enhanced layout.\<close>

lemma legacy_frame_type_overlap:
  "video_pack (new_video_tag\<lparr>v_frameType := 8, v_codec := 2\<rparr>) = ([0x82], Ok)"
  "video_unpack [[0x82]] = Inl OutOfRange"
  by (simp_all add: video_pack_def video_unpack_def new_video_tag_def isEnhancedCodec_def andThen_def put_def)

end
