(* ===== verification/RtpClock.thy ===== *)
theory RtpClock
  imports Prelude "HOL-Library.Signed_Division"
begin

text \<open>
  \<open>ntptime.h\<close> and \<open>src/network/rtpstreamclock.cpp\<close>: NTP timestamps and the map between the RTP timestamps of a
  stream and wall clock time, anchored at one sender report. Clock readings are arguments.
\<close>

unbundle bit_operations_syntax

section \<open>NTP timestamps\<close>

record ntp_time =
  ntp_seconds :: u32
  ntp_fraction :: u32

definition ntp_zero :: ntp_time where
  "ntp_zero = \<lparr>ntp_seconds = 0, ntp_fraction = 0\<rparr>"

definition toUint64 :: "ntp_time \<Rightarrow> u64" where
  "toUint64 t = push_bit 32 (ucast (ntp_seconds t)) OR ucast (ntp_fraction t)"

definition from_packed :: "u64 \<Rightarrow> ntp_time" where
  "from_packed w = \<lparr>ntp_seconds = ucast (drop_bit 32 w), ntp_fraction = ucast w\<rparr>"

definition toCompact32 :: "ntp_time \<Rightarrow> u32" where
  "toCompact32 t = push_bit 16 (ntp_seconds t AND 0xFFFF) OR drop_bit 16 (ntp_fraction t)"

definition ntp_isValid :: "ntp_time \<Rightarrow> bool" where
  "ntp_isValid t \<longleftrightarrow> ntp_seconds t \<noteq> 0 \<or> ntp_fraction t \<noteq> 0"

text \<open>Nanoseconds since 1970, and an offset in nanoseconds.\<close>

definition fromSystemClock :: "int \<Rightarrow> ntp_time" where
  "fromSystemClock ns =
     (if ns < 0 then ntp_zero
      else let total = word_of_int ns + 2208988800 * 1000000000 :: u64;
               secs = total div 1000000000; rem = total mod 1000000000
           in \<lparr>ntp_seconds = ucast (secs AND 0xFFFFFFFF), ntp_fraction = ucast ((push_bit 32 rem div 1000000000) AND 0xFFFFFFFF)\<rparr>)"

definition ntp_plus :: "ntp_time \<Rightarrow> int \<Rightarrow> ntp_time" where
  "ntp_plus t ns =
     (let whole = ns sdiv 1000000000; sub = ns smod 1000000000; frac = (sub * 2 ^ 32) sdiv 1000000000;
          delta = push_bit 32 (word_of_int whole) + word_of_int frac :: u64
      in from_packed (toUint64 t + delta))"

definition ntp_minus :: "ntp_time \<Rightarrow> int \<Rightarrow> ntp_time" where
  "ntp_minus t ns = ntp_plus t (- ns)"

section \<open>The stream clock\<close>

record stream_clock =
  srNtp :: ntp_time
  srRtpTs :: u32
  clockRate :: u32
  clock_valid :: bool

definition default_clock :: stream_clock where
  "default_clock = \<lparr>srNtp = ntp_zero, srRtpTs = 0, clockRate = 0, clock_valid = False\<rparr>"

definition new_clock :: "ntp_time \<Rightarrow> u32 \<Rightarrow> u32 \<Rightarrow> stream_clock" where
  "new_clock t ts rate = \<lparr>srNtp = t, srRtpTs = ts, clockRate = rate, clock_valid = (0 < rate)\<rparr>"

definition setSr :: "ntp_time \<Rightarrow> u32 \<Rightarrow> stream_clock \<Rightarrow> stream_clock" where
  "setSr t ts c = c\<lparr>srNtp := t, srRtpTs := ts, clock_valid := (0 < clockRate c)\<rparr>"

definition setClockRate :: "u32 \<Rightarrow> stream_clock \<Rightarrow> stream_clock" where
  "setClockRate rate c = c\<lparr>clockRate := rate, clock_valid := (0 < rate \<and> ntp_isValid (srNtp c))\<rparr>"

definition toNtp :: "stream_clock \<Rightarrow> u32 \<Rightarrow> ntp_time" where
  "toNtp c ts =
     (if \<not> clock_valid c then ntp_zero
      else let delta = ts - srRtpTs c;
               frac = push_bit 32 (ucast delta) div ucast (clockRate c) :: u64
           in from_packed (toUint64 (srNtp c) + frac))"

definition toRtpTs :: "stream_clock \<Rightarrow> ntp_time \<Rightarrow> u32" where
  "toRtpTs c t =
     (if \<not> clock_valid c then 0
      else let delta = toUint64 t - toUint64 (srNtp c);
               whole = drop_bit 32 delta; frac = delta AND 0xFFFFFFFF;
               ticks = whole * ucast (clockRate c) + (frac * ucast (clockRate c)) div 0x100000000 :: u64
           in ucast (ticks + ucast (srRtpTs c)))"

section \<open>Packed timestamps\<close>

lemma toUint64_from_packed [simp]: "toUint64 (from_packed w) = w"
proof (rule bit_word_eqI)
  fix n
  assume "n < LENGTH(64)"
  then show "bit (toUint64 (from_packed w)) n \<longleftrightarrow> bit w n"
    by (cases "n < 32") (auto simp: toUint64_def from_packed_def bit_simps)
qed

lemma from_packed_toUint64 [simp]: "from_packed (toUint64 t) = t"
proof -
  have "ucast (drop_bit 32 (toUint64 t)) = ntp_seconds t"
    by (rule bit_word_eqI) (auto simp: toUint64_def bit_simps dest: bit_imp_le_length)
  moreover have "ucast (toUint64 t) = ntp_fraction t"
    by (rule bit_word_eqI) (auto simp: toUint64_def bit_simps)
  ultimately show ?thesis by (simp add: from_packed_def)
qed

lemma toUint64_inj: "toUint64 a = toUint64 b \<longleftrightarrow> a = b"
  by (metis from_packed_toUint64)

text \<open>Taking away what was added gives the time back, to the last bit.\<close>

lemma ntp_plus_minus: "ntp_minus (ntp_plus t ns) ns = t"
proof -
  have s: "(- a) sdiv b = - (a sdiv b)" "(- a) smod b = - (a smod b)" for a b :: int
    by (simp_all add: signed_divide_int_def signed_modulo_int_def sgn_minus)
  have "push_bit 32 (word_of_int (- k)) = - push_bit 32 (word_of_int k :: u64)" for k
    by (simp add: push_bit_eq_mult)
  then show ?thesis unfolding ntp_minus_def ntp_plus_def Let_def s by (simp add: s algebra_simps)
qed

section \<open>There and back\<close>

text \<open>The two conversions as arithmetic on the distance to the anchor.\<close>

lemma unat_widen [simp]: "unat (ucast (w :: u32) :: u64) = unat w"
  using unsigned_less [of w, where ?'a = nat] by (simp add: unsigned_ucast_eq take_bit_nat_eq_self)

lemma narrow_sum: "(ucast (a + b :: u64) :: u32) = of_nat (unat a + unat b)"
proof -
  have "(ucast (a + b) :: u32) = of_nat (unat (a + b))" by (rule bit_word_eqI) (simp add: bit_simps)
  also have "\<dots> = of_nat (unat a + unat b)"
    by (simp only: unat_word_ariths word_of_nat_eq_iff flip: take_bit_eq_mod) simp
  finally show ?thesis .
qed

lemma to_fraction:
  fixes d r :: u32
  shows "unat (push_bit 32 (ucast d) div ucast r :: u64) = unat d * 2 ^ 32 div unat r"
proof -
  have "unat d * 2 ^ 32 < 2 ^ 64" using unsigned_less [of d, where ?'a = nat] by simp
  then have "unat (push_bit 32 (ucast d) :: u64) = unat d * 2 ^ 32"
    by (simp add: push_bit_eq_mult unat_word_ariths)
  then show ?thesis by (simp add: unat_div_distrib)
qed

lemma split_ticks: "(q div 2 ^ 32) * r + (q mod 2 ^ 32) * r div 2 ^ 32 = q * r div (2 ^ 32 :: nat)"
proof -
  have "q * r = (q div 2 ^ 32 * 2 ^ 32 + q mod 2 ^ 32) * r" by simp
  also have "\<dots> = (q mod 2 ^ 32) * r + (q div 2 ^ 32 * r) * 2 ^ 32" by (simp only: algebra_simps)
  finally have "q * r div 2 ^ 32 = ((q mod 2 ^ 32) * r + (q div 2 ^ 32 * r) * 2 ^ 32) div 2 ^ 32" by simp
  also have "\<dots> = q div 2 ^ 32 * r + (q mod 2 ^ 32) * r div 2 ^ 32" by (subst div_mult_self1) simp_all
  finally show ?thesis by simp
qed

lemma to_ticks:
  fixes w :: u64 and r :: u32
  assumes "unat w * unat r < 2 ^ 64"
  shows "unat (drop_bit 32 w * ucast r + ((w AND 0xFFFFFFFF) * ucast r) div 0x100000000) = unat w * unat r div 2 ^ 32"
proof -
  have m: "w AND 0xFFFFFFFF = take_bit 32 w" by (simp add: take_bit_eq_mask mask_eq_exp_minus_1)
  have a: "unat (drop_bit 32 w) = unat w div 2 ^ 32" by (simp add: drop_bit_eq_div unat_div_distrib)
  have b: "unat (w AND 0xFFFFFFFF) = unat w mod 2 ^ 32" unfolding m by (simp add: unsigned_take_bit_eq) (simp add: take_bit_eq_mod)
  have s: "unat w div 2 ^ 32 * unat r + unat w mod 2 ^ 32 * unat r div 2 ^ 32 < 2 ^ 64"
    unfolding split_ticks using assms by (rule le_less_trans [OF div_le_dividend])
  have l: "unat w mod 2 ^ 32 * unat r < 2 ^ 64"
    using assms by (rule le_less_trans [OF mult_le_mono1 [OF mod_less_eq_dividend]])
  have "unat ((w AND 0xFFFFFFFF) * ucast r) = unat w mod 2 ^ 32 * unat r"
    using l by (simp add: unat_word_ariths b)
  moreover have "unat (drop_bit 32 w * ucast r) = unat w div 2 ^ 32 * unat r"
    using s by (simp add: unat_word_ariths a)
  ultimately show ?thesis
    using s unfolding split_ticks [of "unat w" "unat r", symmetric] by (simp add: unat_word_ariths unat_div_distrib)
qed

text \<open>Division that rounds down, twice, loses at most one tick.\<close>

lemma round_down_twice:
  fixes d r :: nat
  assumes "0 < r" "r \<le> 2 ^ 32"
  shows "d * 2 ^ 32 div r * r div 2 ^ 32 \<le> d" "d \<le> Suc (d * 2 ^ 32 div r * r div 2 ^ 32)"
proof -
  let ?x = "d * 2 ^ 32 div r * r"
  have le: "?x \<le> d * 2 ^ 32" by (rule div_times_less_eq_dividend)
  have "?x div 2 ^ 32 \<le> d * 2 ^ 32 div 2 ^ 32" by (rule div_le_mono [OF le])
  then show "?x div 2 ^ 32 \<le> d" by simp
  have "d * 2 ^ 32 < ?x + r" using assms(1) by (metis add.commute dividend_less_div_times)
  then have "d * 2 ^ 32 \<le> ?x + 2 ^ 32" using assms(2) by linarith
  then have "d * 2 ^ 32 div 2 ^ 32 \<le> (?x + 2 ^ 32) div 2 ^ 32" by (rule div_le_mono)
  then show "d \<le> Suc (?x div 2 ^ 32)" by simp
qed

text \<open>C34: mapping a timestamp to wall clock time and back gives the timestamp or the one before it, on every valid
  clock, for every anchor and rate, and whatever has wrapped; it is exact when the rate divides the fraction.\<close>

theorem stream_clock_there_and_back:
  assumes "clock_valid c" "0 < clockRate c"
  shows "(toRtpTs c (toNtp c ts) = ts \<or> toRtpTs c (toNtp c ts) = ts - 1) \<and>
    (unat (clockRate c) dvd unat (ts - srRtpTs c) * 2 ^ 32 \<longrightarrow> toRtpTs c (toNtp c ts) = ts)"
proof -
  define d where "d = unat (ts - srRtpTs c)"
  define r where "r = unat (clockRate c)"
  define q where "q = (push_bit 32 (ucast (ts - srRtpTs c)) div ucast (clockRate c) :: u64)"
  have r: "0 < r" "r \<le> 2 ^ 32" using assms(2) unsigned_less [of "clockRate c", where ?'a = nat]
    by (simp_all add: r_def word_less_nat_alt)
  have q: "unat q = d * 2 ^ 32 div r" unfolding q_def d_def r_def by (rule to_fraction)
  have "unat q * r \<le> d * 2 ^ 32" unfolding q by (rule div_times_less_eq_dividend)
  also have "\<dots> < 2 ^ 64" using unsigned_less [of "ts - srRtpTs c", where ?'a = nat] by (simp add: d_def)
  finally have small: "unat q * unat (clockRate c) < 2 ^ 64" by (simp add: r_def)
  define k where "k = unat q * r div 2 ^ 32"
  have "toRtpTs c (toNtp c ts) =
      ucast (drop_bit 32 q * ucast (clockRate c) + ((q AND 0xFFFFFFFF) * ucast (clockRate c)) div 0x100000000 + ucast (srRtpTs c))"
    using assms(1) by (simp add: toRtpTs_def toNtp_def q_def Let_def)
  then have res: "toRtpTs c (toNtp c ts) = of_nat (k + unat (srRtpTs c))"
    using to_ticks [OF small] by (simp only: narrow_sum unat_widen k_def r_def)
  have ts: "ts = of_nat d + srRtpTs c" by (simp add: d_def)
  have "k \<le> d" "d \<le> Suc k" using round_down_twice [OF r, of d] by (simp_all add: k_def q)
  then have "k = d \<or> d = Suc k" by linarith
  then have one: "toRtpTs c (toNtp c ts) = ts \<or> toRtpTs c (toNtp c ts) = ts - 1" unfolding res using ts by (auto simp: algebra_simps)
  have "toRtpTs c (toNtp c ts) = ts" if "r dvd d * 2 ^ 32"
  proof -
    have "k = d" using that by (simp add: k_def q)
    then show ?thesis unfolding res using ts by (simp add: algebra_simps)
  qed
  then show ?thesis using one by (simp add: d_def r_def)
qed

lemma toUint64_zero: "toUint64 ntp_zero = 0"
  by (simp add: toUint64_def ntp_zero_def)

theorem stream_clock_there_and_back_witness:
  "toRtpTs (new_clock ntp_zero 7 90000) (toNtp (new_clock ntp_zero 7 90000) 8) = 7 \<and>
   toRtpTs (new_clock ntp_zero 7 0x10000) (toNtp (new_clock ntp_zero 7 0x10000) 1000) = 1000"
proof -
  have "toRtpTs (new_clock ntp_zero 7 90000) (toNtp (new_clock ntp_zero 7 90000) 8) \<noteq> 8"
    by (simp add: toRtpTs_def toNtp_def new_clock_def toUint64_zero Let_def push_bit_eq_mult drop_bit_eq_div)
  then show ?thesis
    using stream_clock_there_and_back [of "new_clock ntp_zero 7 90000" 8]
      stream_clock_there_and_back [of "new_clock ntp_zero 7 0x10000" 1000]
    by (simp add: new_clock_def)
qed

text \<open>The time of a timestamp \<open>n\<close> ticks after the anchor: what the clock adds comes from the ticks modulo the width of
  a timestamp.\<close>

lemma toNtp_after:
  assumes "clock_valid c"
  shows "toNtp c (srRtpTs c + of_nat n) =
    from_packed (toUint64 (srNtp c) + of_nat ((n mod 2 ^ 32) * 2 ^ 32 div unat (clockRate c)))"
proof -
  let ?q = "push_bit 32 (ucast (of_nat n :: u32)) div ucast (clockRate c) :: u64"
  have "unat ?q = (n mod 2 ^ 32) * 2 ^ 32 div unat (clockRate c)"
    unfolding to_fraction by (simp add: unsigned_of_nat) (simp add: take_bit_eq_mod)
  then have "?q = of_nat ((n mod 2 ^ 32) * 2 ^ 32 div unat (clockRate c))" by (metis of_nat_unat ucast_id)
  then show ?thesis using assms by (simp add: toNtp_def Let_def)
qed

end
