(* ===== verification/Rtcp.thy ===== *)
theory Rtcp
  imports RtpClock Strings
begin

text \<open>
  \<open>src/network/rtcppacket.cpp\<close>: the RTCP packets a session sends, and the search through a received compound. A size
  is a natural number; a position in the data is the data from there on.
\<close>

section \<open>Builders\<close>

record report_block =
  rb_ssrc :: u32
  fractionLost :: byte
  cumulativeLost :: u32
  extendedHighestSeq :: u32
  interarrivalJitter :: u32
  lsr :: u32
  dlsr :: u32

definition commonHeader :: "byte \<Rightarrow> byte \<Rightarrow> u16 \<Rightarrow> byte list" where
  "commonHeader rc pt lengthWordsMinus1 = [0x80 OR (rc AND 0x1F), pt] @ be16 lengthWordsMinus1"

definition buildSenderReport :: "u32 \<Rightarrow> ntp_time \<Rightarrow> u32 \<Rightarrow> u32 \<Rightarrow> u32 \<Rightarrow> byte list" where
  "buildSenderReport ssrc ntp rtpTs packets octets =
     commonHeader 0 200 6 @ be32 ssrc @ be32 (ntp_seconds ntp) @ be32 (ntp_fraction ntp) @ be32 rtpTs @ be32 packets @
     be32 octets"

text \<open>The loss count is an \<open>int32_t\<close>, clamped to its 24 bits.\<close>

definition clamped_loss :: "u32 \<Rightarrow> u32" where
  "clamped_loss n = word_of_int (max (- 0x800000) (min 0x7FFFFF (sint n))) AND 0x00FFFFFF"

definition block_bytes :: "report_block \<Rightarrow> byte list" where
  "block_bytes b = be32 (rb_ssrc b) @ [fractionLost b] @ be24 (clamped_loss (cumulativeLost b)) @
     be32 (extendedHighestSeq b) @ be32 (interarrivalJitter b) @ be32 (lsr b) @ be32 (dlsr b)"

definition buildReceiverReport :: "u32 \<Rightarrow> report_block list \<Rightarrow> byte list" where
  "buildReceiverReport ssrc blocks =
     (let count = min (length blocks) 31; total = 8 + count * 24 in
      commonHeader (of_nat count) 201 (of_nat (total div 4 - 1)) @ be32 ssrc @ concat (map block_bytes (take count blocks)))"

definition buildBye :: "u32 \<Rightarrow> byte list" where
  "buildBye ssrc = commonHeader 1 203 1 @ be32 ssrc"

definition sdes_tail :: "nat \<Rightarrow> nat" where
  "sdes_tail itemBytes =
     (let pad = 4 - (itemBytes + 1) mod 4; pad = (if pad = 4 then 0 else pad) in itemBytes + (1 + pad))"

definition buildSourceDescriptionCname :: "u32 \<Rightarrow> str \<Rightarrow> byte list" where
  "buildSourceDescriptionCname ssrc cname =
     (let cnameLen = min (str_size cname) 255; tail = sdes_tail (2 + cnameLen); total = 4 + (4 + tail);
          item = [1, of_nat cnameLen] @ take cnameLen (cstr cname)
      in commonHeader 1 202 (of_nat (total div 4 - 1)) @ be32 ssrc @ item @ replicate (tail - length item) 0)"

definition compound :: "byte list list \<Rightarrow> byte list" where
  "compound packets = concat packets"

section \<open>Parsers\<close>

record rtcp_header =
  h_version :: byte
  h_padding :: bool
  h_rc :: byte
  h_pt :: byte
  lengthBytes :: nat

record sr_info =
  sr_ssrc :: u32
  sr_ntp :: ntp_time
  sr_rtpTimestamp :: u32
  senderPacketCount :: u32
  senderOctetCount :: u32

definition parseHeader :: "byte list \<Rightarrow> rtcp_header" where
  "parseHeader d =
     (if length d < 4 then \<lparr>h_version = 0, h_padding = False, h_rc = 0, h_pt = 0, lengthBytes = 0\<rparr>
      else \<lparr>h_version = drop_bit 6 (d ! 0) AND 0x3, h_padding = (d ! 0 AND 0x20 \<noteq> 0), h_rc = d ! 0 AND 0x1F, h_pt = d ! 1,
            lengthBytes = (unat (rd16 (d ! 2) (d ! 3)) + 1) * 4\<rparr>)"

definition header_isValid :: "rtcp_header \<Rightarrow> bool" where
  "header_isValid h \<longleftrightarrow> h_version h = 2 \<and> 4 \<le> lengthBytes h"

definition rd32_at :: "byte list \<Rightarrow> nat \<Rightarrow> u32" where
  "rd32_at d i = rd32 (d ! i) (d ! (i + 1)) (d ! (i + 2)) (d ! (i + 3))"

definition parseSenderReport :: "byte list \<Rightarrow> sr_info option" where
  "parseSenderReport d =
     (let h = parseHeader d in
      if \<not> header_isValid h then None
      else if h_pt h \<noteq> 200 then None
      else if lengthBytes h < 28 then None
      else if length d < 28 then None
      else Some \<lparr>sr_ssrc = rd32_at d 4, sr_ntp = \<lparr>ntp_seconds = rd32_at d 8, ntp_fraction = rd32_at d 12\<rparr>,
                 sr_rtpTimestamp = rd32_at d 16, senderPacketCount = rd32_at d 20, senderOctetCount = rd32_at d 24\<rparr>)"

text \<open>The walk both searches make: \<open>f\<close> is what a search takes from the packet at hand.\<close>

function walk_compound :: "(rtcp_header \<Rightarrow> byte list \<Rightarrow> 'a list) \<Rightarrow> byte list \<Rightarrow> 'a list" where
  "walk_compound f d =
     (if length d < 4 then []
      else let h = parseHeader d in
        if \<not> header_isValid h then []
        else if lengthBytes h = 0 \<or> length d < lengthBytes h then []
        else f h d @ walk_compound f (drop (lengthBytes h) d))"
  by pat_completeness auto
termination by (relation "measure (\<lambda>(f, d). length d)") (auto simp: header_isValid_def)

declare walk_compound.simps [simp del]

definition bye_sources :: "rtcp_header \<Rightarrow> byte list \<Rightarrow> u32 list" where
  "bye_sources h d =
     (if h_pt h = 203 \<and> 4 + unat (h_rc h) * 4 \<le> lengthBytes h \<and> 4 + unat (h_rc h) * 4 \<le> length d
      then map (\<lambda>i. rd32_at d (4 + i * 4)) [0..<unat (h_rc h)] else [])"

definition sender_reports :: "rtcp_header \<Rightarrow> byte list \<Rightarrow> sr_info list" where
  "sender_reports h d =
     (if h_pt h = 200 then (case parseSenderReport (take (lengthBytes h) d) of None \<Rightarrow> [] | Some i \<Rightarrow> [i]) else [])"

definition findByeSources :: "byte list \<Rightarrow> u32 list" where "findByeSources = walk_compound bye_sources"
definition findSenderReports :: "byte list \<Rightarrow> sr_info list" where "findSenderReports = walk_compound sender_reports"

section \<open>Framing\<close>

lemma commonHeader_read:
  fixes rc :: byte
  assumes "rc < 2 ^ 5"
  shows "parseHeader (commonHeader rc pt n @ d) =
    \<lparr>h_version = 2, h_padding = False, h_rc = rc, h_pt = pt, lengthBytes = (unat n + 1) * 4\<rparr>"
proof -
  note r = word_less_exp_bit [OF assms]
  let ?b = "0x80 OR (rc AND 0x1F)"
  have "drop_bit 6 ?b AND 0x3 = 2" "?b AND 0x1F = rc"
    by (rule bit_byte_eqI; simp add: bit_simps r)+
  moreover have "?b AND 0x20 = 0" by (simp add: byte_bits bit_simps r)
  ultimately show ?thesis by (simp add: parseHeader_def commonHeader_def be16_def be_simps)
qed

lemma length_commonHeader [simp]: "length (commonHeader rc pt n) = 4"
  by (simp add: commonHeader_def)

lemma walk_packet:
  assumes "parseHeader (p @ d) = h" "h_version h = 2" "lengthBytes h = length p" "4 \<le> length p"
  shows "walk_compound f (p @ d) = f h (p @ d) @ walk_compound f d"
proof -
  have "p \<noteq> []" using assms(4) by auto
  moreover have "\<not> length (p @ d) < 4" "header_isValid h" "lengthBytes h \<noteq> 0" "\<not> length (p @ d) < lengthBytes h"
    using assms by (auto simp: header_isValid_def)
  moreover have "lengthBytes h = length p" by (rule assms(3))
  ultimately show ?thesis
    by (subst walk_compound.simps) (simp add: assms(1) Let_def)
qed

text \<open>A packet of a compound, and what the builders make of it.\<close>

datatype rtcp_packet = SR sr_info | RR u32 "report_block list" | SDES u32 str | BYE u32

fun build_packet :: "rtcp_packet \<Rightarrow> byte list" where
  "build_packet (SR i) = buildSenderReport (sr_ssrc i) (sr_ntp i) (sr_rtpTimestamp i) (senderPacketCount i) (senderOctetCount i)"
| "build_packet (RR ssrc blocks) = buildReceiverReport ssrc blocks"
| "build_packet (SDES ssrc cname) = buildSourceDescriptionCname ssrc cname"
| "build_packet (BYE ssrc) = buildBye ssrc"

definition rtcp_type :: "rtcp_packet \<Rightarrow> byte" where
  "rtcp_type p = (case p of SR _ \<Rightarrow> 200 | RR _ _ \<Rightarrow> 201 | SDES _ _ \<Rightarrow> 202 | BYE _ \<Rightarrow> 203)"

definition rtcp_count :: "rtcp_packet \<Rightarrow> byte" where
  "rtcp_count p = (case p of SR _ \<Rightarrow> 0 | RR _ blocks \<Rightarrow> of_nat (min (length blocks) 31) | SDES _ _ \<Rightarrow> 1 | BYE _ \<Rightarrow> 1)"

lemma length_block_bytes [simp]: "length (block_bytes b) = 24"
  by (simp add: block_bytes_def)

lemma sdes_tail_facts: "sdes_tail n mod 4 = 0" "n < sdes_tail n" "sdes_tail n \<le> n + 4"
proof -
  have "(n + 1) mod 4 < 4" by simp
  then consider "(n + 1) mod 4 = 0" | "(n + 1) mod 4 = 1" | "(n + 1) mod 4 = 2" | "(n + 1) mod 4 = 3" by linarith
  then show "sdes_tail n mod 4 = 0" "n < sdes_tail n" "sdes_tail n \<le> n + 4"
    by (cases; simp add: sdes_tail_def; presburger)+
qed

lemma words_minus_one:
  assumes "n mod 4 = 0" "4 \<le> n" "n \<le> 0x40000"
  shows "(unat (of_nat (n div 4 - 1) :: u16) + 1) * 4 = n"
proof -
  have "n div 4 - 1 < 65536" using assms(3) by simp
  then have "unat (of_nat (n div 4 - 1) :: u16) = n div 4 - 1" by (simp add: unsigned_of_nat take_bit_nat_eq_self)
  then show ?thesis using assms(1,2) by (auto simp: mod_eq_0_iff_dvd elim!: dvdE)
qed

text \<open>Every builder's length field is the length of what it built.\<close>

lemma packet_framed:
  "parseHeader (build_packet p @ d) = \<lparr>h_version = 2, h_padding = False, h_rc = rtcp_count p, h_pt = rtcp_type p,
     lengthBytes = length (build_packet p)\<rparr> \<and> 8 \<le> length (build_packet p)"
proof (cases p)
  case (SR i)
  then show ?thesis
    by (simp add: buildSenderReport_def commonHeader_read rtcp_type_def rtcp_count_def)
next
  case (RR ssrc blocks)
  let ?n = "min (length blocks) 31"
  have "of_nat ?n < (2 ^ 5 :: byte)" by (simp add: word_less_nat_alt unsigned_of_nat take_bit_nat_eq_self)
  moreover have "length (buildReceiverReport ssrc blocks) = 8 + ?n * 24"
    by (simp add: buildReceiverReport_def Let_def length_concat_uniform [where k = 24])
  moreover have "(unat (of_nat ((8 + ?n * 24) div 4 - 1) :: u16) + 1) * 4 = 8 + ?n * 24"
    by (rule words_minus_one) (auto simp: min_def mod_eq_0_iff_dvd)
  ultimately show ?thesis
    using RR by (simp add: buildReceiverReport_def Let_def commonHeader_read rtcp_type_def rtcp_count_def)
next
  case (SDES ssrc cname)
  define n where "n = min (str_size cname) 255"
  note t = sdes_tail_facts [of "2 + n"]
  have item: "length ([1, of_nat n] @ take n (cstr cname)) \<le> sdes_tail (2 + n)" using t(2) by simp
  have "length (buildSourceDescriptionCname ssrc cname) = 4 + (4 + sdes_tail (2 + n))"
    using item by (simp add: buildSourceDescriptionCname_def Let_def flip: n_def)
  moreover have "n \<le> 255" by (simp add: n_def)
  then have "(unat (of_nat ((4 + (4 + sdes_tail (2 + n))) div 4 - 1) :: u16) + 1) * 4 = 4 + (4 + sdes_tail (2 + n))"
    by (intro words_minus_one) (use t in \<open>simp_all add: mod_eq_0_iff_dvd\<close>)
  ultimately show ?thesis
    using SDES by (simp add: buildSourceDescriptionCname_def Let_def commonHeader_read rtcp_type_def rtcp_count_def flip: n_def)
next
  case (BYE ssrc)
  then show ?thesis by (simp add: buildBye_def commonHeader_read rtcp_type_def rtcp_count_def)
qed

lemma rd32_at_be32: "rd32_at (a @ be32 w @ d) (length a) = w"
  by (simp add: rd32_at_def be32_def nth_append be_simps)

lemma reports_of_packet:
  "sender_reports (parseHeader (build_packet p @ d)) (build_packet p @ d) = (case p of SR i \<Rightarrow> [i] | _ \<Rightarrow> [])"
proof (cases p)
  case (SR i)
  let ?d = "build_packet p"
  have h: "parseHeader ?d = \<lparr>h_version = 2, h_padding = False, h_rc = 0, h_pt = 200, lengthBytes = 28\<rparr>"
    using packet_framed [of p "[]"] SR by (simp add: rtcp_type_def rtcp_count_def buildSenderReport_def)
  have "length ?d = 28" using SR by (simp add: buildSenderReport_def)
  moreover have "rd32_at ?d 4 = sr_ssrc i" "rd32_at ?d 8 = ntp_seconds (sr_ntp i)" "rd32_at ?d 12 = ntp_fraction (sr_ntp i)"
    "rd32_at ?d 16 = sr_rtpTimestamp i" "rd32_at ?d 20 = senderPacketCount i" "rd32_at ?d 24 = senderOctetCount i"
    using SR by (simp_all add: buildSenderReport_def commonHeader_def rd32_at_def be32_def be16_def be_simps)
  ultimately have "parseSenderReport ?d = Some i"
    by (simp add: parseSenderReport_def Let_def h header_isValid_def)
  then show ?thesis
    using packet_framed [of p d] \<open>length ?d = 28\<close> SR by (simp add: sender_reports_def rtcp_type_def)
qed (use packet_framed [of p d] in \<open>simp_all add: sender_reports_def rtcp_type_def\<close>)

lemma byes_of_packet:
  "bye_sources (parseHeader (build_packet p @ d)) (build_packet p @ d) = (case p of BYE s \<Rightarrow> [s] | _ \<Rightarrow> [])"
proof (cases p)
  case (BYE s)
  have "rd32_at (build_packet p @ d) 4 = s"
    using rd32_at_be32 [of "commonHeader 1 203 1" s d] BYE by (simp add: buildBye_def)
  then show ?thesis
    using packet_framed [of p d] BYE by (simp add: bye_sources_def rtcp_type_def rtcp_count_def buildBye_def)
qed (use packet_framed [of p d] in \<open>simp_all add: bye_sources_def rtcp_type_def\<close>)

text \<open>A walk over a compound visits every packet it was made of, once and in order.\<close>

lemma walk_packets:
  assumes "\<And>p d. f (parseHeader (build_packet p @ d)) (build_packet p @ d) = g p"
  shows "walk_compound f (compound (map build_packet ps)) = concat (map g ps)"
proof (induction ps)
  case Nil
  then show ?case by (simp add: compound_def walk_compound.simps)
next
  case (Cons p ps)
  let ?d = "compound (map build_packet ps)"
  have "walk_compound f (build_packet p @ ?d) = f (parseHeader (build_packet p @ ?d)) (build_packet p @ ?d) @ walk_compound f ?d"
    using packet_framed [of p ?d] by (intro walk_packet) auto
  then show ?case using assms Cons by (simp add: compound_def)
qed

text \<open>C20: Whatever sender reports, receiver reports, source descriptions and goodbyes a session puts into a compound,
  in whatever order and however long the names and the block lists (both are cut to what their length fields can say),
  the search for sender reports returns exactly the reports, each with its source, NTP time, RTP timestamp and counts,
  and the search for goodbyes exactly the sources that left, both in the order of the compound: every builder states
  the length it really built, so no packet hides another.\<close>

theorem rtcp_compound_read_back:
  "findSenderReports (compound (map build_packet ps)) = concat (map (\<lambda>p. case p of SR i \<Rightarrow> [i] | _ \<Rightarrow> []) ps) \<and>
   findByeSources (compound (map build_packet ps)) = concat (map (\<lambda>p. case p of BYE s \<Rightarrow> [s] | _ \<Rightarrow> []) ps)"
  unfolding findSenderReports_def findByeSources_def
  using walk_packets [where f = sender_reports, OF reports_of_packet] walk_packets [where f = bye_sources, OF byes_of_packet]
  by simp

end
