(* ===== verification/NalStream.thy ===== *)
theory NalStream
  imports Prelude
begin

text \<open>
  \<open>src/proav/h264bitstream.cpp\<close>: the NAL units of an H.264 or H.265 stream, framed by start codes (Annex B) or by
  length prefixes (AVCC), the conversions between the two, and the decoder configuration records that carry the
  parameter sets of a stream. A view is its bytes; buffers always have storage.
\<close>

unbundle bit_operations_syntax

section \<open>Start codes\<close>

text \<open>\<open>00 00 01\<close> at position \<open>i\<close>.\<close>

definition code_at :: "byte list \<Rightarrow> nat \<Rightarrow> bool" where
  "code_at d i \<longleftrightarrow> d ! i = 0 \<and> d ! (i + 1) = 0 \<and> d ! (i + 2) = 1"

text \<open>Where the code starts and how long it is: a zero before it belongs to it.\<close>

definition findNextStartCode :: "byte list \<Rightarrow> nat \<Rightarrow> (nat \<times> nat) option" where
  "findNextStartCode d start =
     (case find (code_at d) [start..<length d - 2] of
        None \<Rightarrow> None
      | Some i \<Rightarrow> if 0 < i \<and> d ! (i - 1) = 0 then Some (i - 1, 4) else Some (i, 3))"

lemma findNextStartCode_Some:
  assumes "findNextStartCode d start = Some (c, l)"
  obtains i where "start \<le> i" "i + 2 < length d" "code_at d i" "\<And>j. start \<le> j \<Longrightarrow> j < i \<Longrightarrow> \<not> code_at d j"
    "c + l = i + 3" "c \<le> i" "i \<le> c + 1"
proof -
  obtain i where i: "find (code_at d) [start..<length d - 2] = Some i"
    using assms by (auto simp: findNextStartCode_def split: option.splits)
  then obtain k where k: "k < length d - 2 - start" "code_at d (start + k)" "i = start + k"
    "\<And>j. j < k \<Longrightarrow> \<not> code_at d (start + j)"
    by (auto simp: find_Some_iff)
  have "\<not> code_at d j" if "start \<le> j" "j < i" for j
    using k(4) [of "j - start"] that k(3) by simp
  moreover have "c + l = i + 3 \<and> c \<le> i \<and> i \<le> c + 1"
    using assms i by (auto simp: findNextStartCode_def split: if_splits)
  ultimately show ?thesis using that [of i] k by auto
qed

section \<open>Iteration\<close>

text \<open>The bytes from one position up to another, when there are any.\<close>

definition nal_between :: "byte list \<Rightarrow> nat \<Rightarrow> nat \<Rightarrow> byte list list" where
  "nal_between d s e = (if s < e then [take (e - s) (drop s d)] else [])"

function annexb_nals :: "byte list \<Rightarrow> nat \<Rightarrow> byte list list" where
  "annexb_nals d nalStart =
     (case findNextStartCode d nalStart of
        None \<Rightarrow> nal_between d nalStart (length d)
      | Some (c, l) \<Rightarrow> nal_between d nalStart c @ annexb_nals d (c + l))"
  by pat_completeness auto
termination
  by (relation "measure (\<lambda>(d, s). length d - s)") (auto elim!: findNextStartCode_Some)

declare annexb_nals.simps [simp del]

text \<open>A visitor changes a state and may stop the walk with an error.\<close>

type_synonym 's visitor = "byte list \<Rightarrow> 's \<Rightarrow> error \<times> 's"

fun visit_nals :: "'s visitor \<Rightarrow> byte list list \<Rightarrow> 's \<Rightarrow> error \<times> 's" where
  "visit_nals visit [] s = (Ok, s)"
| "visit_nals visit (n # ns) s =
     (case visit n s of (e, s') \<Rightarrow> if e \<noteq> Ok then (e, s') else visit_nals visit ns s')"

definition forEachAnnexBNal :: "'s visitor \<Rightarrow> byte list \<Rightarrow> 's \<Rightarrow> error \<times> 's" where
  "forEachAnnexBNal visit d s =
     (if d = [] then (Ok, s)
      else case findNextStartCode d 0 of
        None \<Rightarrow> (CorruptData, s)
      | Some (c, l) \<Rightarrow> visit_nals visit (annexb_nals d (c + l)) s)"

definition header0 :: "byte list \<Rightarrow> byte" where "header0 nal = nal ! 0"
definition header1 :: "byte list \<Rightarrow> byte" where "header1 nal = (if 1 < length nal then nal ! 1 else 0)"

definition isValidLenSize :: "nat \<Rightarrow> bool" where
  "isValidLenSize n \<longleftrightarrow> n = 1 \<or> n = 2 \<or> n = 4"

definition readBE :: "byte list \<Rightarrow> u64" where
  "readBE bs = foldl (\<lambda>v b. push_bit 8 v OR ucast b) 0 bs"

definition writeBE :: "u64 \<Rightarrow> nat \<Rightarrow> byte list" where
  "writeBE v n = map (\<lambda>i. ucast (drop_bit (8 * (n - 1 - i)) v)) [0..<n]"

text \<open>The position in the data is the data from there on; the check of the prefix size heads every turn.\<close>

function forEachAvccNal :: "'s visitor \<Rightarrow> nat \<Rightarrow> byte list \<Rightarrow> 's \<Rightarrow> error \<times> 's" where
  "forEachAvccNal visit lenSize d s =
     (if \<not> isValidLenSize lenSize then (InvalidArgument, s)
      else if d = [] then (Ok, s)
      else if length d < lenSize then (CorruptData, s)
      else let n = unat (readBE (take lenSize d)); d' = drop lenSize d in
        if length d' < n then (CorruptData, s)
        else case (if 0 < n then visit (take n d') s else (Ok, s)) of
          (e, s') \<Rightarrow> if e \<noteq> Ok then (e, s') else forEachAvccNal visit lenSize (drop n d') s')"
  by pat_completeness auto
termination
  by (relation "measure (\<lambda>(v, n, d, s). length d)") (auto simp: isValidLenSize_def)

declare forEachAvccNal.simps [simp del]

section \<open>Conversions\<close>

definition max_nal :: "nat \<Rightarrow> nat" where
  "max_nal lenSize = (if lenSize = 4 then 0xffffffff else if lenSize = 2 then 0xffff else 0xff)"

definition sizing_visitor :: "nat \<Rightarrow> (byte list \<Rightarrow> bool) \<Rightarrow> nat visitor" where
  "sizing_visitor lenSize keep nal t =
     (if \<not> keep nal then (Ok, t)
      else if max_nal lenSize < length nal then (CorruptData, t) else (Ok, t + (lenSize + length nal)))"

definition copy_visitor :: "nat \<Rightarrow> (byte list \<Rightarrow> bool) \<Rightarrow> byte list visitor" where
  "copy_visitor lenSize keep nal dst =
     (if \<not> keep nal then (Ok, dst) else (Ok, dst @ writeBE (of_nat (length nal)) lenSize @ nal))"

definition annexBToAvccFiltered :: "nat \<Rightarrow> (byte list \<Rightarrow> bool) \<Rightarrow> byte list \<Rightarrow> byte list result" where
  "annexBToAvccFiltered lenSize keep d =
     (if \<not> isValidLenSize lenSize then Inl InvalidArgument
      else case forEachAnnexBNal (sizing_visitor lenSize keep) d 0 of
        (e, _) \<Rightarrow> if e \<noteq> Ok then Inl e
          else case forEachAnnexBNal (copy_visitor lenSize keep) d [] of
            (e', dst) \<Rightarrow> if e' \<noteq> Ok then Inl e' else Inr dst)"

definition annexBToAvcc :: "nat \<Rightarrow> byte list \<Rightarrow> byte list result" where
  "annexBToAvcc lenSize d =
     (if \<not> isValidLenSize lenSize then Inl InvalidArgument
      else case forEachAnnexBNal (sizing_visitor lenSize (\<lambda>_. True)) d 0 of
        (e, _) \<Rightarrow> if e \<noteq> Ok then Inl e
          else case forEachAnnexBNal (copy_visitor lenSize (\<lambda>_. True)) d [] of
            (e', dst) \<Rightarrow> if e' \<noteq> Ok then Inl e' else Inr dst)"

definition start_coded :: "byte list \<Rightarrow> byte list" where
  "start_coded nal = [0, 0, 0, 1] @ nal"

definition avccToAnnexB :: "nat \<Rightarrow> byte list \<Rightarrow> byte list result" where
  "avccToAnnexB lenSize d =
     (if \<not> isValidLenSize lenSize then Inl InvalidArgument
      else case forEachAvccNal (\<lambda>nal t. (Ok, t + (4 + length nal))) lenSize d 0 of
        (e, _) \<Rightarrow> if e \<noteq> Ok then Inl e
          else case forEachAvccNal (\<lambda>nal dst. (Ok, dst @ start_coded nal)) lenSize d [] of
            (e', dst) \<Rightarrow> if e' \<noteq> Ok then Inl e' else Inr dst)"

definition wrapNalsAsAnnexB :: "byte list list \<Rightarrow> byte list" where
  "wrapNalsAsAnnexB nals = concat (map start_coded nals)"

section \<open>Walking what was wrapped\<close>

text \<open>A unit without a start code inside.\<close>

definition clean :: "byte list \<Rightarrow> bool" where
  "clean nal \<longleftrightarrow> nal \<noteq> [] \<and> (\<forall>i. i + 2 < length nal \<longrightarrow> \<not> code_at nal i)"

lemma find_none: "(\<And>j. s \<le> j \<Longrightarrow> j + 2 < length d \<Longrightarrow> \<not> code_at d j) \<Longrightarrow> findNextStartCode d s = None"
  by (auto simp: findNextStartCode_def find_None_iff split: option.splits dest!: find_Some_iff [THEN iffD1])

lemma find_least:
  assumes "s \<le> i" "i + 2 < length d" "code_at d i" "\<And>j. s \<le> j \<Longrightarrow> j < i \<Longrightarrow> \<not> code_at d j"
  shows "findNextStartCode d s = (if 0 < i \<and> d ! (i - 1) = 0 then Some (i - 1, 4) else Some (i, 3))"
proof -
  have "find (code_at d) [s..<length d - 2] = Some i"
    unfolding find_Some_iff by (rule exI [of _ "i - s"]) (use assms in auto)
  then show ?thesis by (simp add: findNextStartCode_def)
qed

text \<open>Behind the prefix no code starts before the next unit's, and that one is found with its leading zero.\<close>

lemma find_in_wrapped:
  assumes "clean nal"
  shows "findNextStartCode (pre @ nal @ start_coded rest) (length pre) = Some (length pre + length nal, 4)"
    and "findNextStartCode (pre @ nal) (length pre) = None"
proof -
  let ?d = "pre @ nal @ start_coded rest" and ?i = "length pre + length nal + 1"
  have inside: "\<not> code_at nal k" if "k + 2 < length nal" for k
    using assms that by (simp add: clean_def)
  have no: "\<not> code_at ?d j" if "length pre \<le> j" "j < ?i" for j
  proof -
    define k where "k = j - length pre"
    have j: "j = length pre + k" "k \<le> length nal" using that by (auto simp: k_def)
    consider "k + 2 < length nal" | "k + 2 = length nal \<or> k + 1 = length nal \<or> k = length nal" using j(2) by linarith
    then show ?thesis
    proof cases
      case 1
      then show ?thesis using inside [of k] by (simp add: j(1) code_at_def nth_append)
    qed (auto simp: j(1) code_at_def nth_append start_coded_def)
  qed
  have "code_at ?d ?i" "?d ! (?i - 1) = 0" "?i + 2 < length ?d" by (simp_all add: code_at_def nth_append start_coded_def)
  then show "findNextStartCode ?d (length pre) = Some (length pre + length nal, 4)"
    by (subst find_least [of _ ?i]) (use no in auto)
  show "findNextStartCode (pre @ nal) (length pre) = None"
  proof (rule find_none)
    fix j
    assume "length pre \<le> j" "j + 2 < length (pre @ nal)"
    then show "\<not> code_at (pre @ nal) j"
      using inside [of "j - length pre"] by (simp add: code_at_def nth_append Suc_diff_le)
  qed
qed

lemma walk_wrapped:
  assumes "clean nal" "\<forall>n\<in>set ns. clean n"
  shows "annexb_nals (pre @ nal @ wrapNalsAsAnnexB ns) (length pre) = nal # ns"
  using assms
proof (induction ns arbitrary: nal pre)
  case Nil
  then show ?case
    using find_in_wrapped(2) by (auto simp: annexb_nals.simps nal_between_def wrapNalsAsAnnexB_def clean_def)
next
  case (Cons n ns)
  let ?d = "pre @ nal @ wrapNalsAsAnnexB (n # ns)"
  have "?d = pre @ nal @ start_coded (n @ wrapNalsAsAnnexB ns)" by (simp add: wrapNalsAsAnnexB_def start_coded_def)
  then have "findNextStartCode ?d (length pre) = Some (length pre + length nal, 4)"
    using find_in_wrapped(1) Cons.prems(1) by metis
  moreover have "annexb_nals ?d (length pre + length nal + 4) = n # ns"
    using Cons.IH [of n "pre @ nal @ [0, 0, 0, 1]"] Cons.prems(2)
    by (simp add: wrapNalsAsAnnexB_def start_coded_def add.assoc eval_nat_numeral)
  ultimately show ?case
    using Cons.prems(1) by (subst annexb_nals.simps) (simp add: nal_between_def clean_def)
qed

text \<open>The units of a stream, and what they are: never empty and without a start code.\<close>

definition nals_of :: "byte list \<Rightarrow> byte list list" where
  "nals_of d = (case findNextStartCode d 0 of None \<Rightarrow> [] | Some (c, l) \<Rightarrow> annexb_nals d (c + l))"

lemma nal_between_clean:
  assumes "n \<in> set (nal_between d s e)" "e \<le> length d" "\<And>j. s \<le> j \<Longrightarrow> j + 2 < e \<Longrightarrow> \<not> code_at d j"
  shows "clean n"
proof -
  have n: "n = take (e - s) (drop s d)" "s < e" using assms(1) by (auto simp: nal_between_def split: if_splits)
  have "\<not> code_at n i" if "i + 2 < length n" for i
    using assms(2) assms(3) [of "s + i"] that n by (auto simp: code_at_def add.assoc)
  then show ?thesis using n assms(2) by (auto simp: clean_def)
qed

lemma annexb_nals_clean: "n \<in> set (annexb_nals d s) \<Longrightarrow> clean n"
proof (induction d s rule: annexb_nals.induct)
  case (1 d s)
  show ?case
  proof (cases "findNextStartCode d s")
    case None
    then have "\<not> code_at d j" if "s \<le> j" "j + 2 < length d" for j
      using that by (auto simp: findNextStartCode_def find_None_iff split: option.splits if_splits)
    then show ?thesis
      using 1(2) None by (intro nal_between_clean [of n d s "length d"]) (auto simp: annexb_nals.simps)
  next
    case (Some cl)
    then obtain c l where cl: "findNextStartCode d s = Some (c, l)" by (cases cl) auto
    then obtain i where i: "i + 2 < length d" "\<And>j. s \<le> j \<Longrightarrow> j < i \<Longrightarrow> \<not> code_at d j" "c \<le> i"
      by (auto elim!: findNextStartCode_Some)
    from 1(2) cl have "n \<in> set (nal_between d s c) \<or> n \<in> set (annexb_nals d (c + l))" by (subst (asm) annexb_nals.simps) auto
    then show ?thesis
    proof
      assume "n \<in> set (nal_between d s c)"
      then show ?thesis by (rule nal_between_clean) (use i in auto)
    qed (use 1(1) cl in auto)
  qed
qed

lemma nals_clean: "\<forall>n\<in>set (nals_of d). clean n"
  by (auto simp: nals_of_def split: option.splits intro: annexb_nals_clean)

lemma nals_of_wrapped:
  assumes "\<forall>n\<in>set ns. clean n"
  shows "nals_of (wrapNalsAsAnnexB ns) = ns"
proof (cases ns)
  case Nil
  then show ?thesis by (simp add: nals_of_def wrapNalsAsAnnexB_def findNextStartCode_def)
next
  case (Cons n ns')
  let ?d = "wrapNalsAsAnnexB (n # ns')"
  have "findNextStartCode ?d 0 = Some (0, 4)"
  proof (subst find_least [of _ 1])
    show "\<not> code_at ?d j" if "j < 1" for j using that by (simp add: code_at_def wrapNalsAsAnnexB_def start_coded_def)
  qed (auto simp: code_at_def wrapNalsAsAnnexB_def start_coded_def)
  then show ?thesis
    using walk_wrapped [of n ns' "[0, 0, 0, 1]"] assms Cons
    by (simp add: nals_of_def wrapNalsAsAnnexB_def start_coded_def eval_nat_numeral)
qed

section \<open>Length prefixes\<close>

lemma lenSize_cases:
  assumes "isValidLenSize n"
  obtains "n = 1" | "n = 2" | "n = 4"
  using assms by (auto simp: isValidLenSize_def)

lemma length_writeBE [simp]: "length (writeBE v n) = n"
  by (simp add: writeBE_def)

lemma writeBE_Suc: "writeBE v (Suc n) = ucast (drop_bit (8 * n) v) # writeBE v n"
proof -
  have "[0..<Suc n] = 0 # map Suc [0..<n]" by (metis upt_conv_Cons zero_less_Suc map_Suc_upt)
  then show ?thesis by (simp add: writeBE_def comp_def)
qed

lemma fold_writeBE:
  "foldl (\<lambda>v b. push_bit 8 v OR ucast b) a (writeBE v n) = push_bit (8 * n) a OR take_bit (8 * n) v"
proof (induction n arbitrary: a)
  case 0
  then show ?case by (simp add: writeBE_def)
next
  case (Suc n)
  let ?b = "ucast (ucast (drop_bit (8 * n) v) :: byte) :: u64"
  have "push_bit (8 * n) (push_bit 8 a OR ?b) OR take_bit (8 * n) v = push_bit (8 * Suc n) a OR take_bit (8 * Suc n) v"
    by (rule bit_word_eqI) (auto simp: bit_simps add.commute [of _ 8])
  then show ?case using Suc by (simp add: writeBE_Suc)
qed

lemma readBE_writeBE:
  assumes "v < 2 ^ (8 * n)"
  shows "readBE (writeBE v n) = v"
  using assms by (simp add: readBE_def fold_writeBE take_bit_eq_mask less_mask_eq)

lemma max_nal_less: "isValidLenSize n \<Longrightarrow> k \<le> max_nal n \<Longrightarrow> (of_nat k :: u64) < 2 ^ (8 * n) \<and> unat (of_nat k :: u64) = k"
  by (auto elim!: lenSize_cases simp: max_nal_def word_less_nat_alt unsigned_of_nat take_bit_nat_eq_self)

definition prefixed :: "nat \<Rightarrow> byte list \<Rightarrow> byte list" where
  "prefixed n nal = writeBE (of_nat (length nal)) n @ nal"

text \<open>Every visitor is run over the units of a prefixed stream in order, the empty ones left out.\<close>

lemma walk_prefixed:
  assumes "isValidLenSize n" "\<forall>x\<in>set ns. length x \<le> max_nal n"
  shows "forEachAvccNal visit n (concat (map (prefixed n) ns)) s = visit_nals visit (filter (\<lambda>x. x \<noteq> []) ns) s"
  using assms(2)
proof (induction ns arbitrary: s)
  case Nil
  then show ?case using assms(1) by (simp add: forEachAvccNal.simps)
next
  case (Cons x ns)
  let ?d = "concat (map (prefixed n) ns)"
  have n: "0 < n" using assms(1) by (auto elim: lenSize_cases)
  have "unat (readBE (writeBE (of_nat (length x)) n)) = length x"
    using max_nal_less [OF assms(1)] Cons.prems readBE_writeBE by auto
  moreover have "writeBE (of_nat (length x)) n \<noteq> []" using n length_writeBE [of "of_nat (length x)" n] by force
  ultimately have "forEachAvccNal visit n (prefixed n x @ ?d) s =
      (case (if x \<noteq> [] then visit x s else (Ok, s)) of (e, s') \<Rightarrow> if e \<noteq> Ok then (e, s') else forEachAvccNal visit n ?d s')"
    using assms(1) n by (subst forEachAvccNal.simps) (simp add: prefixed_def Let_def cong: if_cong)
  then show ?case using Cons by (auto split: prod.splits)
qed

section \<open>Both passes of a conversion\<close>

lemma visit_sizing:
  "fst (visit_nals (sizing_visitor n keep) ns t) =
     (if \<forall>x\<in>set ns. keep x \<longrightarrow> length x \<le> max_nal n then Ok else CorruptData)"
  by (induction ns arbitrary: t) (auto simp: sizing_visitor_def split: prod.splits)

lemma visit_copy:
  "visit_nals (copy_visitor n keep) ns dst = (Ok, dst @ concat (map (prefixed n) (filter keep ns)))"
  by (induction ns arbitrary: dst) (auto simp: copy_visitor_def prefixed_def)

lemma walk_start_coded:
  assumes "findNextStartCode d 0 \<noteq> None" "d \<noteq> []"
  shows "forEachAnnexBNal visit d s = visit_nals visit (nals_of d) s"
  using assms by (auto simp: forEachAnnexBNal_def nals_of_def)

lemma annexBToAvccFiltered_eq:
  assumes "isValidLenSize n"
  shows "annexBToAvccFiltered n keep d =
    (if d = [] then Inr []
     else if findNextStartCode d 0 = None \<or> (\<exists>x\<in>set (nals_of d). keep x \<and> max_nal n < length x) then Inl CorruptData
     else Inr (concat (map (prefixed n) (filter keep (nals_of d)))))"
proof (cases "findNextStartCode d 0")
  case (Some cl)
  obtain e t where et: "visit_nals (sizing_visitor n keep) (nals_of d) 0 = (e, t)" by (cases "visit_nals (sizing_visitor n keep) (nals_of d) 0")
  have "e = (if \<forall>x\<in>set (nals_of d). keep x \<longrightarrow> length x \<le> max_nal n then Ok else CorruptData)"
    using visit_sizing [of n keep "nals_of d" 0] et by simp
  then show ?thesis
    using assms Some et visit_copy [of n keep "nals_of d" "[]"]
    by (cases "d = []") (auto simp: annexBToAvccFiltered_def walk_start_coded forEachAnnexBNal_def [of _ "[]"])
qed (use assms in \<open>auto simp: annexBToAvccFiltered_def forEachAnnexBNal_def\<close>)

lemma has_code: "nals_of d \<noteq> [] \<Longrightarrow> findNextStartCode d 0 \<noteq> None"
  by (cases "findNextStartCode d 0") (simp_all add: nals_of_def)

lemma annexBToAvcc_filtered: "annexBToAvcc n d = annexBToAvccFiltered n (\<lambda>_. True) d"
  by (simp add: annexBToAvcc_def annexBToAvccFiltered_def)

lemma visit_start_coded: "visit_nals (\<lambda>nal dst. (Ok, dst @ start_coded nal)) ns dst = (Ok, dst @ wrapNalsAsAnnexB ns)"
  by (induction ns arbitrary: dst) (simp_all add: wrapNalsAsAnnexB_def)

lemma visit_lengths: "fst (visit_nals (\<lambda>nal t. (Ok, t + (4 + length nal))) ns t) = Ok"
  by (induction ns arbitrary: t) auto

lemma avccToAnnexB_prefixed:
  assumes "isValidLenSize n" "\<forall>x\<in>set ns. length x \<le> max_nal n \<and> x \<noteq> []"
  shows "avccToAnnexB n (concat (map (prefixed n) ns)) = Inr (wrapNalsAsAnnexB ns)"
proof -
  have "filter (\<lambda>x. x \<noteq> []) ns = ns" using assms(2) by (auto simp: filter_id_conv)
  have walk: "forEachAvccNal visit n (concat (map (prefixed n) ns)) s = visit_nals visit ns s"
    "forEachAvccNal visit' n (concat (map (prefixed n) ns)) s' = visit_nals visit' ns s'"
    for visit :: "nat visitor" and s and visit' :: "byte list visitor" and s'
    using walk_prefixed [OF assms(1), of ns] assms(2) \<open>filter (\<lambda>x. x \<noteq> []) ns = ns\<close> by simp_all
  have "fst (forEachAvccNal (\<lambda>nal t. (Ok, t + (4 + length nal))) n (concat (map (prefixed n) ns)) 0) = Ok"
    unfolding walk by (rule visit_lengths)
  then show ?thesis
    using assms(1) walk visit_start_coded [of ns "[]"] by (auto simp: avccToAnnexB_def split: prod.splits)
qed

text \<open>C18: Converting a start-coded stream to any of the three prefix sizes loses nothing but the form of its start
  codes: whenever it succeeds, converting back gives a stream with exactly the units of the first, in order and byte
  for byte, and converting that once more gives the same prefixed stream. A unit the walk hands out is never empty and
  never holds a start code, which is what makes the way back safe.\<close>

theorem annexb_avcc_annexb:
  assumes "annexBToAvcc n d = Inr v"
  shows "\<exists>a. avccToAnnexB n v = Inr a \<and> a = wrapNalsAsAnnexB (nals_of d) \<and> nals_of a = nals_of d \<and> annexBToAvcc n a = Inr v"
proof -
  have n: "isValidLenSize n" using assms by (auto simp: annexBToAvcc_def split: if_splits)
  let ?ns = "nals_of d" and ?a = "wrapNalsAsAnnexB (nals_of d)"
  have nil: "nals_of [] = []" by (simp add: nals_of_def findNextStartCode_def)
  have v: "v = concat (map (prefixed n) ?ns)" and fits: "\<forall>x\<in>set ?ns. length x \<le> max_nal n"
    using assms n nil by (auto simp: annexBToAvcc_filtered annexBToAvccFiltered_eq not_less split: if_splits)
  have ns: "\<forall>x\<in>set ?ns. clean x" by (rule nals_clean)
  have again: "nals_of ?a = ?ns" by (rule nals_of_wrapped [OF ns])
  have "avccToAnnexB n v = Inr ?a"
    unfolding v by (rule avccToAnnexB_prefixed) (use n fits ns in \<open>auto simp: clean_def\<close>)
  moreover have "annexBToAvcc n ?a = Inr v"
  proof (cases ?ns)
    case Nil
    then show ?thesis using n by (simp add: v annexBToAvcc_filtered annexBToAvccFiltered_eq wrapNalsAsAnnexB_def)
  next
    case (Cons x xs)
    then have "?a \<noteq> []" by (simp add: wrapNalsAsAnnexB_def start_coded_def)
    moreover have "findNextStartCode ?a 0 \<noteq> None" using again Cons by (intro has_code) simp
    ultimately show ?thesis
      using n again fits by (auto simp: v annexBToAvcc_filtered annexBToAvccFiltered_eq not_less)
  qed
  ultimately show ?thesis using again by blast
qed

theorem annexb_avcc_annexb_witness:
  "\<exists>v a. annexBToAvcc 2 [0, 0, 1, 0x67, 0x42, 0, 0, 0, 1, 0x68] = Inr v \<and> v = [0, 2, 0x67, 0x42, 0, 1, 0x68] \<and>
    avccToAnnexB 2 v = Inr a \<and> nals_of a = [[0x67, 0x42], [0x68]]"
proof -
  have nals: "nals_of [0, 0, 1, 0x67, 0x42, 0, 0, 0, 1, 0x68] = [[0x67, 0x42], [0x68]]"
    by code_simp
  then have "annexBToAvcc 2 [0, 0, 1, 0x67, 0x42, 0, 0, 0, 1, 0x68] = Inr [0, 2, 0x67, 0x42, 0, 1, 0x68]"
    using has_code [of "[0, 0, 1, 0x67, 0x42, 0, 0, 0, 1, 0x68]"]
    by (auto simp: annexBToAvcc_filtered annexBToAvccFiltered_eq isValidLenSize_def max_nal_def prefixed_def writeBE_def
        upt_rec)
  from this annexb_avcc_annexb [OF this] show ?thesis unfolding nals by blast
qed

end
