(* ===== verification/NalBits.thy ===== *)
theory NalBits
  imports NalStream "HOL-Library.Monad_Syntax"
begin

text \<open>
  The bit layer of \<open>src/proav/h264bitstream.cpp\<close> and \<open>src/proav/hevcbitstream.cpp\<close>: the removal of emulation
  prevention bytes and the reader of bits and Exp-Golomb codes. A reader is the bits it has left, the most significant
  bit of a byte first.
\<close>

section \<open>Emulation prevention\<close>

fun stripEmulationPrevention :: "byte list \<Rightarrow> byte list" where
  "stripEmulationPrevention (a # b # c # r) =
     (if a = 0 \<and> b = 0 \<and> c = 3 then a # b # stripEmulationPrevention r else a # stripEmulationPrevention (b # c # r))"
| "stripEmulationPrevention xs = xs"

text \<open>What an encoder does by 7.4.1.1 of H.264: after two zeros, a byte up to three is preceded by a three.\<close>

fun escaped :: "nat \<Rightarrow> byte list \<Rightarrow> byte list" where
  "escaped z [] = []"
| "escaped z (b # bs) =
     (if 2 \<le> z \<and> b \<le> 3 then 3 # b # escaped (if b = 0 then 1 else 0) bs
      else b # escaped (if b = 0 then z + 1 else 0) bs)"

lemma strip_nonzero: "a \<noteq> 0 \<Longrightarrow> stripEmulationPrevention (a # r) = a # stripEmulationPrevention r"
  by (cases r rule: stripEmulationPrevention.cases) auto

lemma strip_zero_nonzero: "b \<noteq> 0 \<Longrightarrow> stripEmulationPrevention (0 # b # r) = 0 # b # stripEmulationPrevention r"
  by (cases r) (simp_all add: strip_nonzero)

lemma strip_zeros_nonzero:
  assumes "b \<noteq> 0" "b \<noteq> 3"
  shows "stripEmulationPrevention (0 # 0 # b # r) = 0 # 0 # b # stripEmulationPrevention r"
  using assms strip_zero_nonzero [of b r] by simp

lemma replicate_2: "replicate 2 x = [x, x]"
  by (simp add: numeral_2_eq_2)

lemma strip_escaped_after:
  "z \<le> 2 \<Longrightarrow> stripEmulationPrevention (replicate z 0 @ escaped z bs) = replicate z 0 @ bs"
proof (induction bs arbitrary: z)
  case Nil
  then have "z = 0 \<or> z = 1 \<or> z = 2" by linarith
  then show ?case by (auto simp: replicate_2)
next
  case (Cons b bs)
  from Cons.prems consider "z = 0" | "z = 1" | "z = 2" by linarith
  then show ?case
  proof cases
    case 1
    then show ?thesis using Cons.IH [of 0] Cons.IH [of 1] by (auto simp: strip_nonzero)
  next
    case 2
    then show ?thesis using Cons.IH [of 0] Cons.IH [of 2] by (auto simp: strip_zero_nonzero replicate_2 simp flip: numeral_2_eq_2)
  next
    case 3
    then show ?thesis
      using Cons.IH [of 0] Cons.IH [of 1] by (auto simp: strip_nonzero strip_zero_nonzero strip_zeros_nonzero replicate_2)
  qed
qed

lemma strip_escaped: "stripEmulationPrevention (escaped 0 bs) = bs"
  using strip_escaped_after [of 0 bs] by simp

text \<open>No start code survives in an escaped payload, whatever the payload.\<close>

lemma code_at_Suc: "code_at (x # xs) (Suc i) = code_at xs i"
  by (simp add: code_at_def)

definition code_free :: "byte list \<Rightarrow> bool" where
  "code_free xs \<longleftrightarrow> (\<forall>i. i + 2 < length xs \<longrightarrow> \<not> code_at xs i)"

lemma all_nat_split: "(\<forall>i::nat. P i) \<longleftrightarrow> P 0 \<and> (\<forall>i. P (Suc i))"
  by (metis not0_implies_Suc)

lemma code_free_Cons:
  "code_free (x # xs) \<longleftrightarrow> code_free xs \<and> (case xs of b # c # _ \<Rightarrow> \<not> (x = 0 \<and> b = 0 \<and> c = 1) | _ \<Rightarrow> True)"
proof -
  have "code_free (x # xs) \<longleftrightarrow> (2 < length (x # xs) \<longrightarrow> \<not> code_at (x # xs) 0) \<and> code_free xs"
    unfolding code_free_def by (subst all_nat_split) (simp add: code_at_Suc)
  then show ?thesis by (auto simp: code_at_def split: list.splits)
qed

lemma code_free_short [simp]: "code_free []" "code_free [a]" "code_free [a, b]"
  by (simp_all add: code_free_def)

lemma code_free_nonzero:
  assumes "a \<noteq> 0"
  shows "code_free (a # r) \<longleftrightarrow> code_free r" "code_free (0 # a # r) \<longleftrightarrow> code_free r"
    "a \<noteq> 1 \<Longrightarrow> code_free (0 # 0 # a # r) \<longleftrightarrow> code_free r"
proof -
  show a: "code_free (a # r) \<longleftrightarrow> code_free r" using assms by (simp add: code_free_Cons split: list.splits)
  show b: "code_free (0 # a # r) \<longleftrightarrow> code_free r"
    unfolding code_free_Cons [of 0 "a # r"] a using assms by (simp split: list.splits)
  show "a \<noteq> 1 \<Longrightarrow> code_free (0 # 0 # a # r) \<longleftrightarrow> code_free r"
    unfolding code_free_Cons [of 0 "0 # a # r"] b by simp
qed

lemma escaped_code_free_after: "z \<le> 2 \<Longrightarrow> code_free (replicate z 0 @ escaped z bs)"
proof (induction bs arbitrary: z)
  case Nil
  then have "z = 0 \<or> z = 1 \<or> z = 2" by linarith
  then show ?case by (auto simp: replicate_2)
next
  case (Cons b bs)
  have e: "code_free (escaped 0 bs)" "code_free (0 # escaped 1 bs)" "code_free (0 # 0 # escaped 2 bs)"
    using Cons.IH [of 0] Cons.IH [of 1] Cons.IH [of 2] by (simp_all add: replicate_2)
  from Cons.prems consider "z = 0" | "z = 1" | "z = 2" by linarith
  then show ?case
  proof cases
    case 1
    then show ?thesis using e by (simp add: code_free_nonzero)
  next
    case 2
    then show ?thesis using e by (simp add: code_free_nonzero flip: numeral_2_eq_2)
  next
    case 3
    have "b \<noteq> 0 \<and> b \<noteq> 1" if "\<not> b \<le> 3" using that by auto
    then show ?thesis
      using 3 e by (simp add: replicate_2 code_free_nonzero)
  qed
qed

text \<open>C35: The removal undoes the insertion: whatever bytes an encoder escapes by the standard's rule, stripping gives
  them back, and the escaped form holds no start code, so a unit with any payload behind a header byte that is not zero
  is read back whole from a start-coded stream.\<close>

theorem emulation_prevention_roundtrip:
  assumes "h \<noteq> 0"
  shows "stripEmulationPrevention (escaped 0 bs) = bs \<and> nals_of (wrapNalsAsAnnexB [h # escaped 0 bs]) = [h # escaped 0 bs]"
proof -
  have "code_free (h # escaped 0 bs)"
    using escaped_code_free_after [of 0 bs] assms by (auto simp: code_free_Cons split: list.splits)
  then have "clean (h # escaped 0 bs)" by (auto simp: clean_def code_free_def)
  then show ?thesis using nals_of_wrapped [of "[h # escaped 0 bs]"] strip_escaped by simp
qed

theorem emulation_prevention_roundtrip_witness:
  "escaped 0 [0, 0, 0, 0, 1] = [0, 0, 3, 0, 0, 3, 1] \<and>
   stripEmulationPrevention [0, 0, 3, 0, 0, 3, 1] = [0, 0, 0, 0, 1] \<and>
   nals_of (wrapNalsAsAnnexB [[0x67, 0, 0, 3, 0, 0, 3, 1]]) = [[0x67, 0, 0, 3, 0, 0, 3, 1]]"
  using emulation_prevention_roundtrip [of "0x67" "[0, 0, 0, 0, 1]"] by simp

section \<open>Reading bits\<close>

type_synonym bit_reader = "bool list"

definition byte_bools :: "byte \<Rightarrow> bool list" where
  "byte_bools b = map (\<lambda>i. bit b (7 - i)) [0..<8]"

definition bit_reader :: "byte list \<Rightarrow> bit_reader" where
  "bit_reader d = concat (map byte_bools d)"

definition reader_eof :: "bit_reader \<Rightarrow> bool" where "reader_eof r \<longleftrightarrow> r = []"

fun read_more :: "u32 \<Rightarrow> nat \<Rightarrow> bit_reader \<Rightarrow> u32 \<times> bit_reader" where
  "read_more v 0 r = (v, r)"
| "read_more v (Suc n) r =
     (if reader_eof r then (v, r) else read_more (push_bit 1 v OR of_bool (hd r)) n (tl r))"

definition readBits :: "nat \<Rightarrow> bit_reader \<Rightarrow> u32 \<times> bit_reader" where
  "readBits n r = read_more 0 n r"

text \<open>The test reads a bit before it looks at the count of zeros.\<close>

function count_zeros :: "nat \<Rightarrow> bit_reader \<Rightarrow> nat \<times> bit_reader" where
  "count_zeros zeros r =
     (if reader_eof r then (zeros, r)
      else case readBits 1 r of (b, r') \<Rightarrow>
        if b = 0 \<and> zeros < 32 then count_zeros (zeros + 1) r' else (zeros, r'))"
  by pat_completeness auto
termination by (relation "measure (\<lambda>(z, r). 33 - z)") auto

declare count_zeros.simps [simp del]

text \<open>A shift by 32 has no defined value in C++: no result.\<close>

definition readUe :: "bit_reader \<Rightarrow> (u32 \<times> bit_reader) option" where
  "readUe r =
     (case count_zeros 0 r of (zeros, r') \<Rightarrow>
        if zeros = 0 then Some (0, r')
        else case readBits zeros r' of (suffix, r'') \<Rightarrow>
          if 32 \<le> zeros then None else Some (push_bit zeros 1 - 1 + suffix, r''))"

text \<open>The value as the bits of an \<open>int32_t\<close>.\<close>

definition readSe :: "bit_reader \<Rightarrow> (u32 \<times> bit_reader) option" where
  "readSe r = do {
     (code, r') \<leftarrow> readUe r;
     Some (if code = 0 then 0 else if code AND 1 \<noteq> 0 then drop_bit 1 (code + 1) else - drop_bit 1 code, r')
   }"

section \<open>Writing codes\<close>

text \<open>The descriptors \<open>u(n)\<close> and \<open>ue(v)\<close> of clause 9.1, most significant bit first.\<close>

definition u_bits :: "nat \<Rightarrow> u32 \<Rightarrow> bool list" where
  "u_bits n v = map (\<lambda>i. bit v (n - 1 - i)) [0..<n]"

fun ilog2 :: "nat \<Rightarrow> nat" where
  "ilog2 n = (if n < 2 then 0 else Suc (ilog2 (n div 2)))"

declare ilog2.simps [simp del]

definition ue_bits :: "u32 \<Rightarrow> bool list" where
  "ue_bits v = (let k = ilog2 (unat (v + 1)) in replicate k False @ u_bits (k + 1) (v + 1))"

lemma u_bits_Suc: "u_bits (Suc n) v = bit v n # u_bits n v"
proof -
  have "[0..<Suc n] = 0 # map Suc [0..<n]" by (metis upt_conv_Cons zero_less_Suc map_Suc_upt)
  then show ?thesis by (simp add: u_bits_def comp_def)
qed

lemma read_more_u_bits:
  "n \<le> 32 \<Longrightarrow> read_more v n (u_bits n w @ r) = (push_bit n v OR take_bit n w, r)"
proof (induction n arbitrary: v)
  case 0
  then show ?case by (simp add: u_bits_def)
next
  case (Suc n)
  have "push_bit n (push_bit 1 v OR of_bool (bit w n)) OR take_bit n w = push_bit (Suc n) v OR take_bit (Suc n) w"
    using Suc.prems by (intro bit_word_eqI) (auto simp: bit_simps less_Suc_eq dest: le_neq_implies_less)
  then show ?case using Suc by (simp add: u_bits_Suc reader_eof_def)
qed

lemma readBits_u_bits:
  assumes "n \<le> 32" "w < 2 ^ n \<or> n = 32"
  shows "readBits n (u_bits n w @ r) = (w, r)"
proof -
  have "take_bit n w = w"
    using assms(2) take_bit_word_eq_self [of n w] by (auto simp: less_mask_eq take_bit_eq_mask)
  then show ?thesis using assms(1) by (simp add: readBits_def read_more_u_bits)
qed

lemma ilog2_bounds: "0 < n \<Longrightarrow> 2 ^ ilog2 n \<le> n \<and> n < 2 ^ Suc (ilog2 n)"
proof (induction n rule: ilog2.induct)
  case (1 n)
  show ?case
  proof (cases "n < 2")
    case True
    then show ?thesis using 1(2) by (simp add: ilog2.simps)
  next
    case False
    then have "2 ^ ilog2 (n div 2) \<le> n div 2 \<and> n div 2 < 2 ^ Suc (ilog2 (n div 2))" using 1(1) by auto
    then show ?thesis using False by (subst (1 2) ilog2.simps) auto
  qed
qed

lemma count_zeros_run: "z + k \<le> 32 \<Longrightarrow> count_zeros z (replicate k False @ True # r) = (z + k, r)"
proof (induction k arbitrary: z)
  case 0
  then show ?case by (simp add: count_zeros.simps reader_eof_def readBits_def)
next
  case (Suc k)
  then show ?case by (subst count_zeros.simps) (simp add: reader_eof_def readBits_def)
qed

lemma readUe_ue_bits:
  assumes "v + 1 \<noteq> 0"
  shows "readUe (ue_bits v @ r) = Some (v, r)"
proof -
  define n where "n = unat (v + 1)"
  define k where "k = ilog2 n"
  have n: "2 ^ k \<le> n" "n < 2 ^ Suc k" "n < 2 ^ 32"
    using ilog2_bounds [of n] assms unsigned_less [of "v + 1", where ?'a = nat] by (auto simp: n_def k_def unat_gt_0)
  then have "(2::nat) ^ k < 2 ^ 32" by linarith
  then have k: "k < 32" by (rule power_less_imp_less_exp [rotated]) simp
  have one: "n div 2 ^ k = 1" using n(1,2) by (intro div_nat_eqI) simp_all
  have "bit n k" using one by (simp add: bit_iff_odd)
  then have top: "bit (v + 1) k" by (simp add: n_def bit_unsigned_iff)
  have t: "unat (take_bit k (v + 1)) = n - 2 ^ k"
    using one minus_div_mult_eq_mod [of n "2 ^ k"] by (simp add: unsigned_take_bit_eq take_bit_eq_mod [of k "n"] flip: n_def)
  have "v + 1 = of_nat (2 ^ k + (n - 2 ^ k))" using n(1) by (simp add: n_def)
  also have "\<dots> = 2 ^ k + of_nat (unat (take_bit k (v + 1)))" unfolding t by (simp only: of_nat_add of_nat_power of_nat_numeral)
  finally have "v + 1 = 2 ^ k + take_bit k (v + 1)" by simp
  then have v: "push_bit k 1 - 1 + take_bit k (v + 1) = v"
    by (simp add: push_bit_eq_mult algebra_simps)
  have bits: "ue_bits v @ r = replicate k False @ True # u_bits k (v + 1) @ r"
    using top by (simp add: ue_bits_def u_bits_Suc flip: n_def k_def)
  show ?thesis
  proof (cases "k = 0")
    case True
    then show ?thesis
      using v count_zeros_run [of 0 0] unfolding readUe_def bits by (simp add: u_bits_def)
  next
    case False
    then show ?thesis
      using v k count_zeros_run [of 0 k] read_more_u_bits [of k 0]
      unfolding readUe_def bits by (simp add: readBits_def)
  qed
qed

text \<open>Signed codes, as the reader gives them, count \<open>0, 1, -1, 2, -2, ...\<close>.\<close>

lemma readSe_se_bits:
  assumes "v + 1 \<noteq> 0"
  shows "readSe (ue_bits v @ r) = Some (if v AND 1 \<noteq> 0 then drop_bit 1 (v + 1) else - drop_bit 1 v, r)"
  using assms by (simp add: readSe_def readUe_ue_bits)

text \<open>A run of 33 zeros in a damaged stream shifts a 32-bit one by 32.\<close>

lemma readUe_undefined: "readUe (replicate 33 False @ r) = None"
proof -
  have "count_zeros z (replicate (Suc k) False @ r) = (32, r)" if "z + k = 32" for z k
    using that
  proof (induction k arbitrary: z)
    case 0
    then show ?case by (simp add: count_zeros.simps reader_eof_def readBits_def)
  next
    case (Suc k)
    then show ?case by (subst count_zeros.simps) (simp add: reader_eof_def readBits_def)
  qed
  from this [of 0 32] show ?thesis
    unfolding readUe_def by (simp add: eval_nat_numeral split: prod.splits)
qed

end
