(* ===== verification/SpsParse.thy ===== *)
theory SpsParse
  imports NalBits
begin

text \<open>
  What a receiver reads from a sequence parameter set before the first picture: \<open>H264Bitstream::parseSpsResolution\<close> in
  \<open>src/proav/h264bitstream.cpp\<close> and \<open>HevcDecoderConfig::parseSpsResolution\<close> in \<open>src/proav/hevcbitstream.cpp\<close>. The
  result is \<open>None\<close> where the code runs into undefined behaviour; what an error leaves in the out parameter is dropped.
\<close>

section \<open>H.264\<close>

record sps_info =
  sps_width :: u32
  sps_height :: u32
  chromaFormatIdc :: byte
  bitDepthLumaMinus8 :: byte
  bitDepthChromaMinus8 :: byte
  profileIdc :: byte
  levelIdc :: byte
  frameMbsOnly :: bool
  sarWidth :: u16
  sarHeight :: u16

definition new_sps_info :: sps_info where
  "new_sps_info = \<lparr>sps_width = 0, sps_height = 0, chromaFormatIdc = 1, bitDepthLumaMinus8 = 0, bitDepthChromaMinus8 = 0,
     profileIdc = 0, levelIdc = 0, frameMbsOnly = True, sarWidth = 0, sarHeight = 0\<rparr>"

definition isH264HighProfile :: "byte \<Rightarrow> bool" where
  "isH264HighProfile p \<longleftrightarrow> p \<in> {44, 83, 86, 100, 110, 118, 122, 128, 134, 135, 138, 139, 244}"

definition kSarTable :: "(u16 \<times> u16) list" where
  "kSarTable = [(0, 0), (1, 1), (12, 11), (10, 11), (16, 11), (40, 33), (24, 11), (20, 11), (32, 11), (80, 33), (18, 11),
     (15, 11), (64, 33), (160, 99), (4, 3), (3, 2), (2, 1)]"

text \<open>The aspect ratio at the head of the usability information, when there is any.\<close>

definition read_sar :: "bit_reader \<Rightarrow> u16 \<times> u16" where
  "read_sar r =
     (case readBits 1 r of (vui, r) \<Rightarrow>
        if vui = 0 then (0, 0)
        else case readBits 1 r of (present, r) \<Rightarrow>
          if present = 0 then (0, 0)
          else case readBits 8 r of (idc, r) \<Rightarrow>
            if idc = 255 then (case readBits 16 r of (w, r) \<Rightarrow> case readBits 16 r of (h, _) \<Rightarrow> (ucast w, ucast h))
            else if 1 \<le> idc \<and> idc < of_nat (length kSarTable) then kSarTable ! unat idc else (0, 0))"

fun skip_se :: "nat \<Rightarrow> bit_reader \<Rightarrow> bit_reader option" where
  "skip_se 0 r = Some r"
| "skip_se (Suc n) r = do { (_, r) \<leftarrow> readSe r; skip_se n r }"

text \<open>The fields between the level and the frame numbers: only the high profiles have them. The last result says
  whether scaling lists follow.\<close>

definition read_chroma :: "byte \<Rightarrow> bit_reader \<Rightarrow> (byte \<times> byte \<times> byte \<times> bool \<times> bit_reader) option" where
  "read_chroma profile r =
     (if isH264HighProfile profile then do {
        (chroma, r) \<leftarrow> readUe r;
        let r = (if (ucast chroma :: byte) = 3 then snd (readBits 1 r) else r);
        (luma, r) \<leftarrow> readUe r;
        (depth, r) \<leftarrow> readUe r;
        let r = snd (readBits 1 r);
        let (scaling, r) = readBits 1 r;
        Some (ucast chroma, ucast luma, ucast depth, scaling \<noteq> 0, r)
      } else Some (1, 0, 0, False, r))"

definition skip_order :: "bit_reader \<Rightarrow> bit_reader option" where
  "skip_order r = do {
     (_, r) \<leftarrow> readUe r;
     (pocType, r) \<leftarrow> readUe r;
     if pocType = 0 then do { (_, r) \<leftarrow> readUe r; Some r }
     else if pocType = 1 then do {
       let r = snd (readBits 1 r);
       (_, r) \<leftarrow> readSe r;
       (_, r) \<leftarrow> readSe r;
       (n, r) \<leftarrow> readUe r;
       skip_se (unat n) r
     } else Some r
   }"

definition read_crop :: "bit_reader \<Rightarrow> (u32 \<times> u32 \<times> u32 \<times> u32 \<times> bit_reader) option" where
  "read_crop r =
     (case readBits 1 r of (flag, r) \<Rightarrow>
        if flag = 0 then Some (0, 0, 0, 0, r)
        else do {
          (a, r) \<leftarrow> readUe r; (b, r) \<leftarrow> readUe r; (c, r) \<leftarrow> readUe r; (d, r) \<leftarrow> readUe r;
          Some (a, b, c, d, r)
        })"

definition cropUnitX :: "byte \<Rightarrow> u32" where
  "cropUnitX chroma = (if chroma = 0 then 1 else if chroma = 1 \<or> chroma = 2 then 2 else 1)"

definition cropUnitY :: "byte \<Rightarrow> bool \<Rightarrow> u32" where
  "cropUnitY chroma frames =
     (if chroma = 0 then 2 - (if frames then 1 else 0) else (if chroma = 1 then 2 else 1) * (2 - (if frames then 1 else 0)))"

definition parse_rbsp :: "byte list \<Rightarrow> sps_info result option" where
  "parse_rbsp rbsp = do {
     let (profile, r) = readBits 8 (bit_reader rbsp);
     let (_, r) = readBits 8 r;
     let (level, r) = readBits 8 r;
     (_, r) \<leftarrow> readUe r;
     (chroma, luma, depth, scaling, r) \<leftarrow> read_chroma (ucast profile) r;
     if scaling then Some (Inl NotSupported)
     else do {
       r \<leftarrow> skip_order r;
       (_, r) \<leftarrow> readUe r;
       let r = snd (readBits 1 r);
       (mbs, r) \<leftarrow> readUe r;
       (units, r) \<leftarrow> readUe r;
       let (frames, r) = readBits 1 r;
       let r = (if frames = 0 then snd (readBits 1 r) else r);
       let r = snd (readBits 1 r);
       (left, right, top, bottom, r) \<leftarrow> read_crop r;
       let widthSamples = (mbs + 1) * 16;
       let heightSamples = (units + 1) * 16 * (if frames \<noteq> 0 then 1 else 2);
       let cropX = (left + right) * cropUnitX chroma;
       let cropY = (top + bottom) * cropUnitY chroma (frames \<noteq> 0);
       if widthSamples < cropX \<or> heightSamples < cropY then Some (Inl CorruptData)
       else Some (Inr \<lparr>sps_width = widthSamples - cropX, sps_height = heightSamples - cropY, chromaFormatIdc = chroma,
         bitDepthLumaMinus8 = luma, bitDepthChromaMinus8 = depth, profileIdc = ucast profile, levelIdc = ucast level,
         frameMbsOnly = (frames \<noteq> 0), sarWidth = fst (read_sar r), sarHeight = snd (read_sar r)\<rparr>)
     }
   }"

definition parseSpsResolution :: "byte list \<Rightarrow> sps_info result option" where
  "parseSpsResolution sps =
     (if length sps < 4 then Some (Inl CorruptData)
      else if sps ! 0 AND 0x1f \<noteq> 7 then Some (Inl InvalidArgument)
      else let rbsp = stripEmulationPrevention (drop 1 sps) in
        if length rbsp < 3 then Some (Inl CorruptData) else parse_rbsp rbsp)"

section \<open>What an encoder writes\<close>

text \<open>
  The syntax of 7.3.2.1.1 up to the usability information, without scaling lists. A picture order of kind one lists
  its signed offsets by their codes.
\<close>

datatype pic_order = Order0 u32 | Order1 bool u32 u32 "u32 list" | Order2

record sps_syntax =
  profile :: byte
  constraints :: byte
  level :: byte
  set_id :: u32
  chroma_format :: u32
  separate_planes :: bool
  luma_depth :: u32
  chroma_depth :: u32
  bypass :: bool
  frame_num :: u32
  pic_order :: pic_order
  ref_frames :: u32
  gaps :: bool
  mbs_minus1 :: u32
  units_minus1 :: u32
  frames_only :: bool
  adaptive :: bool
  direct_8x8 :: bool
  cropping :: "(u32 \<times> u32 \<times> u32 \<times> u32) option"

text \<open>The profiles that carry the chroma fields, as 7.3.2.1.1 lists them.\<close>

definition chroma_profile :: "byte \<Rightarrow> bool" where
  "chroma_profile p \<longleftrightarrow> list_ex (\<lambda>n. unat p = n) [100, 110, 122, 244, 44, 83, 86, 118, 128, 138, 139, 134, 135]"

lemma high_profile [simp]: "isH264HighProfile p \<longleftrightarrow> chroma_profile p"
  by (auto simp: isH264HighProfile_def chroma_profile_def word_unat_eq_iff)

definition chroma_bits :: "sps_syntax \<Rightarrow> bool list" where
  "chroma_bits f =
     (if chroma_profile (profile f)
      then ue_bits (chroma_format f) @ (if chroma_format f = 3 then [separate_planes f] else []) @ ue_bits (luma_depth f) @
        ue_bits (chroma_depth f) @ [bypass f, False]
      else [])"

definition order_bits :: "pic_order \<Rightarrow> bool list" where
  "order_bits p =
     (case p of
        Order0 lsb \<Rightarrow> ue_bits 0 @ ue_bits lsb
      | Order1 delta a b offsets \<Rightarrow>
          ue_bits 1 @ [delta] @ ue_bits a @ ue_bits b @ ue_bits (of_nat (length offsets)) @ concat (map ue_bits offsets)
      | Order2 \<Rightarrow> ue_bits 2)"

definition crop_bits :: "(u32 \<times> u32 \<times> u32 \<times> u32) option \<Rightarrow> bool list" where
  "crop_bits c = (case c of None \<Rightarrow> [False] | Some (l, r, t, b) \<Rightarrow> [True] @ ue_bits l @ ue_bits r @ ue_bits t @ ue_bits b)"

definition sps_bits :: "sps_syntax \<Rightarrow> bool list" where
  "sps_bits f =
     u_bits 8 (ucast (profile f)) @ u_bits 8 (ucast (constraints f)) @ u_bits 8 (ucast (level f)) @ ue_bits (set_id f) @
     chroma_bits f @ ue_bits (frame_num f) @ order_bits (pic_order f) @ ue_bits (ref_frames f) @ [gaps f] @
     ue_bits (mbs_minus1 f) @ ue_bits (units_minus1 f) @ [frames_only f] @ (if frames_only f then [] else [adaptive f]) @
     [direct_8x8 f] @ crop_bits (cropping f)"

text \<open>Every code has 32 bits, and the chroma fields the range of the standard.\<close>

definition order_ok :: "pic_order \<Rightarrow> bool" where
  "order_ok p =
     (case p of Order0 lsb \<Rightarrow> lsb + 1 \<noteq> 0
      | Order1 _ a b offsets \<Rightarrow> a + 1 \<noteq> 0 \<and> b + 1 \<noteq> 0 \<and> (\<forall>x\<in>set offsets. x + 1 \<noteq> 0) \<and> length offsets + 1 < 2 ^ 32
      | Order2 \<Rightarrow> True)"

definition crop_of :: "sps_syntax \<Rightarrow> u32 \<times> u32 \<times> u32 \<times> u32" where
  "crop_of f = (case cropping f of None \<Rightarrow> (0, 0, 0, 0) | Some c \<Rightarrow> c)"

definition crop_ok :: "(u32 \<times> u32 \<times> u32 \<times> u32) option \<Rightarrow> bool" where
  "crop_ok c = (case c of None \<Rightarrow> True | Some (l, r, t, b) \<Rightarrow> l + 1 \<noteq> 0 \<and> r + 1 \<noteq> 0 \<and> t + 1 \<noteq> 0 \<and> b + 1 \<noteq> 0)"

definition sps_ok :: "sps_syntax \<Rightarrow> bool" where
  "sps_ok f \<longleftrightarrow> set_id f + 1 \<noteq> 0 \<and> chroma_format f \<le> 3 \<and> luma_depth f \<le> 6 \<and> chroma_depth f \<le> 6 \<and> frame_num f + 1 \<noteq> 0 \<and>
     order_ok (pic_order f) \<and> ref_frames f + 1 \<noteq> 0 \<and> mbs_minus1 f + 1 \<noteq> 0 \<and> units_minus1 f + 1 \<noteq> 0 \<and> crop_ok (cropping f)"

definition chroma_of :: "sps_syntax \<Rightarrow> byte" where
  "chroma_of f = (if chroma_profile (profile f) then ucast (chroma_format f) else 1)"

lemma readBits_1 [simp]: "readBits 1 (b # r) = (of_bool b, r)" "readBits (Suc 0) (b # r) = (of_bool b, r)"
  by (simp_all add: readBits_def reader_eof_def)

lemma small_plus: "(v :: u32) \<le> 6 \<Longrightarrow> v + 1 \<noteq> 0"
proof
  assume "v \<le> 6" "v + 1 = 0"
  then have "unat v \<le> 6" "unat (v + 1) = 0" by (simp_all add: word_le_nat_alt)
  then show False by (simp add: unat_word_ariths)
qed

lemma read_chroma_bits:
  assumes "sps_ok f"
  shows "read_chroma (profile f) (chroma_bits f @ r) =
    Some (chroma_of f, if chroma_profile (profile f) then ucast (luma_depth f) else 0,
      if chroma_profile (profile f) then ucast (chroma_depth f) else 0, False, r)"
proof -
  have "chroma_format f \<le> 3" using assms by (simp add: sps_ok_def)
  then have three: "(ucast (chroma_format f) :: byte) = 3 \<longleftrightarrow> chroma_format f = 3"
    by (auto simp: word_le_nat_alt word_unat_eq_iff unsigned_ucast_eq take_bit_nat_eq_self)
  have "chroma_format f \<le> 6" using \<open>chroma_format f \<le> 3\<close> by (rule order_trans) simp
  then show ?thesis
    using assms small_plus by (simp add: read_chroma_def chroma_bits_def chroma_of_def readUe_ue_bits sps_ok_def three)
qed

lemma skip_se_codes: "\<forall>x\<in>set xs. x + 1 \<noteq> 0 \<Longrightarrow> skip_se (length xs) (concat (map ue_bits xs) @ r) = Some r"
  by (induction xs) (simp_all add: readSe_se_bits)

lemma skip_order_bits:
  assumes "sps_ok f"
  shows "skip_order (ue_bits (frame_num f) @ order_bits (pic_order f) @ r) = Some r"
proof (cases "pic_order f")
  case (Order1 d a b xs)
  have ok: "a + 1 \<noteq> 0" "b + 1 \<noteq> 0" "\<forall>x\<in>set xs. x + 1 \<noteq> 0" "length xs + 1 < 2 ^ 32"
    using assms Order1 by (simp_all add: sps_ok_def order_ok_def)
  have "unat (of_nat (length xs) :: u32) = length xs" using ok(4) by (simp add: unsigned_of_nat take_bit_nat_eq_self)
  moreover have "(of_nat (length xs) :: u32) + 1 \<noteq> 0"
    using ok(4) by (simp add: word_of_nat_eq_0_iff nat_dvd_not_less flip: of_nat_Suc add.commute [of 1])
  ultimately show ?thesis
    using assms Order1 ok
    by (simp add: skip_order_def order_bits_def readUe_ue_bits readSe_se_bits skip_se_codes sps_ok_def)
qed (use assms in \<open>simp_all add: skip_order_def order_bits_def order_ok_def readUe_ue_bits sps_ok_def\<close>)

lemma read_crop_bits:
  assumes "sps_ok f"
  shows "read_crop (crop_bits (cropping f) @ r) =
    (case crop_of f of (a, b, c, d) \<Rightarrow> Some (a, b, c, d, r))"
  using assms
  by (auto simp: read_crop_def crop_bits_def crop_of_def sps_ok_def crop_ok_def readUe_ue_bits split: option.splits prod.splits)

text \<open>The crop of the standard, as numbers.\<close>

definition luma_width :: "sps_syntax \<Rightarrow> nat" where "luma_width f = (unat (mbs_minus1 f) + 1) * 16"

definition luma_height :: "sps_syntax \<Rightarrow> nat" where
  "luma_height f = (unat (units_minus1 f) + 1) * 16 * (if frames_only f then 1 else 2)"

text \<open>Table 6-1: chroma samples are half as many across for formats 1 and 2 and half as many down for format 1.\<close>

definition chroma_number :: "sps_syntax \<Rightarrow> nat" where
  "chroma_number f = (if chroma_profile (profile f) then unat (chroma_format f) else 1)"

definition crop_x :: "sps_syntax \<Rightarrow> nat" where
  "crop_x f = (case crop_of f of (l, r, _, _) \<Rightarrow> (unat l + unat r) * (if chroma_number f \<in> {1, 2} then 2 else 1))"

definition crop_y :: "sps_syntax \<Rightarrow> nat" where
  "crop_y f = (case crop_of f of (_, _, t, b) \<Rightarrow>
     (unat t + unat b) * (if chroma_number f = 1 then 2 else 1) * (if frames_only f then 1 else 2))"

lemma crop_unit_values:
  assumes "sps_ok f"
  shows "unat (cropUnitX (chroma_of f)) = (if chroma_number f \<in> {1, 2} then 2 else 1)"
    "unat (cropUnitY (chroma_of f) fr) = (if chroma_number f = 1 then 2 else 1) * (if fr then 1 else 2)"
proof -
  have "chroma_format f \<le> 3" using assms by (simp add: sps_ok_def)
  then have le: "unat (chroma_format f) \<le> 3" by (simp add: word_le_nat_alt)
  then have "unat (chroma_of f) = chroma_number f"
    by (simp add: chroma_of_def chroma_number_def unsigned_ucast_eq take_bit_nat_eq_self)
  then have "chroma_of f = n \<longleftrightarrow> chroma_number f = unat n" for n by (simp add: word_unat_eq_iff)
  then show "unat (cropUnitX (chroma_of f)) = (if chroma_number f \<in> {1, 2} then 2 else 1)"
    "unat (cropUnitY (chroma_of f) fr) = (if chroma_number f = 1 then 2 else 1) * (if fr then 1 else 2)"
    by (simp_all add: cropUnitX_def cropUnitY_def)
qed

text \<open>
  The head of the usability information: absent, without an aspect ratio, with the number of a ratio or with the ratio
  itself. The numbered ratios are those of table E-1.
\<close>

datatype aspect = NoVui | NoRatio | Ratio byte | ExtendedRatio u16 u16

definition aspect_bits :: "aspect \<Rightarrow> bool list" where
  "aspect_bits a =
     (case a of NoVui \<Rightarrow> [False] | NoRatio \<Rightarrow> [True, False] | Ratio n \<Rightarrow> [True, True] @ u_bits 8 (ucast n)
      | ExtendedRatio w h \<Rightarrow> [True, True] @ u_bits 8 255 @ u_bits 16 (ucast w) @ u_bits 16 (ucast h))"

fun table_e1 :: "nat \<Rightarrow> u16 \<times> u16" where
  "table_e1 n =
     (if n = 1 then (1, 1) else if n = 2 then (12, 11) else if n = 3 then (10, 11) else if n = 4 then (16, 11)
      else if n = 5 then (40, 33) else if n = 6 then (24, 11) else if n = 7 then (20, 11) else if n = 8 then (32, 11)
      else if n = 9 then (80, 33) else if n = 10 then (18, 11) else if n = 11 then (15, 11) else if n = 12 then (64, 33)
      else if n = 13 then (160, 99) else if n = 14 then (4, 3) else if n = 15 then (3, 2) else if n = 16 then (2, 1)
      else (0, 0))"

definition aspect_read :: "aspect \<Rightarrow> u16 \<times> u16" where
  "aspect_read a = (case a of Ratio n \<Rightarrow> table_e1 (unat n) | ExtendedRatio w h \<Rightarrow> (w, h) | _ \<Rightarrow> (0, 0))"

lemma readBits_byte: "readBits 8 (u_bits 8 (ucast (b :: byte)) @ r) = (ucast b, r)"
proof -
  have "take_bit 8 (ucast b :: u32) = ucast b" by (rule bit_word_eqI) (auto simp: bit_simps dest: bit_byte_lt)
  then show ?thesis by (simp add: readBits_def read_more_u_bits)
qed

lemma readBits_short: "readBits 16 (u_bits 16 (ucast (w :: u16)) @ r) = (ucast w, r)"
proof -
  have "take_bit 16 (ucast w :: u32) = ucast w" by (rule bit_word_eqI) (auto simp: bit_simps dest: bit_imp_le_length)
  then show ?thesis by (simp add: readBits_def read_more_u_bits)
qed

lemma narrow_short [simp]: "(ucast (ucast (w :: u16) :: u32) :: u16) = w"
  by (rule bit_word_eqI) (auto simp: bit_simps)

lemma sar_entries: "n < 17 \<Longrightarrow> kSarTable ! n = table_e1 n"
proof -
  have "\<forall>n\<in>set [0..<17]. kSarTable ! n = table_e1 n" by code_simp
  then show "n < 17 \<Longrightarrow> kSarTable ! n = table_e1 n" by simp
qed

lemma read_sar_bits:
  assumes "a \<noteq> Ratio 255"
  shows "read_sar (aspect_bits a @ r) = aspect_read a"
proof (cases a)
  case (Ratio n)
  have table: "length kSarTable = 17" by (simp add: kSarTable_def)
  have "take_bit 32 (unat n) = unat n"
    by (intro take_bit_nat_eq_self less_le_trans [OF unsigned_less]) simp
  then have "(ucast n :: u32) = 255 \<longleftrightarrow> unat n = 255" "1 \<le> (ucast n :: u32) \<longleftrightarrow> 1 \<le> unat n"
      "(ucast n :: u32) < 17 \<longleftrightarrow> unat n < 17" "unat (ucast n :: u32) = unat n"
    by (simp_all add: word_unat_eq_iff word_le_nat_alt word_less_nat_alt unsigned_ucast_eq)
  moreover have "unat n \<noteq> 255" using assms Ratio by (auto simp: word_unat_eq_iff)
  ultimately have "read_sar (aspect_bits a @ r) = (if 1 \<le> unat n \<and> unat n < 17 then kSarTable ! unat n else (0, 0))"
    using table by (simp add: Ratio read_sar_def aspect_bits_def readBits_byte)
  also have "\<dots> = table_e1 (unat n)"
  proof (cases "1 \<le> unat n \<and> unat n < 17")
    case True
    then show ?thesis using sar_entries [of "unat n"] by (simp only: if_True simp_thms)
  qed auto
  finally show ?thesis by (simp only: Ratio aspect_read_def aspect.case)
next
  case (ExtendedRatio w h)
  have "readBits 8 (u_bits 8 255 @ q) = (255, q)" for q using readBits_byte [of 255 q] by simp
  then show ?thesis by (simp add: ExtendedRatio read_sar_def aspect_bits_def aspect_read_def readBits_short)
qed (simp_all add: read_sar_def aspect_bits_def aspect_read_def)

lemma narrow_widen [simp]: "(ucast (ucast (b :: byte) :: u32) :: byte) = b"
  by (rule bit_word_eqI) (auto simp: bit_simps)

lemma parse_sps_bits:
  assumes "sps_ok f" "bit_reader rbsp = sps_bits f @ rest" "crop_of f = (a, b, c, d)"
  shows "parse_rbsp rbsp =
    (let w = (mbs_minus1 f + 1) * 16; h = (units_minus1 f + 1) * 16 * (if frames_only f then 1 else 2);
         x = (a + b) * cropUnitX (chroma_of f); y = (c + d) * cropUnitY (chroma_of f) (frames_only f)
     in if w < x \<or> h < y then Some (Inl CorruptData)
        else Some (Inr \<lparr>sps_width = w - x, sps_height = h - y, chromaFormatIdc = chroma_of f,
          bitDepthLumaMinus8 = (if chroma_profile (profile f) then ucast (luma_depth f) else 0),
          bitDepthChromaMinus8 = (if chroma_profile (profile f) then ucast (chroma_depth f) else 0),
          profileIdc = profile f, levelIdc = level f, frameMbsOnly = frames_only f,
          sarWidth = fst (read_sar rest), sarHeight = snd (read_sar rest)\<rparr>))"
proof -
  have codes: "set_id f + 1 \<noteq> 0" "ref_frames f + 1 \<noteq> 0" "mbs_minus1 f + 1 \<noteq> 0" "units_minus1 f + 1 \<noteq> 0"
    using assms(1) by (simp_all add: sps_ok_def)
  show ?thesis
    unfolding parse_rbsp_def assms(2) sps_bits_def
    by (simp add: Let_def readBits_byte codes readUe_ue_bits read_chroma_bits [OF assms(1)]
        skip_order_bits [OF assms(1)] read_crop_bits [OF assms(1)] assms(3))
qed

lemma length_escaped: "length bs \<le> length (escaped z bs)"
  by (induction z bs rule: escaped.induct) auto

lemma length_bit_reader: "length (bit_reader d) = 8 * length d"
  unfolding bit_reader_def by (rule length_concat_uniform) (simp add: byte_bools_def)

lemma length_u_bits [simp]: "length (u_bits n v) = n"
  by (simp add: u_bits_def)

text \<open>Sums and products of 32-bit values are exact while they fit.\<close>

lemma exact_mult: "unat a * unat b < 2 ^ 32 \<Longrightarrow> unat (a * b :: u32) = unat a * unat b"
  by (simp add: unat_word_ariths)

lemma exact_add: "unat a + unat b < 2 ^ 32 \<Longrightarrow> unat (a + b :: u32) = unat a + unat b"
  by (simp add: unat_word_ariths)

lemma crop_units: "cropUnitX c \<in> {1, 2}" "cropUnitY c fr \<in> {1, 2, 4}"
  by (auto simp: cropUnitX_def cropUnitY_def)

lemma exact_crop:
  assumes "(unat a + unat b) * unat u < 2 ^ 32" "u \<noteq> 0"
  shows "unat ((a + b) * u :: u32) = (unat a + unat b) * unat u"
proof -
  have "0 < unat u" using assms(2) by (simp add: unat_gt_0)
  then have "unat a + unat b \<le> (unat a + unat b) * unat u" by simp
  then have "unat a + unat b < 2 ^ 32" using assms(1) by linarith
  then show ?thesis using assms(1) exact_add [of a b] exact_mult [of "a + b" u] by simp
qed

lemma exact_luma:
  assumes "(unat m + 1) * 16 * unat k < 2 ^ 32" "k \<noteq> 0"
  shows "unat ((m + 1) * 16 * k :: u32) = (unat m + 1) * 16 * unat k"
proof -
  have "0 < unat k" using assms(2) by (simp add: unat_gt_0)
  then have "(unat m + 1) * 16 \<le> (unat m + 1) * 16 * unat k" by simp
  then have f: "(unat m + 1) * 16 < 2 ^ 32" using assms(1) by linarith
  then have "unat (m + 1) = unat m + 1" using exact_add [of m 1] by simp
  then have "unat ((m + 1) * 16) = (unat m + 1) * 16" using f exact_mult [of "m + 1" 16] by simp
  then show ?thesis using assms(1) exact_mult [of "(m + 1) * 16" k] by simp
qed

lemma small_fields:
  assumes "sps_ok f"
  shows "unat (chroma_of f) = chroma_number f"
    "unat (ucast (luma_depth f) :: byte) = unat (luma_depth f)" "unat (ucast (chroma_depth f) :: byte) = unat (chroma_depth f)"
proof -
  have keep: "unat (ucast v :: byte) = unat v" if "unat v \<le> 6" for v :: u32
    using that by (simp add: unsigned_ucast_eq take_bit_nat_eq_self)
  have "chroma_format f \<le> 3" "luma_depth f \<le> 6" "chroma_depth f \<le> 6" using assms by (simp_all add: sps_ok_def)
  then have le: "unat (chroma_format f) \<le> 6" "unat (luma_depth f) \<le> 6" "unat (chroma_depth f) \<le> 6"
    by (simp_all add: word_le_nat_alt)
  show "unat (chroma_of f) = chroma_number f"
    "unat (ucast (luma_depth f) :: byte) = unat (luma_depth f)" "unat (ucast (chroma_depth f) :: byte) = unat (chroma_depth f)"
    using le keep by (simp_all add: chroma_of_def chroma_number_def)
qed

text \<open>C15: Any sequence parameter set an encoder can write without scaling lists, of whatever profile, with any frame
  numbering, picture order, interlacing, cropping and usability information, escaped by the rule of the standard, is
  read to the size a decoder will produce: sixteen times the macroblocks, twice that in height for fields, less the
  crop in the chroma units of the standard. Profile, level, chroma format, the depths of luma and chroma, interlacing
  and the sample aspect ratio, by its number in the table of the standard or written out, are the ones written.\<close>

theorem sps_resolution_read:
  assumes "sps_ok f" "bit_reader rbsp = sps_bits f @ aspect_bits asp @ rest" "asp \<noteq> Ratio 255" "h AND 0x1f = 7"
    "luma_width f < 2 ^ 32" "luma_height f < 2 ^ 32" "crop_x f \<le> luma_width f" "crop_y f \<le> luma_height f"
  shows "\<exists>i. parseSpsResolution (h # escaped 0 rbsp) = Some (Inr i) \<and>
    unat (sps_width i) = luma_width f - crop_x f \<and> unat (sps_height i) = luma_height f - crop_y f \<and>
    unat (chromaFormatIdc i) = chroma_number f \<and> profileIdc i = profile f \<and> levelIdc i = level f \<and> frameMbsOnly i = frames_only f \<and>
    unat (bitDepthLumaMinus8 i) = (if chroma_profile (profile f) then unat (luma_depth f) else 0) \<and>
    unat (bitDepthChromaMinus8 i) = (if chroma_profile (profile f) then unat (chroma_depth f) else 0) \<and>
    (sarWidth i, sarHeight i) = aspect_read asp"
proof -
  obtain a b c d where crop: "crop_of f = (a, b, c, d)" by (cases "crop_of f")
  let ?k = "if frames_only f then 1 else 2 :: u32"
  let ?w = "(mbs_minus1 f + 1) * 16" and ?h = "(units_minus1 f + 1) * 16 * ?k"
  let ?x = "(a + b) * cropUnitX (chroma_of f)" and ?y = "(c + d) * cropUnitY (chroma_of f) (frames_only f)"
  have w: "unat ?w = luma_width f" using exact_luma [of "mbs_minus1 f" 1] assms(5) by (simp add: luma_width_def)
  have h: "unat ?h = luma_height f"
    using exact_luma [of "units_minus1 f" ?k] assms(6) by (simp add: luma_height_def split: if_splits)
  have "(unat a + unat b) * unat (cropUnitX (chroma_of f)) = crop_x f"
      "(unat c + unat d) * unat (cropUnitY (chroma_of f) (frames_only f)) = crop_y f"
    unfolding crop_unit_values [OF assms(1)] by (simp_all add: crop_x_def crop_y_def crop)
  then have x: "unat ?x = crop_x f" and y: "unat ?y = crop_y f"
    using exact_crop [of a b "cropUnitX (chroma_of f)"] exact_crop [of c d "cropUnitY (chroma_of f) (frames_only f)"]
      crop_units(1) [of "chroma_of f"] crop_units(2) [of "chroma_of f" "frames_only f"] assms(5-8) by fastforce+
  have "\<not> (?w < ?x \<or> ?h < ?y)" using w h x y assms(7,8) by (simp add: word_less_nat_alt not_less)
  moreover have "unat (?w - ?x) = luma_width f - crop_x f" "unat (?h - ?y) = luma_height f - crop_y f"
    using w h x y assms(7,8) by (simp_all add: unat_sub word_le_nat_alt)
  moreover have "24 \<le> length (sps_bits f @ aspect_bits asp @ rest)" by (simp add: sps_bits_def)
  then have "3 \<le> length rbsp" using length_bit_reader [of rbsp] assms(2) by simp
  moreover have "parseSpsResolution (h # escaped 0 rbsp) = parse_rbsp rbsp"
    using assms(4) \<open>3 \<le> length rbsp\<close> length_escaped [of rbsp 0] by (simp add: parseSpsResolution_def strip_escaped)
  ultimately show ?thesis
    using parse_sps_bits [OF assms(1,2) crop] read_sar_bits [OF assms(3)] small_fields [OF assms(1)]
    by (simp only: Let_def) simp
qed

text \<open>A high profile, 1920 by 1080 in 120 macroblocks by 34 field units, eight lines cropped.\<close>

definition sample_sps :: sps_syntax where
  "sample_sps = \<lparr>profile = 100, constraints = 0, level = 40, set_id = 0, chroma_format = 1, separate_planes = False,
     luma_depth = 2, chroma_depth = 0, bypass = False, frame_num = 0, pic_order = Order2, ref_frames = 1, gaps = False,
     mbs_minus1 = 119, units_minus1 = 33, frames_only = False, adaptive = True, direct_8x8 = True,
     cropping = Some (0, 0, 0, 2)\<rparr>"

theorem sps_resolution_read_witness:
  "\<exists>i rbsp rest. bit_reader rbsp = sps_bits sample_sps @ aspect_bits (Ratio 14) @ rest \<and>
    parseSpsResolution (0x67 # escaped 0 rbsp) = Some (Inr i) \<and>
    unat (sps_width i) = 1920 \<and> unat (sps_height i) = 1080 \<and> unat (bitDepthLumaMinus8 i) = 2 \<and>
    unat (bitDepthChromaMinus8 i) = 0 \<and> (sarWidth i, sarHeight i) = (4, 3)"
proof -
  let ?rbsp = "[100, 0, 40, 167, 45, 0, 240, 8, 159, 188, 56]"
  have bits: "bit_reader ?rbsp = sps_bits sample_sps @ aspect_bits (Ratio 14) @ replicate 2 False" by code_simp
  have ok: "sps_ok sample_sps" by code_simp
  have n: "luma_width sample_sps = 1920" "luma_height sample_sps = 1088" "crop_x sample_sps = 0" "crop_y sample_sps = 8"
      "chroma_profile (profile sample_sps)" "unat (luma_depth sample_sps) = 2" "unat (chroma_depth sample_sps) = 0"
    by (simp_all add: luma_width_def luma_height_def crop_x_def crop_y_def crop_of_def chroma_number_def
        chroma_profile_def sample_sps_def)
  have "Ratio 14 \<noteq> Ratio 255" "(0x67 :: byte) AND 0x1f = 7" by simp_all
  from sps_resolution_read [OF ok bits this] n obtain i where
    "parseSpsResolution (0x67 # escaped 0 ?rbsp) = Some (Inr i)" "unat (sps_width i) = 1920" "unat (sps_height i) = 1080"
    "unat (bitDepthLumaMinus8 i) = 2" "unat (bitDepthChromaMinus8 i) = 0" "(sarWidth i, sarHeight i) = (4, 3)"
    by (auto simp: aspect_read_def)
  with bits show ?thesis by metis
qed

section \<open>H.265\<close>

record hevc_info =
  hevc_width :: u32
  hevc_height :: u32
  hevc_chroma :: byte
  hevc_luma_depth :: byte
  hevc_chroma_depth :: byte

fun read_present :: "nat \<Rightarrow> bit_reader \<Rightarrow> (bool \<times> bool) list \<times> bit_reader" where
  "read_present 0 r = ([], r)"
| "read_present (Suc n) r =
     (case readBits 1 r of (p, r) \<Rightarrow> case readBits 1 r of (l, r) \<Rightarrow>
       case read_present n r of (ps, r) \<Rightarrow> ((p \<noteq> 0, l \<noteq> 0) # ps, r))"

fun skip_layers :: "(bool \<times> bool) list \<Rightarrow> bit_reader \<Rightarrow> bit_reader" where
  "skip_layers [] r = r"
| "skip_layers ((p, l) # ps) r =
     (let r = (if p then snd (readBits 16 (snd (readBits 32 (snd (readBits 32 (snd (readBits 8 r))))))) else r);
          r = (if l then snd (readBits 8 r) else r)
      in skip_layers ps r)"

text \<open>The count has three bits, so the bound of eight in the loops is never reached.\<close>

definition skipProfileTierLevel :: "bit_reader \<Rightarrow> nat \<Rightarrow> bit_reader" where
  "skipProfileTierLevel r layers =
     (let r = snd (readBits 8 (snd (readBits 16 (snd (readBits 32 (snd (readBits 32 (snd (readBits 8 r)))))))))
      in if layers = 0 then r
         else case read_present layers r of (ps, r) \<Rightarrow>
           let pad = 2 * (8 - layers); r = (if 0 < pad \<and> pad < 32 then snd (readBits pad r) else r)
           in skip_layers ps r)"

definition hevc_parse_rbsp :: "byte list \<Rightarrow> hevc_info result option" where
  "hevc_parse_rbsp rbsp = do {
     let r = snd (readBits 4 (bit_reader rbsp));
     let (layers, r) = readBits 3 r;
     let r = snd (readBits 1 r);
     let r = skipProfileTierLevel r (unat layers);
     (_, r) \<leftarrow> readUe r;
     (chroma, r) \<leftarrow> readUe r;
     if 3 < chroma then Some (Inl CorruptData)
     else do {
       let r = (if chroma = 3 then snd (readBits 1 r) else r);
       (width, r) \<leftarrow> readUe r;
       (height, r) \<leftarrow> readUe r;
       (left, right, top, bottom, r) \<leftarrow> read_crop r;
       (luma, r) \<leftarrow> readUe r;
       (depth, r) \<leftarrow> readUe r;
       let lost = (8 < luma \<or> 8 < depth);
       let cropX = (left + right) * (if chroma = 1 \<or> chroma = 2 then 2 else 1);
       let cropY = (top + bottom) * (if chroma = 1 then 2 else 1);
       if width < cropX \<or> height < cropY then Some (Inl CorruptData)
       else Some (Inr \<lparr>hevc_width = width - cropX, hevc_height = height - cropY, hevc_chroma = ucast chroma,
         hevc_luma_depth = (if lost then 0 else ucast luma), hevc_chroma_depth = (if lost then 0 else ucast depth)\<rparr>)
     }
   }"

definition hevc_parseSpsResolution :: "byte list \<Rightarrow> hevc_info result option" where
  "hevc_parseSpsResolution sps =
     (if length sps < 5 then Some (Inl CorruptData)
      else if drop_bit 1 (sps ! 0) AND 0x3f \<noteq> 33 then Some (Inl InvalidArgument)
      else let rbsp = stripEmulationPrevention (drop 2 sps) in
        if length rbsp < 4 then Some (Inl CorruptData) else hevc_parse_rbsp rbsp)"

text \<open>What an encoder writes: 96 bits of the general profile, and for each sub-layer its profile and level if present.\<close>

record hevc_sps =
  vps_id :: u32
  nested :: bool
  general :: "bool list"
  layers :: "(bool list option \<times> bool list option) list"
  padding :: "bool list"
  hevc_id :: u32
  hevc_format :: u32
  hevc_planes :: bool
  pic_width :: u32
  pic_height :: u32
  window :: "(u32 \<times> u32 \<times> u32 \<times> u32) option"
  depth_luma :: u32
  depth_chroma :: u32

definition opt_bits :: "bool list option \<Rightarrow> bool list" where
  "opt_bits b = (case b of None \<Rightarrow> [] | Some bs \<Rightarrow> bs)"

definition opt_len :: "nat \<Rightarrow> bool list option \<Rightarrow> bool" where
  "opt_len n b = (case b of None \<Rightarrow> True | Some bs \<Rightarrow> length bs = n)"

definition layer_bits :: "hevc_sps \<Rightarrow> bool list" where
  "layer_bits f =
     (if layers f = [] then []
      else concat (map (\<lambda>(p, l). [p \<noteq> None, l \<noteq> None]) (layers f)) @ padding f @
        concat (map (\<lambda>(p, l). opt_bits p @ opt_bits l) (layers f)))"

definition hevc_bits :: "hevc_sps \<Rightarrow> bool list" where
  "hevc_bits f =
     u_bits 4 (vps_id f) @ u_bits 3 (of_nat (length (layers f))) @ [nested f] @ general f @ layer_bits f @
     ue_bits (hevc_id f) @ ue_bits (hevc_format f) @ (if hevc_format f = 3 then [hevc_planes f] else []) @
     ue_bits (pic_width f) @ ue_bits (pic_height f) @ crop_bits (window f) @ ue_bits (depth_luma f) @ ue_bits (depth_chroma f)"

definition hevc_ok :: "hevc_sps \<Rightarrow> bool" where
  "hevc_ok f \<longleftrightarrow> length (general f) = 96 \<and> length (layers f) \<le> 7 \<and> length (padding f) = 2 * (8 - length (layers f)) \<and>
     (\<forall>(p, l)\<in>set (layers f). opt_len 88 p \<and> opt_len 8 l) \<and>
     hevc_id f + 1 \<noteq> 0 \<and> hevc_format f \<le> 3 \<and> pic_width f + 1 \<noteq> 0 \<and> pic_height f + 1 \<noteq> 0 \<and> crop_ok (window f) \<and>
     depth_luma f \<le> 8 \<and> depth_chroma f \<le> 8"

lemma snd_read_more: "snd (read_more v n r) = drop n r"
  by (induction v n r rule: read_more.induct) (auto simp: reader_eof_def drop_Suc)

lemma snd_readBits: "snd (readBits n r) = drop n r"
  by (simp add: readBits_def snd_read_more)

lemma read_present_bits:
  "read_present (length ls) (concat (map (\<lambda>(p, l). [p \<noteq> None, l \<noteq> None]) ls) @ r) =
    (map (\<lambda>(p, l). (p \<noteq> None, l \<noteq> None)) ls, r)"
  by (induction ls) (auto simp: case_prod_unfold)

lemma skip_layers_bits:
  assumes "\<forall>(p, l)\<in>set ls. opt_len 88 p \<and> opt_len 8 l"
  shows "skip_layers (map (\<lambda>(p, l). (p \<noteq> None, l \<noteq> None)) ls) (concat (map (\<lambda>(p, l). opt_bits p @ opt_bits l) ls) @ r) = r"
  using assms
proof (induction ls)
  case (Cons x ls)
  obtain p l where x: "x = (p, l)" by (cases x)
  show ?case using Cons x by (cases p; cases l) (simp_all add: opt_bits_def opt_len_def snd_readBits Let_def)
qed simp

lemma skip_ptl_bits:
  assumes "hevc_ok f"
  shows "skipProfileTierLevel (general f @ layer_bits f @ r) (length (layers f)) = r"
proof (cases "layers f = []")
  case True
  then show ?thesis
    using assms by (simp add: skipProfileTierLevel_def snd_readBits layer_bits_def hevc_ok_def)
next
  case False
  then have n: "0 < length (layers f)" "length (layers f) \<le> 7" using assms by (simp_all add: hevc_ok_def)
  have g: "drop 8 (drop 16 (drop 32 (drop 32 (drop 8 (general f @ layer_bits f @ r))))) = layer_bits f @ r"
    using assms by (simp add: hevc_ok_def)
  have "8 - length (layers f) < 16" by simp
  then show ?thesis
    using False n assms skip_layers_bits [of "layers f" r]
    unfolding skipProfileTierLevel_def snd_readBits g
    by (simp add: layer_bits_def read_present_bits Let_def snd_readBits hevc_ok_def del: not_None_eq)
qed

definition window_of :: "hevc_sps \<Rightarrow> u32 \<times> u32 \<times> u32 \<times> u32" where
  "window_of f = (case window f of None \<Rightarrow> (0, 0, 0, 0) | Some c \<Rightarrow> c)"

definition window_x :: "hevc_sps \<Rightarrow> nat" where
  "window_x f = (case window_of f of (l, r, _, _) \<Rightarrow> (unat l + unat r) * (if hevc_format f = 1 \<or> hevc_format f = 2 then 2 else 1))"

definition window_y :: "hevc_sps \<Rightarrow> nat" where
  "window_y f = (case window_of f of (_, _, t, b) \<Rightarrow> (unat t + unat b) * (if hevc_format f = 1 then 2 else 1))"

lemma read_window_bits:
  assumes "hevc_ok f"
  shows "read_crop (crop_bits (window f) @ r) = (case window_of f of (a, b, c, d) \<Rightarrow> Some (a, b, c, d, r))"
  using assms
  by (auto simp: read_crop_def crop_bits_def window_of_def hevc_ok_def crop_ok_def readUe_ue_bits split: option.splits prod.splits)

lemma small_code: "(v :: u32) \<le> 8 \<Longrightarrow> v + 1 \<noteq> 0"
proof
  assume "v \<le> 8" "v + 1 = 0"
  then have "unat v \<le> 8" "unat (v + 1) = 0" by (simp_all add: word_le_nat_alt)
  then show False by (simp add: unat_word_ariths)
qed

lemma parse_hevc_bits:
  assumes "hevc_ok f" "bit_reader rbsp = hevc_bits f @ rest" "window_of f = (a, b, c, d)"
  shows "hevc_parse_rbsp rbsp =
    (let x = (a + b) * (if hevc_format f = 1 \<or> hevc_format f = 2 then 2 else 1); y = (c + d) * (if hevc_format f = 1 then 2 else 1)
     in if pic_width f < x \<or> pic_height f < y then Some (Inl CorruptData)
        else Some (Inr \<lparr>hevc_width = pic_width f - x, hevc_height = pic_height f - y, hevc_chroma = ucast (hevc_format f),
          hevc_luma_depth = ucast (depth_luma f), hevc_chroma_depth = ucast (depth_chroma f)\<rparr>))"
proof -
  have ok: "hevc_id f + 1 \<noteq> 0" "hevc_format f + 1 \<noteq> 0" "pic_width f + 1 \<noteq> 0" "pic_height f + 1 \<noteq> 0"
    "depth_luma f + 1 \<noteq> 0" "depth_chroma f + 1 \<noteq> 0" "\<not> 3 < hevc_format f" "\<not> 8 < depth_luma f" "\<not> 8 < depth_chroma f"
    using assms(1) small_code small_plus [of "hevc_format f"] order_trans [of "hevc_format f" 3 6]
    by (simp_all add: hevc_ok_def not_less)
  have n: "unat (of_nat (length (layers f)) :: u32) = length (layers f)" "(of_nat (length (layers f)) :: u32) < 2 ^ 3"
    using assms(1) by (simp_all add: hevc_ok_def unsigned_of_nat take_bit_nat_eq_self word_less_nat_alt)
  have head: "snd (readBits 4 (u_bits 4 v @ r)) = r" "readBits 3 (u_bits 3 (of_nat (length (layers f)) :: u32) @ r) = (of_nat (length (layers f)), r)"
    for v r using n(2) by (simp_all add: snd_readBits readBits_u_bits)
  show ?thesis
    unfolding hevc_parse_rbsp_def assms(2) hevc_bits_def
    by (simp add: Let_def head n(1) ok readUe_ue_bits skip_ptl_bits [OF assms(1)] read_window_bits [OF assms(1)] assms(3))
qed

text \<open>C36: The same for H.265: any parameter set with up to seven sub-layers, each with or without its profile and level,
  escaped by the rule of the standard, is read to the picture size less the conformance window in chroma units and to
  the chroma format and bit depths written: the walk over profile, tier and levels never loses a bit.\<close>

theorem hevc_resolution_read:
  assumes "hevc_ok f" "bit_reader rbsp = hevc_bits f @ rest" "drop_bit 1 h AND 0x3f = 33"
    "window_x f \<le> unat (pic_width f)" "window_y f \<le> unat (pic_height f)"
  shows "\<exists>i. hevc_parseSpsResolution (h # h' # escaped 0 rbsp) = Some (Inr i) \<and>
    unat (hevc_width i) = unat (pic_width f) - window_x f \<and> unat (hevc_height i) = unat (pic_height f) - window_y f \<and>
    hevc_chroma i = ucast (hevc_format f) \<and> hevc_luma_depth i = ucast (depth_luma f) \<and>
    hevc_chroma_depth i = ucast (depth_chroma f)"
proof -
  obtain a b c d where crop: "window_of f = (a, b, c, d)" by (cases "window_of f")
  let ?u = "if hevc_format f = 1 \<or> hevc_format f = 2 then 2 else 1 :: u32" and ?v = "if hevc_format f = 1 then 2 else 1 :: u32"
  have lim: "unat (pic_width f) < 2 ^ 32" "unat (pic_height f) < 2 ^ 32"
    using unsigned_less [of "pic_width f", where ?'a = nat] unsigned_less [of "pic_height f", where ?'a = nat] by simp_all
  have x: "unat ((a + b) * ?u) = window_x f"
    using exact_crop [of a b ?u] assms(4) lim(1) crop by (auto simp: window_x_def)
  have y: "unat ((c + d) * ?v) = window_y f"
    using exact_crop [of c d ?v] assms(5) lim(2) crop by (auto simp: window_y_def)
  have "\<not> (pic_width f < (a + b) * ?u \<or> pic_height f < (c + d) * ?v)"
    using x y assms(4,5) by (simp add: word_less_nat_alt not_less)
  moreover have "unat (pic_width f - (a + b) * ?u) = unat (pic_width f) - window_x f"
    "unat (pic_height f - (c + d) * ?v) = unat (pic_height f) - window_y f"
    using x y assms(4,5) by (simp_all add: unat_sub word_le_nat_alt)
  moreover have "32 \<le> length (hevc_bits f @ rest)" using assms(1) by (simp add: hevc_bits_def hevc_ok_def)
  then have "4 \<le> length rbsp" using length_bit_reader [of rbsp] assms(2) by simp
  moreover have "hevc_parseSpsResolution (h # h' # escaped 0 rbsp) = hevc_parse_rbsp rbsp"
    using assms(3) \<open>4 \<le> length rbsp\<close> length_escaped [of rbsp 0] by (simp add: hevc_parseSpsResolution_def strip_escaped)
  ultimately show ?thesis
    using parse_hevc_bits [OF assms(1,2) crop] by (simp only: Let_def) simp
qed

definition sample_hevc :: hevc_sps where
  "sample_hevc = \<lparr>vps_id = 0, nested = True, general = bit_reader [1, 96, 0, 0, 0, 144, 0, 0, 0, 0, 0, 93], layers = [(None, Some (bit_reader [90]))],
     padding = replicate 14 False, hevc_id = 0, hevc_format = 1, hevc_planes = False, pic_width = 1920, pic_height = 1088,
     window = Some (0, 0, 0, 4), depth_luma = 0, depth_chroma = 0\<rparr>"

theorem hevc_resolution_read_witness:
  "\<exists>i rbsp rest. bit_reader rbsp = hevc_bits sample_hevc @ rest \<and>
    hevc_parseSpsResolution (0x42 # 0x01 # escaped 0 rbsp) = Some (Inr i) \<and>
    unat (hevc_width i) = 1920 \<and> unat (hevc_height i) = 1080"
proof -
  let ?rbsp = "[3, 1, 96, 0, 0, 0, 144, 0, 0, 0, 0, 0, 93, 64, 0, 90, 160, 3, 192, 128, 17, 7, 203, 128]"
  have bits: "bit_reader ?rbsp = hevc_bits sample_hevc @ replicate 7 False" by code_simp
  have ok: "hevc_ok sample_hevc" by code_simp
  have n: "window_x sample_hevc = 0" "window_y sample_hevc = 8" "pic_width sample_hevc = 1920" "pic_height sample_hevc = 1088"
    by (simp_all add: window_x_def window_y_def window_of_def sample_hevc_def)
  have "drop_bit 1 (0x42 :: byte) AND 0x3f = 33" by simp
  from hevc_resolution_read [OF ok bits this, of "0x01"] n obtain i where
    "hevc_parseSpsResolution (0x42 # 0x01 # escaped 0 ?rbsp) = Some (Inr i)" "unat (hevc_width i) = 1920"
    "unat (hevc_height i) = 1080"
    by auto
  with bits show ?thesis by metis
qed

end
