(* ===== verification/DecoderConfig.thy ===== *)
theory DecoderConfig
  imports NalBits
begin

text \<open>
  The decoder configuration records of MP4 and of the live formats: \<open>AvcDecoderConfig\<close> in
  \<open>src/proav/h264bitstream.cpp\<close> and \<open>HevcDecoderConfig\<close> in \<open>src/proav/hevcbitstream.cpp\<close>: gathered from an access
  unit, written, read back, and unfolded into a start-coded stream. Where a parse fails, what it left in the out
  parameter is dropped.
\<close>

unbundle bit_operations_syntax

section \<open>H.264\<close>

record avc_config =
  configurationVersion :: byte
  avcProfileIndication :: byte
  profileCompatibility :: byte
  avcLevelIndication :: byte
  lengthSizeMinusOne :: byte
  avc_sps :: "byte list list"
  avc_pps :: "byte list list"

definition h264NalType :: "byte \<Rightarrow> byte" where "h264NalType h = h AND 0x1f"

definition new_avc_config :: avc_config where
  "new_avc_config = \<lparr>configurationVersion = 1, avcProfileIndication = 0, profileCompatibility = 0,
     avcLevelIndication = 0, lengthSizeMinusOne = 3, avc_sps = [], avc_pps = []\<rparr>"

text \<open>The visitor: the configuration and whether a profile has been seen.\<close>

definition avc_visit :: "(avc_config \<times> bool) visitor" where
  "avc_visit nal s =
     (case s of (c, haveProfile) \<Rightarrow>
        let t = h264NalType (header0 nal) in
        if t = 7 then
          (let (c, haveProfile) =
             (if \<not> haveProfile \<and> 4 \<le> length nal
              then (c\<lparr>avcProfileIndication := nal ! 1, profileCompatibility := nal ! 2, avcLevelIndication := nal ! 3\<rparr>, True)
              else (c, haveProfile))
           in (Ok, (c\<lparr>avc_sps := avc_sps c @ [nal]\<rparr>, haveProfile)))
        else if t = 8 then (Ok, (c\<lparr>avc_pps := avc_pps c @ [nal]\<rparr>, haveProfile))
        else (Ok, (c, haveProfile)))"

definition avc_fromAnnexB :: "byte list \<Rightarrow> avc_config result" where
  "avc_fromAnnexB au =
     (case forEachAnnexBNal avc_visit au (new_avc_config, False) of
        (e, c, _) \<Rightarrow> if e \<noteq> Ok then Inl e else if avc_sps c = [] then Inl InvalidArgument else Inr c)"

text \<open>Parameter sets behind 16-bit lengths.\<close>

fun read_sets :: "nat \<Rightarrow> byte list \<Rightarrow> (byte list list \<times> byte list) option" where
  "read_sets 0 d = Some ([], d)"
| "read_sets (Suc n) d =
     (if length d < 2 then None
      else let l = unat (rd16 (d ! 0) (d ! 1)); d' = drop 2 d in
        if length d' < l then None
        else case read_sets n (drop l d') of None \<Rightarrow> None | Some (sets, rest) \<Rightarrow> Some (take l d' # sets, rest))"

definition avc_parse :: "byte list \<Rightarrow> avc_config result" where
  "avc_parse d =
     (if length d < 6 then Inl CorruptData
      else case read_sets (unat (d ! 5 AND 0x1f)) (drop 6 d) of
        None \<Rightarrow> Inl CorruptData
      | Some (sps, []) \<Rightarrow> Inl CorruptData
      | Some (sps, n # d') \<Rightarrow>
          (case read_sets (unat n) d' of
             None \<Rightarrow> Inl CorruptData
           | Some (pps, _) \<Rightarrow>
               Inr \<lparr>configurationVersion = d ! 0, avcProfileIndication = d ! 1, profileCompatibility = d ! 2,
                 avcLevelIndication = d ! 3, lengthSizeMinusOne = d ! 4 AND 0x03, avc_sps = sps, avc_pps = pps\<rparr>))"

definition set_bytes :: "byte list \<Rightarrow> byte list" where
  "set_bytes s = be16 (of_nat (length s)) @ s"

definition avc_serialize :: "avc_config \<Rightarrow> byte list result" where
  "avc_serialize c =
     (if 0x1f < length (avc_sps c) then Inl InvalidArgument
      else if 0xff < length (avc_pps c) then Inl InvalidArgument
      else if \<exists>s\<in>set (avc_sps c). 0xffff < length s then Inl InvalidArgument
      else if \<exists>p\<in>set (avc_pps c). 0xffff < length p then Inl InvalidArgument
      else Inr ([configurationVersion c, avcProfileIndication c, profileCompatibility c, avcLevelIndication c,
          0xfc OR (lengthSizeMinusOne c AND 0x03), 0xe0 OR (of_nat (length (avc_sps c)) AND 0x1f)] @
        concat (map set_bytes (avc_sps c)) @ [of_nat (length (avc_pps c))] @ concat (map set_bytes (avc_pps c))))"

definition avc_toAnnexB :: "avc_config \<Rightarrow> byte list" where
  "avc_toAnnexB c = wrapNalsAsAnnexB (avc_sps c @ avc_pps c)"

definition isIdrAnnexB :: "byte list \<Rightarrow> bool" where
  "isIdrAnnexB au =
     snd (forEachAnnexBNal (\<lambda>nal found. (Ok, if header0 nal AND 0x1f = 5 then True else found)) au False)"

lemma read_sets_bytes:
  assumes "\<forall>s\<in>set ss. length s \<le> 0xffff"
  shows "read_sets (length ss) (concat (map set_bytes ss) @ rest) = Some (ss, rest)"
  using assms
proof (induction ss)
  case (Cons s ss)
  then have "unat (of_nat (length s) :: u16) = length s" by (simp add: unsigned_of_nat take_bit_nat_eq_self)
  then show ?case using Cons by (simp add: set_bytes_def be16_def be_simps Let_def)
qed simp

lemma avc_parse_serialize:
  assumes "avc_serialize c = Inr bs"
  shows "avc_parse (bs @ rest) = Inr (c\<lparr>lengthSizeMinusOne := lengthSizeMinusOne c AND 0x03\<rparr>)"
proof -
  have lim: "length (avc_sps c) \<le> 31" "length (avc_pps c) \<le> 255" "\<forall>s\<in>set (avc_sps c). length s \<le> 0xffff"
    "\<forall>p\<in>set (avc_pps c). length p \<le> 0xffff"
    and bs: "bs = [configurationVersion c, avcProfileIndication c, profileCompatibility c, avcLevelIndication c,
          0xfc OR (lengthSizeMinusOne c AND 0x03), 0xe0 OR (of_nat (length (avc_sps c)) AND 0x1f)] @
        concat (map set_bytes (avc_sps c)) @ [of_nat (length (avc_pps c))] @ concat (map set_bytes (avc_pps c))"
    using assms by (auto simp: avc_serialize_def not_less split: if_splits)
  have n: "unat (of_nat (length (avc_pps c)) :: byte) = length (avc_pps c)"
    using lim(2) by (simp add: unsigned_of_nat take_bit_nat_eq_self)
  have "(0xe0 OR (of_nat (length (avc_sps c)) AND 0x1f)) AND 0x1f = (of_nat (length (avc_sps c)) AND 0x1f :: byte)"
    by (rule bit_byte_eqI) (simp_all add: bit_simps)
  also have "\<dots> = take_bit 5 (of_nat (length (avc_sps c)))" by (simp add: take_bit_eq_mask mask_eq_exp_minus_1)
  finally have m: "unat ((0xe0 OR (of_nat (length (avc_sps c)) AND 0x1f)) AND 0x1f :: byte) = length (avc_sps c)"
    using lim(1) by (simp add: unsigned_take_bit_eq unsigned_of_nat take_bit_nat_eq_self)
  have l: "(0xfc OR (lengthSizeMinusOne c AND 0x03)) AND 0x03 = (lengthSizeMinusOne c AND 0x03 :: byte)"
    by (rule bit_byte_eqI) (simp_all add: bit_simps)
  show ?thesis
    unfolding bs avc_parse_def using read_sets_bytes [OF lim(3)] read_sets_bytes [OF lim(4)] m n l by simp
qed

lemma avc_serialize_error:
  "avc_serialize c = Inl e \<longleftrightarrow> e = InvalidArgument \<and>
     (0x1f < length (avc_sps c) \<or> 0xff < length (avc_pps c) \<or> (\<exists>s\<in>set (avc_sps c) \<union> set (avc_pps c). 0xffff < length s))"
  by (auto simp: avc_serialize_def)

text \<open>What a walk gathers, and the profile: that of the first parameter set long enough to state one.\<close>

definition avc_type :: "byte \<Rightarrow> byte list \<Rightarrow> bool" where "avc_type t nal \<longleftrightarrow> h264NalType (header0 nal) = t"

definition avc_profile :: "byte list list \<Rightarrow> byte list" where
  "avc_profile ns = (case find (\<lambda>n. avc_type 7 n \<and> 4 \<le> length n) ns of None \<Rightarrow> [0, 0, 0] | Some n \<Rightarrow> [n ! 1, n ! 2, n ! 3])"

definition config_profile :: "avc_config \<Rightarrow> byte list" where
  "config_profile c = [avcProfileIndication c, profileCompatibility c, avcLevelIndication c]"

lemma avc_visit_all:
  "\<exists>c'. visit_nals avc_visit ns (c, h) = (Ok, c', h \<or> find (\<lambda>n. avc_type 7 n \<and> 4 \<le> length n) ns \<noteq> None) \<and>
     avc_sps c' = avc_sps c @ filter (avc_type 7) ns \<and> avc_pps c' = avc_pps c @ filter (avc_type 8) ns \<and>
     configurationVersion c' = configurationVersion c \<and> lengthSizeMinusOne c' = lengthSizeMinusOne c \<and>
     config_profile c' =
       (if h \<or> find (\<lambda>n. avc_type 7 n \<and> 4 \<le> length n) ns = None then config_profile c else avc_profile ns)"
proof (induction ns arbitrary: c h)
  case (Cons n ns)
  consider "\<not> avc_type 7 n" "\<not> avc_type 8 n" | "avc_type 8 n" "\<not> avc_type 7 n" | "avc_type 7 n"
    by blast
  then show ?case
  proof cases
    case 1
    then have "avc_visit n (c, h) = (Ok, c, h)" by (simp add: avc_visit_def avc_type_def Let_def)
    moreover have "avc_profile (n # ns) = avc_profile ns" using 1 by (simp add: avc_profile_def)
    ultimately show ?thesis using 1 Cons.IH [of c h] by (simp cong: if_cong split del: if_split)
  next
    case 2
    then have "avc_visit n (c, h) = (Ok, c\<lparr>avc_pps := avc_pps c @ [n]\<rparr>, h)"
      by (simp add: avc_visit_def avc_type_def Let_def)
    moreover have "avc_profile (n # ns) = avc_profile ns" using 2 by (simp add: avc_profile_def)
    ultimately show ?thesis
      using 2 Cons.IH [of "c\<lparr>avc_pps := avc_pps c @ [n]\<rparr>" h] by (simp add: config_profile_def cong: if_cong split del: if_split)
  next
    case 3
    let ?set = "\<not> h \<and> 4 \<le> length n"
    let ?c = "(if ?set then c\<lparr>avcProfileIndication := n ! 1, profileCompatibility := n ! 2, avcLevelIndication := n ! 3\<rparr> else c)
      \<lparr>avc_sps := avc_sps c @ [n]\<rparr>"
    have "avc_visit n (c, h) = (Ok, ?c, h \<or> ?set)" using 3 by (simp add: avc_visit_def avc_type_def Let_def)
    moreover have "\<not> avc_type 8 n" using 3 by (simp add: avc_type_def)
    ultimately show ?thesis
      using 3 Cons.IH [of ?c "h \<or> ?set"] by (auto simp: avc_profile_def config_profile_def)
  qed
qed (simp add: avc_profile_def)

lemma avc_fromAnnexB_sets:
  assumes "avc_fromAnnexB au = Inr c"
  shows "avc_sps c = filter (avc_type 7) (nals_of au)" "avc_pps c = filter (avc_type 8) (nals_of au)"
    "config_profile c = avc_profile (nals_of au)" "configurationVersion c = 1" "lengthSizeMinusOne c = 3" "avc_sps c \<noteq> []"
proof -
  have code: "au \<noteq> [] \<and> findNextStartCode au 0 \<noteq> None"
    using assms by (cases "findNextStartCode au 0"; cases "au = []")
      (simp_all add: avc_fromAnnexB_def forEachAnnexBNal_def new_avc_config_def)
  then have "forEachAnnexBNal avc_visit au (new_avc_config, False) = visit_nals avc_visit (nals_of au) (new_avc_config, False)"
    by (simp add: walk_start_coded)
  then have "\<exists>h. visit_nals avc_visit (nals_of au) (new_avc_config, False) = (Ok, c, h)" "avc_sps c \<noteq> []"
    using assms by (auto simp: avc_fromAnnexB_def split: prod.splits if_splits)
  then show "avc_sps c = filter (avc_type 7) (nals_of au)" "avc_pps c = filter (avc_type 8) (nals_of au)"
    "config_profile c = avc_profile (nals_of au)" "configurationVersion c = 1" "lengthSizeMinusOne c = 3" "avc_sps c \<noteq> []"
    using avc_visit_all [of "nals_of au" new_avc_config False]
    by (auto simp: new_avc_config_def config_profile_def avc_profile_def)
qed

text \<open>C37: The record a file carries for H.264 holds the parameter sets of the access unit it was made from and nothing
  else: made, written and read back, it is the same record, it unfolds into a stream whose units are the sequence sets
  of the access unit in order and then its picture sets, and its profile, compatibility and level bytes are those of
  the first sequence set that has them. Writing fails exactly when a count or a length is too large for its field.\<close>

theorem avc_config_carries_parameter_sets:
  assumes "avc_fromAnnexB au = Inr c"
  shows "(case avc_serialize c of
      Inl e \<Rightarrow> e = InvalidArgument \<and> (31 < length (avc_sps c) \<or> 255 < length (avc_pps c) \<or> (\<exists>n\<in>set (nals_of au). 0xffff < length n))
    | Inr bs \<Rightarrow> avc_parse (bs @ rest) = Inr c) \<and>
    nals_of (avc_toAnnexB c) = filter (avc_type 7) (nals_of au) @ filter (avc_type 8) (nals_of au) \<and>
    config_profile c = avc_profile (nals_of au)"
proof -
  note s = avc_fromAnnexB_sets [OF assms]
  have "nals_of (avc_toAnnexB c) = filter (avc_type 7) (nals_of au) @ filter (avc_type 8) (nals_of au)"
    unfolding avc_toAnnexB_def s(1,2) by (rule nals_of_wrapped) (use nals_clean in auto)
  moreover have "c\<lparr>lengthSizeMinusOne := lengthSizeMinusOne c AND 0x03\<rparr> = c" using s(5) by simp
  ultimately show ?thesis
    using s(1-3) avc_parse_serialize [of c _ rest] avc_serialize_error [of c] by (auto split: sum.splits)
qed

theorem avc_config_carries_parameter_sets_witness:
  "\<exists>c. avc_fromAnnexB [0, 0, 0, 1, 0x67, 0x42, 0xE0, 0x1E, 0, 0, 1, 0x68, 0xCE, 0, 0, 1, 0x65, 0x88] = Inr c \<and>
     nals_of (avc_toAnnexB c) = [[0x67, 0x42, 0xE0, 0x1E], [0x68, 0xCE]] \<and> config_profile c = [0x42, 0xE0, 0x1E]"
proof -
  let ?au = "[0, 0, 0, 1, 0x67, 0x42, 0xE0, 0x1E, 0, 0, 1, 0x68, 0xCE, 0, 0, 1, 0x65, 0x88]"
  let ?c = "\<lparr>configurationVersion = 1, avcProfileIndication = 0x42, profileCompatibility = 0xE0, avcLevelIndication = 0x1E,
    lengthSizeMinusOne = 3, avc_sps = [[0x67, 0x42, 0xE0, 0x1E]], avc_pps = [[0x68, 0xCE]]\<rparr>"
  have c: "avc_fromAnnexB ?au = Inr ?c" by code_simp
  have "filter (avc_type 7) (nals_of ?au) @ filter (avc_type 8) (nals_of ?au) = [[0x67, 0x42, 0xE0, 0x1E], [0x68, 0xCE]]"
    "avc_profile (nals_of ?au) = [0x42, 0xE0, 0x1E]" by code_simp+
  then show ?thesis using avc_config_carries_parameter_sets [OF c, of "[]"] c by (intro exI [of _ ?c]) simp
qed

section \<open>H.265\<close>

record hevc_config =
  hv_version :: byte
  generalProfileSpace :: byte
  generalTierFlag :: byte
  generalProfileIdc :: byte
  generalProfileCompatibilityFlags :: u32
  generalConstraintIndicatorFlags :: u64
  generalLevelIdc :: byte
  minSpatialSegmentationIdc :: u16
  parallelismType :: byte
  chromaFormat :: byte
  hv_luma :: byte
  hv_chroma :: byte
  avgFrameRate :: u16
  constantFrameRate :: byte
  numTemporalLayers :: byte
  temporalIdNested :: byte
  hv_lengthSize :: byte
  hv_vps :: "byte list list"
  hv_sps :: "byte list list"
  hv_pps :: "byte list list"

definition hevcNalType :: "byte \<Rightarrow> byte" where "hevcNalType h = drop_bit 1 h AND 0x3f"

definition new_hevc_config :: hevc_config where
  "new_hevc_config = \<lparr>hv_version = 1, generalProfileSpace = 0, generalTierFlag = 0, generalProfileIdc = 0,
     generalProfileCompatibilityFlags = 0, generalConstraintIndicatorFlags = 0, generalLevelIdc = 0,
     minSpatialSegmentationIdc = 0, parallelismType = 0, chromaFormat = 1, hv_luma = 0, hv_chroma = 0, avgFrameRate = 0,
     constantFrameRate = 0, numTemporalLayers = 1, temporalIdNested = 0, hv_lengthSize = 3, hv_vps = [], hv_sps = [], hv_pps = []\<rparr>"

definition extractHevcSpsProfile :: "byte list \<Rightarrow> hevc_config \<Rightarrow> hevc_config result" where
  "extractHevcSpsProfile nal c =
     (if length nal < 15 then Inl InvalidArgument
      else Inr (c\<lparr>numTemporalLayers := (drop_bit 1 (nal ! 2) AND 0x07) + 1, temporalIdNested := nal ! 2 AND 0x01,
        generalProfileSpace := drop_bit 6 (nal ! 3) AND 0x03, generalTierFlag := drop_bit 5 (nal ! 3) AND 0x01,
        generalProfileIdc := nal ! 3 AND 0x1f,
        generalProfileCompatibilityFlags := ucast (readBE (take 4 (drop 4 nal))),
        generalConstraintIndicatorFlags := readBE (take 6 (drop 8 nal)), generalLevelIdc := nal ! 14\<rparr>))"

definition hevc_visit :: "(hevc_config \<times> bool) visitor" where
  "hevc_visit nal s =
     (case s of (c, haveProfile) \<Rightarrow>
        let t = hevcNalType (header0 nal) in
        if t = 32 then (Ok, (c\<lparr>hv_vps := hv_vps c @ [nal]\<rparr>, haveProfile))
        else if t = 33 then
          (let (c, haveProfile) =
             (if haveProfile then (c, True)
              else case extractHevcSpsProfile nal c of Inl _ \<Rightarrow> (c, False) | Inr c' \<Rightarrow> (c', True))
           in (Ok, (c\<lparr>hv_sps := hv_sps c @ [nal]\<rparr>, haveProfile)))
        else if t = 34 then (Ok, (c\<lparr>hv_pps := hv_pps c @ [nal]\<rparr>, haveProfile))
        else (Ok, (c, haveProfile)))"

definition hevc_fromAnnexB :: "byte list \<Rightarrow> hevc_config result" where
  "hevc_fromAnnexB au =
     (case forEachAnnexBNal hevc_visit au (new_hevc_config, False) of
        (e, c, haveProfile) \<Rightarrow>
          if e \<noteq> Ok then Inl e else if hv_sps c = [] \<or> \<not> haveProfile then Inl InvalidArgument else Inr c)"

text \<open>One array: its type and its units into the bucket of that type, if it has one.\<close>

definition hevc_bucket :: "byte \<Rightarrow> byte list list \<Rightarrow> hevc_config \<Rightarrow> hevc_config" where
  "hevc_bucket t sets c =
     (if t = 32 then c\<lparr>hv_vps := hv_vps c @ sets\<rparr>
      else if t = 33 then c\<lparr>hv_sps := hv_sps c @ sets\<rparr>
      else if t = 34 then c\<lparr>hv_pps := hv_pps c @ sets\<rparr> else c)"

fun read_arrays :: "nat \<Rightarrow> byte list \<Rightarrow> hevc_config \<Rightarrow> hevc_config result" where
  "read_arrays 0 d c = Inr c"
| "read_arrays (Suc n) d c =
     (if length d < 3 then Inl CorruptData
      else case read_sets (unat (readBE (take 2 (drop 1 d)))) (drop 3 d) of
        None \<Rightarrow> Inl CorruptData
      | Some (sets, rest) \<Rightarrow> read_arrays n rest (hevc_bucket (d ! 0 AND 0x3f) sets c))"

definition hevc_parse :: "byte list \<Rightarrow> hevc_config result" where
  "hevc_parse d =
     (if length d < 23 then Inl CorruptData
      else read_arrays (unat (d ! 22)) (drop 23 d)
        \<lparr>hv_version = d ! 0, generalProfileSpace = drop_bit 6 (d ! 1) AND 0x03, generalTierFlag = drop_bit 5 (d ! 1) AND 0x01,
         generalProfileIdc = d ! 1 AND 0x1f, generalProfileCompatibilityFlags = ucast (readBE (take 4 (drop 2 d))),
         generalConstraintIndicatorFlags = readBE (take 6 (drop 6 d)), generalLevelIdc = d ! 12,
         minSpatialSegmentationIdc = rd16 (d ! 13 AND 0x0f) (d ! 14), parallelismType = d ! 15 AND 0x03,
         chromaFormat = d ! 16 AND 0x03, hv_luma = d ! 17 AND 0x07, hv_chroma = d ! 18 AND 0x07,
         avgFrameRate = ucast (readBE (take 2 (drop 19 d))), constantFrameRate = drop_bit 6 (d ! 21) AND 0x03,
         numTemporalLayers = drop_bit 3 (d ! 21) AND 0x07, temporalIdNested = drop_bit 2 (d ! 21) AND 0x01,
         hv_lengthSize = d ! 21 AND 0x03, hv_vps = [], hv_sps = [], hv_pps = []\<rparr>)"

definition array_bytes :: "byte \<times> byte list list \<Rightarrow> byte list" where
  "array_bytes a = (case a of (t, sets) \<Rightarrow>
     [0x80 OR (t AND 0x3f)] @ writeBE (of_nat (length sets)) 2 @
     concat (map (\<lambda>s. writeBE (of_nat (length s)) 2 @ s) sets))"

definition hevc_arrays :: "hevc_config \<Rightarrow> (byte \<times> byte list list) list" where
  "hevc_arrays c = filter (\<lambda>a. snd a \<noteq> []) [(32, hv_vps c), (33, hv_sps c), (34, hv_pps c)]"

definition hevc_head :: "hevc_config \<Rightarrow> byte list" where
  "hevc_head c =
     [hv_version c,
      push_bit 6 (generalProfileSpace c AND 0x03) OR push_bit 5 (generalTierFlag c AND 0x01) OR (generalProfileIdc c AND 0x1f)] @
     writeBE (ucast (generalProfileCompatibilityFlags c)) 4 @ writeBE (generalConstraintIndicatorFlags c) 6 @
     [generalLevelIdc c, 0xf0 OR (ucast (drop_bit 8 (minSpatialSegmentationIdc c)) AND 0x0f), ucast (minSpatialSegmentationIdc c),
      0xfc OR (parallelismType c AND 0x03), 0xfc OR (chromaFormat c AND 0x03), 0xf8 OR (hv_luma c AND 0x07),
      0xf8 OR (hv_chroma c AND 0x07)] @
     writeBE (ucast (avgFrameRate c)) 2 @
     [push_bit 6 (constantFrameRate c AND 0x03) OR push_bit 3 (numTemporalLayers c AND 0x07) OR
      push_bit 2 (temporalIdNested c AND 0x01) OR (hv_lengthSize c AND 0x03)]"

definition hevc_serialize :: "hevc_config \<Rightarrow> byte list result" where
  "hevc_serialize c =
     (if \<exists>a\<in>set (hevc_arrays c). (\<exists>s\<in>set (snd a). 0xffff < length s) \<or> 0xffff < length (snd a) then Inl InvalidArgument
      else Inr (hevc_head c @ [of_nat (length (hevc_arrays c))] @ concat (map array_bytes (hevc_arrays c))))"

definition hevc_toAnnexB :: "hevc_config \<Rightarrow> byte list" where
  "hevc_toAnnexB c = wrapNalsAsAnnexB (hv_vps c @ hv_sps c @ hv_pps c)"

definition isIrapAnnexB :: "byte list \<Rightarrow> bool" where
  "isIrapAnnexB au =
     snd (forEachAnnexBNal (\<lambda>nal found. (Ok, let t = drop_bit 1 (header0 nal) AND 0x3f in if 16 \<le> t \<and> t \<le> 23 then True else found))
       au False)"

section \<open>H.265 records read back\<close>

lemma readBE_2: "readBE [a, b] = ucast (rd16 a b)"
  by (rule bit_word_eqI) (auto simp: readBE_def rd16_def bit_simps dest: bit_byte_lt)

lemma writeBE_2: "writeBE v 2 = be16 (ucast v)"
  by (simp add: writeBE_def be16_def upt_rec) (auto intro!: bit_word_eqI simp: bit_simps)

lemma hevc_sets:
  assumes "\<forall>s\<in>set ss. length s \<le> 0xffff"
  shows "read_sets (length ss) (concat (map (\<lambda>s. writeBE (of_nat (length s)) 2 @ s) ss) @ rest) = Some (ss, rest)"
proof -
  have "writeBE (of_nat (length s)) 2 = be16 (of_nat (length s))" for s :: "byte list"
    unfolding writeBE_2 by (rule arg_cong [where f = be16]) (rule bit_word_eqI, simp add: bit_simps)
  then show ?thesis using read_sets_bytes [OF assms, of rest] by (simp add: set_bytes_def [abs_def])
qed

text \<open>Fields wider than the record's are cut; a configuration that is not has every field in its range.\<close>

definition hevc_ranges :: "hevc_config \<Rightarrow> bool" where
  "hevc_ranges c \<longleftrightarrow> generalProfileSpace c < 2 ^ 2 \<and> generalTierFlag c < 2 ^ 1 \<and> generalProfileIdc c < 2 ^ 5 \<and>
     generalConstraintIndicatorFlags c < 2 ^ 48 \<and> minSpatialSegmentationIdc c < 2 ^ 12 \<and> parallelismType c < 2 ^ 2 \<and>
     chromaFormat c < 2 ^ 2 \<and> hv_luma c < 2 ^ 3 \<and> hv_chroma c < 2 ^ 3 \<and> constantFrameRate c < 2 ^ 2 \<and>
     numTemporalLayers c < 2 ^ 3 \<and> temporalIdNested c < 2 ^ 1 \<and> hv_lengthSize c < 2 ^ 2"

lemma length_hevc_head: "length (hevc_head c) = 22"
  by (simp add: hevc_head_def)

lemma hevc_arrays_bytes:
  assumes "\<forall>a\<in>set as. fst a < 2 ^ 6 \<and> length (snd a) \<le> 0xffff \<and> (\<forall>s\<in>set (snd a). length s \<le> 0xffff)"
  shows "read_arrays (length as) (concat (map array_bytes as) @ rest) c = Inr (fold (\<lambda>a. hevc_bucket (fst a) (snd a)) as c)"
  using assms
proof (induction as arbitrary: c)
  case (Cons a as)
  obtain t ss where a: "a = (t, ss)" by (cases a)
  have t: "t < 2 ^ 6" "\<forall>s\<in>set ss. length s \<le> 0xffff" "length ss \<le> 0xffff" using Cons.prems a by auto
  have "(0x80 OR (t AND 0x3f)) AND 0x3f = t"
    using word_less_exp_bit [OF t(1)] by (intro bit_byte_eqI) (simp_all add: bit_simps)
  moreover have "unat (readBE (writeBE (of_nat (length ss)) 2)) = length ss"
    using t(3) readBE_writeBE [of "of_nat (length ss)" 2]
    by (simp add: word_less_nat_alt unsigned_of_nat take_bit_nat_eq_self)
  moreover have "array_bytes (t, ss) = (0x80 OR (t AND 0x3f)) # writeBE (of_nat (length ss)) 2 @
      concat (map (\<lambda>s. writeBE (of_nat (length s)) 2 @ s) ss)"
    by (simp add: array_bytes_def)
  ultimately show ?case
    using Cons hevc_sets [OF t(2), of "concat (map array_bytes as) @ rest"] by (simp add: a)
qed simp

lemma low_bits: "(w :: byte) < 2 ^ k \<Longrightarrow> k \<le> n \<Longrightarrow> \<not> bit w n"
  by (rule word_less_exp_bit)

lemma masked_field:
  fixes w :: byte
  shows "w < 2 ^ 2 \<Longrightarrow> (0xfc OR (w AND 0x03)) AND 0x03 = w" "w < 2 ^ 3 \<Longrightarrow> (0xf8 OR (w AND 0x07)) AND 0x07 = w"
proof -
  show "(0xfc OR (w AND 0x03)) AND 0x03 = w" if w: "w < 2 ^ 2"
    by (rule bit_byte_eqI; simp add: bit_simps low_bits [OF w])
  show "(0xf8 OR (w AND 0x07)) AND 0x07 = w" if w: "w < 2 ^ 3"
    by (rule bit_byte_eqI; simp add: bit_simps low_bits [OF w])
qed

lemma split_segment: "rd16 ((0xf0 OR (ucast (drop_bit 8 (s :: u16)) AND 0x0f)) AND 0x0f) (ucast s) = s" if "s < 2 ^ 12"
proof (rule bit_word_eqI)
  fix n
  assume n: "n < LENGTH(16)"
  have "n = 15 \<or> n = 14 \<or> n = 13 \<or> n = 12 \<or> n = 11 \<or> n = 10 \<or> n = 9 \<or> n = 8 \<or> n < 8" using n by auto
  then show "bit (rd16 ((0xf0 OR (ucast (drop_bit 8 s) AND 0x0f)) AND 0x0f) (ucast s)) n \<longleftrightarrow> bit s n"
    using word_less_exp_bit [OF that, of n] n by (auto simp: rd16_def bit_simps)
qed

lemma profile_byte:
  fixes p t i :: byte
  assumes "p < 2 ^ 2" "t < 2 ^ 1" "i < 2 ^ 5"
  defines "b \<equiv> push_bit 6 (p AND 0x03) OR push_bit 5 (t AND 0x01) OR (i AND 0x1f)"
  shows "drop_bit 6 b AND 0x03 = p" "drop_bit 5 b AND 0x01 = t" "b AND 0x1f = i"
  unfolding b_def by (rule bit_byte_eqI; simp add: bit_simps low_bits [OF assms(1)] low_bits [OF assms(2)] low_bits [OF assms(3)])+

lemma layer_byte:
  fixes r n t l :: byte
  assumes "r < 2 ^ 2" "n < 2 ^ 3" "t < 2 ^ 1" "l < 2 ^ 2"
  defines "b \<equiv> push_bit 6 (r AND 0x03) OR push_bit 3 (n AND 0x07) OR push_bit 2 (t AND 0x01) OR (l AND 0x03)"
  shows "drop_bit 6 b AND 0x03 = r" "drop_bit 3 b AND 0x07 = n" "drop_bit 2 b AND 0x01 = t" "b AND 0x03 = l"
  unfolding b_def
  by (rule bit_byte_eqI; simp add: bit_simps low_bits [OF assms(1)] low_bits [OF assms(2)] low_bits [OF assms(3)]
      low_bits [OF assms(4)])+

lemma widen_less: "(ucast (w :: u32) :: u64) < 2 ^ 32" "(ucast (s :: u16) :: u64) < 2 ^ 16"
  using unsigned_less [of w, where ?'a = nat] unsigned_less [of s, where ?'a = nat]
  by (simp_all add: word_less_nat_alt unsigned_ucast_eq take_bit_nat_eq_self)

lemma wide_fields:
  "readBE (writeBE (ucast (w :: u32)) 4) = ucast w" "readBE (writeBE (ucast (s :: u16)) 2) = ucast s"
  using readBE_writeBE [of "ucast w" 4] readBE_writeBE [of "ucast s" 2] widen_less by simp_all

lemma narrow_back [simp]: "(ucast (ucast (w :: u32) :: u64) :: u32) = w" "(ucast (ucast (s :: u16) :: u64) :: u16) = s"
  by (rule bit_word_eqI; auto simp: bit_simps)+

lemma fold_buckets: "fold (\<lambda>a. hevc_bucket (fst a) (snd a)) (hevc_arrays c) (c\<lparr>hv_vps := [], hv_sps := [], hv_pps := []\<rparr>) = c"
  by (cases "hv_vps c = []"; cases "hv_sps c = []"; cases "hv_pps c = []") (simp_all add: hevc_arrays_def hevc_bucket_def)

lemma head_read_back:
  assumes "hevc_ranges c" "d = hevc_head c @ n # rest"
  shows "length d \<ge> 23" "d ! 22 = n" "drop 23 d = rest"
    "\<lparr>hv_version = d ! 0, generalProfileSpace = drop_bit 6 (d ! 1) AND 0x03, generalTierFlag = drop_bit 5 (d ! 1) AND 0x01,
      generalProfileIdc = d ! 1 AND 0x1f, generalProfileCompatibilityFlags = ucast (readBE (take 4 (drop 2 d))),
      generalConstraintIndicatorFlags = readBE (take 6 (drop 6 d)), generalLevelIdc = d ! 12,
      minSpatialSegmentationIdc = rd16 (d ! 13 AND 0x0f) (d ! 14), parallelismType = d ! 15 AND 0x03,
      chromaFormat = d ! 16 AND 0x03, hv_luma = d ! 17 AND 0x07, hv_chroma = d ! 18 AND 0x07,
      avgFrameRate = ucast (readBE (take 2 (drop 19 d))), constantFrameRate = drop_bit 6 (d ! 21) AND 0x03,
      numTemporalLayers = drop_bit 3 (d ! 21) AND 0x07, temporalIdNested = drop_bit 2 (d ! 21) AND 0x01,
      hv_lengthSize = d ! 21 AND 0x03, hv_vps = [], hv_sps = [], hv_pps = []\<rparr> = c\<lparr>hv_vps := [], hv_sps := [], hv_pps := []\<rparr>"
proof -
  note l = length_hevc_head [of c]
  show "length d \<ge> 23" "d ! 22 = n" "drop 23 d = rest" using l by (simp_all add: assms(2) nth_append)
  have r: "generalProfileSpace c < 2 ^ 2" "generalTierFlag c < 2 ^ 1" "generalProfileIdc c < 2 ^ 5"
    "generalConstraintIndicatorFlags c < 2 ^ 48" "minSpatialSegmentationIdc c < 2 ^ 12" "parallelismType c < 2 ^ 2"
    "chromaFormat c < 2 ^ 2" "hv_luma c < 2 ^ 3" "hv_chroma c < 2 ^ 3" "constantFrameRate c < 2 ^ 2"
    "numTemporalLayers c < 2 ^ 3" "temporalIdNested c < 2 ^ 1" "hv_lengthSize c < 2 ^ 2"
    using assms(1) unfolding hevc_ranges_def by blast+
  note pb = profile_byte [OF r(1-3)] and lb = layer_byte [OF r(10-13)]
  note fields = masked_field(1) [OF r(6)] masked_field(1) [OF r(7)] masked_field(2) [OF r(8)] masked_field(2) [OF r(9)]
    split_segment [OF r(5)]
  have b: "d ! 0 = hv_version c"
    "d ! 1 = push_bit 6 (generalProfileSpace c AND 0x03) OR push_bit 5 (generalTierFlag c AND 0x01) OR (generalProfileIdc c AND 0x1f)"
    "take 4 (drop 2 d) = writeBE (ucast (generalProfileCompatibilityFlags c)) 4"
    "take 6 (drop 6 d) = writeBE (generalConstraintIndicatorFlags c) 6" "d ! 12 = generalLevelIdc c"
    "d ! 13 = 0xf0 OR (ucast (drop_bit 8 (minSpatialSegmentationIdc c)) AND 0x0f)" "d ! 14 = ucast (minSpatialSegmentationIdc c)"
    "d ! 15 = 0xfc OR (parallelismType c AND 0x03)" "d ! 16 = 0xfc OR (chromaFormat c AND 0x03)"
    "d ! 17 = 0xf8 OR (hv_luma c AND 0x07)" "d ! 18 = 0xf8 OR (hv_chroma c AND 0x07)"
    "take 2 (drop 19 d) = writeBE (ucast (avgFrameRate c)) 2"
    "d ! 21 = push_bit 6 (constantFrameRate c AND 0x03) OR push_bit 3 (numTemporalLayers c AND 0x07) OR
      push_bit 2 (temporalIdNested c AND 0x01) OR (hv_lengthSize c AND 0x03)"
    by (simp_all add: assms(2) hevc_head_def nth_append)
  have six: "readBE (writeBE (generalConstraintIndicatorFlags c) 6) = generalConstraintIndicatorFlags c"
    using r(4) by (intro readBE_writeBE) simp
  show "\<lparr>hv_version = d ! 0, generalProfileSpace = drop_bit 6 (d ! 1) AND 0x03, generalTierFlag = drop_bit 5 (d ! 1) AND 0x01,
      generalProfileIdc = d ! 1 AND 0x1f, generalProfileCompatibilityFlags = ucast (readBE (take 4 (drop 2 d))),
      generalConstraintIndicatorFlags = readBE (take 6 (drop 6 d)), generalLevelIdc = d ! 12,
      minSpatialSegmentationIdc = rd16 (d ! 13 AND 0x0f) (d ! 14), parallelismType = d ! 15 AND 0x03,
      chromaFormat = d ! 16 AND 0x03, hv_luma = d ! 17 AND 0x07, hv_chroma = d ! 18 AND 0x07,
      avgFrameRate = ucast (readBE (take 2 (drop 19 d))), constantFrameRate = drop_bit 6 (d ! 21) AND 0x03,
      numTemporalLayers = drop_bit 3 (d ! 21) AND 0x07, temporalIdNested = drop_bit 2 (d ! 21) AND 0x01,
      hv_lengthSize = d ! 21 AND 0x03, hv_vps = [], hv_sps = [], hv_pps = []\<rparr> = c\<lparr>hv_vps := [], hv_sps := [], hv_pps := []\<rparr>"
    unfolding b wide_fields narrow_back pb lb fields six by simp
qed

text \<open>C38: The same for H.265: a configuration whose fields fit the widths the record gives them is read back from what it
  was written as, field for field and set for set, whichever of the three arrays are empty and whatever follows.\<close>

theorem hevc_config_roundtrip:
  assumes "hevc_ranges c" "hevc_serialize c = Inr bs"
  shows "hevc_parse (bs @ rest) = Inr c"
proof -
  let ?as = "hevc_arrays c"
  have fits: "\<forall>a\<in>set ?as. fst a < 2 ^ 6 \<and> length (snd a) \<le> 0xffff \<and> (\<forall>s\<in>set (snd a). length s \<le> 0xffff)"
    and bs: "bs = hevc_head c @ [of_nat (length ?as)] @ concat (map array_bytes ?as)"
    using assms(2) by (auto simp: hevc_serialize_def hevc_arrays_def not_less split: if_splits)
  have d: "bs @ rest = hevc_head c @ of_nat (length ?as) # (concat (map array_bytes ?as) @ rest)" by (simp add: bs)
  note h = head_read_back [OF assms(1) d]
  have "length ?as \<le> 3" by (simp add: hevc_arrays_def)
  then have n: "unat (of_nat (length ?as) :: byte) = length ?as" by (simp add: unsigned_of_nat take_bit_nat_eq_self)
  have "\<not> length (bs @ rest) < 23" using h(1) by simp
  then show ?thesis
    using hevc_arrays_bytes [OF fits, of rest "c\<lparr>hv_vps := [], hv_sps := [], hv_pps := []\<rparr>"]
    unfolding hevc_parse_def h(4) unfolding h(2,3) n fold_buckets by simp
qed

theorem hevc_config_roundtrip_witness:
  "\<exists>bs. hevc_serialize (new_hevc_config\<lparr>generalLevelIdc := 93, hv_sps := [[0x42, 0x01, 0x01]], hv_pps := [[0x44, 0x01], [0x44, 0x02]]\<rparr>) = Inr bs \<and>
    hevc_parse (bs @ [7]) =
      Inr (new_hevc_config\<lparr>generalLevelIdc := 93, hv_sps := [[0x42, 0x01, 0x01]], hv_pps := [[0x44, 0x01], [0x44, 0x02]]\<rparr>)"
proof -
  let ?c = "new_hevc_config\<lparr>generalLevelIdc := 93, hv_sps := [[0x42, 0x01, 0x01]], hv_pps := [[0x44, 0x01], [0x44, 0x02]]\<rparr>"
  have "hevc_ranges ?c" by (simp add: hevc_ranges_def new_hevc_config_def)
  moreover obtain bs where "hevc_serialize ?c = Inr bs"
    by (cases "hevc_serialize ?c") (auto simp: hevc_serialize_def hevc_arrays_def new_hevc_config_def split: if_splits)
  ultimately show ?thesis using hevc_config_roundtrip by blast
qed

section \<open>The profile of an escaped parameter set\<close>

text \<open>The profile fields of an H.265 parameter set are read from its escaped bytes. The Main profile with the usual
  flags (compatibility \<open>60000000\<close>, constraints \<open>900000000000\<close>) puts three prevention bytes before the level, so the
  configuration made from it states level 0 whatever level the stream has, and both flag fields are not the stream's:
  the level is never the one written unless that is 0.\<close>

theorem hevc_profile_of_escaped_set:
  assumes "p \<noteq> 0" "rbsp = [b, p, 0x60, 0, 0, 0, 0x90, 0, 0, 0, 0, 0, level] @ rest"
  shows "\<exists>c. hevc_fromAnnexB (start_coded ([0x42, 0x01] @ escaped 0 rbsp)) = Inr c \<and>
    stripEmulationPrevention (escaped 0 rbsp) ! 12 = level \<and> generalLevelIdc c = 0 \<and>
    generalProfileCompatibilityFlags c = 0x60000003 \<and> generalConstraintIndicatorFlags c = 0x009000000300"
proof -
  let ?tail = "escaped 1 (level # rest)"
  have e: "escaped 0 rbsp = [b, p, 0x60, 0, 0, 3, 0, 0x90, 0, 0, 3, 0, 0, 3, 0] @ ?tail"
    using assms by simp
  let ?nal = "[0x42, 0x01] @ escaped 0 rbsp"
  have "code_free ?nal" using escaped_code_free_after [of 0 rbsp] by (simp add: code_free_nonzero)
  then have "clean ?nal" by (simp add: clean_def code_free_def)
  then have ns: "nals_of (start_coded ?nal) = [?nal]" using nals_of_wrapped [of "[?nal]"] by (simp add: wrapNalsAsAnnexB_def)
  have type: "hevcNalType (header0 ?nal) = 33" by (simp add: header0_def hevcNalType_def)
  have "extractHevcSpsProfile ?nal new_hevc_config = Inr (new_hevc_config\<lparr>numTemporalLayers := (drop_bit 1 b AND 0x07) + 1,
      temporalIdNested := b AND 0x01, generalProfileSpace := drop_bit 6 p AND 0x03, generalTierFlag := drop_bit 5 p AND 0x01,
      generalProfileIdc := p AND 0x1f, generalProfileCompatibilityFlags := 0x60000003,
      generalConstraintIndicatorFlags := 0x009000000300, generalLevelIdc := 0\<rparr>)"
    unfolding e by (simp add: extractHevcSpsProfile_def readBE_def)
  then have "visit_nals hevc_visit [?nal] (new_hevc_config, False) = (Ok, new_hevc_config\<lparr>numTemporalLayers := (drop_bit 1 b AND 0x07) + 1,
      temporalIdNested := b AND 0x01, generalProfileSpace := drop_bit 6 p AND 0x03, generalTierFlag := drop_bit 5 p AND 0x01,
      generalProfileIdc := p AND 0x1f, generalProfileCompatibilityFlags := 0x60000003,
      generalConstraintIndicatorFlags := 0x009000000300, generalLevelIdc := 0, hv_sps := hv_sps new_hevc_config @ [?nal]\<rparr>, True)"
    using type by (simp add: hevc_visit_def Let_def new_hevc_config_def)
  moreover have "findNextStartCode (start_coded ?nal) 0 \<noteq> None" using ns by (intro has_code) simp
  then have "forEachAnnexBNal hevc_visit (start_coded ?nal) (new_hevc_config, False) = visit_nals hevc_visit [?nal] (new_hevc_config, False)"
    using ns walk_start_coded [of "start_coded ?nal"] by (simp add: start_coded_def)
  moreover have "stripEmulationPrevention (escaped 0 rbsp) ! 12 = level" unfolding strip_escaped by (simp add: assms(2))
  ultimately show ?thesis by (simp add: hevc_fromAnnexB_def)
qed

theorem hevc_profile_of_escaped_set_witness:
  "\<exists>c. hevc_fromAnnexB [0, 0, 0, 1, 0x42, 0x01, 0x01, 0x01, 0x60, 0, 0, 3, 0, 0x90, 0, 0, 3, 0, 0, 3, 0, 93] = Inr c \<and>
    generalLevelIdc c = 0 \<and> generalConstraintIndicatorFlags c = 0x009000000300"
  using hevc_profile_of_escaped_set [of 1 _ 1 93 "[]", OF _ refl] by (auto simp: start_coded_def)

end
