(* ===== verification/RtpPayload.thy ===== *)
theory RtpPayload
  imports RtpReceive NalStream
begin

text \<open>
  \<open>src/network/rtppayload.cpp\<close>: media cut into RTP packets and put together again, for PCM audio, JSON, H.264, H.265
  and the codestream mode of JPEG XS, and the gates that hold video back until a decoder can start. A packet is its
  bytes, the twelve bytes of the header included, and \<open>[]\<close> is a null packet; the size of the packets is an argument.
\<close>

unbundle bit_operations_syntax

section \<open>Packets of equal size\<close>

definition packetCount :: "nat \<Rightarrow> nat \<Rightarrow> nat" where
  "packetCount dataSize maxPayload = (if maxPayload = 0 then 0 else (dataSize + maxPayload - 1) div maxPayload)"

definition setMaxPayloadSize :: "nat \<Rightarrow> nat" where
  "setMaxPayloadSize n = (if n = 0 then 1200 else n)"

definition blank :: "byte list" where "blank = replicate HeaderSize 0"

text \<open>The loop over the packets: each takes what fits of what remains.\<close>

fun cut_packets :: "nat \<Rightarrow> nat \<Rightarrow> byte list \<Rightarrow> byte list list" where
  "cut_packets 0 m d = []"
| "cut_packets (Suc n) m d = (blank @ take (min m (length d)) d) # cut_packets n m (drop (min m (length d)) d)"

text \<open>A frame of samples in \<open>size_t\<close>; a frame of no bytes is a division by zero: no result.\<close>

definition pack_samples :: "int \<Rightarrow> int \<Rightarrow> nat \<Rightarrow> byte list \<Rightarrow> byte list list option" where
  "pack_samples bytesPerSample channels maxPayload d =
     (if d = [] then Some []
      else let frame = nat ((bytesPerSample * channels) mod 2 ^ 64) in
        if frame = 0 then None
        else let aligned = maxPayload div frame * frame in
          if aligned = 0 then Some [] else Some (cut_packets (packetCount (length d) aligned) aligned d))"

definition l24_pack :: "int \<Rightarrow> nat \<Rightarrow> byte list \<Rightarrow> byte list list option" where "l24_pack = pack_samples 3"
definition l16_pack :: "int \<Rightarrow> nat \<Rightarrow> byte list \<Rightarrow> byte list list option" where "l16_pack = pack_samples 2"

definition json_pack :: "nat \<Rightarrow> byte list \<Rightarrow> byte list list" where
  "json_pack maxPayload d =
     (if d = [] then [] else if maxPayload = 0 then [] else cut_packets (packetCount (length d) maxPayload) maxPayload d)"

text \<open>Audio and JSON are unpacked alike.\<close>

definition unpack_bytes :: "byte list list \<Rightarrow> byte list" where
  "unpack_bytes ps = concat (map payload ps)"

lemma blank_facts [simp]: "length blank = 12" "(blank @ d) ! 0 = 0"
  by (simp_all add: blank_def HeaderSize_def nth_append)

lemma headerSize_blank: "headerSize (blank @ d) = 12"
  by (simp add: headerSize_def HeaderSize_def csrcCount_def extension_def)

lemma payload_blank [simp]: "payload (blank @ d) = d"
  using headerSize_blank [of d] by (cases "d = []") (simp_all add: payload_def)

lemma cut_packets_payloads:
  assumes "length d \<le> n * m"
  shows "concat (map payload (cut_packets n m d)) = d"
  using assms
proof (induction n arbitrary: d)
  case (Suc n)
  then have "length (drop (min m (length d)) d) \<le> n * m" by auto
  then show ?case using Suc.IH by simp
qed simp

lemma packetCount_covers: "0 < m \<Longrightarrow> k \<le> packetCount k m * m"
proof -
  assume m: "0 < m"
  define q where "q = (k + m - 1) div m * m"
  have "k + m - 1 = q + (k + m - 1) mod m" by (simp add: q_def)
  moreover have "(k + m - 1) mod m < m" using m by simp
  ultimately have "k \<le> q" using m by linarith
  then show ?thesis using m by (simp add: packetCount_def q_def)
qed

lemma cut_packets_sizes:
  "p \<in> set (cut_packets n m d) \<Longrightarrow> length p \<le> 12 + m \<and> (\<exists>x. p = blank @ x)"
  by (induction n m d rule: cut_packets.induct) auto

section \<open>The header the session writes\<close>

text \<open>The payload type, the sequence number, the source and the rest, over whatever the header held.\<close>

definition stamp :: "byte \<Rightarrow> bool \<Rightarrow> u32 \<Rightarrow> u16 \<Rightarrow> u32 \<Rightarrow> byte list \<Rightarrow> byte list" where
  "stamp pt m ts sq src d =
     setSsrc src (setSequenceNumber sq (setPayloadType pt (setVersion 2 (setTimestamp ts (setMarker m d)))))"

lemma stamp_parts:
  assumes "12 \<le> length d"
  shows "length (stamp pt m ts sq src d) = length d" "drop 12 (stamp pt m ts sq src d) = drop 12 d"
    "stamp pt m ts sq src d ! 0 = (d ! 0 AND 0x3F) OR push_bit 6 (2 AND 0x03)"
proof -
  have d: "d \<noteq> []" using assms by auto
  show "length (stamp pt m ts sq src d) = length d"
    by (simp add: stamp_def setSsrc_def setSequenceNumber_def setPayloadType_def setVersion_def setTimestamp_def setMarker_def)
  show "drop 12 (stamp pt m ts sq src d) = drop 12 d"
    by (simp add: stamp_def setSsrc_def setSequenceNumber_def setPayloadType_def setVersion_def setTimestamp_def
        setMarker_def drop_update_cancel)
  show "stamp pt m ts sq src d ! 0 = (d ! 0 AND 0x3F) OR push_bit 6 (2 AND 0x03)"
    using d by (simp add: stamp_def setSsrc_def setSequenceNumber_def setPayloadType_def setVersion_def setTimestamp_def
        setMarker_def)
qed

lemma stamp_blank: "\<exists>h. length h = 12 \<and> h ! 0 = 0x80 \<and> stamp pt m ts sq src (blank @ d) = h @ d"
proof -
  let ?s = "stamp pt m ts sq src (blank @ d)"
  have l: "12 \<le> length (blank @ d)" by simp
  have "?s = take 12 ?s @ d" using stamp_parts(2) [OF l, of pt m ts sq src] append_take_drop_id [of 12 ?s] by simp
  moreover have "take 12 ?s ! 0 = 0x80" using stamp_parts(3) [OF l] by simp
  moreover have "length (take 12 ?s) = 12" using stamp_parts(1) [OF l] l by simp
  ultimately show ?thesis by blast
qed

lemma payload_headed:
  assumes "length h = 12" "h ! 0 = 0x80"
  shows "payload (h @ d) = d" "headerSize (h @ d) = 12"
proof -
  show s: "headerSize (h @ d) = 12"
    using assms by (simp add: headerSize_def HeaderSize_def csrcCount_def extension_def nth_append)
  show "payload (h @ d) = d" using assms(1) s by (cases d) (simp_all add: payload_def)
qed

lemma payload_stamp [simp]: "payload (stamp pt m ts sq src (blank @ d)) = d"
  using stamp_blank [of pt m ts sq src d] payload_headed by metis

section \<open>H.264\<close>

text \<open>
  The units of an access unit; the error of a stream without start codes is ignored. One that is too long for a packet
  is cut behind its header byte; no room for a byte would loop forever, but the callers have ruled that out.
\<close>

definition collectAnnexBNals :: "byte list \<Rightarrow> byte list list" where
  "collectAnnexBNals d =
     snd (forEachAnnexBNal (\<lambda>nal ns. (Ok, if nal = [] then ns else ns @ [nal])) d [])"

function fu_plan :: "nat \<Rightarrow> bool \<Rightarrow> byte list \<Rightarrow> (byte list \<times> bool \<times> bool) list" where
  "fu_plan room first body =
     (if body = [] \<or> room = 0 then []
      else let chunk = min room (length body) in
        (take chunk body, first, chunk \<ge> length body) # fu_plan room False (drop chunk body))"
  by pat_completeness auto
termination by (relation "measure (\<lambda>(r, f, b). length b)") auto

declare fu_plan.simps [simp del]

definition h264_fragment :: "byte \<Rightarrow> byte list \<times> bool \<times> bool \<Rightarrow> byte list" where
  "h264_fragment orig f =
     (case f of (chunk, start, final) \<Rightarrow>
       [(orig AND 0xE0) OR 28, (orig AND 0x1F) OR (if start then 0x80 else 0) OR (if final then 0x40 else 0)] @ chunk)"

definition h264_payloads :: "nat \<Rightarrow> byte list \<Rightarrow> byte list list" where
  "h264_payloads maxPayload nal =
     (if nal = [] then []
      else if length nal \<le> maxPayload then [nal]
      else map (h264_fragment (nal ! 0)) (fu_plan (maxPayload - 2) True (drop 1 nal)))"

text \<open>A packet of a list has its version set and is otherwise zero.\<close>

definition list_packet :: "byte list \<Rightarrow> byte list" where
  "list_packet p = setVersion 2 (blank @ p)"

definition h264_pack :: "nat \<Rightarrow> byte list \<Rightarrow> byte list list" where
  "h264_pack maxPayload d =
     (if d = [] then []
      else let nals = collectAnnexBNals d in
        if nals = [] then [] else if maxPayload < 3 then []
        else map list_packet (concat (map (h264_payloads maxPayload) nals)))"

text \<open>The units of an aggregate, each behind its 16-bit length, up to the first that is empty or does not fit.\<close>

function split_aggregate :: "byte list \<Rightarrow> byte list list" where
  "split_aggregate d =
     (if length d < 2 then []
      else let n = unat (rd16 (d ! 0) (d ! 1)); d' = drop 2 d in
        if n = 0 \<or> length d' < n then [] else take n d' # split_aggregate (drop n d'))"
  by pat_completeness auto
termination by (relation "measure length") auto

declare split_aggregate.simps [simp del]

text \<open>The output so far and the unit in progress, if any.\<close>

type_synonym fu_state = "byte list \<times> byte list option"

definition h264_step :: "byte list \<Rightarrow> fu_state \<Rightarrow> fu_state" where
  "h264_step pl s =
     (case s of (out, fu) \<Rightarrow>
        if pl = [] then (out, fu)
        else let type = pl ! 0 AND 0x1F in
          if 1 \<le> type \<and> type \<le> 23 then (out @ start_coded pl, None)
          else if type = 24 then (out @ concat (map start_coded (split_aggregate (drop 1 pl))), None)
          else if type = 28 then
            (if length pl < 2 then (out, fu)
             else let fu = (if pl ! 1 AND 0x80 \<noteq> 0 then Some [(pl ! 0 AND 0xE0) OR (pl ! 1 AND 0x1F)] else fu) in
               case fu of
                 None \<Rightarrow> (out, None)
               | Some acc \<Rightarrow>
                   let acc = acc @ drop 2 pl in
                   if pl ! 1 AND 0x40 \<noteq> 0 then (out @ start_coded acc, None) else (out, Some acc))
          else (out, fu))"

definition h264_unpack :: "byte list list \<Rightarrow> byte list" where
  "h264_unpack ps = fst (fold h264_step (map payload ps) ([], None))"

lemma collect_nals: "collectAnnexBNals d = nals_of d"
proof -
  have "visit_nals (\<lambda>nal ns. (Ok, if nal = [] then ns else ns @ [nal])) ns acc = (Ok, acc @ filter (\<lambda>n. n \<noteq> []) ns)"
    for ns acc :: "byte list list"
    by (induction ns arbitrary: acc) auto
  moreover have "filter (\<lambda>n. n \<noteq> []) (nals_of d) = nals_of d"
    using nals_clean [of d] by (auto simp: filter_id_conv clean_def)
  moreover have "nals_of [] = []" by (simp add: nals_of_def findNextStartCode_def)
  ultimately show ?thesis
    by (cases "d = []"; cases "findNextStartCode d 0")
      (simp_all add: collectAnnexBNals_def walk_start_coded forEachAnnexBNal_def nals_of_def split: prod.splits)
qed

lemma payload_list_packet [simp]: "payload (list_packet p) = p"
proof -
  have "list_packet p = (0x80 # replicate 11 0) @ p"
    by (simp add: list_packet_def setVersion_def blank_def HeaderSize_def eval_nat_numeral)
  then show ?thesis using payload_headed(1) [of "0x80 # replicate 11 0" p] by simp
qed

text \<open>The reassembly of any fragmentation whose single steps behave like these.\<close>

lemma plan_reassembles:
  assumes step: "\<And>chunk s f out fu. step (frag (chunk, s, f)) (out, fu) =
      (case (if s then Some head else fu) of
         None \<Rightarrow> (out, None)
       | Some acc \<Rightarrow> if f then (out @ start_coded (acc @ chunk), None) else (out, Some (acc @ chunk)))"
    and "0 < room" "body \<noteq> []"
  shows "fold step (map frag (fu_plan room first body)) (out, fu) =
    (case (if first then Some head else fu) of None \<Rightarrow> (out, None) | Some acc \<Rightarrow> (out @ start_coded (acc @ body), None))"
  using assms(2,3)
proof (induction room first body arbitrary: fu rule: fu_plan.induct)
  case (1 room first body)
  let ?rest = "drop (min room (length body)) body"
  have plan: "fu_plan room first body =
      (take (min room (length body)) body, first, min room (length body) \<ge> length body) # fu_plan room False ?rest"
    using 1(2,3) by (subst fu_plan.simps) (simp add: Let_def)
  show ?case
  proof (cases "length body \<le> room")
    case True
    then have "fu_plan room False ?rest = []" by (simp add: fu_plan.simps)
    then show ?thesis using True by (simp add: plan step split: option.splits)
  next
    case False
    then have r: "?rest \<noteq> []" by simp
    have "fold step (map frag (fu_plan room False ?rest)) (out, fu') =
        (case fu' of None \<Rightarrow> (out, None) | Some acc \<Rightarrow> (out @ start_coded (acc @ ?rest), None))" for fu'
      using 1(1) [of "min room (length body)" fu'] 1(2,3) r by simp
    moreover have "take (min room (length body)) body @ ?rest = body" by simp
    ultimately show ?thesis
      using False by (simp add: plan step min_def split: option.splits)
  qed
qed

text \<open>The fragments of a unit, put through the reassembly, append the unit.\<close>

lemma fragment_bits:
  fixes o' :: byte
  shows "((o' AND 0xE0) OR 28) AND 0x1F = 28" "((o' AND 0xE0) OR 28) AND 0xE0 = o' AND 0xE0"
    "((o' AND 0x1F) OR (if s then 0x80 else 0) OR (if l then 0x40 else 0)) AND 0x1F = o' AND 0x1F"
    "((o' AND 0x1F) OR (if s then 0x80 else 0) OR (if l then 0x40 else 0)) AND 0x80 \<noteq> 0 \<longleftrightarrow> s"
    "((o' AND 0x1F) OR (if s then 0x80 else 0) OR (if l then 0x40 else 0)) AND 0x40 \<noteq> 0 \<longleftrightarrow> l"
    "(o' AND 0xE0) OR (o' AND 0x1F) = o'"
  by (rule bit_byte_eqI; simp add: bit_simps | simp add: byte_bits bit_simps)+

lemma h264_step_fragment:
  "h264_step (h264_fragment o' (chunk, start, final)) (out, fu) =
     (case (if start then Some [o'] else fu) of
        None \<Rightarrow> (out, None)
      | Some acc \<Rightarrow> if final then (out @ start_coded (acc @ chunk), None) else (out, Some (acc @ chunk)))"
  using fragment_bits(1,2,6) [of o'] fragment_bits(3-5) [of o' start final]
  by (cases start; cases final) (simp_all add: h264_step_def h264_fragment_def Let_def split: option.splits)

lemmas h264_reassembles =
  plan_reassembles [where step = h264_step and frag = "h264_fragment o'" and head = "[o']" for o', OF h264_step_fragment]

text \<open>What can be sent whole: a unit that is cut survives whatever its type, one that is not needs a type of a single unit.\<close>

definition h264_sendable :: "nat \<Rightarrow> byte list \<Rightarrow> bool" where
  "h264_sendable maxPayload nal \<longleftrightarrow> length nal \<le> maxPayload \<longrightarrow> 1 \<le> nal ! 0 AND 0x1F \<and> nal ! 0 AND 0x1F \<le> 23"

lemma h264_unit:
  assumes "3 \<le> m" "nal \<noteq> []" "h264_sendable m nal"
  shows "fold h264_step (h264_payloads m nal) (out, fu) = (out @ start_coded nal, None)"
proof (cases "length nal \<le> m")
  case True
  then show ?thesis
    using assms by (simp add: h264_payloads_def h264_step_def h264_sendable_def Let_def)
next
  case False
  then have "drop 1 nal \<noteq> []" "0 < m - 2" using assms(1) by auto
  moreover have "[nal ! 0] @ drop 1 nal = nal" using assms(2) by (cases nal) simp_all
  ultimately show ?thesis
    using False assms(2) h264_reassembles [of "m - 2" "drop 1 nal" "nal ! 0" True out fu] by (simp add: h264_payloads_def)
qed

lemma h264_units:
  assumes "3 \<le> m" "\<forall>n\<in>set ns. n \<noteq> [] \<and> h264_sendable m n"
  shows "fold h264_step (concat (map (h264_payloads m) ns)) (out, None) = (out @ wrapNalsAsAnnexB ns, None)"
  using assms(2)
  by (induction ns arbitrary: out) (simp_all add: h264_unit [OF assms(1)] wrapNalsAsAnnexB_def)

lemma fu_plan_sizes: "f \<in> set (fu_plan room first body) \<Longrightarrow> length (fst f) \<le> room"
  by (induction room first body rule: fu_plan.induct) (subst (asm) (2) fu_plan.simps, auto simp: Let_def split: if_splits)

lemma h264_payload_sizes: "3 \<le> m \<Longrightarrow> p \<in> set (h264_payloads m nal) \<Longrightarrow> length p \<le> m"
  using fu_plan_sizes [of _ "m - 2"] by (fastforce simp: h264_payloads_def h264_fragment_def split: if_splits prod.splits)

lemma payload_stamp_list [simp]: "payload (stamp pt m ts sq src (list_packet p)) = p"
proof -
  let ?l = "list_packet p" and ?s = "stamp pt m ts sq src (list_packet p)"
  have l: "?l = (0x80 # replicate 11 0) @ p"
    by (simp add: list_packet_def setVersion_def blank_def HeaderSize_def eval_nat_numeral)
  then have n: "12 \<le> length ?l" by simp
  have "drop 12 ?l = p" "?l ! 0 = 0x80" by (simp_all add: l)
  then have "?s = take 12 ?s @ p" "take 12 ?s ! 0 = 0x80" "length (take 12 ?s) = 12"
    using stamp_parts [OF n, of pt m ts sq src] n append_take_drop_id [of 12 ?s] by simp_all
  then show ?thesis using payload_headed(1) [of "take 12 ?s" p] by metis
qed

text \<open>C9: An access unit put into packets of any size from three bytes up, stamped by the session with whatever type,
  marker, time, numbers and source, and put together again is the same sequence of units, each behind a four-byte start
  code: the long ones are cut and reassembled without a byte lost, whatever their header byte, and no packet is longer
  than it may be. A unit that fits one packet must have the type of a single unit, one to 23.\<close>

theorem h264_through_rtp:
  assumes "3 \<le> m" "\<forall>n\<in>set (nals_of d). h264_sendable m n"
  shows "h264_unpack (map (\<lambda>p. stamp pt (mark p) ts (sq p) src p) (h264_pack m d)) = wrapNalsAsAnnexB (nals_of d) \<and>
    nals_of (wrapNalsAsAnnexB (nals_of d)) = nals_of d \<and> (\<forall>p\<in>set (h264_pack m d). length p \<le> 12 + m)"
proof -
  let ?ps = "concat (map (h264_payloads m) (nals_of d))"
  have empty: "nals_of [] = []" by (simp add: nals_of_def findNextStartCode_def)
  have pack: "h264_pack m d = map list_packet ?ps"
    using assms(1) empty by (auto simp: h264_pack_def collect_nals Let_def)
  have "\<forall>n\<in>set (nals_of d). n \<noteq> [] \<and> h264_sendable m n" using assms(2) nals_clean [of d] by (auto simp: clean_def)
  from h264_units [OF assms(1) this, of "[]"]
  have "h264_unpack (map (\<lambda>p. stamp pt (mark p) ts (sq p) src p) (h264_pack m d)) = wrapNalsAsAnnexB (nals_of d)"
    by (simp add: h264_unpack_def pack comp_def)
  moreover have "length p \<le> 12 + m" if "p \<in> set (h264_pack m d)" for p
    using that h264_payload_sizes [OF assms(1)] by (auto simp: pack list_packet_def setVersion_def)
  ultimately show ?thesis using nals_of_wrapped [OF nals_clean] by blast
qed

theorem h264_through_rtp_witness:
  "h264_unpack (map (\<lambda>p. stamp 96 False 9 7 5 p) (h264_pack 4 [0, 0, 1, 0x67, 1, 2, 0, 0, 1, 0x65, 1, 2, 3, 4, 5])) =
    [0, 0, 0, 1, 0x67, 1, 2, 0, 0, 0, 1, 0x65, 1, 2, 3, 4, 5]"
proof -
  have n: "nals_of [0, 0, 1, 0x67, 1, 2, 0, 0, 1, 0x65, 1, 2, 3, 4, 5] = [[0x67, 1, 2], [0x65, 1, 2, 3, 4, 5]]"
    by code_simp
  have "\<forall>n\<in>set (nals_of [0, 0, 1, 0x67, 1, 2, 0, 0, 1, 0x65, 1, 2, 3, 4, 5]). h264_sendable 4 n"
    unfolding n by (simp add: h264_sendable_def)
  from h264_through_rtp [OF _ this, of 96 "\<lambda>_. False" 9 "\<lambda>_. 7" 5] show ?thesis
    by (simp add: n wrapNalsAsAnnexB_def start_coded_def)
qed

text \<open>All packets but the last are full, and a cut at a multiple of the frame size never splits a frame.\<close>

lemma cut_packets_full:
  "n * a < length d + a \<Longrightarrow> p \<in> set (butlast (cut_packets n a d)) \<Longrightarrow> length (payload p) = a"
proof (induction n arbitrary: d)
  case (Suc n)
  then have n: "n \<noteq> 0" by (cases n) simp_all
  then have "1 * a \<le> n * a" by (intro mult_le_mono) simp_all
  moreover have "n * a < length d" using Suc.prems(1) by simp
  ultimately have le: "a \<le> length d" by linarith
  then have "n * a < length (drop a d) + a" using Suc.prems(1) by simp
  moreover have "cut_packets n a (drop a d) \<noteq> []" using n by (cases n) simp_all
  ultimately show ?case using Suc.IH [of "drop a d"] Suc.prems(2) le by (auto simp: min_def)
qed simp

lemma cut_packets_whole:
  "f dvd a \<Longrightarrow> f dvd length d \<Longrightarrow> p \<in> set (cut_packets n a d) \<Longrightarrow> f dvd length (payload p)"
proof (induction n arbitrary: d)
  case (Suc n)
  have "f dvd min a (length d)" using Suc.prems(1,2) by (simp add: min_def)
  moreover from this have "f dvd length (drop (min a (length d)) d)" using Suc.prems(2) by (simp add: dvd_diff_nat)
  ultimately show ?case using Suc.IH [of "drop (min a (length d)) d"] Suc.prems(1,3) by auto
qed simp

lemma packetCount_tight: "0 < m \<Longrightarrow> 0 < k \<Longrightarrow> packetCount k m * m < k + m"
  using div_times_less_eq_dividend [of "k + m - 1" m] by (simp add: packetCount_def del: div_times_less_eq_dividend)

lemma cut_through_rtp:
  assumes "0 < n"
  shows "unpack_bytes (map (\<lambda>p. stamp pt (mark p) ts (sq p) src p) (cut_packets (packetCount (length d) n) n d)) = d"
proof -
  have same: "map payload (map (\<lambda>p. stamp pt (mark p) ts (sq p) src p) (cut_packets k n d)) = map payload (cut_packets k n d)" for k
    using cut_packets_sizes [of _ k n d] by fastforce
  show ?thesis unfolding unpack_bytes_def same by (rule cut_packets_payloads [OF packetCount_covers [OF assms]])
qed

text \<open>C39: Audio and JSON come through the same way. Sixteen-bit and twenty-four-bit samples: whatever the packet size, as
  long as one frame of samples (a sample of each channel) fits it, and whatever the header fields, the payloads of the
  packets in order are the bytes that went in, each packet within its size; every packet but the last holds exactly as
  many whole frames as fit, and when the media is a whole number of frames so does the last, so that no frame is ever
  split. With no room for one frame nothing is packed and the media is dropped without a word. JSON is cut anywhere.\<close>

theorem samples_through_rtp:
  assumes "(bytesPerSample, pack) \<in> {(3, l24_pack), (2, l16_pack)}" "pack channels m d = Some ps"
  shows "(let frame = nat ((bytesPerSample * channels) mod 2 ^ 64) in
      if frame \<le> m
      then unpack_bytes (map (\<lambda>p. stamp pt (mark p) ts (sq p) src p) ps) = d \<and> (\<forall>p\<in>set ps. length p \<le> 12 + m) \<and>
        (\<forall>p\<in>set (butlast ps). length (payload p) = m div frame * frame) \<and>
        (frame dvd length d \<longrightarrow> (\<forall>p\<in>set ps. frame dvd length (payload p)))
      else ps = []) \<and>
    (0 < m \<longrightarrow> unpack_bytes (map (\<lambda>p. stamp pt (mark p) ts (sq p) src p) (json_pack m d)) = d)"
proof -
  define f where "f = nat ((bytesPerSample * channels) mod 2 ^ 64)"
  define a where "a = m div f * f"
  have "pack_samples bytesPerSample channels m d = Some ps" using assms by (auto simp: l24_pack_def l16_pack_def)
  then have ps: "ps = (if d = [] \<or> a = 0 then [] else cut_packets (packetCount (length d) a) a d)" "d \<noteq> [] \<longrightarrow> 0 < f"
    by (auto simp: pack_samples_def f_def a_def Let_def split: if_splits)
  have "a \<le> m" "f dvd a" by (simp_all add: a_def)
  have "if f \<le> m
      then unpack_bytes (map (\<lambda>p. stamp pt (mark p) ts (sq p) src p) ps) = d \<and> (\<forall>p\<in>set ps. length p \<le> 12 + m) \<and>
        (\<forall>p\<in>set (butlast ps). length (payload p) = a) \<and> (f dvd length d \<longrightarrow> (\<forall>p\<in>set ps. f dvd length (payload p)))
      else ps = []"
  proof (cases "d = []")
    case True
    then show ?thesis using ps(1) by (simp add: unpack_bytes_def)
  next
    case False
    then have pos: "0 < a \<longleftrightarrow> f \<le> m" using ps(2) by (simp add: a_def div_greater_zero_iff)
    show ?thesis
    proof (cases "f \<le> m")
      case True
      then have a: "0 < a" using pos by simp
      then have cut: "ps = cut_packets (packetCount (length d) a) a d" using ps(1) False by simp
      have "length p \<le> 12 + m" if "p \<in> set ps" for p
        using cut_packets_sizes [OF that [unfolded cut]] \<open>a \<le> m\<close> by linarith
      then show ?thesis
        using True a False cut_packets_full [OF packetCount_tight [OF a]] cut_packets_whole [OF \<open>f dvd a\<close>]
        unfolding cut by (simp add: cut_through_rtp)
    qed (use ps(1) pos in simp)
  qed
  moreover have "unpack_bytes (map (\<lambda>p. stamp pt (mark p) ts (sq p) src p) (json_pack m d)) = d" if "0 < m"
    using cut_through_rtp [OF that] that by (simp add: json_pack_def unpack_bytes_def)
  ultimately show ?thesis unfolding Let_def f_def [symmetric] a_def [symmetric] by blast
qed

theorem samples_through_rtp_witness:
  "\<exists>ps. l16_pack 2 10 [1, 2, 3, 4, 5, 6, 7, 8, 9, 10, 11, 12] = Some ps \<and> length ps = 2 \<and>
    unpack_bytes (map (\<lambda>p. stamp 97 True 1 2 3 p) ps) = [1, 2, 3, 4, 5, 6, 7, 8, 9, 10, 11, 12] \<and>
    (\<forall>p\<in>set (butlast ps). length (payload p) = 8) \<and> (\<forall>p\<in>set ps. 4 dvd length (payload p))"
proof -
  let ?d = "[1, 2, 3, 4, 5, 6, 7, 8, 9, 10, 11, 12] :: byte list"
  have p: "l16_pack 2 10 ?d = Some (cut_packets 2 8 ?d)"
    by (simp add: l16_pack_def pack_samples_def packetCount_def)
  have "(2, l16_pack) \<in> {(3, l24_pack), (2, l16_pack)}" by simp
  from samples_through_rtp [OF this p, of 97 "\<lambda>_. True" 1 "\<lambda>_. 2" 3] p show ?thesis
    by (intro exI [of _ "cut_packets 2 8 ?d"]) (simp del: cut_packets.simps, simp add: numeral_2_eq_2 dvd_eq_mod_eq_0)
qed

section \<open>H.265\<close>

definition h265_type :: "byte list \<Rightarrow> byte" where "h265_type nal = drop_bit 1 (nal ! 0) AND 0x3F"

definition h265_fragment :: "byte \<Rightarrow> byte \<Rightarrow> byte list \<times> bool \<times> bool \<Rightarrow> byte list" where
  "h265_fragment b0 b1 f =
     (case f of (chunk, start, final) \<Rightarrow>
       [(b0 AND 0x80) OR push_bit 1 49 OR (b0 AND 0x01), b1,
        (drop_bit 1 b0 AND 0x3F) OR (if start then 0x80 else 0) OR (if final then 0x40 else 0)] @ chunk)"

definition h265_payloads :: "nat \<Rightarrow> byte list \<Rightarrow> byte list list" where
  "h265_payloads maxPayload nal =
     (if length nal < 2 then []
      else if length nal \<le> maxPayload then [nal]
      else map (h265_fragment (nal ! 0) (nal ! 1)) (fu_plan (maxPayload - 3) True (drop 2 nal)))"

definition h265_pack :: "nat \<Rightarrow> byte list \<Rightarrow> byte list list" where
  "h265_pack maxPayload d =
     (if d = [] then []
      else let nals = collectAnnexBNals d in
        if nals = [] then [] else if maxPayload < 4 then []
        else map list_packet (concat (map (h265_payloads maxPayload) nals)))"

definition h265_step :: "byte list \<Rightarrow> fu_state \<Rightarrow> fu_state" where
  "h265_step pl s =
     (case s of (out, fu) \<Rightarrow>
        if length pl < 2 then (out, fu)
        else let type = h265_type pl in
          if type < 48 then (out @ start_coded pl, None)
          else if type = 48 then (out @ concat (map start_coded (split_aggregate (drop 2 pl))), None)
          else if type = 49 then
            (if length pl < 3 then (out, fu)
             else let fu = (if pl ! 2 AND 0x80 \<noteq> 0 then Some [(pl ! 0 AND 0x81) OR push_bit 1 (pl ! 2 AND 0x3F), pl ! 1] else fu) in
               case fu of
                 None \<Rightarrow> (out, None)
               | Some acc \<Rightarrow>
                   let acc = acc @ drop 3 pl in
                   if pl ! 2 AND 0x40 \<noteq> 0 then (out @ start_coded acc, None) else (out, Some acc))
          else (out, fu))"

definition h265_unpack :: "byte list list \<Rightarrow> byte list" where
  "h265_unpack ps = fst (fold h265_step (map payload ps) ([], None))"

lemma fragment_bits_265:
  fixes b :: byte
  shows "drop_bit 1 ((b AND 0x80) OR push_bit 1 49 OR (b AND 0x01)) AND 0x3F = 49"
    "((b AND 0x80) OR push_bit 1 49 OR (b AND 0x01)) AND 0x81 = b AND 0x81"
    "((drop_bit 1 b AND 0x3F) OR (if s then 0x80 else 0) OR (if l then 0x40 else 0)) AND 0x3F = drop_bit 1 b AND 0x3F"
    "((drop_bit 1 b AND 0x3F) OR (if s then 0x80 else 0) OR (if l then 0x40 else 0)) AND 0x80 \<noteq> 0 \<longleftrightarrow> s"
    "((drop_bit 1 b AND 0x3F) OR (if s then 0x80 else 0) OR (if l then 0x40 else 0)) AND 0x40 \<noteq> 0 \<longleftrightarrow> l"
    "(b AND 0x81) OR push_bit 1 (drop_bit 1 b AND 0x3F) = b"
  by (rule bit_byte_eqI; simp add: bit_simps del: push_bit_Suc; simp add: eval_nat_numeral | simp add: byte_bits bit_simps del: push_bit_Suc)+

lemma h265_step_fragment:
  "h265_step (h265_fragment b0 b1 (chunk, start, final)) (out, fu) =
     (case (if start then Some [b0, b1] else fu) of
        None \<Rightarrow> (out, None)
      | Some acc \<Rightarrow> if final then (out @ start_coded (acc @ chunk), None) else (out, Some (acc @ chunk)))"
proof -
  define p where "p = (b0 AND 0x80) OR push_bit 1 49 OR (b0 AND 0x01)"
  define q where "q = (drop_bit 1 b0 AND 0x3F) OR (if start then 0x80 else 0) OR (if final then 0x40 else 0)"
  have f: "h265_fragment b0 b1 (chunk, start, final) = p # b1 # q # chunk" by (simp add: h265_fragment_def p_def q_def)
  have b: "drop_bit 1 p AND 0x3F = 49" "p AND 0x81 = b0 AND 0x81" "q AND 0x3F = drop_bit 1 b0 AND 0x3F"
    "q AND 0x80 \<noteq> 0 \<longleftrightarrow> start" "q AND 0x40 \<noteq> 0 \<longleftrightarrow> final"
    unfolding p_def q_def by (rule fragment_bits_265)+
  show ?thesis
    using b fragment_bits_265(6) [of b0] unfolding f h265_step_def h265_type_def
    by (cases start; cases final) (simp_all add: Let_def split: option.splits)
qed

definition h265_sendable :: "nat \<Rightarrow> byte list \<Rightarrow> bool" where
  "h265_sendable maxPayload nal \<longleftrightarrow> length nal \<le> maxPayload \<longrightarrow> h265_type nal < 48"

lemma h265_unit:
  assumes "4 \<le> m" "h265_sendable m nal"
  shows "fold h265_step (h265_payloads m nal) (out, None) = (out @ (if length nal < 2 then [] else start_coded nal), None)"
proof (cases "length nal < 2 \<or> length nal \<le> m")
  case True
  then show ?thesis using assms by (auto simp: h265_payloads_def h265_step_def h265_sendable_def Let_def)
next
  case False
  then have "drop 2 nal \<noteq> []" "0 < m - 3" using assms(1) by auto
  moreover have "[nal ! 0, nal ! 1] @ drop 2 nal = nal"
    using False by (metis One_nat_def append_Cons append_Nil Cons_nth_drop_Suc drop0 not_less numeral_2_eq_2 order_less_le_trans
        zero_less_Suc lessI linorder_not_less Suc_leI)
  ultimately show ?thesis
    using False plan_reassembles [where step = h265_step and frag = "h265_fragment (nal ! 0) (nal ! 1)" and
        head = "[nal ! 0, nal ! 1]", OF h265_step_fragment, of "m - 3" "drop 2 nal" True out None]
    by (simp add: h265_payloads_def)
qed

lemma h265_units:
  assumes "4 \<le> m" "\<forall>n\<in>set ns. h265_sendable m n"
  shows "fold h265_step (concat (map (h265_payloads m) ns)) (out, None) =
    (out @ wrapNalsAsAnnexB (filter (\<lambda>n. 2 \<le> length n) ns), None)"
  using assms(2)
  by (induction ns arbitrary: out) (auto simp: h265_unit [OF assms(1)] wrapNalsAsAnnexB_def)

lemma h265_payload_sizes: "4 \<le> m \<Longrightarrow> p \<in> set (h265_payloads m nal) \<Longrightarrow> length p \<le> m"
  using fu_plan_sizes [of _ "m - 3"] by (fastforce simp: h265_payloads_def h265_fragment_def split: if_splits prod.splits)

text \<open>The same for H.265 from four bytes a packet: units of at least the two bytes of their header come through whole
  and in order, cut or not, with the layer and temporal fields of the header intact; a unit of one byte is left out. A
  unit that fits one packet must have a type below 48.\<close>

theorem h265_through_rtp:
  assumes "4 \<le> m" "\<forall>n\<in>set (nals_of d). h265_sendable m n"
  shows "h265_unpack (map (\<lambda>p. stamp pt (mark p) ts (sq p) src p) (h265_pack m d)) =
      wrapNalsAsAnnexB (filter (\<lambda>n. 2 \<le> length n) (nals_of d)) \<and>
    (\<forall>p\<in>set (h265_pack m d). length p \<le> 12 + m)"
proof -
  let ?ps = "concat (map (h265_payloads m) (nals_of d))"
  have empty: "nals_of [] = []" by (simp add: nals_of_def findNextStartCode_def)
  have pack: "h265_pack m d = map list_packet ?ps"
    using assms(1) empty by (auto simp: h265_pack_def collect_nals Let_def)
  have "h265_unpack (map (\<lambda>p. stamp pt (mark p) ts (sq p) src p) (h265_pack m d)) =
      wrapNalsAsAnnexB (filter (\<lambda>n. 2 \<le> length n) (nals_of d))"
    using h265_units [OF assms, of "[]"] by (simp add: h265_unpack_def pack comp_def)
  moreover have "length p \<le> 12 + m" if "p \<in> set (h265_pack m d)" for p
    using that h265_payload_sizes [OF assms(1)] by (auto simp: pack list_packet_def setVersion_def)
  ultimately show ?thesis by blast
qed

theorem h265_through_rtp_witness:
  "h265_unpack (map (\<lambda>p. stamp 96 False 9 7 5 p) (h265_pack 4 [0, 0, 1, 0x40, 1, 2, 0, 0, 1, 0x26, 1, 2, 3, 4, 5])) =
    [0, 0, 0, 1, 0x40, 1, 2, 0, 0, 0, 1, 0x26, 1, 2, 3, 4, 5]"
proof -
  have n: "nals_of [0, 0, 1, 0x40, 1, 2, 0, 0, 1, 0x26, 1, 2, 3, 4, 5] = [[0x40, 1, 2], [0x26, 1, 2, 3, 4, 5]]"
    by code_simp
  have "\<forall>n\<in>set (nals_of [0, 0, 1, 0x40, 1, 2, 0, 0, 1, 0x26, 1, 2, 3, 4, 5]). h265_sendable 4 n"
    unfolding n by (simp add: h265_sendable_def h265_type_def)
  from h265_through_rtp [OF _ this, of 96 "\<lambda>_. False" 9 "\<lambda>_. 7" 5] show ?thesis
    by (simp add: n wrapNalsAsAnnexB_def start_coded_def)
qed

section \<open>JPEG XS, codestream mode\<close>

definition writeJxsHeader :: "bool \<Rightarrow> bool \<Rightarrow> bool \<Rightarrow> byte \<Rightarrow> byte \<Rightarrow> u16 \<Rightarrow> u16 \<Rightarrow> byte list" where
  "writeJxsHeader t k l i frameCounter sepCounter packetCounter =
     (let f = frameCounter AND 0x1F; se = sepCounter AND 0x7FF; pc = packetCounter AND 0x7FF in
      [(if t then 0x80 else 0) OR (if k then 0x40 else 0) OR (if l then 0x20 else 0) OR push_bit 3 (i AND 0x03) OR
         (drop_bit 2 f AND 0x07),
       push_bit 6 (f AND 0x03) OR (ucast (drop_bit 5 se) AND 0x3F),
       ucast (push_bit 3 (se AND 0x1F)) OR (ucast (drop_bit 8 pc) AND 0x07),
       ucast pc])"

fun jxs_packets :: "nat \<Rightarrow> nat \<Rightarrow> byte \<Rightarrow> u16 \<Rightarrow> u16 \<Rightarrow> byte list \<Rightarrow> byte list list" where
  "jxs_packets 0 m fc se pc d = []"
| "jxs_packets (Suc n) m fc se pc d =
     (blank @ writeJxsHeader True False (n = 0) 0 fc se pc @ take (min m (length d)) d) #
     jxs_packets n m fc (if pc = 0x7FF then (se + 1) AND 0x7FF else se) (if pc = 0x7FF then 0 else pc + 1)
       (drop (min m (length d)) d)"

text \<open>The frame counter of the payload and the packets; slice mode is off.\<close>

definition jxs_pack :: "nat \<Rightarrow> byte list \<Rightarrow> byte \<Rightarrow> byte list list \<times> byte" where
  "jxs_pack maxPayload d frameCounter =
     (if d = [] then ([], frameCounter)
      else if maxPayload \<le> 4 then ([], frameCounter)
      else (jxs_packets ((length d + (maxPayload - 4) - 1) div (maxPayload - 4)) (maxPayload - 4) frameCounter 0 0 d,
            (frameCounter + 1) AND 0x1F))"

definition jxs_unpack :: "byte list list \<Rightarrow> byte list" where
  "jxs_unpack ps = concat (map (\<lambda>p. if length (payload p) \<le> 4 then [] else drop 4 (payload p)) ps)"

lemma jxs_packets_payloads:
  assumes "length d \<le> n * m"
  shows "jxs_unpack (jxs_packets n m fc se pc d) = d"
  using assms
proof (induction n arbitrary: d se pc)
  case 0
  then show ?case by (simp add: jxs_unpack_def)
next
  case (Suc n)
  let ?k = "min m (length d)"
  have "length (drop ?k d) \<le> n * m" using Suc.prems by auto
  then have IH: "jxs_unpack (jxs_packets n m fc se' pc' (drop ?k d)) = drop ?k d" for se' pc' by (rule Suc.IH)
  have "length (writeJxsHeader t k l i f s p) = 4" for t k l i f s p by (simp add: writeJxsHeader_def Let_def)
  then have "jxs_unpack (jxs_packets (Suc n) m fc se pc d) = take ?k d @ drop ?k d"
    using IH by (simp add: jxs_unpack_def)
  then show ?case by simp
qed

lemma jxs_roundtrip: "4 < m \<Longrightarrow> jxs_unpack (fst (jxs_pack m d f)) = d"
  using jxs_packets_payloads [OF packetCount_covers [of "m - 4" "length d"]]
  by (auto simp: jxs_pack_def packetCount_def jxs_unpack_def)

section \<open>The gates before the decoder\<close>

datatype validate_result = Accept | DropSilently | Wait

record h264_gate =
  spsObserved :: bool
  ppsObserved :: bool
  idrLatched :: bool
  loggedWait :: bool

definition new_h264_gate :: h264_gate where
  "new_h264_gate = \<lparr>spsObserved = False, ppsObserved = False, idrLatched = False, loggedWait = False\<rparr>"

definition h264_clearParamSets :: "h264_gate \<Rightarrow> h264_gate" where
  "h264_clearParamSets g = g\<lparr>spsObserved := False, ppsObserved := False, idrLatched := False, loggedWait := False\<rparr>"

text \<open>What one unit of the walk raises: sequence set, picture set, IDR.\<close>

fun h264_flag :: "byte list \<Rightarrow> bool \<times> bool \<times> bool \<Rightarrow> bool \<times> bool \<times> bool" where
  "h264_flag nal (sps, pps, idr) =
     (let type = header0 nal AND 0x1f in
      if type = 7 then (True, pps, idr) else if type = 8 then (sps, True, idr) else if type = 5 then (sps, pps, True)
      else (sps, pps, idr))"

definition h264_validate :: "byte list \<Rightarrow> h264_gate \<Rightarrow> validate_result \<times> h264_gate" where
  "h264_validate unpacked g =
     (if unpacked = [] then (DropSilently, g)
      else case snd (forEachAnnexBNal (\<lambda>nal s. (Ok, h264_flag nal s)) unpacked (spsObserved g, ppsObserved g, False)) of
        (sps, pps, idr) \<Rightarrow>
          let g = g\<lparr>spsObserved := sps, ppsObserved := pps\<rparr> in
          if idrLatched g then (Accept, g)
          else if \<not> sps \<or> \<not> pps then (Wait, g\<lparr>loggedWait := True\<rparr>)
          else if idr then (Accept, g\<lparr>idrLatched := True\<rparr>)
          else (DropSilently, g))"

record h265_gate =
  hv_vpsObserved :: bool
  hv_spsObserved :: bool
  hv_ppsObserved :: bool
  irapLatched :: bool
  hv_loggedWait :: bool

definition new_h265_gate :: h265_gate where
  "new_h265_gate = \<lparr>hv_vpsObserved = False, hv_spsObserved = False, hv_ppsObserved = False, irapLatched = False,
     hv_loggedWait = False\<rparr>"

definition h265_clearParamSets :: "h265_gate \<Rightarrow> h265_gate" where
  "h265_clearParamSets g =
     g\<lparr>hv_vpsObserved := False, hv_spsObserved := False, hv_ppsObserved := False, irapLatched := False, hv_loggedWait := False\<rparr>"

fun h265_flag :: "byte list \<Rightarrow> bool \<times> bool \<times> bool \<times> bool \<Rightarrow> bool \<times> bool \<times> bool \<times> bool" where
  "h265_flag nal (vps, sps, pps, irap) =
     (let type = drop_bit 1 (header0 nal) AND 0x3F; irap = (if 16 \<le> type \<and> type \<le> 23 then True else irap) in
      if type = 32 then (True, sps, pps, irap) else if type = 33 then (vps, True, pps, irap)
      else if type = 34 then (vps, sps, True, irap) else (vps, sps, pps, irap))"

definition h265_validate :: "byte list \<Rightarrow> h265_gate \<Rightarrow> validate_result \<times> h265_gate" where
  "h265_validate unpacked g =
     (if unpacked = [] then (DropSilently, g)
      else case snd (forEachAnnexBNal (\<lambda>nal s. (Ok, h265_flag nal s)) unpacked (hv_vpsObserved g, hv_spsObserved g, hv_ppsObserved g, False)) of
        (vps, sps, pps, irap) \<Rightarrow>
          let g = g\<lparr>hv_vpsObserved := vps, hv_spsObserved := sps, hv_ppsObserved := pps\<rparr> in
          if irapLatched g then (Accept, g)
          else if \<not> vps \<or> \<not> sps \<or> \<not> pps then (Wait, g\<lparr>hv_loggedWait := True\<rparr>)
          else if irap then (Accept, g\<lparr>irapLatched := True\<rparr>)
          else (DropSilently, g))"

text \<open>
  The contract of a gate: which kinds of parameter set it has seen, whether it is open, and what it answers. \<open>kinds\<close> are
  the sets a decoder needs and \<open>entry\<close> the units it can start at.
\<close>

definition has_unit :: "(byte list \<Rightarrow> bool) \<Rightarrow> byte list \<Rightarrow> bool" where
  "has_unit p au \<longleftrightarrow> (\<exists>n\<in>set (nals_of au). p n)"

definition ever :: "(byte list \<Rightarrow> bool) \<Rightarrow> byte list list \<Rightarrow> bool" where
  "ever p aus \<longleftrightarrow> (\<exists>au\<in>set aus. has_unit p au)"

text \<open>Some access unit so far held an entry unit when every kind of set had been seen, its own among them.\<close>

definition started :: "(byte list \<Rightarrow> bool) list \<Rightarrow> (byte list \<Rightarrow> bool) \<Rightarrow> byte list list \<Rightarrow> bool" where
  "started kinds entry aus \<longleftrightarrow>
     (\<exists>pre au post. aus = pre @ au # post \<and> has_unit entry au \<and> (\<forall>k\<in>set kinds. ever k (pre @ [au])))"

definition gate_answer :: "(byte list \<Rightarrow> bool) list \<Rightarrow> (byte list \<Rightarrow> bool) \<Rightarrow> byte list list \<Rightarrow> byte list \<Rightarrow> validate_result" where
  "gate_answer kinds entry before au =
     (if au = [] then DropSilently
      else if started kinds entry (before @ [au]) then Accept
      else if \<forall>k\<in>set kinds. ever k (before @ [au]) then DropSilently else Wait)"

locale decoder_gate =
  fixes validate :: "byte list \<Rightarrow> 'g \<Rightarrow> validate_result \<times> 'g" and fresh :: 'g
    and seen :: "'g \<Rightarrow> bool list" and latched :: "'g \<Rightarrow> bool"
    and kinds :: "(byte list \<Rightarrow> bool) list" and entry :: "byte list \<Rightarrow> bool"
  assumes fresh_gate: "seen fresh = map (\<lambda>_. False) kinds" "\<not> latched fresh"
    and validate_empty: "validate [] g = (DropSilently, g)"
    and validate_seen: "au \<noteq> [] \<Longrightarrow> length (seen g) = length kinds \<Longrightarrow>
      seen (snd (validate au g)) = map2 (\<lambda>b k. b \<or> has_unit k au) (seen g) kinds"
    and validate_latched: "au \<noteq> [] \<Longrightarrow> latched (snd (validate au g)) \<longleftrightarrow>
      latched g \<or> (\<forall>b\<in>set (seen (snd (validate au g))). b) \<and> has_unit entry au"
    and validate_answer: "au \<noteq> [] \<Longrightarrow> fst (validate au g) =
      (if latched (snd (validate au g)) then Accept
       else if \<forall>b\<in>set (seen (snd (validate au g))). b then DropSilently else Wait)"
begin

lemma ever_snoc: "ever p (aus @ [au]) \<longleftrightarrow> ever p aus \<or> has_unit p au"
  by (auto simp: ever_def)

lemma started_snoc:
  "started kinds entry (aus @ [au]) \<longleftrightarrow>
     started kinds entry aus \<or> has_unit entry au \<and> (\<forall>k\<in>set kinds. ever k (aus @ [au]))"
proof
  assume "started kinds entry (aus @ [au])"
  then obtain pre a post where s: "aus @ [au] = pre @ a # post" "has_unit entry a" "\<forall>k\<in>set kinds. ever k (pre @ [a])"
    by (auto simp: started_def)
  show "started kinds entry aus \<or> has_unit entry au \<and> (\<forall>k\<in>set kinds. ever k (aus @ [au]))"
  proof (cases post rule: rev_cases)
    case Nil
    then show ?thesis using s by simp
  next
    case (snoc post' z)
    then have "aus = pre @ a # post'" using s(1) by simp
    then show ?thesis using s(2,3) unfolding started_def by blast
  qed
next
  assume "started kinds entry aus \<or> has_unit entry au \<and> (\<forall>k\<in>set kinds. ever k (aus @ [au]))"
  then show "started kinds entry (aus @ [au])"
    unfolding started_def by (metis append.assoc append_Cons append_Nil)
qed

definition run :: "byte list list \<Rightarrow> 'g" where
  "run aus = fold (\<lambda>au g. snd (validate au g)) aus fresh"

lemma has_unit_Nil: "\<not> has_unit p []"
  by (simp add: has_unit_def nals_of_def findNextStartCode_def)

lemma gate_state: "seen (run aus) = map (\<lambda>k. ever k aus) kinds \<and> latched (run aus) = started kinds entry aus"
proof (induction aus rule: rev_induct)
  case Nil
  then show ?case by (simp add: run_def fresh_gate ever_def started_def)
next
  case (snoc au aus)
  have r: "run (aus @ [au]) = snd (validate au (run aus))" by (simp add: run_def)
  show ?case
  proof (cases "au = []")
    case True
    then have "run (aus @ [au]) = run aus" using r by (simp add: validate_empty)
    then show ?thesis
      using snoc True by (simp add: started_snoc ever_snoc has_unit_Nil)
  next
    case False
    have s: "seen (run (aus @ [au])) = map (\<lambda>k. ever k (aus @ [au])) kinds"
      using validate_seen [OF False, of "run aus"] snoc by (simp add: r ever_snoc zip_map1 zip_same_conv_map comp_def)
    then show ?thesis
      using validate_latched [OF False, of "run aus"] snoc by (auto simp: r started_snoc)
  qed
qed

theorem gate_answers: "fst (validate au (run before)) = gate_answer kinds entry before au"
proof (cases "au = []")
  case False
  have "snd (validate au (run before)) = run (before @ [au])" by (simp add: run_def)
  then show ?thesis
    using False validate_answer [OF False, of "run before"] gate_state [of "before @ [au]"] by (simp add: gate_answer_def)
qed (simp add: validate_empty gate_answer_def)

end

text \<open>A walk that only raises flags raises those some unit asks for.\<close>

lemma walk_flags:
  assumes "\<And>n s. v n s = (Ok, f n s)"
  shows "d \<noteq> [] \<Longrightarrow> snd (forEachAnnexBNal v d s) = fold f (nals_of d) s"
proof -
  assume d: "d \<noteq> []"
  have "visit_nals v ns s = (Ok, fold f ns s)" for ns s
    by (induction ns arbitrary: s) (simp_all add: assms)
  then show ?thesis
    using d by (cases "findNextStartCode d 0") (simp_all add: walk_start_coded forEachAnnexBNal_def nals_of_def split: prod.splits)
qed

definition unit_type :: "byte \<Rightarrow> byte list \<Rightarrow> bool" where "unit_type t n \<longleftrightarrow> header0 n AND 0x1F = t"
definition hevc_unit :: "byte \<Rightarrow> byte list \<Rightarrow> bool" where "hevc_unit t n \<longleftrightarrow> drop_bit 1 (header0 n) AND 0x3F = t"

definition irap_unit :: "byte list \<Rightarrow> bool" where
  "irap_unit n \<longleftrightarrow> (let t = drop_bit 1 (header0 n) AND 0x3F in 16 \<le> t \<and> t \<le> 23)"

lemma h264_flags:
  "fold h264_flag ns (a, b, c) =
    (a \<or> (\<exists>n\<in>set ns. unit_type 7 n), b \<or> (\<exists>n\<in>set ns. unit_type 8 n), c \<or> (\<exists>n\<in>set ns. unit_type 5 n))"
  by (induction ns arbitrary: a b c) (auto simp: unit_type_def Let_def)

lemma h264_walked:
  assumes "d \<noteq> []"
  shows "snd (forEachAnnexBNal (\<lambda>nal s. (Ok, h264_flag nal s)) d (a, b, c)) = (a \<or> has_unit (unit_type 7) d, b \<or> has_unit (unit_type 8) d, c \<or> has_unit (unit_type 5) d)"
  unfolding has_unit_def h264_flags [symmetric] by (rule walk_flags) (use assms in auto)

interpretation h264: decoder_gate h264_validate new_h264_gate "\<lambda>g. [spsObserved g, ppsObserved g]" idrLatched
  "[unit_type 7, unit_type 8]" "unit_type 5"
  by unfold_locales (auto simp: new_h264_gate_def h264_validate_def h264_walked Let_def)

lemma h265_flags:
  "fold h265_flag ns (a, b, c, d) =
    (a \<or> (\<exists>n\<in>set ns. hevc_unit 32 n), b \<or> (\<exists>n\<in>set ns. hevc_unit 33 n), c \<or> (\<exists>n\<in>set ns. hevc_unit 34 n),
     d \<or> (\<exists>n\<in>set ns. irap_unit n))"
  by (induction ns arbitrary: a b c d) (auto simp: hevc_unit_def irap_unit_def Let_def)

lemma h265_walked:
  assumes "d \<noteq> []"
  shows "snd (forEachAnnexBNal (\<lambda>nal s. (Ok, h265_flag nal s)) d (a, b, c, e)) =
    (a \<or> has_unit (hevc_unit 32) d, b \<or> has_unit (hevc_unit 33) d, c \<or> has_unit (hevc_unit 34) d, e \<or> has_unit irap_unit d)"
  unfolding has_unit_def h265_flags [symmetric] by (rule walk_flags) (use assms in auto)

interpretation h265: decoder_gate h265_validate new_h265_gate "\<lambda>g. [hv_vpsObserved g, hv_spsObserved g, hv_ppsObserved g]" irapLatched
  "[hevc_unit 32, hevc_unit 33, hevc_unit 34]" irap_unit
  by unfold_locales (auto simp: new_h265_gate_def h265_validate_def h265_walked Let_def)

text \<open>C11: A receiver that joins a stream hands the decoder nothing it cannot start with. After any access units, the
  answer to the next is: an empty one is dropped; it is accepted exactly when some access unit up to and including it
  held an entry picture (an IDR unit for H.264, types 16 to 23 for H.265) while every kind of parameter set had been
  seen; before that the receiver waits while a kind is missing and drops otherwise. Once open, a gate stays open.\<close>

theorem video_gates_open_at_entry:
  "fst (h264_validate au (fold (\<lambda>a g. snd (h264_validate a g)) before new_h264_gate)) =
     gate_answer [unit_type 7, unit_type 8] (unit_type 5) before au \<and>
   fst (h265_validate au (fold (\<lambda>a g. snd (h265_validate a g)) before new_h265_gate)) =
     gate_answer [hevc_unit 32, hevc_unit 33, hevc_unit 34] irap_unit before au"
  using h264.gate_answers [of au before] h265.gate_answers [of au before] by (simp add: h264.run_def h265.run_def)

end
