(* ===== verification/PacketTransport.thy ===== *)
theory PacketTransport
  imports RtpReceive
begin

text \<open>
  What a session sends through: the datagrams of \<open>promeki/packettransport.h\<close>, the burst scheduler of
  \<open>src/network/burstpacketscheduler.cpp\<close>, and the loopback transport of \<open>src/network/loopbacktransport.cpp\<close> on an
  explicit store of endpoints, whose peers are addresses of that store. A read through the address of an object that is
  gone has no result. What the senders rely on is the interface \<open>packet_transport\<close>.
\<close>

section \<open>Datagrams and the sending loop\<close>

record 'a datagram =
  dg_data :: "byte list"
  dg_dest :: 'a
  dg_txTime :: u64

type_synonym ('a, 'w) xmit = "'a datagram list \<Rightarrow> 'w \<Rightarrow> (int \<times> 'w) option"

text \<open>
  A batch send answers how many datagrams it took; the rest is offered again until all are gone. A failure or a send that
  took nothing ends the loop: the second component is whether all were taken.
\<close>

function send_all :: "('a, 'w) xmit \<Rightarrow> 'a datagram list \<Rightarrow> 'w \<Rightarrow> (bool \<times> 'w) option" where
  "send_all xmit ds w =
     (if ds = [] then Some (True, w)
      else case xmit ds w of
          None \<Rightarrow> None
        | Some (k, w') \<Rightarrow>
            if k < 0 then Some (False, w') else if k = 0 then Some (False, w') else send_all xmit (drop (nat k) ds) w')"
  by pat_completeness auto
termination by (relation "measure (\<lambda>(xmit, ds, w). length ds)") auto

declare send_all.simps [simp del]

text \<open>The scheduler that sends at once. Its transport may be missing; the answer is narrowed to \<open>int\<close>.\<close>

definition burst_enqueue :: "('a, 'w) xmit option \<Rightarrow> ('a, 'w) xmit" where
  "burst_enqueue transport ds w =
     (case transport of
        None \<Rightarrow> Some (-1, w)
      | Some xmit \<Rightarrow>
          if ds = [] then Some (0, w)
          else case send_all xmit ds w of
              None \<Rightarrow> None
            | Some (False, w') \<Rightarrow> Some (-1, w')
            | Some (True, w') \<Rightarrow> Some (sint (of_nat (length ds) :: u32), w'))"

section \<open>The interface\<close>

text \<open>What a transport delivers: the bytes and the address it was given for them.\<close>

definition letter :: "'a datagram \<Rightarrow> byte list \<times> 'a" where
  "letter d = (dg_data d, dg_dest d)"

text \<open>
  The law of a working transport: it takes at least one datagram of a batch without empty ones, takes them from the
  front, appends what it took to what has been sent, and goes on working.
\<close>

locale packet_transport =
  fixes xmit :: "'a datagram list \<Rightarrow> 'w \<Rightarrow> (int \<times> 'w) option"
    and ready :: "'w \<Rightarrow> bool"
    and sent :: "'w \<Rightarrow> (byte list \<times> 'a) list"
  assumes takes_some: "ready w \<Longrightarrow> ds \<noteq> [] \<Longrightarrow> \<forall>d\<in>set ds. dg_data d \<noteq> [] \<Longrightarrow>
      \<exists>k w'. xmit ds w = Some (k, w') \<and> 0 < k \<and> k \<le> int (length ds) \<and> ready w' \<and>
        sent w' = sent w @ map letter (take (nat k) ds)"
begin

lemma sends_all:
  "ready w \<Longrightarrow> \<forall>d\<in>set ds. dg_data d \<noteq> [] \<Longrightarrow>
   \<exists>w'. send_all xmit ds w = Some (True, w') \<and> ready w' \<and> sent w' = sent w @ map letter ds"
proof (induction "length ds" arbitrary: ds w rule: less_induct)
  case less
  show ?case
  proof (cases "ds = []")
    case True
    then show ?thesis using less.prems(1) by (simp add: send_all.simps)
  next
    case False
    from takes_some [OF less.prems(1) this less.prems(2)] obtain k w1 where
      k: "xmit ds w = Some (k, w1)" "0 < k" "k \<le> int (length ds)" "ready w1" "sent w1 = sent w @ map letter (take (nat k) ds)"
      by blast
    have "length (drop (nat k) ds) < length ds" using k(2) False by simp
    moreover have "\<forall>d\<in>set (drop (nat k) ds). dg_data d \<noteq> []" using less.prems(2) by (auto dest: in_set_dropD)
    ultimately obtain w' where
      w': "send_all xmit (drop (nat k) ds) w1 = Some (True, w')" "ready w'" "sent w' = sent w1 @ map letter (drop (nat k) ds)"
      using less.hyps k(4) by blast
    have "send_all xmit ds w = Some (True, w')"
      using False k(1,2) w'(1) by (subst send_all.simps) simp
    moreover have "sent w' = sent w @ map letter ds"
      using w'(3) k(5) by (simp flip: map_append)
    ultimately show ?thesis using w'(2) by blast
  qed
qed

lemma burst_sends_all:
  assumes "ready w" "\<forall>d\<in>set ds. dg_data d \<noteq> []" "length ds < 2 ^ 31"
  shows "\<exists>w'. burst_enqueue (Some xmit) ds w = Some (int (length ds), w') \<and> ready w' \<and> sent w' = sent w @ map letter ds"
proof -
  have "sint (of_nat (length ds) :: u32) = int (length ds)"
    using assms(3) by (simp add: signed_of_nat signed_take_bit_int_eq_self)
  then show ?thesis
    using sends_all [OF assms(1,2)] assms(1) by (auto simp: burst_enqueue_def)
qed

end

text \<open>Two transports that do not disturb each other.\<close>

locale transport_pair = packet_transport xmit ready sent + other: packet_transport xmit2 ready2 sent2
  for xmit :: "'a datagram list \<Rightarrow> 'w \<Rightarrow> (int \<times> 'w) option" and ready sent
    and xmit2 :: "'a datagram list \<Rightarrow> 'w \<Rightarrow> (int \<times> 'w) option" and ready2 sent2 +
  assumes undisturbed: "ready w \<Longrightarrow> ready2 w \<Longrightarrow> xmit ds w = Some (k, w') \<Longrightarrow> ready2 w' \<and> sent2 w' = sent2 w"
    and undisturbed2: "ready w \<Longrightarrow> ready2 w \<Longrightarrow> xmit2 ds w = Some (k, w') \<Longrightarrow> ready w' \<and> sent w' = sent w"
begin

lemma pair_sends_all:
  "ready w \<Longrightarrow> ready2 w \<Longrightarrow> \<forall>d\<in>set ds. dg_data d \<noteq> [] \<Longrightarrow>
   \<exists>w'. send_all xmit ds w = Some (True, w') \<and> ready w' \<and> ready2 w' \<and> sent w' = sent w @ map letter ds \<and> sent2 w' = sent2 w"
proof (induction "length ds" arbitrary: ds w rule: less_induct)
  case less
  show ?case
  proof (cases "ds = []")
    case True
    then show ?thesis using less.prems(1,2) by (simp add: send_all.simps)
  next
    case False
    from takes_some [OF less.prems(1) this less.prems(3)] obtain k w1 where
      k: "xmit ds w = Some (k, w1)" "0 < k" "ready w1" "sent w1 = sent w @ map letter (take (nat k) ds)"
      by blast
    have k2: "ready2 w1" "sent2 w1 = sent2 w" using undisturbed [OF less.prems(1,2) k(1)] by simp_all
    have "length (drop (nat k) ds) < length ds" using k(2) False by simp
    moreover have "\<forall>d\<in>set (drop (nat k) ds). dg_data d \<noteq> []" using less.prems(3) by (auto dest: in_set_dropD)
    ultimately obtain w' where
      w': "send_all xmit (drop (nat k) ds) w1 = Some (True, w')" "ready w'" "ready2 w'"
        "sent w' = sent w1 @ map letter (drop (nat k) ds)" "sent2 w' = sent2 w1"
      using less.hyps k(3) k2(1) by blast
    have "send_all xmit ds w = Some (True, w')"
      using False k(1,2) w'(1) by (subst send_all.simps) simp
    moreover have "sent w' = sent w @ map letter ds"
      using w'(4) k(4) by (simp flip: map_append)
    ultimately show ?thesis using w'(2,3,5) k2(2) by auto
  qed
qed

end

sublocale transport_pair \<subseteq> swapped: transport_pair xmit2 ready2 sent2 xmit ready sent
  by unfold_locales (use undisturbed undisturbed2 in blast)+

section \<open>The loopback transport\<close>

record 'a endpoint =
  ep_open :: bool
  ep_peer :: "nat option"
  ep_queue :: "(byte list \<times> 'a) list"

text \<open>The objects that exist, by address.\<close>

type_synonym 'a net = "nat \<Rightarrow> 'a endpoint option"

definition new_endpoint :: "'a endpoint" where
  "new_endpoint = \<lparr>ep_open = False, ep_peer = None, ep_queue = []\<rparr>"

definition lb_pair :: "nat option \<Rightarrow> nat option \<Rightarrow> 'a net \<Rightarrow> 'a net option" where
  "lb_pair pa pb net =
     (case (pa, pb) of
        (Some a, Some b) \<Rightarrow>
          (case net a of None \<Rightarrow> None
           | Some x \<Rightarrow> let net1 = net(a \<mapsto> x\<lparr>ep_peer := Some b\<rparr>) in
               (case net1 b of None \<Rightarrow> None | Some y \<Rightarrow> Some (net1(b \<mapsto> y\<lparr>ep_peer := Some a\<rparr>))))
      | _ \<Rightarrow> Some net)"

definition lb_open :: "nat \<Rightarrow> 'a net \<Rightarrow> (error \<times> 'a net) option" where
  "lb_open a net =
     (case net a of None \<Rightarrow> None
      | Some x \<Rightarrow> if ep_open x then Some (Busy, net) else Some (Ok, net(a \<mapsto> x\<lparr>ep_open := True\<rparr>)))"

definition lb_close :: "nat \<Rightarrow> 'a net \<Rightarrow> 'a net option" where
  "lb_close a net =
     (case net a of None \<Rightarrow> None
      | Some x \<Rightarrow> if \<not> ep_open x then Some net else Some (net(a \<mapsto> x\<lparr>ep_open := False, ep_queue := []\<rparr>)))"

text \<open>Destruction closes and unhooks the peer, whose own peer is read to see that it points back.\<close>

definition lb_destroy :: "nat \<Rightarrow> 'a net \<Rightarrow> 'a net option" where
  "lb_destroy a net =
     (case lb_close a net of None \<Rightarrow> None
      | Some net1 \<Rightarrow>
          (case net1 a of None \<Rightarrow> None
           | Some x \<Rightarrow>
               (case ep_peer x of
                  None \<Rightarrow> Some (net1(a := None))
                | Some p \<Rightarrow>
                    (case net1 p of None \<Rightarrow> None
                     | Some y \<Rightarrow>
                         Some ((if ep_peer y = Some a then net1(p \<mapsto> y\<lparr>ep_peer := None\<rparr>) else net1)(a := None))))))"

definition lb_deliver :: "nat \<Rightarrow> byte list \<times> 'a \<Rightarrow> 'a net \<Rightarrow> 'a net" where
  "lb_deliver b e net = (case net b of None \<Rightarrow> net | Some y \<Rightarrow> net(b \<mapsto> y\<lparr>ep_queue := ep_queue y @ [e]\<rparr>))"

fun deliver_batch :: "nat \<Rightarrow> 'a datagram list \<Rightarrow> int \<Rightarrow> 'a net \<Rightarrow> int \<times> 'a net" where
  "deliver_batch b [] k net = (k, net)"
| "deliver_batch b (d # ds) k net =
     (if dg_data d = [] then (if 0 < k then k else -1, net) else deliver_batch b ds (k + 1) (lb_deliver b (letter d) net))"

text \<open>Whether a send finds both ends open, and the peer; the peer's state is read.\<close>

definition lb_route :: "nat \<Rightarrow> 'a net \<Rightarrow> nat option option" where
  "lb_route a net =
     (case net a of None \<Rightarrow> None
      | Some x \<Rightarrow>
          if \<not> ep_open x then Some None
          else (case ep_peer x of
              None \<Rightarrow> Some None
            | Some p \<Rightarrow> (case net p of None \<Rightarrow> None | Some y \<Rightarrow> if ep_open y then Some (Some p) else Some None)))"

definition lb_sendPacket :: "nat \<Rightarrow> byte list \<Rightarrow> 'a \<Rightarrow> 'a net \<Rightarrow> (int \<times> 'a net) option" where
  "lb_sendPacket a d dest net =
     (case lb_route a net of None \<Rightarrow> None
      | Some None \<Rightarrow> Some (-1, net)
      | Some (Some p) \<Rightarrow> Some (int (length d), lb_deliver p (d, dest) net))"

definition lb_sendPackets :: "nat \<Rightarrow> ('a, 'a net) xmit" where
  "lb_sendPackets a ds net =
     (case lb_route a net of None \<Rightarrow> None
      | Some None \<Rightarrow> Some (-1, net)
      | Some (Some p) \<Rightarrow> Some (deliver_batch p ds 0 net))"

text \<open>What is received is cut to the room given; the rest of the datagram is gone.\<close>

definition lb_receivePacket :: "nat \<Rightarrow> nat \<Rightarrow> 'a net \<Rightarrow> ((byte list \<times> 'a) option \<times> 'a net) option" where
  "lb_receivePacket a maxSize net =
     (case net a of None \<Rightarrow> None
      | Some x \<Rightarrow>
          if \<not> ep_open x then Some (None, net)
          else (case ep_queue x of
              [] \<Rightarrow> Some (None, net)
            | e # es \<Rightarrow> Some (Some (take (min (length (fst e)) maxSize) (fst e), snd e), net(a \<mapsto> x\<lparr>ep_queue := es\<rparr>))))"

section \<open>The loopback is a transport\<close>

definition lb_ready :: "nat \<Rightarrow> nat \<Rightarrow> 'a net \<Rightarrow> bool" where
  "lb_ready a b net \<longleftrightarrow> lb_route a net = Some (Some b)"

definition lb_queue :: "nat \<Rightarrow> 'a net \<Rightarrow> (byte list \<times> 'a) list" where
  "lb_queue b net = (case net b of None \<Rightarrow> [] | Some y \<Rightarrow> ep_queue y)"

lemma lb_ready_iff:
  "lb_ready a b net \<longleftrightarrow> (\<exists>x y. net a = Some x \<and> ep_open x \<and> ep_peer x = Some b \<and> net b = Some y \<and> ep_open y)"
  by (auto simp: lb_ready_def lb_route_def split: option.splits if_splits)

lemma lb_ready_deliver: "lb_ready a b net \<Longrightarrow> lb_ready a b (lb_deliver p e net)"
  by (auto simp: lb_ready_iff lb_deliver_def split: option.splits)

lemma lb_queue_deliver:
  "net b = Some y \<Longrightarrow> lb_queue b (lb_deliver b e net) = lb_queue b net @ [e]"
  "p \<noteq> b \<Longrightarrow> lb_queue b (lb_deliver p e net) = lb_queue b net"
  by (auto simp: lb_queue_def lb_deliver_def split: option.splits)

lemma deliver_batch_all:
  "lb_ready a b net \<Longrightarrow> \<forall>d\<in>set ds. dg_data d \<noteq> [] \<Longrightarrow>
   \<exists>net'. deliver_batch b ds k net = (k + int (length ds), net') \<and> lb_ready a b net' \<and>
     lb_queue b net' = lb_queue b net @ map letter ds"
proof (induction ds arbitrary: k net)
  case (Cons d ds)
  have "\<exists>y. net b = Some y" using Cons.prems(1) by (auto simp: lb_ready_iff)
  then have q: "lb_queue b (lb_deliver b (letter d) net) = lb_queue b net @ [letter d]" using lb_queue_deliver(1) by blast
  show ?case
    using Cons.IH [where k = "k + 1", OF lb_ready_deliver [OF Cons.prems(1), of b "letter d"]] Cons.prems(2) q by auto
qed simp

lemma deliver_batch_elsewhere:
  "b \<noteq> b2 \<Longrightarrow> lb_ready a2 b2 net \<Longrightarrow>
   lb_ready a2 b2 (snd (deliver_batch b ds k net)) \<and> lb_queue b2 (snd (deliver_batch b ds k net)) = lb_queue b2 net"
  by (induction b ds k net rule: deliver_batch.induct) (simp_all add: lb_ready_deliver lb_queue_deliver(2))

interpretation loopback: packet_transport "lb_sendPackets a" "lb_ready a b" "lb_queue b" for a b
proof
  fix net :: "'a net" and ds :: "'a datagram list"
  assume r: "lb_ready a b net" and ne: "ds \<noteq> []" and d: "\<forall>d\<in>set ds. dg_data d \<noteq> []"
  from deliver_batch_all [OF r d, of 0] obtain net' where
    "deliver_batch b ds 0 net = (int (length ds), net')" "lb_ready a b net'" "lb_queue b net' = lb_queue b net @ map letter ds"
    by auto
  moreover have "lb_sendPackets a ds net = Some (deliver_batch b ds 0 net)"
    using r by (simp add: lb_sendPackets_def lb_ready_def)
  ultimately show "\<exists>k w'. lb_sendPackets a ds net = Some (k, w') \<and> 0 < k \<and> k \<le> int (length ds) \<and> lb_ready a b w' \<and>
      lb_queue b w' = lb_queue b net @ map letter (take (nat k) ds)"
    using ne by auto
qed

lemma lb_sendPackets_elsewhere:
  assumes "lb_ready a b net" "lb_ready a2 b2 net" "b \<noteq> b2" "lb_sendPackets a ds net = Some (k, net')"
  shows "lb_ready a2 b2 net' \<and> lb_queue b2 net' = lb_queue b2 net"
  using assms(1,4) deliver_batch_elsewhere [OF assms(3,2), of ds 0] by (auto simp: lb_sendPackets_def lb_ready_def)

text \<open>Two pairs with different receiving ends are the two legs of a session.\<close>

interpretation legs: transport_pair "lb_sendPackets a" "\<lambda>net. lb_ready a b net \<and> b \<noteq> b2" "lb_queue b"
    "lb_sendPackets a2" "\<lambda>net. lb_ready a2 b2 net \<and> b \<noteq> b2" "lb_queue b2" for a b a2 b2
proof
  fix net net' :: "'a net" and ds :: "'a datagram list" and k
  assume ne: "ds \<noteq> []" and d: "\<forall>d\<in>set ds. dg_data d \<noteq> []"
  show "\<exists>k w'. lb_sendPackets a ds net = Some (k, w') \<and> 0 < k \<and> k \<le> int (length ds) \<and> (lb_ready a b w' \<and> b \<noteq> b2) \<and>
      lb_queue b w' = lb_queue b net @ map letter (take (nat k) ds)" if "lb_ready a b net \<and> b \<noteq> b2"
    using loopback.takes_some [of a b net ds] that ne d by blast
  show "\<exists>k w'. lb_sendPackets a2 ds net = Some (k, w') \<and> 0 < k \<and> k \<le> int (length ds) \<and> (lb_ready a2 b2 w' \<and> b \<noteq> b2) \<and>
      lb_queue b2 w' = lb_queue b2 net @ map letter (take (nat k) ds)" if "lb_ready a2 b2 net \<and> b \<noteq> b2"
    using loopback.takes_some [of a2 b2 net ds] that ne d by blast
qed (use lb_sendPackets_elsewhere in metis)+

section \<open>Peers stay alive\<close>

text \<open>
  The calls a program makes. Pairing takes endpoints without a peer, or two that are each other's peer: pairing again over
  an old peer is treated below.
\<close>

definition lb_links :: "'a net \<Rightarrow> nat \<Rightarrow> nat option option" where
  "lb_links net a = map_option ep_peer (net a)"

inductive lb_reach :: "'a net \<Rightarrow> bool" where
  empty: "lb_reach (\<lambda>_. None)"
| create: "lb_reach net \<Longrightarrow> net a = None \<Longrightarrow> lb_reach (net(a \<mapsto> new_endpoint))"
| opened: "lb_reach net \<Longrightarrow> lb_open a net = Some (e, net') \<Longrightarrow> lb_reach net'"
| closed: "lb_reach net \<Longrightarrow> lb_close a net = Some net' \<Longrightarrow> lb_reach net'"
| paired: "lb_reach net \<Longrightarrow> lb_links net a \<in> {Some None, Some (Some b)} \<Longrightarrow> lb_links net b \<in> {Some None, Some (Some a)} \<Longrightarrow>
    lb_pair (Some a) (Some b) net = Some net' \<Longrightarrow> lb_reach net'"
| destroyed: "lb_reach net \<Longrightarrow> lb_destroy a net = Some net' \<Longrightarrow> lb_reach net'"
| sent_one: "lb_reach net \<Longrightarrow> lb_sendPacket a d dest net = Some (k, net') \<Longrightarrow> lb_reach net'"
| sent_many: "lb_reach net \<Longrightarrow> lb_sendPackets a ds net = Some (k, net') \<Longrightarrow> lb_reach net'"
| received: "lb_reach net \<Longrightarrow> lb_receivePacket a n net = Some (r, net') \<Longrightarrow> lb_reach net'"

definition wired :: "'a net \<Rightarrow> bool" where
  "wired net \<longleftrightarrow> (\<forall>a p. lb_links net a = Some (Some p) \<longrightarrow> lb_links net p = Some (Some a))"

lemma wiredD: "wired net \<Longrightarrow> lb_links net a = Some (Some p) \<Longrightarrow> lb_links net p = Some (Some a)"
  unfolding wired_def by blast

lemma wiredI: "(\<And>a p. lb_links net a = Some (Some p) \<Longrightarrow> lb_links net p = Some (Some a)) \<Longrightarrow> wired net"
  unfolding wired_def by blast

lemma wired_links: "lb_links net' = lb_links net \<Longrightarrow> wired net \<Longrightarrow> wired net'"
  unfolding wired_def by metis

lemma links_assign [simp]:
  "lb_links (net(a \<mapsto> y)) = (lb_links net)(a := Some (ep_peer y))" "lb_links (net(a := None)) = (lb_links net)(a := None)"
  by (rule ext; simp add: lb_links_def)+

lemma links_at: "net a = Some x \<Longrightarrow> lb_links net a = Some (ep_peer x)"
  by (simp add: lb_links_def)

lemma links_update: "net a = Some x \<Longrightarrow> ep_peer y = ep_peer x \<Longrightarrow> lb_links (net(a \<mapsto> y)) = lb_links net"
  by (simp add: fun_upd_idem links_at)

lemma links_deliver: "lb_links (lb_deliver b e net) = lb_links net"
  by (simp add: lb_deliver_def fun_upd_idem links_at split: option.splits)

lemma links_batch: "lb_links (snd (deliver_batch b ds k net)) = lb_links net"
  by (induction b ds k net rule: deliver_batch.induct) (simp_all add: links_deliver)

lemma links_kept:
  "lb_open a net = Some (e, net') \<Longrightarrow> lb_links net' = lb_links net"
  "lb_close a net = Some net' \<Longrightarrow> lb_links net' = lb_links net"
  "lb_sendPacket a d dest net = Some (k, net') \<Longrightarrow> lb_links net' = lb_links net"
  "lb_sendPackets a ds net = Some (k, net') \<Longrightarrow> lb_links net' = lb_links net"
  "lb_receivePacket a n net = Some (r, net') \<Longrightarrow> lb_links net' = lb_links net"
proof -
  show "lb_open a net = Some (e, net') \<Longrightarrow> lb_links net' = lb_links net"
    by (auto simp: lb_open_def intro: links_update split: option.splits if_splits)
  show "lb_close a net = Some net' \<Longrightarrow> lb_links net' = lb_links net"
    by (auto simp: lb_close_def intro: links_update split: option.splits if_splits)
  show "lb_sendPacket a d dest net = Some (k, net') \<Longrightarrow> lb_links net' = lb_links net"
    by (auto simp: lb_sendPacket_def links_deliver split: option.splits)
  show "lb_sendPackets a ds net = Some (k, net') \<Longrightarrow> lb_links net' = lb_links net"
    by (auto simp: lb_sendPackets_def split: option.splits dest!: arg_cong [where f = "\<lambda>r. lb_links (snd r)"] simp: links_batch)
  show "lb_receivePacket a n net = Some (r, net') \<Longrightarrow> lb_links net' = lb_links net"
    by (auto simp: lb_receivePacket_def intro: links_update split: option.splits if_splits list.splits)
qed

lemma wired_pair:
  assumes "wired net" "lb_links net a \<in> {Some None, Some (Some b)}" "lb_links net b \<in> {Some None, Some (Some a)}"
    "lb_pair (Some a) (Some b) net = Some net'"
  shows "wired net'"
proof -
  have "lb_links net' = (lb_links net)(a := Some (Some b), b := Some (Some a))"
    using assms(4) by (auto simp: lb_pair_def Let_def simp del: fun_upd_apply split: option.splits)
  then show ?thesis using assms(2,3) by (intro wiredI) (auto split: if_splits dest: wiredD [OF assms(1)])
qed

lemma wired_destroy:
  assumes "wired net" "lb_destroy a net = Some net'"
  shows "wired net'"
proof -
  obtain net1 where n: "lb_close a net = Some net1"
    using assms(2) by (auto simp: lb_destroy_def split: option.splits)
  have w: "wired net1" using wired_links [OF links_kept(2) [OF n] assms(1)] .
  obtain x where x: "net1 a = Some x" using assms(2) n by (auto simp: lb_destroy_def split: option.splits)
  show ?thesis
  proof (cases "ep_peer x")
    case None
    then have "net' = net1(a := None)" using assms(2) n x by (simp add: lb_destroy_def)
    moreover have "lb_links net1 a = Some None" using x None by (simp add: links_at)
    ultimately show ?thesis by (intro wiredI) (auto split: if_splits dest: wiredD [OF w])
  next
    case (Some p)
    have p: "lb_links net1 p = Some (Some a)" by (rule wiredD [OF w]) (simp add: links_at [where net = net1 and a = a and x = x] x Some)
    then obtain y where y: "net1 p = Some y" "ep_peer y = Some a" by (auto simp: lb_links_def)
    have "net' = net1(p \<mapsto> y\<lparr>ep_peer := None\<rparr>, a := None)" using assms(2) n x y Some by (simp add: lb_destroy_def)
    then have "lb_links net' = (lb_links net1)(p := Some None, a := None)" by simp
    moreover have "lb_links net1 a = Some (Some p)" using x Some by (simp add: links_at)
    ultimately show ?thesis unfolding wired_def using p by (auto split: if_splits dest: wiredD [OF w])
  qed
qed

lemma wired_reach: "lb_reach net \<Longrightarrow> wired net"
proof (induction rule: lb_reach.induct)
  case (create net a)
  have none: "lb_links net a = None" using create.hyps by (simp add: lb_links_def)
  have at: "lb_links (net(a \<mapsto> new_endpoint)) = (lb_links net)(a := Some None)" by (simp add: new_endpoint_def)
  show ?case unfolding wired_def at using none by (auto dest: wiredD [OF create.IH])
next
  case empty
  then show ?case by (simp add: wired_def lb_links_def)
next
  case (paired net a b net')
  then show ?case by (blast intro: wired_pair)
next
  case (destroyed net a net')
  then show ?case by (blast intro: wired_destroy)
qed (blast intro: wired_links links_kept)+

text \<open>C17: Endpoints that are paired only when free never see a dead peer: after any calls, creations, destructions and
  transfers, the peer of every live endpoint is alive and points back, and every call on a live endpoint has a result;
  destroying one leaves its peer without a peer.\<close>

theorem loopback_never_dangles:
  assumes "lb_reach net" "net a = Some x"
  shows "(\<forall>p. ep_peer x = Some p \<longrightarrow> (\<exists>y. net p = Some y \<and> ep_peer y = Some a)) \<and>
    (\<exists>r. lb_sendPacket a d dest net = Some r) \<and> (\<exists>r. lb_sendPackets a ds net = Some r) \<and>
    (\<exists>r. lb_receivePacket a n net = Some r) \<and> (\<exists>r. lb_open a net = Some r) \<and> (\<exists>r. lb_close a net = Some r) \<and>
    (\<exists>net'. lb_destroy a net = Some net' \<and> net' a = None \<and>
      (\<forall>p. ep_peer x = Some p \<and> p \<noteq> a \<longrightarrow> (\<exists>y. net' p = Some y \<and> ep_peer y = None)))"
proof -
  have peer: "\<exists>y. net p = Some y \<and> ep_peer y = Some a" if "ep_peer x = Some p" for p
  proof -
    have "lb_links net p = Some (Some a)" by (rule wiredD [OF wired_reach [OF assms(1)]]) (simp add: lb_links_def assms(2) that)
    then show ?thesis by (auto simp: lb_links_def)
  qed
  have route: "\<exists>r. lb_route a net = Some r"
    using peer assms(2) by (fastforce simp: lb_route_def split: option.splits)
  have close: "\<exists>net1. lb_close a net = Some net1 \<and> net1 a = Some (x\<lparr>ep_open := False, ep_queue := q\<rparr>) \<and>
      (\<forall>p. p \<noteq> a \<longrightarrow> net1 p = net p)" if "q = (if ep_open x then [] else ep_queue x)" for q
    using assms(2) that by (auto simp: lb_close_def)
  from close [OF refl] obtain net1 where n: "lb_close a net = Some net1"
    "net1 a = Some (x\<lparr>ep_open := False, ep_queue := if ep_open x then [] else ep_queue x\<rparr>)"
    "\<And>p. p \<noteq> a \<Longrightarrow> net1 p = net p" by blast
  have "\<exists>net'. lb_destroy a net = Some net' \<and> net' a = None \<and>
      (\<forall>p. ep_peer x = Some p \<and> p \<noteq> a \<longrightarrow> (\<exists>y. net' p = Some y \<and> ep_peer y = None))"
  proof (cases "ep_peer x")
    case None
    then show ?thesis using n by (simp add: lb_destroy_def)
  next
    case (Some p)
    from peer [OF this] obtain y where y: "net p = Some y" "ep_peer y = Some a" by blast
    show ?thesis using n Some y by (cases "p = a") (simp_all add: lb_destroy_def)
  qed
  then show ?thesis
    using peer route assms(2)
    by (auto simp: lb_sendPacket_def lb_sendPackets_def lb_receivePacket_def lb_open_def lb_close_def split: option.splits list.splits)
qed

text \<open>Pairing over an old peer leaves the old peer's address behind: once the new pair is taken down, it is dead.\<close>

lemma repaired_peer_dangles:
  assumes "net a = Some new_endpoint" "net b = Some new_endpoint" "net c = Some new_endpoint" "a \<noteq> b" "a \<noteq> c" "b \<noteq> c"
    "lb_pair (Some a) (Some b) net = Some net1" "lb_pair (Some c) (Some b) net1 = Some net2" "lb_destroy b net2 = Some net3"
  shows "lb_destroy a net3 = None \<and> (\<exists>x. net3 a = Some x \<and> ep_peer x = Some b) \<and> net3 b = None"
proof -
  have "net2 = net(a \<mapsto> new_endpoint\<lparr>ep_peer := Some b\<rparr>, c \<mapsto> new_endpoint\<lparr>ep_peer := Some b\<rparr>, b \<mapsto> new_endpoint\<lparr>ep_peer := Some c\<rparr>)"
    using assms(1-8) by (auto simp: lb_pair_def Let_def new_endpoint_def)
  then have "net3 = net2(c \<mapsto> new_endpoint, b := None)" "net2 a = Some (new_endpoint\<lparr>ep_peer := Some b\<rparr>)"
    using assms(4-6,9) by (auto simp: lb_destroy_def lb_close_def new_endpoint_def)
  then show ?thesis using assms(4-6) by (simp add: lb_destroy_def lb_close_def new_endpoint_def)
qed

theorem loopback_never_dangles_witness:
  "\<exists>net'. lb_destroy 0 [0 \<mapsto> (new_endpoint :: nat endpoint)\<lparr>ep_peer := Some 1\<rparr>, 1 \<mapsto> new_endpoint\<lparr>ep_peer := Some 0\<rparr>] = Some net' \<and>
     net' 0 = None \<and> (\<exists>y. net' 1 = Some y \<and> ep_peer y = None)"
proof -
  let ?one = "(\<lambda>_. None)(0 \<mapsto> new_endpoint :: nat endpoint) :: nat net"
  let ?two = "?one(1 \<mapsto> new_endpoint)"
  let ?net = "[0 \<mapsto> (new_endpoint :: nat endpoint)\<lparr>ep_peer := Some 1\<rparr>, 1 \<mapsto> new_endpoint\<lparr>ep_peer := Some 0\<rparr>] :: nat net"
  have two: "lb_reach ?two" by (intro lb_reach.create lb_reach.empty) simp_all
  have "lb_pair (Some 0) (Some 1) ?two = Some ?net" by (auto simp: lb_pair_def Let_def fun_eq_iff)
  then have "lb_reach ?net" using two by (rule_tac lb_reach.paired [where a = 0 and b = 1]) (simp_all add: lb_links_def new_endpoint_def)
  from loopback_never_dangles [OF this, of 0 _ "[]" 0 "[]" 0] show ?thesis by fastforce
qed

end
