(* ===== verification/RtpSession.thy ===== *)
theory RtpSession
  imports RtpPayload Rtcp PacketTransport
begin

text \<open>
  The sending side of \<open>src/network/rtpsession.cpp\<close> and its RTCP exchange, with the stamping of a batch by the video
  sender of \<open>src/proav/rtpmediaio.cpp\<close>, and the receive thread's loop over a transport. The transports and the
  schedulers are arguments, acting on one state of the world; clock readings are arguments. The packets of a batch do not
  overlap in memory.
\<close>

unbundle bit_operations_syntax

section \<open>The session\<close>

record received_sr =
  rs_ntp :: ntp_time
  rs_rtpTs :: u32
  rs_arrivedAt :: int
  rs_valid :: bool

record 'a session =
  s_running :: bool
  s_transport :: bool
  s_transportSecondary :: bool
  s_remote :: "'a option"
  s_remoteSecondary :: "'a option"
  s_ssrc :: u32
  s_sequenceNumber :: u16
  s_payloadType :: byte
  s_clockRate :: u32
  s_anchorNtp :: ntp_time
  s_anchorRtpTs :: u32
  s_lastEmissionRtpTs :: u32
  s_hasEmission :: bool
  s_cname :: str
  s_lastReceivedSr :: received_sr
  s_srObservedCount :: u32
  s_firstSrAt :: "int option"

text \<open>A fresh session; the source is random and the name is set later.\<close>

definition new_session :: "u32 \<Rightarrow> str \<Rightarrow> 'a session" where
  "new_session random name =
     \<lparr>s_running = False, s_transport = False, s_transportSecondary = False, s_remote = None, s_remoteSecondary = None,
      s_ssrc = random, s_sequenceNumber = 0, s_payloadType = 96, s_clockRate = 90000, s_anchorNtp = ntp_zero,
      s_anchorRtpTs = 0, s_lastEmissionRtpTs = 0, s_hasEmission = False, s_cname = name,
      s_lastReceivedSr = \<lparr>rs_ntp = ntp_zero, rs_rtpTs = 0, rs_arrivedAt = 0, rs_valid = False\<rparr>, s_srObservedCount = 0,
      s_firstSrAt = None\<rparr>"

text \<open>Starting over given transports: each is open, closed or missing.\<close>

definition session_start :: "bool option \<Rightarrow> bool option \<Rightarrow> 'a session \<Rightarrow> error \<times> 'a session" where
  "session_start primary secondary s =
     (if s_running s then (Busy, s)
      else if primary = None then (InvalidArgument, s)
      else if primary = Some False then (NotOpen, s)
      else if secondary = Some False then (NotOpen, s)
      else (Ok, s\<lparr>s_transport := True, s_transportSecondary := (secondary \<noteq> None), s_running := True\<rparr>))"

text \<open>Stopping; the receive threads and the schedulers are beside the session.\<close>

definition session_stop :: "'a session \<Rightarrow> 'a session" where
  "session_stop s =
     (if \<not> s_running s then s else s\<lparr>s_transport := False, s_transportSecondary := False, s_running := False\<rparr>)"

section \<open>Sending\<close>

definition fillHeader :: "byte \<Rightarrow> bool \<Rightarrow> u32 \<Rightarrow> byte list \<Rightarrow> 'a session \<Rightarrow> byte list \<times> 'a session" where
  "fillHeader pt m ts p s =
     (setSsrc (s_ssrc s) (setTimestamp ts (setSequenceNumber (s_sequenceNumber s) (setPayloadType pt (setMarker m (setVersion 2 p))))),
      s\<lparr>s_sequenceNumber := s_sequenceNumber s + 1\<rparr>)"

definition fillTransportHeader :: "byte list \<Rightarrow> 'a session \<Rightarrow> byte list \<times> 'a session" where
  "fillTransportHeader p s =
     (setSsrc (s_ssrc s) (setSequenceNumber (s_sequenceNumber s) (setPayloadType (s_payloadType s) (setVersion 2 p))),
      s\<lparr>s_sequenceNumber := s_sequenceNumber s + 1\<rparr>)"

text \<open>One packet. The send of a single datagram is another entry of the transport.\<close>

definition session_sendPacket ::
  "(byte list \<Rightarrow> 'a \<Rightarrow> 'w \<Rightarrow> (int \<times> 'w) option) \<Rightarrow> byte list \<Rightarrow> u32 \<Rightarrow> byte \<Rightarrow> bool \<Rightarrow> 'a session \<Rightarrow> 'w \<Rightarrow>
    (error \<times> 'a session \<times> 'w) option" where
  "session_sendPacket xmit1 pl ts pt m s w =
     (if \<not> s_running s \<or> \<not> s_transport s then Some (NotOpen, s, w)
      else case s_remote s of
          None \<Rightarrow> Some (InvalidArgument, s, w)
        | Some remote \<Rightarrow>
            (case fillHeader pt m ts (new_rtp HeaderSize @ pl) s of
              (p, s') \<Rightarrow>
                (case xmit1 p remote w of
                  None \<Rightarrow> None
                | Some (k, w') \<Rightarrow> Some (if k < 0 then IOError else Ok, s', w'))))"

record batch =
  b_packets :: "byte list list"
  b_markerOnLast :: bool
  b_rateCapBps :: u64
  b_deadlineTaiNs :: u64
  b_deadlineStrideNs :: u64

text \<open>The sender thread stamps time and marker; a marker set by the packer stays.\<close>

fun stamp_batch :: "u32 \<Rightarrow> bool \<Rightarrow> byte list list \<Rightarrow> byte list list" where
  "stamp_batch ts markLast [] = []"
| "stamp_batch ts markLast (p # ps) =
     (let p = setTimestamp ts p in setMarker (marker p \<or> (ps = [] \<and> markLast)) p) # stamp_batch ts markLast ps"

text \<open>
  The packets filled in and their datagrams; what is too short for a header is passed over but counted in the deadlines.
\<close>

fun fill_batch :: "'a \<Rightarrow> u64 \<Rightarrow> u64 \<Rightarrow> nat \<Rightarrow> byte list list \<Rightarrow> 'a session \<Rightarrow>
    byte list list \<times> 'a datagram list \<times> 'a session" where
  "fill_batch remote deadline stride i [] s = ([], [], s)"
| "fill_batch remote deadline stride i (p # ps) s =
     (if length p < HeaderSize then
        case fill_batch remote deadline stride (Suc i) ps s of (qs, ds, s') \<Rightarrow> (p # qs, ds, s')
      else case fillTransportHeader p s of
          (q, s1) \<Rightarrow>
            let d = \<lparr>dg_data = q, dg_dest = remote,
                  dg_txTime = if deadline \<noteq> 0 then deadline + of_nat i * stride else 0\<rparr> in
            case fill_batch remote deadline stride (Suc i) ps s1 of (qs, ds, s') \<Rightarrow> (q # qs, d # ds, s'))"

text \<open>A leg: its scheduler, if it has one, and its transport.\<close>

record ('a, 'w) scheduler =
  sc_enqueue :: "('a, 'w) xmit"
  sc_setRate :: "u64 \<Rightarrow> 'w \<Rightarrow> 'w"

record ('a, 'w) leg =
  leg_scheduler :: "('a, 'w) scheduler option"
  leg_xmit :: "('a, 'w) xmit"

definition cap_rate :: "u64 \<Rightarrow> ('a, 'w) leg \<Rightarrow> 'w \<Rightarrow> 'w" where
  "cap_rate bps l w =
     (case leg_scheduler l of Some sc \<Rightarrow> if 0 < bps then sc_setRate sc (bps div 8) w else w | None \<Rightarrow> w)"

definition dispatchLeg :: "('a, 'w) leg \<Rightarrow> 'a datagram list \<Rightarrow> 'w \<Rightarrow> (error \<times> 'w) option" where
  "dispatchLeg l ds w =
     (case leg_scheduler l of
        Some sc \<Rightarrow>
          (case sc_enqueue sc ds w of None \<Rightarrow> None | Some (accepted, w') \<Rightarrow> Some (if accepted < 0 then IOError else Ok, w'))
      | None \<Rightarrow>
          (case send_all (leg_xmit l) ds w of None \<Rightarrow> None | Some (all, w') \<Rightarrow> Some (if all then Ok else IOError, w')))"

definition session_sendPackets ::
  "('a, 'w) leg \<Rightarrow> ('a, 'w) leg \<Rightarrow> batch \<Rightarrow> 'a session \<Rightarrow> 'w \<Rightarrow> (error \<times> batch \<times> 'a session \<times> 'w) option" where
  "session_sendPackets l1 l2 b s w =
     (if \<not> s_running s \<or> \<not> s_transport s then Some (NotOpen, b, s, w)
      else case s_remote s of
          None \<Rightarrow> Some (InvalidArgument, b, s, w)
        | Some remote \<Rightarrow>
            if b_packets b = [] then Some (Ok, b, s, w)
            else let w = cap_rate (b_rateCapBps b) l1 w in
              (case fill_batch remote (b_deadlineTaiNs b) (b_deadlineStrideNs b) 0 (b_packets b) s of
                (qs, ds, s) \<Rightarrow>
                  let b = b\<lparr>b_packets := qs\<rparr> in
                  if ds = [] then Some (Ok, b, s, w)
                  else case dispatchLeg l1 ds w of
                      None \<Rightarrow> None
                    | Some (e, w) \<Rightarrow>
                        if e \<noteq> Ok then Some (e, b, s, w)
                        else case (if s_transportSecondary s then s_remoteSecondary s else None) of
                            None \<Rightarrow> Some (Ok, b, s, w)
                          | Some remote2 \<Rightarrow>
                              let w = cap_rate (b_rateCapBps b) l2 w in
                              (case dispatchLeg l2 (map (\<lambda>d. d\<lparr>dg_dest := remote2\<rparr>) ds) w of
                                None \<Rightarrow> None
                              | Some (_, w) \<Rightarrow> Some (Ok, b, s, w))))"

section \<open>Sender and receiver reports\<close>

definition setRtpAnchor :: "ntp_time \<Rightarrow> u32 \<Rightarrow> 'a session \<Rightarrow> 'a session" where
  "setRtpAnchor ntp ts s = s\<lparr>s_anchorNtp := ntp, s_anchorRtpTs := ts\<rparr>"

text \<open>With the time of a clock domain in nanoseconds since 1970, or the system clock's when it has none.\<close>

definition setRtpAnchor_domain :: "int \<Rightarrow> int \<Rightarrow> u32 \<Rightarrow> 'a session \<Rightarrow> 'a session" where
  "setRtpAnchor_domain utcNs system ts s = setRtpAnchor (fromSystemClock (if 0 < utcNs then utcNs else system)) ts s"

definition noteRtpEmission :: "u32 \<Rightarrow> 'a session \<Rightarrow> 'a session" where
  "noteRtpEmission ts s = s\<lparr>s_lastEmissionRtpTs := ts, s_hasEmission := True\<rparr>"

definition currentSrNtp :: "'a session \<Rightarrow> ntp_time" where
  "currentSrNtp s =
     (if s_clockRate s = 0 then s_anchorNtp s
      else toNtp (new_clock (s_anchorNtp s) (s_anchorRtpTs s) (s_clockRate s)) (s_lastEmissionRtpTs s))"

text \<open>What the handler of a compound remembers, and the goodbyes it reports.\<close>

definition handleRtcp :: "int \<Rightarrow> byte list \<Rightarrow> 'a session \<Rightarrow> u32 list \<times> 'a session" where
  "handleRtcp now d s =
     (let srs = findSenderReports d;
          s = (if srs = [] then s
               else s\<lparr>s_lastReceivedSr := \<lparr>rs_ntp = sr_ntp (last srs), rs_rtpTs = sr_rtpTimestamp (last srs), rs_arrivedAt = now,
                        rs_valid = True\<rparr>,
                      s_srObservedCount := s_srObservedCount s + of_nat (length srs),
                      s_firstSrAt := (case s_firstSrAt s of None \<Rightarrow> Some now | f \<Rightarrow> f)\<rparr>)
      in (findByeSources d, s))"

definition sr_compound :: "u32 \<Rightarrow> u32 \<Rightarrow> 'a session \<Rightarrow> byte list" where
  "sr_compound packets octets s =
     compound [buildSenderReport (s_ssrc s) (currentSrNtp s) (if s_hasEmission s then s_lastEmissionRtpTs s else 0) packets octets,
               buildSourceDescriptionCname (s_ssrc s) (s_cname s)]"

text \<open>The delay since the last report, in nanoseconds, as the code scales it: a product in 64 bits, divided.\<close>

definition dlsr_of :: "int \<Rightarrow> u32" where
  "dlsr_of deltaNs = ucast ((word_of_int (max 0 deltaNs) * 65536 div 1000000000 :: u64) AND 0xFFFFFFFF)"

definition rr_compound :: "int \<Rightarrow> report_block \<Rightarrow> 'a session \<Rightarrow> byte list" where
  "rr_compound now block s =
     (let sr = s_lastReceivedSr s;
          b = (if rs_valid sr then block\<lparr>lsr := toCompact32 (rs_ntp sr), dlsr := dlsr_of (now - rs_arrivedAt sr)\<rparr> else block)
      in compound [buildReceiverReport (s_ssrc s) [b], buildSourceDescriptionCname (s_ssrc s) (s_cname s)])"

definition bye_compound :: "'a session \<Rightarrow> byte list" where
  "bye_compound s =
     compound [buildReceiverReport (s_ssrc s) [], buildSourceDescriptionCname (s_ssrc s) (s_cname s), buildBye (s_ssrc s)]"

text \<open>A compound is sent past the scheduler, as one datagram.\<close>

definition emit_compound :: "('a, 'w) xmit \<Rightarrow> ('a session \<Rightarrow> byte list) \<Rightarrow> 'a session \<Rightarrow> 'w \<Rightarrow> (error \<times> 'w) option" where
  "emit_compound xmit build s w =
     (if \<not> s_running s \<or> \<not> s_transport s then Some (NotOpen, w)
      else case s_remote s of
          None \<Rightarrow> Some (InvalidArgument, w)
        | Some remote \<Rightarrow>
            (case xmit [\<lparr>dg_data = build s, dg_dest = remote, dg_txTime = 0\<rparr>] w of
              None \<Rightarrow> None
            | Some (k, w') \<Rightarrow> Some (if k \<le> 0 then IOError else Ok, w')))"

definition emitRtcpSr :: "('a, 'w) xmit \<Rightarrow> u32 \<Rightarrow> u32 \<Rightarrow> 'a session \<Rightarrow> 'w \<Rightarrow> (error \<times> 'w) option" where
  "emitRtcpSr xmit packets octets = emit_compound xmit (sr_compound packets octets)"

definition emitRtcpRr :: "('a, 'w) xmit \<Rightarrow> int \<Rightarrow> report_block \<Rightarrow> 'a session \<Rightarrow> 'w \<Rightarrow> (error \<times> 'w) option" where
  "emitRtcpRr xmit now block = emit_compound xmit (rr_compound now block)"

definition emitRtcpBye :: "('a, 'w) xmit \<Rightarrow> 'a session \<Rightarrow> 'w \<Rightarrow> (error \<times> 'w) option" where
  "emitRtcpBye xmit = emit_compound xmit bye_compound"

section \<open>The receive thread\<close>

definition kMaxPacketSize :: nat where "kMaxPacketSize = 2048"

text \<open>
  The loop over a transport for as long as it has something: what arrived, cut to the buffer, goes to RTCP or the
  receivers. An empty datagram is passed over.
\<close>

record 'a receiving =
  rc_session :: "'a session"
  rc_receivers :: "receiver list"
  rc_byes :: "u32 list"

definition receive_one :: "int \<Rightarrow> int \<Rightarrow> byte list \<Rightarrow> 'a receiving \<Rightarrow> 'a receiving" where
  "receive_one arrival now d r =
     (if d = [] then r
      else case receive_datagram arrival now d (rc_receivers r) of
          (ToRtcp, _) \<Rightarrow>
            (case handleRtcp now d (rc_session r) of (byes, s) \<Rightarrow> r\<lparr>rc_session := s, rc_byes := rc_byes r @ byes\<rparr>)
        | (_, rs) \<Rightarrow> r\<lparr>rc_receivers := rs\<rparr>)"

fun receive_loop :: "(nat \<Rightarrow> 'w \<Rightarrow> ((byte list \<times> 'b) option \<times> 'w) option) \<Rightarrow> (int \<times> int) list \<Rightarrow> 'a receiving \<Rightarrow> 'w \<Rightarrow>
    ('a receiving \<times> 'w) option" where
  "receive_loop recv [] r w = Some (r, w)"
| "receive_loop recv ((arrival, now) # clocks) r w =
     (case recv kMaxPacketSize w of
        None \<Rightarrow> None
      | Some (None, w') \<Rightarrow> receive_loop recv clocks r w'
      | Some (Some (d, sender), w') \<Rightarrow> receive_loop recv clocks (receive_one arrival now d r) w')"

section \<open>What a session puts on the wire\<close>

lemma stamp_fields:
  assumes "12 \<le> length p"
  shows "sequenceNumber (stamp pt m ts sq src p) = sq" "ssrc (stamp pt m ts sq src p) = src"
    "payloadType (stamp pt m ts sq src p) = pt AND 0x7F" "version (stamp pt m ts sq src p) = 2"
    "marker (stamp pt m ts sq src p) = m" "timestamp (stamp pt m ts sq src p) = ts"
proof -
  have p: "p \<noteq> []" using assms by auto
  define q where "q = setVersion 2 (setTimestamp ts (setMarker m p))"
  define r where "r = setPayloadType pt q"
  have len: "12 \<le> length q" "12 \<le> length r"
    using assms by (simp_all add: q_def r_def setVersion_def setTimestamp_def setMarker_def setPayloadType_def)
  have s: "stamp pt m ts sq src p = setSsrc src (setSequenceNumber sq r)" by (simp add: stamp_def q_def r_def)
  show "ssrc (stamp pt m ts sq src p) = src" unfolding s using len(2) by (intro rtp_fields_read_back(6)) (simp add: setSequenceNumber_def)
  have "sequenceNumber (setSsrc src d) = sequenceNumber d" "payloadType (setSsrc src d) = payloadType d"
    "marker (setSsrc src d) = marker d" "timestamp (setSsrc src d) = timestamp d"
    "payloadType (setSequenceNumber sq d) = payloadType d"
    "marker (setSequenceNumber sq d) = marker d" "timestamp (setSequenceNumber sq d) = timestamp d" for d
    by (simp_all add: sequenceNumber_def setSsrc_def payloadType_def marker_def timestamp_def setSequenceNumber_def)
  note other = this
  show "sequenceNumber (stamp pt m ts sq src p) = sq" unfolding s other using len(2) by (rule rtp_fields_read_back(4))
  show "payloadType (stamp pt m ts sq src p) = pt AND 0x7F" unfolding s other r_def using len(1) by (rule rtp_fields_read_back(3))
  show "timestamp (stamp pt m ts sq src p) = ts"
  proof -
    have "timestamp r = timestamp (setTimestamp ts (setMarker m p))"
      by (simp add: r_def q_def timestamp_def setPayloadType_def setVersion_def)
    then show ?thesis unfolding s other using assms by (simp add: rtp_fields_read_back(5) setMarker_def)
  qed
  show "marker (stamp pt m ts sq src p) = m"
  proof -
    have "marker r = marker q"
      using len(1) by (simp add: r_def marker_def setPayloadType_def bit_simps byte_bits)
    moreover have "marker q = marker (setMarker m p)" by (simp add: q_def marker_def setTimestamp_def setVersion_def)
    ultimately show ?thesis unfolding s other using assms by (simp add: rtp_fields_read_back(2))
  qed
  have "stamp pt m ts sq src p ! 0 = q ! 0" using p
    by (simp add: stamp_def q_def setSsrc_def setSequenceNumber_def setPayloadType_def)
  then have "version (stamp pt m ts sq src p) = version q" by (simp add: version_def)
  also have "\<dots> = 2"
    unfolding q_def using rtp_fields_read_back(1) [of "setTimestamp ts (setMarker m p)" 2] assms
    by (simp add: setTimestamp_def setMarker_def)
  finally show "version (stamp pt m ts sq src p) = 2" .
qed

text \<open>The two ways the session fills a header are the stamp.\<close>

lemma fillHeader_stamp:
  "fillHeader pt m ts p s = (stamp pt m ts (s_sequenceNumber s) (s_ssrc s) p, s\<lparr>s_sequenceNumber := s_sequenceNumber s + 1\<rparr>)"
proof -
  have "setMarker m (setVersion 2 d) = setVersion 2 (setMarker m d)" "setTimestamp ts (setVersion 2 d) = setVersion 2 (setTimestamp ts d)"
    "setTimestamp ts (setPayloadType pt d) = setPayloadType pt (setTimestamp ts d)"
    "setTimestamp ts (setSequenceNumber sq d) = setSequenceNumber sq (setTimestamp ts d)" for d sq
    by (simp_all add: setTimestamp_def setSequenceNumber_def setPayloadType_def setMarker_def setVersion_def list_update_swap)
  then show ?thesis by (simp add: fillHeader_def stamp_def)
qed

lemma fillTransportHeader_stamp:
  assumes "12 \<le> length p"
  shows "fillTransportHeader (setMarker m (setTimestamp ts p)) s =
    (stamp (s_payloadType s) m ts (s_sequenceNumber s) (s_ssrc s) p, s\<lparr>s_sequenceNumber := s_sequenceNumber s + 1\<rparr>)"
proof -
  have "setMarker m (setTimestamp ts p) = setTimestamp ts (setMarker m p)"
    by (simp add: setMarker_def setTimestamp_def list_update_swap)
  then show ?thesis by (simp add: fillTransportHeader_def stamp_def)
qed

text \<open>A packet filled in keeps its time, its marker and all behind the header.\<close>

lemma restamp: "setMarker (marker p) (setTimestamp (timestamp p) p) = p"
proof -
  have "(p ! 1 AND 0x7F) OR (if drop_bit 7 (p ! 1) AND 0x01 \<noteq> 0 then 0x80 else 0) = p ! 1"
    by (rule bit_byte_eqI; simp add: bit_simps byte_bits)
  then have "setMarker (marker p) p = p" by (simp add: setMarker_def marker_def)
  moreover have "setTimestamp (timestamp p) p = p"
  proof -
    have "(ucast (drop_bit 24 (rd32 a b c d)) :: byte) = a" "(ucast (drop_bit 16 (rd32 a b c d)) :: byte) = b"
      "(ucast (drop_bit 8 (rd32 a b c d)) :: byte) = c" "(ucast (rd32 a b c d) :: byte) = d" for a b c d
      by (rule bit_word_eqI; force simp: rd32_def bit_simps)+
    then show ?thesis by (simp add: setTimestamp_def timestamp_def)
  qed
  ultimately show ?thesis by simp
qed

lemma transport_header:
  assumes "12 \<le> length p"
  shows "fillTransportHeader p s =
    (stamp (s_payloadType s) (marker p) (timestamp p) (s_sequenceNumber s) (s_ssrc s) p, s\<lparr>s_sequenceNumber := s_sequenceNumber s + 1\<rparr>)"
  using fillTransportHeader_stamp [OF assms, of "marker p" "timestamp p" s] by (simp add: restamp)

text \<open>The packets of a batch as they leave: numbered on from the session's next number.\<close>

primrec numbered :: "'a session \<Rightarrow> u16 \<Rightarrow> byte list list \<Rightarrow> byte list list" where
  "numbered s k [] = []"
| "numbered s k (p # ps) = stamp (s_payloadType s) (marker p) (timestamp p) k (s_ssrc s) p # numbered s (k + 1) ps"

lemma length_numbered [simp]: "length (numbered s k ps) = length ps"
  by (induction ps arbitrary: k) simp_all

lemma numbered_nth:
  "j < length ps \<Longrightarrow> numbered s k ps ! j =
    stamp (s_payloadType s) (marker (ps ! j)) (timestamp (ps ! j)) (k + of_nat j) (s_ssrc s) (ps ! j)"
proof (induction ps arbitrary: j k)
  case (Cons p ps)
  then show ?case by (cases j) (simp_all add: algebra_simps)
qed simp

lemma numbered_numbers [simp]: "numbered (s\<lparr>s_sequenceNumber := n\<rparr>) k ps = numbered s k ps"
  by (induction ps arbitrary: k) simp_all

lemma letter_single: "letter \<lparr>dg_data = p, dg_dest = r, dg_txTime = t\<rparr> = (p, r)"
  by (simp add: letter_def)

lemma fill_batch_all:
  assumes "\<forall>p\<in>set ps. 12 \<le> length p"
  shows "\<exists>ds. fill_batch remote deadline stride i ps s =
      (numbered s (s_sequenceNumber s) ps, ds, s\<lparr>s_sequenceNumber := s_sequenceNumber s + of_nat (length ps)\<rparr>) \<and>
    map letter ds = map (\<lambda>p. (p, remote)) (numbered s (s_sequenceNumber s) ps) \<and>
    map dg_txTime ds = map (\<lambda>j. if deadline \<noteq> 0 then deadline + of_nat j * stride else 0) [i..<i + length ps]"
  using assms
proof (induction ps arbitrary: i s)
  case (Cons p ps)
  have p: "12 \<le> length p" using Cons.prems by simp
  let ?s = "s\<lparr>s_sequenceNumber := s_sequenceNumber s + 1\<rparr>"
  from Cons.IH [of "Suc i" ?s] Cons.prems obtain ds where
    d: "fill_batch remote deadline stride (Suc i) ps ?s =
      (numbered s (s_sequenceNumber s + 1) ps, ds, s\<lparr>s_sequenceNumber := s_sequenceNumber s + 1 + of_nat (length ps)\<rparr>)"
    "map letter ds = map (\<lambda>p. (p, remote)) (numbered s (s_sequenceNumber s + 1) ps)"
    "map dg_txTime ds = map (\<lambda>j. if deadline \<noteq> 0 then deadline + of_nat j * stride else 0) [Suc i..<Suc i + length ps]"
    by auto
  have "[i..<i + length (p # ps)] = i # [Suc i..<Suc i + length ps]" by (simp add: upt_conv_Cons del: upt_Suc)
  then show ?case using p d by (simp add: transport_header HeaderSize_def Let_def letter_single algebra_simps del: upt_Suc)
qed simp

lemma letters_redirected: "map letter (map (\<lambda>d. d\<lparr>dg_dest := r\<rparr>) ds) = map (\<lambda>e. (fst e, r)) (map letter ds)"
  by (simp add: letter_def)

definition plain_leg :: "('a, 'w) xmit \<Rightarrow> ('a, 'w) leg" where
  "plain_leg xmit = \<lparr>leg_scheduler = None, leg_xmit = xmit\<rparr>"

definition burst_leg :: "('a, 'w) xmit \<Rightarrow> ('a, 'w) leg" where
  "burst_leg xmit = \<lparr>leg_scheduler = Some \<lparr>sc_enqueue = burst_enqueue (Some xmit), sc_setRate = \<lambda>_ w. w\<rparr>, leg_xmit = xmit\<rparr>"

lemma burst_length: "length ds < 2 ^ 31 \<Longrightarrow> sint (of_nat (length ds) :: u32) = int (length ds)"
  by (simp add: signed_of_nat signed_take_bit_int_eq_self)

lemma dispatch_all:
  assumes "send_all xmit ds w = Some (True, w')" "ds \<noteq> []" "length ds < 2 ^ 31" "l \<in> {plain_leg xmit, burst_leg xmit}"
  shows "dispatchLeg l ds w = Some (Ok, w')" "cap_rate bps l w = w"
  using assms burst_length [OF assms(3)]
  by (auto simp: dispatchLeg_def cap_rate_def plain_leg_def burst_leg_def burst_enqueue_def)

context packet_transport
begin

lemma leg_sends:
  assumes "ready w" "\<forall>d\<in>set ds. dg_data d \<noteq> []" "ds \<noteq> []" "length ds < 2 ^ 31" "l \<in> {plain_leg xmit, burst_leg xmit}"
  shows "\<exists>w'. dispatchLeg l ds w = Some (Ok, w') \<and> ready w' \<and> sent w' = sent w @ map letter ds"
  using sends_all [OF assms(1,2)] dispatch_all [OF _ assms(3-5)] by metis

end

context transport_pair
begin

lemma leg_sends_beside:
  assumes "ready w" "ready2 w" "\<forall>d\<in>set ds. dg_data d \<noteq> []" "ds \<noteq> []" "length ds < 2 ^ 31" "l \<in> {plain_leg xmit, burst_leg xmit}"
  shows "\<exists>w'. dispatchLeg l ds w = Some (Ok, w') \<and> ready w' \<and> ready2 w' \<and> sent w' = sent w @ map letter ds \<and> sent2 w' = sent2 w"
  using pair_sends_all [OF assms(1-3)] dispatch_all [OF _ assms(4-6)] by metis

end

text \<open>What both fill and send need of the packets that leave.\<close>

lemma numbered_nonempty: "\<forall>p\<in>set ps. 12 \<le> length p \<Longrightarrow> p \<in> set (numbered s k ps) \<Longrightarrow> 12 \<le> length p"
  by (induction ps arbitrary: k) (auto simp: stamp_parts(1))

lemma filled_data:
  assumes "\<forall>p\<in>set ps. 12 \<le> length p" "map letter ds = map (\<lambda>p. (p, remote)) (numbered s k ps)"
  shows "\<forall>d\<in>set ds. dg_data d \<noteq> []" "length ds = length ps" "\<forall>d\<in>set (map (\<lambda>d. d\<lparr>dg_dest := r\<rparr>) ds). dg_data d \<noteq> []"
proof -
  have "map dg_data ds = map fst (map letter ds)" by (simp add: letter_def)
  then have d: "map dg_data ds = numbered s k ps" using assms(2) by (simp add: comp_def)
  show ne: "\<forall>d\<in>set ds. dg_data d \<noteq> []"
  proof
    fix d assume "d \<in> set ds"
    then have "dg_data d \<in> set (numbered s k ps)" unfolding d [symmetric] by simp
    then show "dg_data d \<noteq> []" using numbered_nonempty [OF assms(1)] by fastforce
  qed
  show "\<forall>d\<in>set (map (\<lambda>d. d\<lparr>dg_dest := r\<rparr>) ds). dg_data d \<noteq> []" using ne by auto
  show "length ds = length ps" using d length_numbered [of s k ps] by (metis length_map)
qed

text \<open>C10: A running session with two legs sends every packet of a batch over both, in order: with or without the burst
  scheduler, the peer of each leg receives the same bytes, addressed to the leg's destination; the packets are numbered
  on from the session's counter, wrapping at 16 bits, carry its source and payload type, and keep time, marker and payload.\<close>

theorem both_legs_carry_the_batch:
  fixes s :: "'a session"
  assumes "s_running s" "s_transport s" "s_remote s = Some d1" "s_transportSecondary s" "s_remoteSecondary s = Some d2"
    "lb_ready a1 b1 net" "lb_ready a2 b2 net" "b1 \<noteq> b2"
    "l1 \<in> {plain_leg (lb_sendPackets a1), burst_leg (lb_sendPackets a1)}"
    "l2 \<in> {plain_leg (lb_sendPackets a2), burst_leg (lb_sendPackets a2)}"
    "b_packets b \<noteq> []" "\<forall>p\<in>set (b_packets b). 12 \<le> length p" "length (b_packets b) < 2 ^ 31"
  shows "\<exists>ps net'. session_sendPackets l1 l2 b s net =
        Some (Ok, b\<lparr>b_packets := ps\<rparr>, s\<lparr>s_sequenceNumber := s_sequenceNumber s + of_nat (length ps)\<rparr>, net') \<and>
      lb_queue b1 net' = lb_queue b1 net @ map (\<lambda>p. (p, d1)) ps \<and>
      lb_queue b2 net' = lb_queue b2 net @ map (\<lambda>p. (p, d2)) ps \<and> length ps = length (b_packets b) \<and>
      (\<forall>j<length ps. let p = b_packets b ! j in sequenceNumber (ps ! j) = s_sequenceNumber s + of_nat j \<and>
        ssrc (ps ! j) = s_ssrc s \<and> payloadType (ps ! j) = s_payloadType s AND 0x7F \<and> marker (ps ! j) = marker p \<and>
        timestamp (ps ! j) = timestamp p \<and> drop 12 (ps ! j) = drop 12 p)"
proof -
  define ps where "ps = numbered s (s_sequenceNumber s) (b_packets b)"
  define s' where "s' = s\<lparr>s_sequenceNumber := s_sequenceNumber s + of_nat (length (b_packets b))\<rparr>"
  from fill_batch_all [OF assms(12), of d1 "b_deadlineTaiNs b" "b_deadlineStrideNs b" 0 s] obtain ds where
    f: "fill_batch d1 (b_deadlineTaiNs b) (b_deadlineStrideNs b) 0 (b_packets b) s = (ps, ds, s')"
    and l: "map letter ds = map (\<lambda>p. (p, d1)) ps" unfolding ps_def s'_def by blast
  let ?ds2 = "map (\<lambda>d. d\<lparr>dg_dest := d2\<rparr>) ds"
  note d = filled_data [OF assms(12) l [unfolded ps_def]]
  have n: "ds \<noteq> []" "length ds < 2 ^ 31" using d(2) assms(11,13) by auto
  from legs.leg_sends_beside [where a = a1 and b = b1 and ?a2.0 = a2 and ?b2.0 = b2 and w = net and ds = ds and l = l1] obtain w1 where
    w1: "dispatchLeg l1 ds net = Some (Ok, w1)" "lb_ready a1 b1 w1" "lb_ready a2 b2 w1"
      "lb_queue b1 w1 = lb_queue b1 net @ map letter ds" "lb_queue b2 w1 = lb_queue b2 net"
    using assms(6-9) d(1) n by blast
  from legs.swapped.leg_sends_beside [where a = a1 and b = b1 and ?a2.0 = a2 and ?b2.0 = b2 and w = w1 and ds = ?ds2 and l = l2] obtain w2 where
    w2: "dispatchLeg l2 ?ds2 w1 = Some (Ok, w2)" "lb_queue b2 w2 = lb_queue b2 w1 @ map letter ?ds2" "lb_queue b1 w2 = lb_queue b1 w1"
    using w1(2,3) assms(8,10) d(3) n by auto
  have cap: "cap_rate bps l1 w = w" "cap_rate bps l2 w = w" for bps w
    using assms(9,10) by (auto simp: cap_rate_def plain_leg_def burst_leg_def)
  have "session_sendPackets l1 l2 b s net = Some (Ok, b\<lparr>b_packets := ps\<rparr>, s', w2)"
    using assms(1-5,11) f n(1) w1(1) w2(1) by (simp add: session_sendPackets_def cap Let_def s'_def)
  moreover have "lb_queue b1 w2 = lb_queue b1 net @ map (\<lambda>p. (p, d1)) ps" "lb_queue b2 w2 = lb_queue b2 net @ map (\<lambda>p. (p, d2)) ps"
    using w1(4,5) w2(2,3) l unfolding letters_redirected by simp_all
  moreover have "12 \<le> length (b_packets b ! j)" if "j < length (b_packets b)" for j using assms(12) that by simp
  ultimately show ?thesis
    by (intro exI [of _ ps] exI [of _ w2]) (simp add: ps_def s'_def numbered_nth stamp_fields stamp_parts(2) Let_def)
qed

definition test_net :: "nat net" where
  "test_net = [0 \<mapsto> \<lparr>ep_open = True, ep_peer = Some 1, ep_queue = []\<rparr>, 1 \<mapsto> \<lparr>ep_open = True, ep_peer = Some 0, ep_queue = []\<rparr>,
     2 \<mapsto> \<lparr>ep_open = True, ep_peer = Some 3, ep_queue = []\<rparr>, 3 \<mapsto> \<lparr>ep_open = True, ep_peer = Some 2, ep_queue = []\<rparr>]"

definition test_session :: "nat session" where
  "test_session = (new_session 7 (Latin1 []))\<lparr>s_running := True, s_transport := True, s_transportSecondary := True,
     s_remote := Some 50, s_remoteSecondary := Some 60, s_sequenceNumber := 65535\<rparr>"

lemma test_net_ready: "lb_ready 0 1 test_net" "lb_ready 2 3 test_net" "lb_queue 1 test_net = []" "lb_queue 3 test_net = []"
  by (simp_all add: lb_ready_iff test_net_def lb_queue_def)

theorem both_legs_carry_the_batch_witness:
  "\<exists>ps net'. session_sendPackets (plain_leg (lb_sendPackets 0)) (burst_leg (lb_sendPackets 2))
      \<lparr>b_packets = [list_packet [1], list_packet [2]], b_markerOnLast = True, b_rateCapBps = 0, b_deadlineTaiNs = 0, b_deadlineStrideNs = 0\<rparr>
      test_session test_net = Some (Ok, \<lparr>b_packets = ps, b_markerOnLast = True, b_rateCapBps = 0, b_deadlineTaiNs = 0, b_deadlineStrideNs = 0\<rparr>,
        test_session\<lparr>s_sequenceNumber := 1\<rparr>, net') \<and>
    lb_queue 1 net' = map (\<lambda>p. (p, 50)) ps \<and> lb_queue 3 net' = map (\<lambda>p. (p, 60)) ps \<and> sequenceNumber (ps ! 1) = 0"
proof -
  let ?b = "\<lparr>b_packets = [list_packet [1], list_packet [2]], b_markerOnLast = True, b_rateCapBps = 0, b_deadlineTaiNs = 0, b_deadlineStrideNs = 0\<rparr>"
  have "length (list_packet [n]) = 13" for n by (simp add: list_packet_def setVersion_def)
  then show ?thesis
    using both_legs_carry_the_batch [of test_session 50 60 0 1 test_net 2 3 "plain_leg (lb_sendPackets 0)" "burst_leg (lb_sendPackets 2)" ?b]
      test_net_ready
    by (fastforce simp: test_session_def Let_def)
qed

section \<open>From the packer to the unpacker\<close>

lemma length_list_packet [simp]: "length (list_packet p) = 12 + length p"
  by (simp add: list_packet_def setVersion_def)

lemma stamp_list_shape: "\<exists>h. length h = 12 \<and> h ! 0 = 0x80 \<and> stamp pt m ts sq src (list_packet p) = h @ p"
proof -
  let ?s = "stamp pt m ts sq src (list_packet p)"
  have n: "12 \<le> length (list_packet p)" by simp
  have l: "list_packet p = (0x80 # replicate 11 0) @ p"
    by (simp add: list_packet_def setVersion_def blank_def HeaderSize_def eval_nat_numeral)
  have "?s = take 12 ?s @ p" using stamp_parts(2) [OF n, of pt m ts sq src] append_take_drop_id [of 12 ?s] by (simp add: l)
  moreover have "take 12 ?s ! 0 = 0x80" "length (take 12 ?s) = 12" using stamp_parts(1,3) [OF n, of pt m ts sq src] by (simp_all add: l)
  ultimately show ?thesis by blast
qed

lemma stamp_over:
  assumes "12 \<le> length p" and q_def: "q = setMarker m (setTimestamp ts p)"
  shows "stamp pt (marker q) (timestamp q) k src q = stamp pt m ts k src p"
proof -
  let ?s = "(new_session src (Latin1 []) :: unit session)\<lparr>s_payloadType := pt, s_sequenceNumber := k\<rparr>"
  have "12 \<le> length q" using assms(1) unfolding q_def by (simp add: setMarker_def setTimestamp_def)
  from transport_header [OF this, of ?s] fillTransportHeader_stamp [OF assms(1), of m ts ?s]
  show ?thesis by (simp add: q_def new_session_def)
qed

text \<open>The packets of a list as the sender thread and the session leave them.\<close>

definition on_wire :: "'a session \<Rightarrow> u16 \<Rightarrow> u32 \<Rightarrow> bool \<Rightarrow> byte list list \<Rightarrow> byte list list" where
  "on_wire s k ts mk qs = numbered s k (stamp_batch ts mk (map list_packet qs))"

lemma on_wire_simps [simp]:
  "on_wire s k ts mk [] = []"
  "on_wire s k ts mk (q # qs) =
     stamp (s_payloadType s) (marker (setTimestamp ts (list_packet q)) \<or> (qs = [] \<and> mk)) ts k (s_ssrc s) (list_packet q)
     # on_wire s (k + 1) ts mk qs"
  by (simp_all add: on_wire_def Let_def stamp_over [OF _ refl])

lemma length_stamp_batch [simp]: "length (stamp_batch ts mk ps) = length ps"
  by (induction ps) (simp_all add: Let_def)

lemma stamp_batch_sizes: "\<forall>p\<in>set ps. n \<le> length p \<Longrightarrow> \<forall>p\<in>set (stamp_batch ts mk ps). n \<le> length p"
  by (induction ps) (auto simp: Let_def setMarker_def setTimestamp_def)

lemma on_wire_payloads: "map payload (on_wire s k ts mk qs) = qs"
  by (induction qs arbitrary: k) simp_all

lemma on_wire_length [simp]: "length (on_wire s k ts mk qs) = length qs"
  by (simp add: on_wire_def)

lemma on_wire_stamped:
  "d \<in> set (on_wire s k ts mk qs) \<Longrightarrow> \<exists>m sq q. q \<in> set qs \<and> d = stamp (s_payloadType s) m ts sq (s_ssrc s) (list_packet q)"
proof (induction qs arbitrary: k)
  case (Cons p qs)
  show ?case
  proof (cases "d \<in> set (on_wire s (k + 1) ts mk qs)")
    case True
    from Cons.IH [OF this] obtain m sq q where "q \<in> set qs" "d = stamp (s_payloadType s) m ts sq (s_ssrc s) (list_packet q)" by blast
    then show ?thesis by (intro exI [of _ m] exI [of _ sq] exI [of _ q]) simp
  next
    case False
    then show ?thesis using Cons.prems by auto
  qed
qed simp

lemma low_7: "unat (x AND 0x7F :: byte) = unat x mod 128"
proof -
  have "x AND 0x7F = take_bit 7 x" by (rule bit_byte_eqI; simp add: bit_simps)
  then show ?thesis by (simp only: unsigned_take_bit_eq) (simp add: take_bit_eq_mod)
qed

text \<open>The receive thread takes such a packet for RTP unless marker and type together look like RTCP.\<close>

lemma rtcp_looks:
  assumes "(200 :: byte) \<le> x" "x \<le> 223"
  shows "72 \<le> x AND 0x7F \<and> x AND 0x7F \<le> 95"
proof -
  have "unat (x AND 0x7F) = unat x mod 128" by (rule low_7)
  moreover have "200 \<le> unat x" "unat x \<le> 223" using assms by (simp_all add: word_le_nat_alt)
  ultimately have "unat (x AND 0x7F) = unat x - 128" by (simp add: mod_if)
  then show ?thesis unfolding word_le_nat_alt using \<open>200 \<le> unat x\<close> \<open>unat x \<le> 223\<close> by simp linarith
qed

lemma receive_one_rtp:
  assumes "\<not> (72 \<le> pt \<and> pt \<le> 95)" "pt < 128" and d_def: "d = stamp pt m ts sq src (list_packet p)"
  shows "receive_one a n d r = r\<lparr>rc_receivers := dispatchToReceivers n \<lparr>bytes = d, arrivalSteady = a\<rparr> (rc_receivers r)\<rparr>"
    and "payloadType d = pt"
proof -
  obtain h where h: "length h = 12" "h ! 0 = 0x80" "d = h @ p" using stamp_list_shape d_def by metis
  have f: "version d = 2" "payloadType d = pt AND 0x7F" unfolding d_def by (simp_all add: stamp_fields)
  have "pt AND 0x7F = pt" using low_7 [of pt] assms(2) by (simp add: word_unat_eq_iff word_less_nat_alt)
  then show pt: "payloadType d = pt" using f(2) by simp
  have "\<not> (200 \<le> d ! 1 \<and> d ! 1 \<le> 223)" using rtcp_looks [of "d ! 1"] pt assms(1) by (auto simp: payloadType_def)
  moreover have "rtp_isValid d" using f(1) h payload_headed(2) [OF h(1,2), of p] by (simp add: rtp_isValid_def HeaderSize_def)
  ultimately show "receive_one a n d r = r\<lparr>rc_receivers := dispatchToReceivers n \<lparr>bytes = d, arrivalSteady = a\<rparr> (rc_receivers r)\<rparr>"
    using h by (auto simp: receive_one_def receive_datagram_def HeaderSize_def)
qed

text \<open>The receive loop empties a queue as long as its clock readings.\<close>

definition arrivals :: "(int \<times> int) list \<Rightarrow> byte list list \<Rightarrow> (int \<times> rtp_packet) list" where
  "arrivals clocks ds = map (\<lambda>(c, d). (snd c, \<lparr>bytes = d, arrivalSteady = fst c\<rparr>)) (zip clocks ds)"

lemma loop_drains:
  fixes r :: "'r receiving"
  shows "net b = Some y \<Longrightarrow> ep_open y \<Longrightarrow> length clocks = length (ep_queue y) \<Longrightarrow>
   \<exists>net'. receive_loop (lb_receivePacket b) clocks r net =
      Some (fold (\<lambda>(c, d). receive_one (fst c) (snd c) d) (zip clocks (map (\<lambda>e. take kMaxPacketSize (fst e)) (ep_queue y))) r, net')"
proof (induction clocks arbitrary: y net r)
  case (Cons c clocks)
  obtain e es where q: "ep_queue y = e # es" using Cons.prems(3) by (cases "ep_queue y") simp_all
  obtain a n where c: "c = (a, n)" by (cases c)
  define net1 where "net1 = net(b \<mapsto> y\<lparr>ep_queue := es\<rparr>)"
  have at: "net1 b = Some (y\<lparr>ep_queue := es\<rparr>)" by (simp add: net1_def)
  have "lb_receivePacket b kMaxPacketSize net = Some (Some (take kMaxPacketSize (fst e), snd e), net1)"
    using Cons.prems(1,2) q by (simp add: lb_receivePacket_def min_def net1_def)
  moreover have "\<exists>net'. receive_loop (lb_receivePacket b) clocks r1 net1 =
      Some (fold (\<lambda>(c, d). receive_one (fst c) (snd c) d) (zip clocks (map (\<lambda>e. take kMaxPacketSize (fst e)) es)) r1, net')" for r1 :: "'r receiving"
    using Cons.IH [where net = net1 and y = "y\<lparr>ep_queue := es\<rparr>" and r = r1] at Cons.prems(2,3) q by simp
  ultimately show ?case by (simp add: c q)
qed simp

lemma receive_all_rtp:
  assumes "\<forall>d\<in>set ds. \<forall>a n r. receive_one a n d (r :: 'a receiving) =
      r\<lparr>rc_receivers := dispatchToReceivers n \<lparr>bytes = d, arrivalSteady = a\<rparr> (rc_receivers r)\<rparr>" "length clocks = length ds"
  shows "fold (\<lambda>(c, d). receive_one (fst c) (snd c) d) (zip clocks ds) (r :: 'a receiving) =
    r\<lparr>rc_receivers := fold (\<lambda>x. dispatchToReceivers (fst x) (snd x)) (arrivals clocks ds) (rc_receivers r)\<rparr>"
  using assms(2,1)
  by (induction clocks ds arbitrary: r rule: list_induct2) (simp_all add: arrivals_def)

lemma on_wire_stream:
  "length clocks = length qs \<Longrightarrow> stream a (s_ssrc s) (arrivals clocks (on_wire s (of_nat a) ts mk qs))"
proof (induction clocks qs arbitrary: a rule: list_induct2)
  case (Cons c clocks q qs)
  have "of_nat a + 1 = (of_nat (Suc a) :: u16)" by simp
  then show ?case using Cons.IH [of "Suc a"] by (simp add: arrivals_def stamp_fields add.commute)
qed (simp add: arrivals_def)

lemma arrivals_bytes: "length clocks = length ds \<Longrightarrow> map (bytes \<circ> snd) (arrivals clocks ds) = ds"
  by (simp add: arrivals_def comp_def case_prod_unfold map_snd_zip flip: snd_def)

text \<open>One leg, with or without the burst scheduler.\<close>

lemma one_leg_carries:
  assumes "s_running s" "s_transport s" "s_remote s = Some dst" "\<not> s_transportSecondary s"
    "lb_ready a b net" "l \<in> {plain_leg (lb_sendPackets a), burst_leg (lb_sendPackets a)}"
    "b_packets bt \<noteq> []" "\<forall>p\<in>set (b_packets bt). 12 \<le> length p" "length (b_packets bt) < 2 ^ 31"
  shows "\<exists>bt' s' net'. session_sendPackets l l2 bt s net = Some (Ok, bt', s', net') \<and> lb_ready a b net' \<and>
      lb_queue b net' = lb_queue b net @ map (\<lambda>p. (p, dst)) (numbered s (s_sequenceNumber s) (b_packets bt))"
proof -
  let ?ps = "numbered s (s_sequenceNumber s) (b_packets bt)"
  let ?s = "s\<lparr>s_sequenceNumber := s_sequenceNumber s + of_nat (length (b_packets bt))\<rparr>"
  from fill_batch_all [OF assms(8), of dst "b_deadlineTaiNs bt" "b_deadlineStrideNs bt" 0 s] obtain ds where
    f: "fill_batch dst (b_deadlineTaiNs bt) (b_deadlineStrideNs bt) 0 (b_packets bt) s = (?ps, ds, ?s)"
    and l: "map letter ds = map (\<lambda>p. (p, dst)) ?ps" by blast
  note d = filled_data [OF assms(8) l]
  have n: "ds \<noteq> []" "length ds < 2 ^ 31" using d(2) assms(7,9) by auto
  from loopback.leg_sends [where a = a and b = b and w = net and ds = ds and l = l] obtain w1 where
    w1: "dispatchLeg l ds net = Some (Ok, w1)" "lb_ready a b w1" "lb_queue b w1 = lb_queue b net @ map letter ds"
    using assms(5,6) d(1) n by blast
  have "cap_rate bps l w = w" for bps w using assms(6) by (auto simp: cap_rate_def plain_leg_def burst_leg_def)
  then have "session_sendPackets l l2 bt s net = Some (Ok, bt\<lparr>b_packets := ?ps\<rparr>, ?s, w1)"
    using assms(1-4,7) f n(1) w1(1) by (simp add: session_sendPackets_def Let_def)
  then show ?thesis using w1(2,3) unfolding l by blast
qed

text \<open>The receive thread, over a queue of RTP datagrams that fit its buffer.\<close>

lemma thread_dispatches:
  fixes r :: "'r receiving"
  assumes "net b = Some y" "ep_open y" "ep_queue y = map (\<lambda>p. (p, dst)) ds" "length clocks = length ds"
    and "\<And>x. x \<in> set ds \<Longrightarrow> length x \<le> kMaxPacketSize"
    and "\<And>x a n (r :: 'r receiving). x \<in> set ds \<Longrightarrow> receive_one a n x r =
      r\<lparr>rc_receivers := dispatchToReceivers n \<lparr>bytes = x, arrivalSteady = a\<rparr> (rc_receivers r)\<rparr>"
  shows "\<exists>net'. receive_loop (lb_receivePacket b) clocks r net =
    Some (r\<lparr>rc_receivers := fold (\<lambda>x. dispatchToReceivers (fst x) (snd x)) (arrivals clocks ds) (rc_receivers r)\<rparr>, net')"
proof -
  have queue: "map (\<lambda>e. take kMaxPacketSize (fst e)) (ep_queue y) = ds" using assms(3,5) by (simp add: map_idI)
  have "fold (\<lambda>(c, d). receive_one (fst c) (snd c) d) (zip clocks ds) r =
      r\<lparr>rc_receivers := fold (\<lambda>x. dispatchToReceivers (fst x) (snd x)) (arrivals clocks ds) (rc_receivers r)\<rparr>"
    by (rule receive_all_rtp) (use assms(4,6) in blast)+
  moreover from loop_drains [where net = net and b = b and y = y and clocks = clocks and r = r, OF assms(1,2), unfolded queue]
  obtain net' where "receive_loop (lb_receivePacket b) clocks r net = Some (fold (\<lambda>(c, d). receive_one (fst c) (snd c) d) (zip clocks ds) r, net')"
    using assms(3,4) by auto
  ultimately show ?thesis by simp
qed

text \<open>What a session put on the wire fits the buffer of the thread and is dispatched there.\<close>

lemma on_wire_received:
  assumes "x \<in> set (on_wire s n ts mk qs)" "\<forall>q\<in>set qs. 12 + length q \<le> kMaxPacketSize"
    "s_payloadType s < 128" "\<not> (72 \<le> s_payloadType s \<and> s_payloadType s \<le> 95)"
  shows "length x \<le> kMaxPacketSize" "payloadType x = s_payloadType s"
    "receive_one a k x r = r\<lparr>rc_receivers := dispatchToReceivers k \<lparr>bytes = x, arrivalSteady = a\<rparr> (rc_receivers r)\<rparr>"
proof -
  obtain mm sq q where q: "q \<in> set qs" "x = stamp (s_payloadType s) mm ts sq (s_ssrc s) (list_packet q)"
    using on_wire_stamped [OF assms(1)] by blast
  show "length x \<le> kMaxPacketSize" using assms(2) q by (simp add: stamp_parts(1))
  show "payloadType x = s_payloadType s"
    "receive_one a k x r = r\<lparr>rc_receivers := dispatchToReceivers k \<lparr>bytes = x, arrivalSteady = a\<rparr> (rc_receivers r)\<rparr>"
    unfolding q(2) using receive_one_rtp [OF assms(4,3) refl] by blast+
qed

text \<open>A fresh receiver queues an orderly stream whole.\<close>

lemma fresh_receiver_queues:
  assumes "stream (unat n) src xs" "n \<noteq> (0xFFFF :: u16)" "2 \<le> length xs"
  shows "q_items (r_queue (receive_run xs (new_receiver pt rate window delay 0))) = map snd xs"
proof -
  have "unat n < 65536" using unsigned_less [of n, where ?'a = nat] by simp
  moreover have "unat n \<noteq> 65535" using assms(2) by (auto simp: word_unat_eq_iff)
  ultimately have n: "unat n < 65535" by simp
  obtain x1 x2 rest where xs: "xs = x1 # x2 # rest" using assms(3) by (metis Suc_le_length_iff numeral_2_eq_2)
  let ?rcv = "new_receiver pt rate window delay 0"
  have "r_queue (receive_run xs ?rcv) = foldl pushDropOldest (r_queue ?rcv) (map snd xs)"
    using fresh_run [OF assms(1) [unfolded xs], of pt rate window delay 0] n unfolding xs by (simp del: receive_run_simps)
  moreover have "q_max (r_queue ?rcv) = 0" "\<not> q_cancelled (r_queue ?rcv)" "q_items (r_queue ?rcv) = []"
    by (simp_all add: new_receiver_def)
  ultimately show ?thesis using push_unbounded [of "r_queue ?rcv" "map snd xs"] by simp
qed

text \<open>C1: A coded picture comes through the whole library: the units of an H.264 access unit, packed into RTP packets, stamped
  and sent by a session over the loopback transport with or without the burst scheduler, read by the receive thread of the
  peer, and run through source pin, tracker, reorder buffer and queue of a fresh receiver, are put together again unit by
  unit. The packets must fit the thread's buffer of 2048 bytes, the payload type must not make marked packets look like
  RTCP, the first number must not be 65535, and a unit that fits one packet must have the type of a single unit.\<close>

theorem video_through_the_session:
  fixes r :: "'r receiving"
  assumes "s_running s" "s_transport s" "s_remote s = Some dst" "\<not> s_transportSecondary s"
    "lb_ready a b net" "lb_queue b net = []" "l \<in> {plain_leg (lb_sendPackets a), burst_leg (lb_sendPackets a)}"
    "3 \<le> m" "12 + m \<le> kMaxPacketSize" "\<forall>n\<in>set (nals_of d). h264_sendable m n"
    "2 \<le> length (h264_pack m d)" "length (h264_pack m d) < 2 ^ 31" "b_packets bt = stamp_batch ts mk (h264_pack m d)"
    "s_sequenceNumber s \<noteq> 0xFFFF" "s_payloadType s < 128" "\<not> (72 \<le> s_payloadType s \<and> s_payloadType s \<le> 95)"
    "length clocks = length (h264_pack m d)" "rc_receivers r = [new_receiver (s_payloadType s) rate window delay 0]"
  shows "\<exists>bt' s' net' r' rcv net''. session_sendPackets l l2 bt s net = Some (Ok, bt', s', net') \<and>
      receive_loop (lb_receivePacket b) clocks r net' = Some (r', net'') \<and> rc_receivers r' = [rcv] \<and>
      h264_unpack (map bytes (q_items (r_queue rcv))) = wrapNalsAsAnnexB (nals_of d)"
proof -
  define qs where "qs = concat (map (h264_payloads m) (nals_of d))"
  define ds where "ds = on_wire s (s_sequenceNumber s) ts mk qs"
  define rcv where "rcv = new_receiver (s_payloadType s) rate window delay 0"
  have units: "\<forall>n\<in>set (nals_of d). n \<noteq> [] \<and> h264_sendable m n" using assms(10) nals_clean [of d] by (auto simp: clean_def)
  have empty: "nals_of [] = []" by (simp add: nals_of_def findNextStartCode_def)
  have pack: "h264_pack m d = map list_packet qs"
    using assms(8) empty by (auto simp: h264_pack_def collect_nals Let_def qs_def)
  have bt: "numbered s (s_sequenceNumber s) (b_packets bt) = ds" by (simp add: assms(13) pack ds_def on_wire_def)
  have len: "\<forall>p\<in>set (b_packets bt). 12 \<le> length p" unfolding assms(13) pack by (rule stamp_batch_sizes) simp
  have "b_packets bt \<noteq> []" "length (b_packets bt) < 2 ^ 31" using assms(11,12) unfolding assms(13) by (auto simp flip: length_0_conv)
  from one_leg_carries [OF assms(1-5,7) this(1) len this(2), of l2] obtain bt' s' net' where
    sent: "session_sendPackets l l2 bt s net = Some (Ok, bt', s', net')" "lb_ready a b net'" "lb_queue b net' = map (\<lambda>p. (p, dst)) ds"
    unfolding bt using assms(6) by auto
  from sent(2,3) obtain y where y: "net' b = Some y" "ep_open y" "ep_queue y = map (\<lambda>p. (p, dst)) ds"
    by (auto simp: lb_ready_iff lb_queue_def)
  have n: "length clocks = length qs" "length clocks = length ds" using assms(17) by (simp_all add: pack ds_def)
  have "\<forall>q\<in>set qs. 12 + length q \<le> kMaxPacketSize" using h264_payload_sizes [OF assms(8)] assms(9) by (force simp: qs_def)
  note rtp = on_wire_received [OF _ this assms(15,16), of _ "s_sequenceNumber s" ts mk, folded ds_def]
  let ?xs = "arrivals clocks ds"
  have "\<exists>net''. receive_loop (lb_receivePacket b) clocks r net' =
      Some (r\<lparr>rc_receivers := fold (\<lambda>x. dispatchToReceivers (fst x) (snd x)) ?xs (rc_receivers r)\<rparr>, net'')"
    by (rule thread_dispatches [where net = net' and b = b and y = y and dst = dst, OF y n(2)]) (erule rtp)+
  then obtain net'' where
    loop: "receive_loop (lb_receivePacket b) clocks r net' = Some (r\<lparr>rc_receivers := fold (\<lambda>x. dispatchToReceivers (fst x) (snd x)) ?xs [rcv]\<rparr>, net'')"
    unfolding assms(18) rcv_def by blast
  have xs: "map (bytes \<circ> snd) ?xs = ds" by (rule arrivals_bytes [OF n(2)])
  have pts: "payloadType (bytes (snd x)) = r_pt rcv" if "x \<in> set ?xs" for x
  proof -
    have "bytes (snd x) \<in> set (map (bytes \<circ> snd) ?xs)" using that by simp
    then have "bytes (snd x) \<in> set ds" by (simp only: xs)
    then show ?thesis using rtp(2) by (simp add: rcv_def new_receiver_def)
  qed
  have "stream (unat (s_sequenceNumber s)) (s_ssrc s) ?xs"
    using on_wire_stream [OF n(1), of "unat (s_sequenceNumber s)" s ts mk] by (simp add: ds_def)
  moreover have "2 \<le> length ?xs" using assms(11) n by (simp add: arrivals_def pack)
  ultimately have "q_items (r_queue (receive_run ?xs rcv)) = map snd ?xs"
    unfolding rcv_def using assms(14) by (intro fresh_receiver_queues)
  moreover have "h264_unpack ds = wrapNalsAsAnnexB (nals_of d)"
    using h264_units [OF assms(8) units, of "[]"] by (simp add: h264_unpack_def ds_def on_wire_payloads qs_def)
  ultimately have "h264_unpack (map bytes (q_items (r_queue (receive_run ?xs rcv)))) = wrapNalsAsAnnexB (nals_of d)"
    using xs by simp
  moreover have "rc_receivers (r\<lparr>rc_receivers := fold (\<lambda>x. dispatchToReceivers (fst x) (snd x)) ?xs [rcv]\<rparr>) = [receive_run ?xs rcv]"
    using pts by (simp add: dispatch_run)
  ultimately show ?thesis using sent(1) loop by blast
qed

theorem video_through_the_session_witness:
  "\<exists>bt' s' net' r' rcv net''.
      session_sendPackets (burst_leg (lb_sendPackets 0)) (plain_leg (lb_sendPackets 2))
        \<lparr>b_packets = stamp_batch 9 True (h264_pack 4 [0, 0, 1, 0x67, 1, 2, 0, 0, 1, 0x65, 1, 2, 3, 4, 5]), b_markerOnLast = True,
          b_rateCapBps = 0, b_deadlineTaiNs = 0, b_deadlineStrideNs = 0\<rparr>
        (test_session\<lparr>s_sequenceNumber := 65534, s_transportSecondary := False\<rparr>) test_net = Some (Ok, bt', s', net') \<and>
      receive_loop (lb_receivePacket 1) (replicate 4 (0, 0))
        \<lparr>rc_session = new_session 1 (Latin1 []) :: nat session, rc_receivers = [new_receiver 96 90000 64 0 0], rc_byes = []\<rparr> net' = Some (r', net'') \<and>
      rc_receivers r' = [rcv] \<and>
      h264_unpack (map bytes (q_items (r_queue rcv))) = [0, 0, 0, 1, 0x67, 1, 2, 0, 0, 0, 1, 0x65, 1, 2, 3, 4, 5]"
proof -
  let ?d = "[0, 0, 1, 0x67, 1, 2, 0, 0, 1, 0x65, 1, 2, 3, 4, 5] :: byte list"
  let ?r = "\<lparr>rc_session = new_session 1 (Latin1 []) :: nat session, rc_receivers = [new_receiver 96 90000 64 0 0], rc_byes = []\<rparr>"
  let ?bt = "\<lparr>b_packets = stamp_batch 9 True (h264_pack 4 ?d), b_markerOnLast = True,
          b_rateCapBps = 0, b_deadlineTaiNs = 0, b_deadlineStrideNs = 0\<rparr>"
  have n: "nals_of ?d = [[0x67, 1, 2], [0x65, 1, 2, 3, 4, 5]]" by code_simp
  have k: "length (h264_pack 4 ?d) = 4" by code_simp
  have u: "\<forall>n\<in>set (nals_of ?d). h264_sendable 4 n" unfolding n by (simp add: h264_sendable_def)
  have w: "wrapNalsAsAnnexB (nals_of ?d) = [0, 0, 0, 1, 0x67, 1, 2, 0, 0, 0, 1, 0x65, 1, 2, 3, 4, 5]"
    by (simp add: n wrapNalsAsAnnexB_def start_coded_def)
  show ?thesis
    using video_through_the_session [where s = "test_session\<lparr>s_sequenceNumber := 65534, s_transportSecondary := False\<rparr>" and dst = 50
        and a = 0 and b = 1 and net = test_net and l = "burst_leg (lb_sendPackets 0)" and ?l2.0 = "plain_leg (lb_sendPackets 2)" and m = 4
        and d = ?d and bt = ?bt and ts = 9 and mk = True and clocks = "replicate 4 (0, 0)" and r = ?r and rate = 90000 and window = 64
        and delay = 0] test_net_ready u
    unfolding w k by (simp add: test_session_def new_session_def kMaxPacketSize_def)
qed

section \<open>The exchange of reports\<close>

lemma find_in_built:
  "findSenderReports (compound (map build_packet ps)) = concat (map (\<lambda>p. case p of SR i \<Rightarrow> [i] | _ \<Rightarrow> []) ps)"
  "findByeSources (compound (map build_packet ps)) = concat (map (\<lambda>p. case p of BYE s \<Rightarrow> [s] | _ \<Rightarrow> []) ps)"
  unfolding findSenderReports_def findByeSources_def
  using walk_packets [where f = sender_reports, OF reports_of_packet] walk_packets [where f = bye_sources, OF byes_of_packet]
  by simp_all

definition sr_sent :: "u32 \<Rightarrow> u32 \<Rightarrow> 'a session \<Rightarrow> sr_info" where
  "sr_sent packets octets s = \<lparr>sr_ssrc = s_ssrc s, sr_ntp = currentSrNtp s,
     sr_rtpTimestamp = (if s_hasEmission s then s_lastEmissionRtpTs s else 0), senderPacketCount = packets, senderOctetCount = octets\<rparr>"

lemma compounds_built:
  "sr_compound packets octets s = compound (map build_packet [SR (sr_sent packets octets s), SDES (s_ssrc s) (s_cname s)])"
  "\<exists>b. rr_compound now block s = compound (map build_packet [RR (s_ssrc s) [b], SDES (s_ssrc s) (s_cname s)])"
  "bye_compound s = compound (map build_packet [RR (s_ssrc s) [], SDES (s_ssrc s) (s_cname s), BYE (s_ssrc s)])"
  by (auto simp: sr_compound_def sr_sent_def rr_compound_def bye_compound_def Let_def)

lemma compounds_look:
  "4 \<le> length (sr_compound packets octets s)" "sr_compound packets octets s ! 1 = 200"
  "4 \<le> length (rr_compound now block s)" "rr_compound now block s ! 1 = 201"
  "4 \<le> length (bye_compound s)" "bye_compound s ! 1 = 201"
  by (simp_all add: sr_compound_def rr_compound_def bye_compound_def compound_def buildSenderReport_def buildReceiverReport_def
      commonHeader_def Let_def)

lemma receive_rtcp:
  assumes "4 \<le> length d" "200 \<le> d ! 1" "d ! 1 \<le> 223"
  shows "receive_one a now d r = r\<lparr>rc_session := snd (handleRtcp now d (rc_session r)), rc_byes := rc_byes r @ fst (handleRtcp now d (rc_session r))\<rparr>"
  using assms by (auto simp: receive_one_def receive_datagram_def split: prod.splits)

text \<open>The scaled delay is exact as long as the product stays in 64 bits.\<close>

lemma dlsr_exact:
  assumes "0 \<le> t" "t < 2 ^ 48"
  shows "dlsr_of t = word_of_int (t * 65536 div 1000000000)"
proof -
  have "uint (word_of_int t * 65536 :: u64) = t * 65536"
    using assms by (simp add: uint_word_arith_bintrs(3) uint_word_of_int take_bit_int_eq_self)
  then have u: "uint (word_of_int t * 65536 div 1000000000 :: u64) = t * 65536 div 1000000000"
    by (simp add: uint_div)
  have "ucast (w AND 0xFFFFFFFF) = (word_of_int (uint w) :: u32)" for w :: u64
  proof (rule bit_word_eqI)
    fix n assume "n < LENGTH(32)"
    moreover have "bit (0xFFFFFFFF :: u64) n" if "n < 32"
    proof -
      have e: "(0xFFFFFFFF :: u64) = mask 32" by (simp add: mask_eq_exp_minus_1)
      show ?thesis unfolding e bit_mask_iff using that by simp
    qed
    ultimately show "bit (ucast (w AND 0xFFFFFFFF) :: u32) n \<longleftrightarrow> bit (word_of_int (uint w) :: u32) n"
      by (simp add: bit_simps)
  qed
  from this [of "word_of_int t * 65536 div 1000000000"] show ?thesis using assms(1) unfolding dlsr_of_def u by (simp add: max_def)
qed

lemma dlsr_wraps: "dlsr_of (2 ^ 48) = 0"
  by (simp add: dlsr_of_def)

text \<open>C12: One round of reports between two sessions. The sender's report, sent over the loopback and taken by the peer's
  receive thread for RTCP, is remembered with the sender's own wall-clock time, its last timestamp and the arrival time,
  and reports no goodbye. The receiver's next report names it by the middle bits of that time and gives the delay since
  its arrival in 65536ths of a second, rounded down: exactly for delays below 65536 seconds, about 18 hours, and from
  there on modulo 2 to the 32, the width of the field, as long as the delay is below 2 to the 48 nanoseconds, about 78
  hours. That report changes nothing at the sender, and the sender's goodbye reports exactly the sender's source.\<close>

theorem rtcp_report_cycle:
  assumes "s_running s1" "s_transport s1" "s_remote s1 = Some dst" "lb_ready a b net" "rc_session r = s2"
    "s2' = rc_session (receive_one t t (sr_compound packets octets s1) r)" "0 \<le> now - t" "now - t < 2 ^ 48"
  shows "(\<exists>net'. emitRtcpSr (lb_sendPackets a) packets octets s1 net = Some (Ok, net') \<and>
        lb_queue b net' = lb_queue b net @ [(sr_compound packets octets s1, dst)]) \<and>
      rc_byes (receive_one t t (sr_compound packets octets s1) r) = rc_byes r \<and>
      s_lastReceivedSr s2' = \<lparr>rs_ntp = currentSrNtp s1, rs_rtpTs = (if s_hasEmission s1 then s_lastEmissionRtpTs s1 else 0),
        rs_arrivedAt = t, rs_valid = True\<rparr> \<and> s_srObservedCount s2' = s_srObservedCount s2 + 1 \<and>
      (\<exists>delay. rr_compound now block s2' = compound
          [buildReceiverReport (s_ssrc s2) [block\<lparr>lsr := toCompact32 (currentSrNtp s1), dlsr := delay\<rparr>],
           buildSourceDescriptionCname (s_ssrc s2) (s_cname s2)] \<and>
        uint delay = ((now - t) * 65536 div 1000000000) mod 2 ^ 32 \<and>
        (now - t < 65536 * 1000000000 \<longrightarrow> uint delay = (now - t) * 65536 div 1000000000)) \<and>
      handleRtcp any (rr_compound now block s2') s1 = ([], s1) \<and> handleRtcp any (bye_compound s1) s2 = ([s_ssrc s1], s2)"
proof -
  let ?c = "sr_compound packets octets s1"
  let ?d = "\<lparr>dg_data = ?c, dg_dest = dst, dg_txTime = 0\<rparr>"
  have ne: "?c \<noteq> []" using compounds_look(1) [of packets octets s1] by auto
  have "\<exists>k w'. lb_sendPackets a [?d] net = Some (k, w') \<and> 0 < k \<and> k \<le> int (length [?d]) \<and> lb_ready a b w' \<and>
      lb_queue b w' = lb_queue b net @ map letter (take (nat k) [?d])"
    by (rule loopback.takes_some) (use assms(4) ne in simp_all)
  then obtain k w' where w: "lb_sendPackets a [?d] net = Some (k, w')" "0 < k" "k \<le> 1"
    "lb_queue b w' = lb_queue b net @ map letter (take (nat k) [?d])" by auto
  have "k = 1" using w(2,3) by simp
  then have sent: "\<exists>net'. emitRtcpSr (lb_sendPackets a) packets octets s1 net = Some (Ok, net') \<and>
        lb_queue b net' = lb_queue b net @ [(?c, dst)]"
    using w assms(1-3) by (simp add: emitRtcpSr_def emit_compound_def letter_single)
  have found: "findSenderReports ?c = [sr_sent packets octets s1]" "findByeSources ?c = []"
    unfolding compounds_built(1) find_in_built by simp_all
  have one: "receive_one t t ?c r = r\<lparr>rc_session := snd (handleRtcp t ?c s2), rc_byes := rc_byes r @ fst (handleRtcp t ?c s2)\<rparr>"
    using receive_rtcp [of ?c t t r] compounds_look(1,2) [of packets octets s1] assms(5) by simp
  have s2': "s2' = snd (handleRtcp t ?c s2)" using assms(6) by (simp add: one)
  have mem: "s_lastReceivedSr s2' = \<lparr>rs_ntp = currentSrNtp s1, rs_rtpTs = (if s_hasEmission s1 then s_lastEmissionRtpTs s1 else 0),
        rs_arrivedAt = t, rs_valid = True\<rparr>" "s_srObservedCount s2' = s_srObservedCount s2 + 1"
    "s_ssrc s2' = s_ssrc s2" "s_cname s2' = s_cname s2" "fst (handleRtcp t ?c s2) = []"
    unfolding s2' handleRtcp_def found Let_def by (simp_all add: sr_sent_def)
  have rr: "rr_compound now block s2' = compound
        [buildReceiverReport (s_ssrc s2) [block\<lparr>lsr := toCompact32 (currentSrNtp s1), dlsr := word_of_int ((now - t) * 65536 div 1000000000)\<rparr>],
         buildSourceDescriptionCname (s_ssrc s2) (s_cname s2)]"
    using dlsr_exact [OF assms(7,8)] by (simp add: rr_compound_def mem)
  have wide: "uint (word_of_int n :: u32) = n mod 2 ^ 32" for n by (simp add: uint_word_of_int_eq take_bit_eq_mod)
  have "(now - t) * 65536 div 1000000000 < 2 ^ 32" if "now - t < 65536 * 1000000000"
    using that by (simp add: div_less_iff_less_mult)
  moreover have "0 \<le> (now - t) * 65536 div 1000000000" using assms(7) by (simp add: pos_imp_zdiv_nonneg_iff)
  ultimately have delay: "\<exists>delay. rr_compound now block s2' = compound
        [buildReceiverReport (s_ssrc s2) [block\<lparr>lsr := toCompact32 (currentSrNtp s1), dlsr := delay\<rparr>],
         buildSourceDescriptionCname (s_ssrc s2) (s_cname s2)] \<and>
      uint delay = ((now - t) * 65536 div 1000000000) mod 2 ^ 32 \<and>
      (now - t < 65536 * 1000000000 \<longrightarrow> uint delay = (now - t) * 65536 div 1000000000)"
    using rr wide by (intro exI [of _ "word_of_int ((now - t) * 65536 div 1000000000)"]) simp
  obtain blk where e: "rr_compound now block s2' = compound (map build_packet [RR (s_ssrc s2') [blk], SDES (s_ssrc s2') (s_cname s2')])"
    using compounds_built(2) by blast
  have "handleRtcp any (rr_compound now block s2') s1 = ([], s1)" unfolding handleRtcp_def e find_in_built by simp
  moreover have "handleRtcp any (bye_compound s1) s2 = ([s_ssrc s1], s2)"
    unfolding handleRtcp_def compounds_built(3) find_in_built by simp
  ultimately show ?thesis using sent mem delay one by (simp only: simp_thms) simp
qed

theorem rtcp_report_cycle_witness:
  "rr_compound 3000000000 \<lparr>rb_ssrc = 7, fractionLost = 0, cumulativeLost = 0, extendedHighestSeq = 1, interarrivalJitter = 0, lsr = 0, dlsr = 0\<rparr>
      (rc_session (receive_one 1000000000 1000000000 (sr_compound 1 2 test_session)
        \<lparr>rc_session = new_session 8 (Latin1 []) :: nat session, rc_receivers = [], rc_byes = []\<rparr>)) = compound
        [buildReceiverReport 8 [\<lparr>rb_ssrc = 7, fractionLost = 0, cumulativeLost = 0, extendedHighestSeq = 1, interarrivalJitter = 0,
           lsr = toCompact32 (currentSrNtp test_session), dlsr = 131072\<rparr>], buildSourceDescriptionCname 8 (Latin1 [])]"
proof -
  have t: "s_running test_session" "s_transport test_session" "s_remote test_session = Some 50" by (simp_all add: test_session_def)
  let ?r = "\<lparr>rc_session = new_session 8 (Latin1 []) :: nat session, rc_receivers = [], rc_byes = []\<rparr>"
  let ?block = "\<lparr>rb_ssrc = 7, fractionLost = 0, cumulativeLost = 0, extendedHighestSeq = 1, interarrivalJitter = 0, lsr = 0, dlsr = 0\<rparr>"
  have "\<exists>d. rr_compound 3000000000 ?block (rc_session (receive_one 1000000000 1000000000 (sr_compound 1 2 test_session) ?r)) = compound
        [buildReceiverReport (s_ssrc (rc_session ?r)) [?block\<lparr>lsr := toCompact32 (currentSrNtp test_session), dlsr := d\<rparr>],
         buildSourceDescriptionCname (s_ssrc (rc_session ?r)) (s_cname (rc_session ?r))] \<and> uint d = 131072"
    using rtcp_report_cycle [OF t test_net_ready(1) refl refl, where t = 1000000000 and packets = 1 and octets = 2 and now = 3000000000
        and r = ?r and block = ?block] by auto
  moreover have "d = 131072" if "uint d = 131072" for d :: u32 using that by (simp add: word_uint_eq_iff)
  ultimately show ?thesis by (auto simp: new_session_def)
qed

text \<open>C40: The wall-clock time in a sender's reports is the anchor's plus the media time since then, rounded down to a fraction,
  for the first 2 to the 32 ticks only: after that the reports start again at the anchor, so that a 90 kHz stream that has
  run for 13 hours and 15 minutes tells its receivers a time that far in the past.\<close>

theorem sr_time_starts_again:
  assumes "s_clockRate s \<noteq> 0"
  shows "currentSrNtp (noteRtpEmission (ts + of_nat n) (setRtpAnchor ntp ts s)) =
    from_packed (toUint64 ntp + of_nat ((n mod 2 ^ 32) * 2 ^ 32 div unat (s_clockRate s)))"
proof -
  have "clock_valid (new_clock ntp ts (s_clockRate s))" using assms by (simp add: new_clock_def word_neq_0_conv)
  from toNtp_after [OF this, of n] show ?thesis
    using assms by (simp add: currentSrNtp_def noteRtpEmission_def setRtpAnchor_def new_clock_def)
qed

theorem sr_time_starts_again_witness:
  "currentSrNtp (noteRtpEmission (5 + of_nat (90000 * 47722)) (setRtpAnchor \<lparr>ntp_seconds = 1000, ntp_fraction = 0\<rparr> 5 test_session)) =
    \<lparr>ntp_seconds = 1000, ntp_fraction = 606258494\<rparr>"
proof -
  have "s_clockRate test_session \<noteq> 0" by (simp add: test_session_def new_session_def)
  from sr_time_starts_again [OF this, of 5 "90000 * 47722" "\<lparr>ntp_seconds = 1000, ntp_fraction = 0\<rparr>"] show ?thesis
    by (simp add: test_session_def new_session_def from_packed_def toUint64_def)
qed

end
