(* ===== verification/MpegTs.thy ===== *)
theory MpegTs
  imports Crc
begin

text \<open>
  \<open>src/proav/mpegts.cpp\<close>: the framing primitives of an MPEG-2 transport stream. The five byte time stamps
  and the six byte program clock of a PES header and an adaptation field, the PAT and PMT sections with their
  CRC, the PES header, and the descriptors of a PMT entry. The lemmas show that every reader gives back what its
  writer was given, up to the width of the fields.
\<close>

unbundle bit_operations_syntax

section \<open>Constants and data\<close>

definition PacketSize :: nat where
  "PacketSize = 188"

definition SyncByte :: byte where
  "SyncByte = 0x47"

definition MaxPid :: u16 where
  "MaxPid = 0x1FFF"

definition PidPat :: u16 where
  "PidPat = 0x0000"

definition PidIpmp :: u16 where
  "PidIpmp = 0x0003"

definition PidNull :: u16 where
  "PidNull = 0x1FFF"

lemmas ts_constants = PacketSize_def SyncByte_def MaxPid_def PidPat_def PidIpmp_def PidNull_def

record pmt_stream =
  ps_streamType :: byte
  ps_pid :: u16
  ps_descriptors :: "byte list"

record pes_header =
  ph_streamId :: byte
  ph_pesPacketLength :: u16
  ph_dataAlignmentIndicator :: bool
  ph_hasPts :: bool
  ph_hasDts :: bool
  ph_pts90k :: u64
  ph_dts90k :: u64

record pat_entry =
  pe_programNumber :: u16
  pe_pid :: u16

record parsed_pat =
  pat_transportStreamId :: u16
  pat_versionNumber :: byte
  pat_currentNextIndicator :: bool
  pat_entries :: "pat_entry list"

record parsed_pmt =
  pmt_programNumber :: u16
  pmt_versionNumber :: byte
  pmt_currentNextIndicator :: bool
  pmt_pcrPid :: u16
  pmt_programDescriptors :: "byte list"
  pmt_streams :: "pmt_stream list"

section \<open>Checksum, time stamps and program clock\<close>

definition kPsiCrc32Params :: "32 word crc_params" where
  "kPsiCrc32Params = \<lparr>poly = 0x04C11DB7, init = 0xFFFFFFFF, xorOut = 0, reflect = False\<rparr>"

definition psiCrc32 :: "byte list \<Rightarrow> u32" where
  "psiCrc32 data = compute kPsiCrc32Params data"

definition encodePesPts :: "u64 \<Rightarrow> byte \<Rightarrow> byte list" where
  "encodePesPts value90k prefix =
     (let v = value90k AND 0x1FFFFFFFF in
      [ucast (push_bit 4 (ucast (prefix AND 0x0F)) OR push_bit 1 (drop_bit 30 v AND 0x07) OR (0x01 :: u64)),
       ucast (drop_bit 22 v AND 0xFF),
       ucast (push_bit 1 (drop_bit 15 v AND 0x7F) OR 0x01),
       ucast (drop_bit 7 v AND 0xFF),
       ucast (push_bit 1 (v AND 0x7F) OR 0x01)])"

definition decodePesPts :: "byte list \<Rightarrow> u64" where
  "decodePesPts inp =
     (let hi = drop_bit 1 (ucast (inp ! 0)) AND 0x07; a = ucast (inp ! 1); b = drop_bit 1 (ucast (inp ! 2)) AND 0x7F;
          c = ucast (inp ! 3); d = drop_bit 1 (ucast (inp ! 4)) AND 0x7F
      in push_bit 30 hi OR push_bit 22 a OR push_bit 15 b OR push_bit 7 c OR d)"

definition encodePcr :: "u64 \<Rightarrow> byte list" where
  "encodePcr value27mhz =
     (let base = (value27mhz div 300) AND 0x1FFFFFFFF; ext = value27mhz mod 300 in
      [ucast (drop_bit 25 base AND 0xFF), ucast (drop_bit 17 base AND 0xFF), ucast (drop_bit 9 base AND 0xFF),
       ucast (drop_bit 1 base AND 0xFF),
       ucast (push_bit 7 (base AND 0x01) OR 0x7E OR (drop_bit 8 ext AND 0x01)),
       ucast (ext AND 0xFF)])"

definition decodePcr :: "byte list \<Rightarrow> u64" where
  "decodePcr inp =
     (let base = push_bit 25 (ucast (inp ! 0)) OR push_bit 17 (ucast (inp ! 1)) OR push_bit 9 (ucast (inp ! 2)) OR
            push_bit 1 (ucast (inp ! 3)) OR drop_bit 7 (ucast (inp ! 4));
          ext = push_bit 8 (ucast (inp ! 4) AND 0x01) OR ucast (inp ! 5)
      in base * 300 + ext)"

section \<open>Sections\<close>

definition kSectionLengthPrefix :: u16 where
  "kSectionLengthPrefix = 0xB000"

text \<open>The section bytes are written at fixed offsets of a buffer of the right size; here they are laid end to end.\<close>

definition buildPat :: "u16 \<Rightarrow> u16 \<Rightarrow> u16 \<Rightarrow> byte \<Rightarrow> byte list" where
  "buildPat transportStreamId programNumber pmtPid versionNumber =
     (let sectionLengthValue = 5 + 4 + 4 :: nat;
          body = [0x00] @ be16 (kSectionLengthPrefix OR (of_nat sectionLengthValue AND 0x0FFF)) @
            be16 transportStreamId @ [0xC0 OR push_bit 1 (versionNumber AND 0x1F) OR 0x01, 0x00, 0x00] @
            be16 programNumber @ be16 (0xE000 OR (pmtPid AND 0x1FFF))
      in body @ be32 (psiCrc32 body))"

definition pmt_entry :: "pmt_stream \<Rightarrow> byte list" where
  "pmt_entry s = [ps_streamType s] @ be16 (0xE000 OR (ps_pid s AND 0x1FFF)) @
     be16 (0xF000 OR (of_nat (length (ps_descriptors s)) AND 0x0FFF)) @ ps_descriptors s"

definition buildPmt :: "u16 \<Rightarrow> u16 \<Rightarrow> byte \<Rightarrow> byte list \<Rightarrow> pmt_stream list \<Rightarrow> byte list result" where
  "buildPmt programNumber pcrPid versionNumber programDescriptors streams =
     (if length programDescriptors > 0x3FF then Inl InvalidArgument
      else if \<exists>s\<in>set streams. length (ps_descriptors s) > 0x3FF then Inl InvalidArgument
      else let streamLoopLen = sum_list (map (\<lambda>s. 5 + length (ps_descriptors s)) streams);
               sectionLengthValue = 9 + length programDescriptors + streamLoopLen + 4
           in if sectionLengthValue > 0x3FF then Inl InvalidArgument
              else let body = [0x02] @ be16 (kSectionLengthPrefix OR (of_nat sectionLengthValue AND 0x0FFF)) @
                         be16 programNumber @ [0xC0 OR push_bit 1 (versionNumber AND 0x1F) OR 0x01, 0x00, 0x00] @
                         be16 (0xE000 OR (pcrPid AND 0x1FFF)) @
                         be16 (0xF000 OR (of_nat (length programDescriptors) AND 0x0FFF)) @ programDescriptors @
                         concat (map pmt_entry streams)
                   in Inr (body @ be32 (psiCrc32 body)))"

definition isPsiSectionValid :: "byte list \<Rightarrow> bool" where
  "isPsiSectionValid section =
     (if length section < 8 then False
      else let len = length section
           in psiCrc32 (take (len - 4) section) =
              rd32 (section ! (len - 4)) (section ! (len - 3)) (section ! (len - 2)) (section ! (len - 1)))"

fun pat_loop :: "byte list \<Rightarrow> pat_entry list" where
  "pat_loop (a # b # c # d # rest) = \<lparr>pe_programNumber = rd16 a b, pe_pid = rd16 c d AND 0x1FFF\<rparr> # pat_loop rest"
| "pat_loop _ = []"

definition parsePat :: "byte list \<Rightarrow> parsed_pat result" where
  "parsePat section =
     (let len = length section in
      if len < 12 then Inl InvalidArgument
      else if section ! 0 \<noteq> 0x00 then Inl CorruptData
      else let sectionLen = push_bit 8 (ucast (section ! 1 AND 0x0F)) OR ucast (section ! 2) :: u16 in
        if unat sectionLen + 3 \<noteq> len then Inl CorruptData
        else let loopStart = 8; loopEnd = len - 4 in
          if loopEnd < loopStart then Inl CorruptData
          else Inr \<lparr>pat_transportStreamId = rd16 (section ! 3) (section ! 4),
                    pat_versionNumber = drop_bit 1 (section ! 5) AND 0x1F,
                    pat_currentNextIndicator = (section ! 5 AND 0x01 \<noteq> 0),
                    pat_entries = pat_loop (take (loopEnd - loopStart) (drop loopStart section))\<rparr>)"

text \<open>The loop over the entries of a PMT, on the bytes from \<open>off\<close> to \<open>end\<close>.\<close>

function pmt_loop :: "byte list \<Rightarrow> pmt_stream list result" where
  "pmt_loop bs =
     (if length bs < 5 then Inr []
      else let esInfoLen = unat (rd16 (bs ! 3) (bs ! 4) AND 0x0FFF); rest = drop 5 bs in
        if esInfoLen > length rest then Inl CorruptData
        else case pmt_loop (drop esInfoLen rest) of
            Inl e \<Rightarrow> Inl e
          | Inr ss \<Rightarrow> Inr (\<lparr>ps_streamType = bs ! 0, ps_pid = rd16 (bs ! 1) (bs ! 2) AND 0x1FFF,
                            ps_descriptors = take esInfoLen rest\<rparr> # ss))"
  by auto
termination by (relation "measure length") auto

declare pmt_loop.simps [simp del]

definition parsePmt :: "byte list \<Rightarrow> parsed_pmt result" where
  "parsePmt section =
     (let len = length section in
      if len < 16 then Inl InvalidArgument
      else if section ! 0 \<noteq> 0x02 then Inl CorruptData
      else let sectionLen = push_bit 8 (ucast (section ! 1 AND 0x0F)) OR ucast (section ! 2) :: u16 in
        if unat sectionLen + 3 \<noteq> len then Inl CorruptData
        else let programInfoLen = unat (rd16 (section ! 10) (section ! 11) AND 0x0FFF); off = 12 in
          if off + programInfoLen > len - 4 then Inl CorruptData
          else case pmt_loop (drop (off + programInfoLen) (take (len - 4) section)) of
              Inl e \<Rightarrow> Inl e
            | Inr ss \<Rightarrow> Inr \<lparr>pmt_programNumber = rd16 (section ! 3) (section ! 4),
                            pmt_versionNumber = drop_bit 1 (section ! 5) AND 0x1F,
                            pmt_currentNextIndicator = (section ! 5 AND 0x01 \<noteq> 0),
                            pmt_pcrPid = rd16 (section ! 8) (section ! 9) AND 0x1FFF,
                            pmt_programDescriptors = take programInfoLen (drop off section), pmt_streams = ss\<rparr>)"

section \<open>The PES header\<close>

definition pesHeaderSize :: "pes_header \<Rightarrow> nat" where
  "pesHeaderSize h = 9 + (if ph_hasPts h then 5 else 0) + (if ph_hasDts h then 5 else 0)"

text \<open>\<open>writePesHeader\<close> writes over the front of \<open>out\<close>; what it does not write keeps its value.\<close>

definition writePesHeader :: "pes_header \<Rightarrow> byte list \<Rightarrow> byte list" where
  "writePesHeader h out =
     (let headerSize = pesHeaderSize h; pesHeaderDataLength = headerSize - 9;
          ptsDtsFlags = (if ph_hasPts h \<and> ph_hasDts h then 0xC0 else if ph_hasPts h then 0x80 else 0 :: byte);
          bytes = [0x00, 0x00, 0x01, ph_streamId h] @ be16 (ph_pesPacketLength h) @
            [0x80 OR (if ph_dataAlignmentIndicator h then 0x04 else 0x00), ptsDtsFlags,
             of_nat pesHeaderDataLength AND 0xFF] @
            (if ph_hasPts h \<and> ph_hasDts h then encodePesPts (ph_pts90k h) 0x3 @ encodePesPts (ph_dts90k h) 0x1
             else if ph_hasPts h then encodePesPts (ph_pts90k h) 0x2 else [])
      in bytes @ drop (length bytes) out)"

definition readPesHeader :: "byte list \<Rightarrow> (pes_header \<times> nat) result" where
  "readPesHeader inp =
     (let len = length inp in
      if len < 9 then Inl InvalidArgument
      else if inp ! 0 \<noteq> 0x00 \<or> inp ! 1 \<noteq> 0x00 \<or> inp ! 2 \<noteq> 0x01 then Inl CorruptData
      else let flags1 = inp ! 6; flags2 = inp ! 7; pesHdrDataLen = unat (inp ! 8) in
        if 9 + pesHdrDataLen > len then Inl CorruptData
        else let ptsDtsFlags = drop_bit 6 flags2 AND 0x03; hasPts = (ptsDtsFlags AND 0x02 \<noteq> 0);
                 hasDts = (ptsDtsFlags = 0x03); dtsPos = (if hasPts then 14 else 9) in
          if hasPts \<and> 9 + 5 > len then Inl CorruptData
          else if hasDts \<and> dtsPos + 5 > len then Inl CorruptData
          else Inr (\<lparr>ph_streamId = inp ! 3, ph_pesPacketLength = rd16 (inp ! 4) (inp ! 5),
                     ph_dataAlignmentIndicator = (flags1 AND 0x04 \<noteq> 0), ph_hasPts = hasPts, ph_hasDts = hasDts,
                     ph_pts90k = (if hasPts then decodePesPts (drop 9 inp) else 0),
                     ph_dts90k = (if hasDts then decodePesPts (drop dtsPos inp) else 0)\<rparr>, 9 + pesHdrDataLen))"

section \<open>Descriptors\<close>

definition DescriptorTagRegistration :: byte where
  "DescriptorTagRegistration = 0x05"

definition buildRegistrationDescriptor :: "u32 \<Rightarrow> byte list" where
  "buildRegistrationDescriptor formatIdentifier =
     [DescriptorTagRegistration, 4, ucast (drop_bit 24 formatIdentifier AND 0xFF),
      ucast (drop_bit 16 formatIdentifier AND 0xFF), ucast (drop_bit 8 formatIdentifier AND 0xFF),
      ucast (formatIdentifier AND 0xFF)]"

definition buildOpusExtensionDescriptor :: "u32 \<Rightarrow> byte list result" where
  "buildOpusExtensionDescriptor channels =
     (if channels < 1 \<or> channels > 8 then Inl InvalidArgument
      else Inr [0x7F, 2, 0x80, ucast (channels AND 0xFF)])"

definition buildAv1VideoDescriptor :: "byte list" where
  "buildAv1VideoDescriptor = [0x80, 4, 0x01, 0x00, 0x03, 0x00]"

text \<open>
  The fields take 25 bytes of a buffer of 26: the last byte is the one the allocator left there, \<open>fill\<close>.
\<close>

definition buildJpegXsVideoDescriptor :: "u16 \<Rightarrow> u16 \<Rightarrow> u32 \<Rightarrow> u32 \<Rightarrow> byte \<Rightarrow> byte list" where
  "buildJpegXsVideoDescriptor width height frameRateNum frameRateDen fill =
     (let frat = (if frameRateNum > 0 \<and> frameRateDen > 0
            then let den = (if frameRateDen > 0xFF then 0xFF else frameRateDen);
                     num = (if frameRateNum > 0xFFFF then 0xFFFF else frameRateNum)
                 in push_bit 16 den OR num
            else 0)
      in [0x32, 24, 0x00] @ be16 width @ be16 height @ replicate 4 0 @ be32 frat @ [0, 0, 0, 0, 0, 0] @ replicate 4 0 @ [fill])"

text \<open>The scan over the descriptors, on the bytes from \<open>off\<close> on.\<close>

function find_registration :: "byte list \<Rightarrow> u32 result" where
  "find_registration p =
     (if length p < 2 then Inl NotFound
      else let tag = p ! 0; descLen = unat (p ! 1) in
        if 2 + descLen > length p then Inl CorruptData
        else if tag = DescriptorTagRegistration \<and> descLen \<ge> 4
        then Inr (push_bit 24 (ucast (p ! 2)) OR push_bit 16 (ucast (p ! 3)) OR push_bit 8 (ucast (p ! 4)) OR ucast (p ! 5))
        else find_registration (drop (2 + descLen) p))"
  by auto
termination by (relation "measure length") auto

declare find_registration.simps [simp del]

definition findRegistrationDescriptor :: "byte list \<Rightarrow> u32 result" where
  "findRegistrationDescriptor descriptors =
     (if descriptors = [] then Inl NotFound else find_registration descriptors)"

section \<open>Readers after writers\<close>

text \<open>The masks of the code keep low bits.\<close>

lemma low_masks:
  fixes x :: "'a::len word"
  shows "x AND 0x01 = take_bit 1 x" "x AND 0x03 = take_bit 2 x" "x AND 0x07 = take_bit 3 x" "x AND 0x0F = take_bit 4 x"
    "x AND 0x1F = take_bit 5 x" "x AND 0x7F = take_bit 7 x" "x AND 0xFF = take_bit 8 x" "x AND 0x0FFF = take_bit 12 x"
    "x AND 0x1FFF = take_bit 13 x" "x AND 0x1FFFFFFFF = take_bit 33 x"
  by (simp_all add: take_bit_eq_mask mask_eq_exp_minus_1)

lemma length_stamps [simp]: "length (encodePesPts v p) = 5" "length (encodePcr v) = 6"
  by (simp_all add: encodePesPts_def encodePcr_def Let_def)

lemma bit_byte_of_one: "bit (0x01 :: byte) n \<longleftrightarrow> n = 0" "bit (0x01 :: u64) n \<longleftrightarrow> n = 0"
  by (simp_all add: bit_1_iff)

lemma bit_twice: "bit (x * 2) n \<longleftrightarrow> 0 < n \<and> n < LENGTH('a) \<and> bit x (n - 1)" for x :: "'a::len word"
  using bit_double_iff [of x n] by (auto simp: mult.commute)

lemma stamp_index_cases:
  fixes n :: nat
  assumes "n < 64"
  obtains "n < 7" | "7 \<le> n" "n < 15" | "15 \<le> n" "n < 22" | "22 \<le> n" "n < 30" | "30 \<le> n" "n < 33" | "33 \<le> n" "n < 64"
  using assms by linarith

lemma decode_stamp: "decodePesPts (encodePesPts v p @ rest) = take_bit 33 v"
proof (rule bit_word_eqI)
  fix n assume "n < LENGTH(64)"
  then have "n < 64" by simp
  then show "bit (decodePesPts (encodePesPts v p @ rest)) n \<longleftrightarrow> bit (take_bit 33 v) n"
    by (cases rule: stamp_index_cases)
      (auto simp: decodePesPts_def encodePesPts_def Let_def low_masks bit_simps bit_byte_of_one bit_twice)
qed


text \<open>Bits of compound words, without the arithmetic rewriting of shifts by one.\<close>

lemmas bits_only = bit_or_iff bit_and_iff bit_push_bit_iff bit_drop_bit_eq bit_ucast_iff bit_take_bit_iff bit_1_iff
  possible_bit_word o_def

lemma bit_0x7E: "bit (0x7E :: u64) n \<longleftrightarrow> 0 < n \<and> n < 7"
proof -
  have "(0x7E :: u64) = push_bit 1 (mask 6)" by (simp add: mask_eq_exp_minus_1 push_bit_eq_mult)
  then show ?thesis by (simp only: bit_push_bit_iff bit_mask_iff) auto
qed

lemma pcr_base_parts: "push_bit 25 (ucast (ucast (drop_bit 25 b AND 0xFF :: u64) :: byte)) OR
    push_bit 17 (ucast (ucast (drop_bit 17 b AND 0xFF) :: byte)) OR
    push_bit 9 (ucast (ucast (drop_bit 9 b AND 0xFF) :: byte)) OR
    push_bit 1 (ucast (ucast (drop_bit 1 b AND 0xFF) :: byte)) OR
    drop_bit 7 (ucast (ucast (push_bit 7 (b AND 0x01) OR 0x7E OR (drop_bit 8 e AND 0x01)) :: byte)) = take_bit 33 b"
  for b e :: u64
proof (rule bit_word_eqI)
  fix n assume "n < LENGTH(64)"
  then have "n = 0 \<or> (1 \<le> n \<and> n < 9) \<or> (9 \<le> n \<and> n < 17) \<or> (17 \<le> n \<and> n < 25) \<or> (25 \<le> n \<and> n < 33) \<or> (33 \<le> n \<and> n < 64)"
    by simp linarith
  then show "bit (push_bit 25 (ucast (ucast (drop_bit 25 b AND 0xFF :: u64) :: byte)) OR
    push_bit 17 (ucast (ucast (drop_bit 17 b AND 0xFF) :: byte)) OR
    push_bit 9 (ucast (ucast (drop_bit 9 b AND 0xFF) :: byte)) OR
    push_bit 1 (ucast (ucast (drop_bit 1 b AND 0xFF) :: byte)) OR
    drop_bit 7 (ucast (ucast (push_bit 7 (b AND 0x01) OR 0x7E OR (drop_bit 8 e AND 0x01)) :: byte)) :: u64) n \<longleftrightarrow> bit (take_bit 33 b) n"
    unfolding low_masks(7,10) bits_only bit_0x7E by (elim disjE) auto
qed


lemma pcr_ext_parts: "push_bit 8 (ucast (ucast (push_bit 7 (b AND 0x01) OR 0x7E OR (drop_bit 8 e AND 0x01)) :: byte) AND 0x01) OR
    ucast (ucast (e AND 0xFF) :: byte) = take_bit 9 e"
  for b e :: u64
proof (rule bit_word_eqI)
  fix n assume "n < LENGTH(64)"
  then have "n < 8 \<or> n = 8 \<or> (9 \<le> n \<and> n < 64)"
    by simp linarith
  then show "bit (push_bit 8 (ucast (ucast (push_bit 7 (b AND 0x01) OR 0x7E OR (drop_bit 8 e AND 0x01)) :: byte) AND 0x01) OR
    ucast (ucast (e AND 0xFF) :: byte) :: u64) n \<longleftrightarrow> bit (take_bit 9 e) n"
    unfolding low_masks(7,10) bits_only bit_0x7E by (elim disjE) auto
qed

lemma take_bit_small: "unat w < 2 ^ k \<Longrightarrow> take_bit k w = w"
  by (simp add: word_unat_eq_iff unsigned_take_bit_eq take_bit_nat_eq_self)

lemma decode_pcr_bytes: "decodePcr ([ucast (drop_bit 25 b AND 0xFF), ucast (drop_bit 17 b AND 0xFF), ucast (drop_bit 9 b AND 0xFF),
    ucast (drop_bit 1 b AND 0xFF), ucast (push_bit 7 (b AND 0x01) OR 0x7E OR (drop_bit 8 e AND 0x01)), ucast (e AND 0xFF)] @ rest) =
    take_bit 33 b * 300 + take_bit 9 e"
proof -
  have at: "([x0, x1, x2, x3, x4, x5] @ rest) ! 0 = x0" "([x0, x1, x2, x3, x4, x5] @ rest) ! 1 = x1"
    "([x0, x1, x2, x3, x4, x5] @ rest) ! 2 = x2" "([x0, x1, x2, x3, x4, x5] @ rest) ! 3 = x3"
    "([x0, x1, x2, x3, x4, x5] @ rest) ! 4 = x4" "([x0, x1, x2, x3, x4, x5] @ rest) ! 5 = x5" for x0 x1 x2 x3 x4 x5 :: byte
    by simp_all
  show ?thesis unfolding decodePcr_def Let_def at pcr_base_parts pcr_ext_parts ..
qed

text \<open>A program clock below its range is read back exactly, whatever follows it.\<close>

lemma decode_pcr:
  assumes "unat v < 2 ^ 33 * 300"
  shows "decodePcr (encodePcr v @ rest) = v"
proof -
  have "unat (v div 300) < 2 ^ 33" using assms by (simp add: unat_div less_mult_imp_div_less)
  then have base: "take_bit 33 (v div 300) = v div 300" by (simp add: take_bit_small)
  have "unat (v mod 300) < 300" by (simp add: unat_mod)
  then have ext: "take_bit 9 (v mod 300) = v mod 300" by (simp add: take_bit_small)
  have "decodePcr (encodePcr v @ rest) = take_bit 33 (take_bit 33 (v div 300)) * 300 + take_bit 9 (v mod 300)"
    unfolding encodePcr_def Let_def decode_pcr_bytes low_masks(10) ..
  also have "\<dots> = v" by (simp only: base ext div_mult_mod_eq)
  finally show ?thesis .
qed

section \<open>Lengths and PIDs on the wire\<close>

lemma bit_prefixes:
  "bit (0xB000 :: u16) k \<longleftrightarrow> k = 15 \<or> k = 13 \<or> k = 12" "bit (0xE000 :: u16) k \<longleftrightarrow> 13 \<le> k \<and> k < 16"
  "bit (0xF000 :: u16) k \<longleftrightarrow> 12 \<le> k \<and> k < 16"
proof -
  have "(0xB000 :: u16) = push_bit 12 (push_bit 3 1 OR mask 2)" "(0xE000 :: u16) = push_bit 13 (mask 3)"
    "(0xF000 :: u16) = push_bit 12 (mask 4)" by (simp_all add: mask_eq_exp_minus_1 push_bit_eq_mult)
  then show "bit (0xB000 :: u16) k \<longleftrightarrow> k = 15 \<or> k = 13 \<or> k = 12" "bit (0xE000 :: u16) k \<longleftrightarrow> 13 \<le> k \<and> k < 16"
    "bit (0xF000 :: u16) k \<longleftrightarrow> 12 \<le> k \<and> k < 16"
    by (simp_all only: bit_push_bit_iff bit_mask_iff bit_or_iff bit_1_iff) auto
qed

lemma section_length_field:
  fixes n :: u16
  shows "push_bit 8 (ucast ((ucast (drop_bit 8 (0xB000 OR take_bit 12 n)) :: byte) AND 0x0F)) OR
    (ucast (ucast (0xB000 OR take_bit 12 n) :: byte) :: u16) = take_bit 12 n"
proof (rule bit_word_eqI)
  fix k assume "k < LENGTH(16)"
  then have "k < 8 \<or> (8 \<le> k \<and> k < 12) \<or> (12 \<le> k \<and> k < 16)" by simp linarith
  then show "bit (push_bit 8 (ucast ((ucast (drop_bit 8 (0xB000 OR take_bit 12 n)) :: byte) AND 0x0F)) OR
    (ucast (ucast (0xB000 OR take_bit 12 n) :: byte) :: u16)) k \<longleftrightarrow> bit (take_bit 12 n) k"
    unfolding low_masks(4) bits_only bit_prefixes by (elim disjE) auto
qed

lemma field13: "(0xE000 OR take_bit 13 p) AND 0x1FFF = take_bit 13 p" for p :: u16
  by (rule bit_word_eqI) (auto simp: low_masks bits_only bit_prefixes)

lemma field12: "(0xF000 OR take_bit 12 p) AND 0x0FFF = take_bit 12 p" for p :: u16
  by (rule bit_word_eqI) (auto simp: low_masks bits_only bit_prefixes)

lemma version_field: "drop_bit 1 (0xC0 OR push_bit 1 (v AND 0x1F) OR 0x01) AND 0x1F = v AND 0x1F"
  "(0xC0 OR push_bit 1 (v AND 0x1F) OR 0x01) AND 0x01 = (1 :: byte)" for v :: byte
proof -
  show "drop_bit 1 (0xC0 OR push_bit 1 (v AND 0x1F) OR 0x01) AND 0x1F = v AND 0x1F"
    by (rule bit_byte_eqI; simp add: low_masks bit_simps bit_twice numeral_2_eq_2)
  show "(0xC0 OR push_bit 1 (v AND 0x1F) OR 0x01) AND 0x01 = (1 :: byte)"
    by (rule bit_byte_eqI; simp add: low_masks bit_simps bit_twice numeral_2_eq_2)
qed


lemma take_of_nat_u16: "n < 2 ^ k \<Longrightarrow> n < 65536 \<Longrightarrow> take_bit k (of_nat n :: u16) = of_nat n"
  by (rule take_bit_small) (simp add: unat_of_nat)

lemma rd16_be16: "rd16 (be16 w ! 0) (be16 w ! Suc 0) = w"
  by (simp add: be16_def rd16_split)

section \<open>Sections read back\<close>

text \<open>A section is a body and its checksum; the checksum holds whatever the body.\<close>

lemma section_valid: "4 \<le> length body \<Longrightarrow> isPsiSectionValid (body @ be32 (psiCrc32 body))"
  by (simp add: isPsiSectionValid_def Let_def nth_append be32_def rd32_split)

lemma buildPat_shape: "buildPat tsid prog pmt v = [0x00, ucast (drop_bit 8 (0xB000 OR take_bit 12 13 :: u16)), ucast (0xB000 OR take_bit 12 13 :: u16),
    ucast (drop_bit 8 tsid), ucast tsid, 0xC0 OR push_bit 1 (v AND 0x1F) OR 0x01, 0x00, 0x00,
    ucast (drop_bit 8 prog), ucast prog, ucast (drop_bit 8 (0xE000 OR (pmt AND 0x1FFF))), ucast (0xE000 OR (pmt AND 0x1FFF))] @
    be32 (psiCrc32 (take 12 (buildPat tsid prog pmt v)))"
  by (simp add: buildPat_def Let_def be16_def kSectionLengthPrefix_def low_masks)

lemma parse_pat_bytes:
  assumes "unat (push_bit 8 (ucast (l1 AND 0x0F)) OR ucast l2 :: u16) = 13"
  shows "parsePat ([0x00, l1, l2, t1, t2, v, n, m, p1, p2, q1, q2] @ be32 c) =
    Inr \<lparr>pat_transportStreamId = rd16 t1 t2, pat_versionNumber = drop_bit 1 v AND 0x1F,
      pat_currentNextIndicator = (v AND 0x01 \<noteq> 0),
      pat_entries = [\<lparr>pe_programNumber = rd16 p1 p2, pe_pid = rd16 q1 q2 AND 0x1FFF\<rparr>]\<rparr>"
  using assms by (simp add: parsePat_def Let_def del: One_nat_def)

lemma pat_read_back:
  "isPsiSectionValid (buildPat tsid prog pmt v)"
  "parsePat (buildPat tsid prog pmt v) = Inr \<lparr>pat_transportStreamId = tsid, pat_versionNumber = v AND 0x1F,
     pat_currentNextIndicator = True, pat_entries = [\<lparr>pe_programNumber = prog, pe_pid = pmt AND 0x1FFF\<rparr>]\<rparr>"
proof -
  show "isPsiSectionValid (buildPat tsid prog pmt v)"
    unfolding buildPat_def Let_def by (rule section_valid) simp
  have pid: "(0xE000 OR (pmt AND 0x1FFF)) AND 0x1FFF = pmt AND 0x1FFF" using field13 [of pmt] by (simp only: low_masks)
  have one: "(1 :: byte) \<noteq> 0" by simp
  have thirteen: "unat (take_bit 12 13 :: u16) = 13" by simp
  show "parsePat (buildPat tsid prog pmt v) = Inr \<lparr>pat_transportStreamId = tsid, pat_versionNumber = v AND 0x1F,
     pat_currentNextIndicator = True, pat_entries = [\<lparr>pe_programNumber = prog, pe_pid = pmt AND 0x1FFF\<rparr>]\<rparr>"
    by (subst buildPat_shape, subst parse_pat_bytes)
      (simp_all only: section_length_field thirteen version_field rd16_split pid one not_False_eq_True simp_thms)
qed

text \<open>An entry of the PMT, and the stream it is read back as.\<close>

definition on_13_bits :: "pmt_stream \<Rightarrow> pmt_stream" where
  "on_13_bits s = s\<lparr>ps_pid := ps_pid s AND 0x1FFF\<rparr>"

lemma unat_field12: "n < 4096 \<Longrightarrow> unat ((0xF000 OR (of_nat n AND 0x0FFF)) AND 0x0FFF :: u16) = n"
  using field12 [of "of_nat n"] take_of_nat_u16 [of n 12] by (simp add: low_masks unat_of_nat)

lemma pmt_entry_shape: "pmt_entry s = [ps_streamType s, ucast (drop_bit 8 (0xE000 OR (ps_pid s AND 0x1FFF))),
    ucast (0xE000 OR (ps_pid s AND 0x1FFF)), ucast (drop_bit 8 (0xF000 OR (of_nat (length (ps_descriptors s)) AND 0x0FFF :: u16))),
    ucast (0xF000 OR (of_nat (length (ps_descriptors s)) AND 0x0FFF :: u16))] @ ps_descriptors s"
  by (simp add: pmt_entry_def be16_def)

lemma pmt_loop_step:
  "pmt_loop ([t, a, b, c, e] @ rest) =
     (let n = unat (rd16 c e AND 0x0FFF) in
      if n > length rest then Inl CorruptData
      else case pmt_loop (drop n rest) of
          Inl e \<Rightarrow> Inl e
        | Inr ss \<Rightarrow> Inr (\<lparr>ps_streamType = t, ps_pid = rd16 a b AND 0x1FFF, ps_descriptors = take n rest\<rparr> # ss))"
  by (subst pmt_loop.simps) (simp add: Let_def split: sum.split)

lemma pmt_loop_entries:
  assumes "\<forall>s\<in>set ss. length (ps_descriptors s) \<le> 0x3FF"
  shows "pmt_loop (concat (map pmt_entry ss)) = Inr (map on_13_bits ss)"
  using assms
proof (induction ss)
  case Nil
  then show ?case by (simp add: pmt_loop.simps)
next
  case (Cons s ss)
  then have n: "length (ps_descriptors s) < 4096" by simp
  have pid: "(0xE000 OR (ps_pid s AND 0x1FFF)) AND 0x1FFF = ps_pid s AND 0x1FFF"
    using field13 [of "ps_pid s"] by (simp only: low_masks)
  have "pmt_loop (pmt_entry s @ rest) = (case pmt_loop rest of Inl e \<Rightarrow> Inl e | Inr ss \<Rightarrow> Inr (on_13_bits s # ss))" for rest
    unfolding pmt_entry_shape append_assoc pmt_loop_step rd16_split pid Let_def unat_field12 [OF n]
    by (simp add: on_13_bits_def split: sum.split)
  then show ?case using Cons by simp
qed

lemma length_pmt_entries: "length (concat (map pmt_entry ss)) = sum_list (map (\<lambda>s. 5 + length (ps_descriptors s)) ss)"
  by (induction ss) (simp_all add: pmt_entry_def)

lemma parse_pmt_bytes:
  assumes "unat (push_bit 8 (ucast (l1 AND 0x0F)) OR ucast l2 :: u16) = 13 + length es"
    and "unat (rd16 i1 i2 AND 0x0FFF) = 0" and "pmt_loop es = Inr ss"
  shows "parsePmt ([0x02, l1, l2, p1, p2, v, n, m, c1, c2, i1, i2] @ es @ be32 c) =
    Inr \<lparr>pmt_programNumber = rd16 p1 p2, pmt_versionNumber = drop_bit 1 v AND 0x1F,
      pmt_currentNextIndicator = (v AND 0x01 \<noteq> 0), pmt_pcrPid = rd16 c1 c2 AND 0x1FFF,
      pmt_programDescriptors = [], pmt_streams = ss\<rparr>"
proof -
  let ?s = "[0x02, l1, l2, p1, p2, v, n, m, c1, c2, i1, i2] @ es @ be32 c"
  have len: "length ?s = 16 + length es" by simp
  have at: "?s ! 0 = 0x02" "?s ! 1 = l1" "?s ! 2 = l2" "?s ! 3 = p1" "?s ! 4 = p2" "?s ! 5 = v" "?s ! 8 = c1" "?s ! 9 = c2"
    "?s ! 10 = i1" "?s ! 11 = i2" by simp_all
  have "drop 12 (take (16 + length es - 4) (h @ es @ be32 c)) = es" if "length h = 12" for h using that by simp
  from this [of "[0x02, l1, l2, p1, p2, v, n, m, c1, c2, i1, i2]"] have body: "drop 12 (take (16 + length es - 4) ?s) = es"
    by (simp only: list.size)
  show ?thesis
    unfolding parsePmt_def Let_def len at assms(1,2) using assms(3) by (simp only: body add_0_right) simp
qed

lemma buildPmt_shape:
  assumes "buildPmt prog pcr v [] ss = Inr sec"
  defines "n \<equiv> of_nat (13 + length (concat (map pmt_entry ss))) :: u16"
  shows "sec = [0x02, ucast (drop_bit 8 (0xB000 OR take_bit 12 n)), ucast (0xB000 OR take_bit 12 n), ucast (drop_bit 8 prog), ucast prog,
      0xC0 OR push_bit 1 (v AND 0x1F) OR 0x01, 0x00, 0x00, ucast (drop_bit 8 (0xE000 OR (pcr AND 0x1FFF))),
      ucast (0xE000 OR (pcr AND 0x1FFF)), ucast (drop_bit 8 (0xF000 OR (of_nat 0 AND 0x0FFF) :: u16)), ucast (0xF000 OR (of_nat 0 AND 0x0FFF) :: u16)] @
      concat (map pmt_entry ss) @ be32 (psiCrc32 (take (length sec - 4) sec))"
    and "\<forall>s\<in>set ss. length (ps_descriptors s) \<le> 0x3FF" and "13 + length (concat (map pmt_entry ss)) \<le> 0x3FF"
proof -
  have ok: "\<forall>s\<in>set ss. length (ps_descriptors s) \<le> 0x3FF" "13 + length (concat (map pmt_entry ss)) \<le> 0x3FF"
    using assms(1) unfolding length_pmt_entries by (auto simp: buildPmt_def Let_def split: if_splits)
  then show "\<forall>s\<in>set ss. length (ps_descriptors s) \<le> 0x3FF" "13 + length (concat (map pmt_entry ss)) \<le> 0x3FF" by blast+
  define body where "body = [0x02] @ be16 (0xB000 OR (n AND 0x0FFF)) @ be16 prog @ [0xC0 OR push_bit 1 (v AND 0x1F) OR 0x01, 0x00, 0x00] @
    be16 (0xE000 OR (pcr AND 0x1FFF)) @ be16 (0xF000 OR (of_nat 0 AND 0x0FFF)) @ concat (map pmt_entry ss)"
  have sum: "9 + sum_list (map (\<lambda>s. 5 + length (ps_descriptors s)) ss) + 4 = 13 + length (concat (map pmt_entry ss))"
    unfolding length_pmt_entries by simp
  have sec: "sec = body @ be32 (psiCrc32 body)"
    using assms(1) sum unfolding buildPmt_def Let_def kSectionLengthPrefix_def
    by (simp add: body_def n_def split: if_splits)
  then have take: "take (length sec - 4) sec = body" by simp
  show "sec = [0x02, ucast (drop_bit 8 (0xB000 OR take_bit 12 n)), ucast (0xB000 OR take_bit 12 n), ucast (drop_bit 8 prog), ucast prog,
      0xC0 OR push_bit 1 (v AND 0x1F) OR 0x01, 0x00, 0x00, ucast (drop_bit 8 (0xE000 OR (pcr AND 0x1FFF))),
      ucast (0xE000 OR (pcr AND 0x1FFF)), ucast (drop_bit 8 (0xF000 OR (of_nat 0 AND 0x0FFF) :: u16)), ucast (0xF000 OR (of_nat 0 AND 0x0FFF) :: u16)] @
      concat (map pmt_entry ss) @ be32 (psiCrc32 (take (length sec - 4) sec))"
    unfolding take by (subst sec) (simp only: body_def be16_def low_masks append_Cons append_Nil append_assoc)
qed

text \<open>A PMT that can be built is valid and is read back stream by stream.\<close>

lemma pmt_read_back:
  assumes "buildPmt prog pcr v [] ss = Inr sec"
  shows "isPsiSectionValid sec" and "parsePmt sec = Inr \<lparr>pmt_programNumber = prog, pmt_versionNumber = v AND 0x1F,
    pmt_currentNextIndicator = True, pmt_pcrPid = pcr AND 0x1FFF, pmt_programDescriptors = [],
    pmt_streams = map on_13_bits ss\<rparr>" and "sec ! 0 = 0x02" and "16 \<le> length sec" and "length sec \<le> 1026"
    and "length sec = unat (push_bit 8 (ucast (sec ! 1 AND 0x0F)) OR ucast (sec ! 2) :: u16) + 3"
proof -
  note shape = buildPmt_shape [OF assms]
  define n where "n = (of_nat (13 + length (concat (map pmt_entry ss))) :: u16)"
  define c where "c = psiCrc32 (take (length sec - 4) sec)"
  have n: "unat (take_bit 12 n) = 13 + length (concat (map pmt_entry ss))"
    using take_of_nat_u16 [of "13 + length (concat (map pmt_entry ss))" 12] shape(3)
    unfolding n_def by (simp del: of_nat_add add: unsigned_of_nat take_bit_nat_eq_self)
  note sec = shape(1) [folded n_def c_def]
  have len: "length sec = length (concat (map pmt_entry ss)) + 16" by (subst sec) simp
  obtain h where h: "sec = h @ concat (map pmt_entry ss) @ be32 c" "length h = 12" by (rule that [OF sec]) simp
  have "drop (length sec - 4) sec = be32 c" unfolding len using h by simp
  then have "sec = take (length sec - 4) sec @ be32 (psiCrc32 (take (length sec - 4) sec))"
    using append_take_drop_id [of "length sec - 4" sec] by (simp only: c_def)
  moreover have "isPsiSectionValid (take (length sec - 4) sec @ be32 (psiCrc32 (take (length sec - 4) sec)))"
    using len by (intro section_valid) simp
  ultimately show "isPsiSectionValid sec" by simp
  have pid: "(0xE000 OR (pcr AND 0x1FFF)) AND 0x1FFF = pcr AND 0x1FFF" using field13 [of pcr] by (simp only: low_masks)
  have one: "(1 :: byte) \<noteq> 0" by simp
  show "parsePmt sec = Inr \<lparr>pmt_programNumber = prog, pmt_versionNumber = v AND 0x1F,
    pmt_currentNextIndicator = True, pmt_pcrPid = pcr AND 0x1FFF, pmt_programDescriptors = [],
    pmt_streams = map on_13_bits ss\<rparr>"
    by (subst sec, subst parse_pmt_bytes [OF _ _ pmt_loop_entries [OF shape(2)]])
      (simp_all only: section_length_field n version_field rd16_split pid one not_False_eq_True simp_thms unat_field12)
  have "sec ! 1 = ucast (drop_bit 8 (0xB000 OR take_bit 12 n))" "sec ! 2 = ucast (0xB000 OR take_bit 12 n)"
    by (subst sec, simp)+
  then show "16 \<le> length sec" "length sec \<le> 1026" "length sec = unat (push_bit 8 (ucast (sec ! 1 AND 0x0F)) OR ucast (sec ! 2) :: u16) + 3"
    using shape(3) n len by (simp_all only: section_length_field)
  show "sec ! 0 = 0x02" by (subst sec) simp
qed

section \<open>The PES header read back\<close>

definition stamps_on_33_bits :: "pes_header \<Rightarrow> pes_header" where
  "stamps_on_33_bits h = h\<lparr>ph_pts90k := (if ph_hasPts h then take_bit 33 (ph_pts90k h) else 0),
     ph_dts90k := (if ph_hasDts h then take_bit 33 (ph_dts90k h) else 0)\<rparr>"

lemma length_writePesHeader:
  assumes "ph_hasDts h \<Longrightarrow> ph_hasPts h" "length out = pesHeaderSize h"
  shows "length (writePesHeader h out) = pesHeaderSize h"
  using assms by (simp add: writePesHeader_def Let_def pesHeaderSize_def)

lemma pes_flag_bytes:
  "drop_bit 6 (0xC0 :: byte) AND 0x03 = 0x03" "drop_bit 6 (0x80 :: byte) AND 0x03 = 0x02" "drop_bit 6 (0 :: byte) AND 0x03 = 0"
  "(0x80 OR 0x04) AND 0x04 \<noteq> (0 :: byte)" "(0x80 OR 0) AND 0x04 = (0 :: byte)"
  by simp_all

lemma pes_header_read_back:
  assumes "ph_hasDts h \<Longrightarrow> ph_hasPts h" "length out = pesHeaderSize h"
  shows "readPesHeader (writePesHeader h out @ payload) = Inr (stamps_on_33_bits h, pesHeaderSize h)"
proof (cases "ph_hasPts h")
  case pts: True
  show ?thesis
  proof (cases "ph_hasDts h")
    case True
    then show ?thesis using pts assms decode_stamp [of "ph_pts90k h" 3 "encodePesPts (ph_dts90k h) 1 @ payload"]
      decode_stamp [of "ph_dts90k h" 1 payload]
      by (cases h) (simp add: writePesHeader_def readPesHeader_def Let_def pesHeaderSize_def stamps_on_33_bits_def be16_def rd16_split)
  next
    case False
    then show ?thesis using pts assms decode_stamp [of "ph_pts90k h" 2 payload]
      by (cases h) (simp add: writePesHeader_def readPesHeader_def Let_def pesHeaderSize_def stamps_on_33_bits_def be16_def rd16_split)
  qed
next
  case False
  then have "\<not> ph_hasDts h" using assms(1) by blast
  with False assms(2) show ?thesis
    by (cases h) (simp add: writePesHeader_def readPesHeader_def Let_def pesHeaderSize_def stamps_on_33_bits_def be16_def rd16_split)
qed

section \<open>Descriptors found again\<close>

lemma find_registration_built: "find_registration (buildRegistrationDescriptor f @ rest) = Inr f"
proof -
  have "push_bit 24 (ucast (ucast (drop_bit 24 f AND 0xFF :: u32) :: byte)) OR push_bit 16 (ucast (ucast (drop_bit 16 f AND 0xFF) :: byte)) OR
      push_bit 8 (ucast (ucast (drop_bit 8 f AND 0xFF) :: byte)) OR (ucast (ucast (f AND 0xFF) :: byte) :: u32) = f"
  proof (rule bit_word_eqI)
    fix n assume "n < LENGTH(32)"
    then have "n < 32" by simp
    then show "bit (push_bit 24 (ucast (ucast (drop_bit 24 f AND 0xFF :: u32) :: byte)) OR push_bit 16 (ucast (ucast (drop_bit 16 f AND 0xFF) :: byte)) OR
      push_bit 8 (ucast (ucast (drop_bit 8 f AND 0xFF) :: byte)) OR (ucast (ucast (f AND 0xFF) :: byte) :: u32)) n \<longleftrightarrow> bit f n"
      unfolding low_masks(7) bits_only by (cases rule: byte_index_cases) auto
  qed
  then show ?thesis
    by (subst find_registration.simps) (simp add: buildRegistrationDescriptor_def DescriptorTagRegistration_def Let_def)
qed

text \<open>A descriptor with another tag is stepped over whatever it holds.\<close>

lemma find_registration_skips:
  assumes "tag \<noteq> DescriptorTagRegistration" "length body = unat n"
  shows "find_registration ([tag, n] @ body @ rest) = find_registration rest"
  using assms by (subst find_registration.simps) (simp add: Let_def)

lemma registration_found:
  assumes "\<forall>(tag, n, body)\<in>set ds. tag \<noteq> DescriptorTagRegistration \<and> length body = unat n"
  shows "findRegistrationDescriptor (concat (map (\<lambda>(tag, n, body). [tag, n] @ body) ds) @ buildRegistrationDescriptor f @ rest) = Inr f"
proof -
  have "find_registration (concat (map (\<lambda>(tag, n, body). [tag, n] @ body) ds) @ buildRegistrationDescriptor f @ rest) = Inr f"
    using assms
  proof (induction ds)
    case Nil
    then show ?case by (simp add: find_registration_built)
  next
    case (Cons d ds)
    obtain tag n body where d: "d = (tag, n, body)" by (cases d)
    show ?case using Cons find_registration_skips [of tag body n "concat (map (\<lambda>(tag, n, body). [tag, n] @ body) ds) @ buildRegistrationDescriptor f @ rest"]
      by (auto simp: d)
  qed
  then show ?thesis by (simp add: findRegistrationDescriptor_def buildRegistrationDescriptor_def)
qed

end
