(* ===== verification/TsMuxer.thy ===== *)
theory TsMuxer
  imports MpegTs
begin

text \<open>
  \<open>src/proav/mpegtsmuxer.cpp\<close>: the transport stream multiplexer. It keeps the tables' versions and
  continuity counters and one record per elementary stream; \<open>writeAccessUnit\<close> emits the tables when they
  are due, wraps the access unit in a PES packet, cuts that into 188 byte packets, and pads to a constant rate.
\<close>

unbundle bit_operations_syntax

section \<open>State\<close>

datatype stream_kind = KindAuto | KindVideo | KindAudio | KindData | KindMetadata

record stream_rec =
  sr_pid :: u16
  sr_streamType :: byte
  sr_kind :: stream_kind
  sr_pesStreamId :: byte
  sr_descriptors :: "byte list"
  sr_continuityCounter :: byte
  sr_pendingDiscontinuity :: bool

text \<open>
  \<open>_muxRateBps\<close> and the intervals are signed in the code and never negative; \<open>_bytesSinceAnchor\<close> is
  kept by its 64 bits.
\<close>

record muxer =
  m_transportStreamId :: u16
  m_programNumber :: u16
  m_pmtPid :: u16
  m_pcrPid :: u16
  m_patPmtIntervalMs :: nat
  m_pcrIntervalMs :: nat
  m_patVersion :: byte
  m_pmtVersion :: byte
  m_patCc :: byte
  m_pmtCc :: byte
  m_streams :: "stream_rec list"
  m_audioStreamCount :: nat
  m_videoStreamCount :: nat
  m_forcePatPmt :: bool
  m_havePsiTime :: bool
  m_havePcrTime :: bool
  m_lastPsiTime27mhz :: u64
  m_lastPcrTime27mhz :: u64
  m_muxRateBps :: u64
  m_haveCbrAnchor :: bool
  m_cbrAnchor27mhz :: u64
  m_bytesSinceAnchor :: u64

definition new_muxer :: muxer where
  "new_muxer = \<lparr>m_transportStreamId = 1, m_programNumber = 1, m_pmtPid = 0x1000, m_pcrPid = 0x0100,
     m_patPmtIntervalMs = 100, m_pcrIntervalMs = 20, m_patVersion = 0, m_pmtVersion = 0, m_patCc = 0, m_pmtCc = 0,
     m_streams = [], m_audioStreamCount = 0, m_videoStreamCount = 0, m_forcePatPmt = True, m_havePsiTime = False,
     m_havePcrTime = False, m_lastPsiTime27mhz = 0, m_lastPcrTime27mhz = 0, m_muxRateBps = 0,
     m_haveCbrAnchor = False, m_cbrAnchor27mhz = 0, m_bytesSinceAnchor = 0\<rparr>"

text \<open>The emit callback: it may change the state of its owner and fail.\<close>

type_synonym 's emitter = "byte list \<Rightarrow> 's \<Rightarrow> error \<times> 's"

section \<open>Helpers\<close>

definition advanceCc :: "byte \<Rightarrow> byte" where
  "advanceCc cc = (cc + 1) AND 0x0F"

definition isAudioStreamType :: "byte \<Rightarrow> bool" where
  "isAudioStreamType t \<longleftrightarrow> t = 0x03 \<or> t = 0x04 \<or> t = 0x0F \<or> t = 0x11"

definition isVideoStreamType :: "byte \<Rightarrow> bool" where
  "isVideoStreamType t \<longleftrightarrow> t = 0x01 \<or> t = 0x02 \<or> t = 0x1B \<or> t = 0x24 \<or> t = 0x32"

definition deriveStreamKind :: "byte \<Rightarrow> stream_kind" where
  "deriveStreamKind t =
     (if isVideoStreamType t then KindVideo
      else if isAudioStreamType t then KindAudio
      else if t = 0x81 then KindAudio
      else if t = 0x15 then KindMetadata
      else if t = 0x86 then KindData
      else KindAuto)"

section \<open>Configuration\<close>

definition setTransportStreamId :: "u16 \<Rightarrow> muxer \<Rightarrow> muxer" where
  "setTransportStreamId v m = m\<lparr>m_transportStreamId := v, m_patVersion := m_patVersion m + 1, m_forcePatPmt := True\<rparr>"

definition setProgramNumber :: "u16 \<Rightarrow> muxer \<Rightarrow> muxer" where
  "setProgramNumber v m = m\<lparr>m_programNumber := v, m_patVersion := m_patVersion m + 1,
     m_pmtVersion := m_pmtVersion m + 1, m_forcePatPmt := True\<rparr>"

definition setPmtPid :: "u16 \<Rightarrow> muxer \<Rightarrow> muxer" where
  "setPmtPid v m = m\<lparr>m_pmtPid := v, m_patVersion := m_patVersion m + 1, m_forcePatPmt := True\<rparr>"

definition setPcrPid :: "u16 \<Rightarrow> muxer \<Rightarrow> muxer" where
  "setPcrPid v m = m\<lparr>m_pcrPid := v, m_pmtVersion := m_pmtVersion m + 1, m_forcePatPmt := True\<rparr>"

definition setPatPmtIntervalMs :: "int \<Rightarrow> muxer \<Rightarrow> muxer" where
  "setPatPmtIntervalMs v m = m\<lparr>m_patPmtIntervalMs := (if v < 0 then 0 else nat v)\<rparr>"

definition setPcrIntervalMs :: "int \<Rightarrow> muxer \<Rightarrow> muxer" where
  "setPcrIntervalMs v m = m\<lparr>m_pcrIntervalMs := (if v < 0 then 0 else nat v)\<rparr>"

definition setMuxRateBps :: "int \<Rightarrow> muxer \<Rightarrow> muxer" where
  "setMuxRateBps bps m =
     (let m1 = m\<lparr>m_muxRateBps := (if bps < 0 then 0 else of_int bps)\<rparr> in
      if m_muxRateBps m1 = 0 then m1\<lparr>m_haveCbrAnchor := False, m_bytesSinceAnchor := 0\<rparr> else m1)"

definition pickPesStreamId :: "byte \<Rightarrow> stream_kind \<Rightarrow> nat \<Rightarrow> byte" where
  "pickPesStreamId streamType kind indexOfKind =
     (if kind = KindVideo then 0xE0 + (of_nat indexOfKind AND 0x0F)
      else if kind = KindAudio then
        (if isAudioStreamType streamType then 0xC0 + (of_nat indexOfKind AND 0x1F) else 0xBD)
      else if kind = KindMetadata \<or> streamType = 0x15 then 0xFC
      else if isVideoStreamType streamType then 0xE0 + (of_nat indexOfKind AND 0x0F)
      else if isAudioStreamType streamType then 0xC0 + (of_nat indexOfKind AND 0x1F)
      else 0xBD)"

definition findStream :: "u16 \<Rightarrow> muxer \<Rightarrow> stream_rec option" where
  "findStream pid m = find (\<lambda>s. sr_pid s = pid) (m_streams m)"

text \<open>A change made through the pointer \<open>findStream\<close> returns: to the first record with the PID.\<close>

fun update_first :: "u16 \<Rightarrow> (stream_rec \<Rightarrow> stream_rec) \<Rightarrow> stream_rec list \<Rightarrow> stream_rec list" where
  "update_first pid f [] = []"
| "update_first pid f (s # ss) = (if sr_pid s = pid then f s # ss else s # update_first pid f ss)"

definition addStream :: "u16 \<Rightarrow> byte \<Rightarrow> byte list \<Rightarrow> stream_kind \<Rightarrow> muxer \<Rightarrow> error \<times> muxer" where
  "addStream pid streamType descriptors kind m =
     (if pid \<le> PidIpmp \<or> pid = PidNull then (InvalidArgument, m)
      else if pid > MaxPid then (InvalidArgument, m)
      else if pid = m_pmtPid m then (InvalidArgument, m)
      else if findStream pid m \<noteq> None then (Exists, m)
      else
        let k = (if kind = KindAuto then deriveStreamKind streamType else kind);
            index = (if k = KindVideo then m_videoStreamCount m else if k = KindAudio then m_audioStreamCount m else 0);
            rec = \<lparr>sr_pid = pid, sr_streamType = streamType, sr_kind = k,
                   sr_pesStreamId = pickPesStreamId streamType k index, sr_descriptors = descriptors,
                   sr_continuityCounter = 0, sr_pendingDiscontinuity = False\<rparr>
        in (Ok, m\<lparr>m_videoStreamCount := m_videoStreamCount m + (if k = KindVideo then 1 else 0),
                 m_audioStreamCount := m_audioStreamCount m + (if k = KindAudio then 1 else 0),
                 m_streams := m_streams m @ [rec], m_pmtVersion := m_pmtVersion m + 1, m_forcePatPmt := True\<rparr>))"

definition registeredPids :: "muxer \<Rightarrow> u16 list" where
  "registeredPids m = map sr_pid (m_streams m)"

definition hasStream :: "u16 \<Rightarrow> muxer \<Rightarrow> bool" where
  "hasStream pid m \<longleftrightarrow> findStream pid m \<noteq> None"

definition forcePatPmt :: "muxer \<Rightarrow> muxer" where
  "forcePatPmt m = m\<lparr>m_forcePatPmt := True\<rparr>"

definition markNextAccessUnitDiscontinuous :: "u16 \<Rightarrow> muxer \<Rightarrow> error \<times> muxer" where
  "markNextAccessUnitDiscontinuous pid m =
     (case findStream pid m of
        None \<Rightarrow> (IdNotFound, m)
      | Some _ \<Rightarrow> (Ok, m\<lparr>m_streams := update_first pid (\<lambda>s. s\<lparr>sr_pendingDiscontinuity := True\<rparr>) (m_streams m)\<rparr>))"

section \<open>Tables\<close>

text \<open>
  \<open>writePsiSectionPacket\<close>: the number of packets is fixed before the loop; the loop copies what fits and
  stuffs the rest of the packet.
\<close>

definition psi_packet_count :: "nat \<Rightarrow> nat" where
  "psi_packet_count sectionSize =
     (let firstPacketCapacity = PacketSize - 4 - 1; contPacketCapacity = PacketSize - 4 in
      1 + (if sectionSize > firstPacketCapacity
           then (sectionSize - firstPacketCapacity + contPacketCapacity - 1) div contPacketCapacity else 0))"

fun psi_packets :: "u16 \<Rightarrow> bool \<Rightarrow> nat \<Rightarrow> byte list \<Rightarrow> byte \<Rightarrow> byte list \<times> byte" where
  "psi_packets pid firstPacket 0 src cc = ([], cc)"
| "psi_packets pid firstPacket (Suc n) src cc =
     (let head = [SyncByte, (if firstPacket then 0x40 else 0x00) OR (ucast (drop_bit 8 pid) AND 0x1F),
            ucast (pid AND 0xFF), 0x10 OR (cc AND 0x0F)] @ (if firstPacket then [0x00] else []);
          roomAfter = PacketSize - length head;
          copyBytes = (if length src < roomAfter then length src else roomAfter);
          p = head @ take copyBytes src;
          (rest, cc') = psi_packets pid False n (drop copyBytes src) (advanceCc cc)
      in (p @ replicate (PacketSize - length p) 0xFF @ rest, cc'))"

definition writePsiSectionPacket ::
  "u16 \<Rightarrow> byte list \<Rightarrow> byte \<Rightarrow> 's emitter \<Rightarrow> 's \<Rightarrow> error \<times> byte \<times> 's" where
  "writePsiSectionPacket pid section cc emit s =
     (let (out, cc') = psi_packets pid True (psi_packet_count (length section)) section cc;
          (e, s') = emit out s
      in (e, cc', s'))"

definition pmt_of :: "stream_rec \<Rightarrow> pmt_stream" where
  "pmt_of s = \<lparr>ps_streamType = sr_streamType s, ps_pid = sr_pid s, ps_descriptors = sr_descriptors s\<rparr>"

definition emitPatPmtIfDue :: "u64 \<Rightarrow> bool \<Rightarrow> 's emitter \<Rightarrow> muxer \<Rightarrow> 's \<Rightarrow> error \<times> muxer \<times> 's" where
  "emitPatPmtIfDue now27mhz force emit m s =
     (if \<not> force \<and> m_havePsiTime m \<and> now27mhz - m_lastPsiTime27mhz m < of_nat (m_patPmtIntervalMs m) * 27000
      then (Ok, m, s)
      else let patSection = buildPat (m_transportStreamId m) (m_programNumber m) (m_pmtPid m) (m_patVersion m) in
        case writePsiSectionPacket PidPat patSection (m_patCc m) emit s of (e, cc, s1) \<Rightarrow>
        let m1 = m\<lparr>m_patCc := cc\<rparr> in
        if e \<noteq> Ok then (e, m1, s1)
        else case buildPmt (m_programNumber m) (m_pcrPid m) (m_pmtVersion m) [] (map pmt_of (m_streams m)) of
            Inl e \<Rightarrow> (e, m1, s1)
          | Inr pmtSection \<Rightarrow>
              case writePsiSectionPacket (m_pmtPid m) pmtSection (m_pmtCc m) emit s1 of (e, cc, s2) \<Rightarrow>
              let m2 = m1\<lparr>m_pmtCc := cc\<rparr> in
              if e \<noteq> Ok then (e, m2, s2)
              else (Ok, m2\<lparr>m_havePsiTime := True, m_lastPsiTime27mhz := now27mhz\<rparr>, s2))"

section \<open>Packets of an access unit\<close>

definition kPayloadRoom :: nat where
  "kPayloadRoom = PacketSize - 4"

text \<open>
  One turn of the packet loop: the packet for what is left of the PES packet, and how much of it goes in. The
  flags ask for a program clock, a random access mark and a discontinuity mark in the adaptation field.
\<close>

definition af_min :: "bool \<Rightarrow> bool \<Rightarrow> bool \<Rightarrow> nat" where
  "af_min needPcr needRandomAccess needDiscontinuity =
     (if needPcr \<or> needRandomAccess \<or> needDiscontinuity then 2 + (if needPcr then 6 else 0) else 0)"

definition adaptation_field :: "nat \<Rightarrow> bool \<Rightarrow> bool \<Rightarrow> bool \<Rightarrow> u64 \<Rightarrow> byte list" where
  "adaptation_field afTotal needPcr needRandomAccess needDiscontinuity now27mhz =
     (if afTotal > 0 then
        let afLength = of_nat (afTotal - 1) :: byte in
        afLength # (if afLength > 0 then
          let body = ((if needDiscontinuity then 0x80 else 0) OR (if needRandomAccess then 0x40 else 0) OR
                 (if needPcr then 0x10 else 0)) # (if needPcr then encodePcr now27mhz else [])
          in body @ replicate (unat afLength - length body) 0xFF
        else [])
      else [])"

definition ts_packet ::
  "u16 \<Rightarrow> byte \<Rightarrow> bool \<Rightarrow> bool \<Rightarrow> bool \<Rightarrow> bool \<Rightarrow> u64 \<Rightarrow> byte list \<Rightarrow> byte list \<times> nat" where
  "ts_packet pid cc firstPacket needPcr needRandomAccess needDiscontinuity now27mhz pes =
     (let afTotalMin = af_min needPcr needRandomAccess needDiscontinuity;
          payloadCap = kPayloadRoom - afTotalMin;
          payloadSize = (if length pes < payloadCap then length pes else payloadCap);
          afStuff = kPayloadRoom - payloadSize - afTotalMin;
          afTotal = afTotalMin + afStuff;
          pusi = (if firstPacket then 0x40 else 0x00);
          afc = (if afTotal = 0 then 0x10 else if payloadSize = 0 then 0x20 else 0x30)
      in ([SyncByte, pusi OR (ucast (drop_bit 8 pid) AND 0x1F), ucast (pid AND 0xFF), afc OR (cc AND 0x0F)] @
          adaptation_field afTotal needPcr needRandomAccess needDiscontinuity now27mhz @ take payloadSize pes,
          payloadSize))"

text \<open>
  The packet loop: \<open>n\<close> is the number of packets the scratch buffer still takes, and the bytes written so
  far are in front of what the rest of the loop writes. The result is the error, the packets and the continuity
  counter.
\<close>

fun packet_loop ::
  "nat \<Rightarrow> u16 \<Rightarrow> byte \<Rightarrow> bool \<Rightarrow> bool \<Rightarrow> bool \<Rightarrow> bool \<Rightarrow> u64 \<Rightarrow> byte list \<Rightarrow> error \<times> byte list \<times> byte" where
  "packet_loop 0 pid cc first pcr ra disc now27mhz pes = (if pes = [] then (Ok, [], cc) else (Invalid, [], cc))"
| "packet_loop (Suc n) pid cc first pcr ra disc now27mhz pes =
     (if pes = [] then (Ok, [], cc)
      else let (p, payloadSize) = ts_packet pid cc first (first \<and> pcr) (first \<and> ra) (first \<and> disc) now27mhz pes in
        if length p \<noteq> PacketSize then (Invalid, [], cc)
        else let cc' = (if payloadSize > 0 then advanceCc cc else cc) in
          if n = 0 then (Invalid, p, cc')
          else case packet_loop n pid cc' False pcr ra disc now27mhz (drop payloadSize pes) of
            (e, out, cc'') \<Rightarrow> (e, p @ out, cc''))"

definition null_packet :: "byte list" where
  "null_packet = [SyncByte, ucast (drop_bit 8 PidNull) AND 0x1F, ucast (PidNull AND 0xFF), 0x10] @ replicate 184 0xFF"

definition emitNullPacket :: "'s emitter option \<Rightarrow> 's \<Rightarrow> error \<times> 's" where
  "emitNullPacket emit s = (case emit of None \<Rightarrow> (InvalidArgument, s) | Some f \<Rightarrow> f null_packet s)"

text \<open>The constant rate top-up at the end of \<open>writeAccessUnit\<close>.\<close>

definition expected_bytes :: "u64 \<Rightarrow> u64 \<Rightarrow> u64" where
  "expected_bytes muxRateBps dt27 = (muxRateBps * dt27) div 27000000 div 8"

definition cbr_top_up :: "u64 \<Rightarrow> u64 \<Rightarrow> 's emitter \<Rightarrow> muxer \<Rightarrow> 's \<Rightarrow> error \<times> muxer \<times> 's" where
  "cbr_top_up now27mhz bytesEmittedThisCall emit m s =
     (if m_muxRateBps m = 0 then (Ok, m, s)
      else if \<not> m_haveCbrAnchor m then
        (Ok, m\<lparr>m_haveCbrAnchor := True, m_cbrAnchor27mhz := now27mhz, m_bytesSinceAnchor := bytesEmittedThisCall\<rparr>, s)
      else
        let m1 = m\<lparr>m_bytesSinceAnchor := m_bytesSinceAnchor m + bytesEmittedThisCall\<rparr>;
            expectedBytes = expected_bytes (m_muxRateBps m) (now27mhz - m_cbrAnchor27mhz m) in
        if expectedBytes > m_bytesSinceAnchor m1 then
          let deficit = expectedBytes - m_bytesSinceAnchor m1;
              nullPackets = unat deficit div PacketSize in
          if nullPackets > 0 then
            let m2 = m1\<lparr>m_bytesSinceAnchor := m_bytesSinceAnchor m1 + of_nat (nullPackets * PacketSize)\<rparr>;
                (e, s') = emit (concat (replicate nullPackets null_packet)) s
            in (e, m2, s')
          else (Ok, m1, s)
        else (Ok, m1, s))"

text \<open>The callback \<open>writeAccessUnit\<close> wraps around \<open>emit\<close>: it counts the bytes of the call.\<close>

definition counted :: "'s emitter \<Rightarrow> (u64 \<times> 's) emitter" where
  "counted emit v ns = (case ns of (n, s) \<Rightarrow> case emit v s of (e, s') \<Rightarrow> (e, (n + of_nat (length v), s')))"

definition pes_header_of :: "stream_rec \<Rightarrow> nat \<Rightarrow> u64 \<Rightarrow> u64 \<Rightarrow> pes_header" where
  "pes_header_of stream payloadSize pts90k dts90k =
     (let ph = \<lparr>ph_streamId = sr_pesStreamId stream, ph_pesPacketLength = 0, ph_dataAlignmentIndicator = True,
            ph_hasPts = True, ph_hasDts = (dts90k \<noteq> pts90k), ph_pts90k = pts90k, ph_dts90k = dts90k\<rparr>;
          pesBodySize = pesHeaderSize ph - 6 + payloadSize
      in ph\<lparr>ph_pesPacketLength := (if sr_kind stream = KindVideo \<or> pesBodySize > 0xFFFF then 0 else of_nat pesBodySize)\<rparr>)"

definition writeAccessUnit ::
  "u16 \<Rightarrow> byte list \<Rightarrow> u64 \<Rightarrow> u64 \<Rightarrow> bool \<Rightarrow> 's emitter option \<Rightarrow> muxer \<Rightarrow> 's \<Rightarrow> error \<times> muxer \<times> 's" where
  "writeAccessUnit pid payload pts90k dts90k isKeyframe emit m s =
     (case findStream pid m of None \<Rightarrow> (IdNotFound, m, s)
      | Some stream \<Rightarrow>
        if payload = [] then (InvalidArgument, m, s)
        else case emit of None \<Rightarrow> (InvalidArgument, m, s)
        | Some f \<Rightarrow>
          let now27mhz = dts90k * 300; forcePsi = m_forcePatPmt m; m0 = m\<lparr>m_forcePatPmt := False\<rparr> in
          case emitPatPmtIfDue now27mhz forcePsi (counted f) m0 (0, s) of (e, m1, (n1, s1)) \<Rightarrow>
          if e \<noteq> Ok then (e, m1, s1)
          else
            let ph = pes_header_of stream (length payload) pts90k dts90k;
                pesHdrSize = pesHeaderSize ph;
                pesData = writePesHeader ph (replicate pesHdrSize 0) @ payload;
                emitPcrThisCall = (pid = m_pcrPid m1 \<and> (isKeyframe \<or> \<not> m_havePcrTime m1 \<or>
                  now27mhz - m_lastPcrTime27mhz m1 \<ge> of_nat (m_pcrIntervalMs m1) * 27000));
                maxPackets = (length pesData + 175) div 176 + 1 in
            case packet_loop maxPackets pid (sr_continuityCounter stream) True emitPcrThisCall isKeyframe
                   (sr_pendingDiscontinuity stream) now27mhz pesData of (e, out, cc) \<Rightarrow>
            let m2 = (if emitPcrThisCall then m1\<lparr>m_havePcrTime := True, m_lastPcrTime27mhz := now27mhz\<rparr> else m1) in
            if e \<noteq> Ok then (e, m2\<lparr>m_streams := update_first pid (\<lambda>s. s\<lparr>sr_continuityCounter := cc\<rparr>) (m_streams m2)\<rparr>, s1)
            else
              let m3 = m2\<lparr>m_streams := update_first pid
                     (\<lambda>s. s\<lparr>sr_continuityCounter := cc, sr_pendingDiscontinuity := False\<rparr>) (m_streams m2)\<rparr> in
              case counted f out (n1, s1) of (e, (n2, s2)) \<Rightarrow>
              if e \<noteq> Ok then (e, m3, s2)
              else cbr_top_up now27mhz n2 f m3 s2)"

section \<open>The packet loop\<close>

lemma unat_of_nat_byte: "n < 256 \<Longrightarrow> unat (of_nat n :: byte) = n"
  by (simp add: unsigned_of_nat take_bit_nat_eq_self)

lemma length_adaptation_field:
  assumes "n \<le> 184" "af_min pcr ra disc \<le> n"
  shows "length (adaptation_field n pcr ra disc now) = n"
proof (cases n)
  case 0
  then show ?thesis by (simp add: adaptation_field_def)
next
  case (Suc m)
  then have pos: "(of_nat (n - 1) :: byte) > 0 \<longleftrightarrow> m > 0" "unat (of_nat (n - 1) :: byte) = m"
    using assms(1) by (simp_all add: word_less_nat_alt unat_of_nat_byte)
  show ?thesis
    using assms Suc unfolding adaptation_field_def Let_def pos
    by (auto simp: af_min_def split: if_splits)
qed

lemma ts_packet_shape:
  assumes "ts_packet pid cc first pcr ra disc now pes = (p, n)" "pes \<noteq> []"
  shows "0 < n" "n = min (length pes) (184 - af_min pcr ra disc)"
    "p = [SyncByte, (if first then 0x40 else 0x00) OR (ucast (drop_bit 8 pid) AND 0x1F), ucast (pid AND 0xFF),
        (if n = 184 then 0x10 else 0x30) OR (cc AND 0x0F)] @ adaptation_field (184 - n) pcr ra disc now @ take n pes"
    "length p = PacketSize" "af_min pcr ra disc \<le> 184 - n"
proof -
  have le: "af_min pcr ra disc \<le> 8" by (simp add: af_min_def)
  show n: "n = min (length pes) (184 - af_min pcr ra disc)"
    using assms(1) by (auto simp: ts_packet_def Let_def kPayloadRoom_def PacketSize_def)
  then show pos: "0 < n" using assms(2) le by simp
  show fit: "af_min pcr ra disc \<le> 184 - n" using n le by simp
  have total: "af_min pcr ra disc + (184 - n - af_min pcr ra disc) = 184 - n" using fit by simp
  have zero: "184 - n = 0 \<longleftrightarrow> n = 184" using n by auto
  have size: "(if length pes < kPayloadRoom - af_min pcr ra disc then length pes else kPayloadRoom - af_min pcr ra disc) = n"
    using n by (simp add: kPayloadRoom_def PacketSize_def)
  have room: "kPayloadRoom = 184" by (simp add: kPayloadRoom_def PacketSize_def)
  show p: "p = [SyncByte, (if first then 0x40 else 0x00) OR (ucast (drop_bit 8 pid) AND 0x1F), ucast (pid AND 0xFF),
        (if n = 184 then 0x10 else 0x30) OR (cc AND 0x0F)] @ adaptation_field (184 - n) pcr ra disc now @ take n pes"
    using assms(1) pos unfolding ts_packet_def Let_def size unfolding room total zero by auto
  have "length (take n pes) = n" "n \<le> 184" using n by simp_all
  moreover have "length (adaptation_field (184 - n) pcr ra disc now) = 184 - n" using fit by (intro length_adaptation_field) simp_all
  ultimately show "length p = PacketSize"
    unfolding p PacketSize_def length_append by simp
qed

text \<open>With a packet more than the payload needs at its smallest, the loop never gives up.\<close>

lemma packet_loop_ok:
  assumes "length pes \<le> 176 * (n - 1)" "0 < n"
  shows "\<exists>out cc'. packet_loop n pid cc first pcr ra disc now pes = (Ok, out, cc')"
  using assms
proof (induction n arbitrary: cc first pes)
  case (Suc n)
  show ?case
  proof (cases "pes = []")
    case False
    obtain p k where p: "ts_packet pid cc first (first \<and> pcr) (first \<and> ra) (first \<and> disc) now pes = (p, k)" by fastforce
    note shape = ts_packet_shape [OF p False]
    have n: "0 < n" using Suc.prems(1) False by (cases n) simp_all
    have "length (drop k pes) \<le> 176 * (n - 1)"
      using Suc.prems(1) shape(2) n by (cases n) (auto simp: af_min_def min_def split: if_splits)
    from Suc.IH [OF this n, of "advanceCc cc" False] p n shape(1,4) False show ?thesis by auto
  qed simp
qed simp

lemma max_packets_enough: "n \<le> 176 * ((n + 175) div 176 + 1 - 1)" for n :: nat
  by simp

section \<open>The constant rate\<close>

text \<open>
  The bytes the wire should have carried are exact as long as the product of rate and time fits 64 bits. At ten
  megabits per second that ends after nineteen hours, and the expectation starts again near zero.
\<close>

lemma expected_bytes_exact:
  assumes "unat rate * unat dt < 2 ^ 64"
  shows "unat (expected_bytes rate dt) = unat rate * unat dt div (27000000 * 8)"
proof -
  have "unat (rate * dt) = unat rate * unat dt"
    using assms by (intro unat_mult_lem [THEN iffD1]) simp
  moreover have "unat (27000000 :: u64) = 27000000" "unat (8 :: u64) = 8" by simp_all
  moreover have "n div 27000000 div 8 = n div (27000000 * 8)" for n :: nat by (rule div_mult2_eq [symmetric])
  ultimately show ?thesis by (simp only: expected_bytes_def unat_div_distrib)
qed

lemma expected_bytes_start_again:
  "unat (expected_bytes 10000000 (27000000 * 68000)) = 85000000000" "unat (expected_bytes 10000000 (27000000 * 68400)) = 98407066"
proof -
  have "(10000000 * (27000000 * 68000) :: u64) = 18360000000000000000" "(10000000 * (27000000 * 68400) :: u64) = 21255926290448384" by simp_all
  then show "unat (expected_bytes 10000000 (27000000 * 68000)) = 85000000000" "unat (expected_bytes 10000000 (27000000 * 68400)) = 98407066"
    by (simp_all only: expected_bytes_def unat_div_distrib) simp_all
qed

end
