(* ===== verification/TsDemuxer.thy ===== *)
theory TsDemuxer
  imports MpegTs
begin

text \<open>
  \<open>src/proav/mpegtsdemuxer.cpp\<close>: the transport stream demultiplexer. It aligns to the sync byte, follows
  the first program of the PAT to its PMT, puts sections and PES packets together by PID, and hands every finished
  access unit to a callback.
\<close>

unbundle bit_operations_syntax

section \<open>State\<close>

record access_unit =
  au_pid :: u16
  au_streamType :: byte
  au_registrationFormat :: u32
  au_payload :: "byte list"
  au_hasPts :: bool
  au_hasDts :: bool
  au_pts90k :: u64
  au_dts90k :: u64
  au_randomAccess :: bool
  au_dataAlignment :: bool
  au_discontinuity :: bool

text \<open>
  A reassembly buffer is its first \<open>writePos\<close> bytes; nothing behind them is ever read. The capacity of a
  PES buffer is kept, because it decides when the code allocates.
\<close>

record psi_reasm =
  psi_data :: "byte list"
  psi_expectedTotal :: nat

record pes_reasm =
  pr_streamType :: byte
  pr_data :: "byte list"
  pr_capacity :: nat
  pr_expectedTotal :: nat
  pr_inProgress :: bool
  pr_unbounded :: bool
  pr_hasPts :: bool
  pr_hasDts :: bool
  pr_pts90k :: u64
  pr_dts90k :: u64
  pr_randomAccess :: bool
  pr_dataAlignment :: bool
  pr_discontinuity :: bool
  pr_continuityCounter :: byte
  pr_haveCc :: bool

definition new_pes :: "byte \<Rightarrow> pes_reasm" where
  "new_pes t = \<lparr>pr_streamType = t, pr_data = [], pr_capacity = 0, pr_expectedTotal = 0, pr_inProgress = False,
     pr_unbounded = False, pr_hasPts = False, pr_hasDts = False, pr_pts90k = 0, pr_dts90k = 0,
     pr_randomAccess = False, pr_dataAlignment = False, pr_discontinuity = False, pr_continuityCounter = 0,
     pr_haveCc = False\<rparr>"

text \<open>The maps are ordered by PID and are walked in that order: sorted lists of pairs.\<close>

record demuxer =
  d_carry :: "byte list"
  d_programNumber :: u16
  d_pmtPid :: u16
  d_pcrPid :: u16
  d_havePat :: bool
  d_havePmt :: bool
  d_streamTypeByPid :: "(u16 \<times> byte) list"
  d_registrationByPid :: "(u16 \<times> u32) list"
  d_pes :: "(u16 \<times> pes_reasm) list"
  d_psi :: "(u16 \<times> psi_reasm) list"
  d_continuityErrors :: u64
  d_bytesDiscarded :: u64

definition new_demuxer :: demuxer where
  "new_demuxer = \<lparr>d_carry = [], d_programNumber = 0, d_pmtPid = PidNull, d_pcrPid = PidNull, d_havePat = False,
     d_havePmt = False, d_streamTypeByPid = [], d_registrationByPid = [], d_pes = [], d_psi = [],
     d_continuityErrors = 0, d_bytesDiscarded = 0\<rparr>"

text \<open>\<open>Map::insert\<close>: an entry with the key is overwritten.\<close>

fun map_insert :: "'k::linorder \<Rightarrow> 'v \<Rightarrow> ('k \<times> 'v) list \<Rightarrow> ('k \<times> 'v) list" where
  "map_insert k v [] = [(k, v)]"
| "map_insert k v ((k', v') # m) =
     (if k < k' then (k, v) # (k', v') # m else if k = k' then (k, v) # m else (k', v') # map_insert k v m)"

text \<open>
  The owner of the demultiplexer: its callbacks, each of which may be missing and may change the owner's state,
  and whether a buffer of a size can be allocated.
\<close>

record 's owner =
  o_streamCallback :: "(access_unit \<Rightarrow> 's \<Rightarrow> error \<times> 's) option"
  o_programCallback :: "('s \<Rightarrow> 's) option"
  o_pcrCallback :: "(u16 \<Rightarrow> u64 \<Rightarrow> 's \<Rightarrow> 's) option"
  o_alloc :: "nat \<Rightarrow> bool"

definition isVideoStreamId :: "byte \<Rightarrow> bool" where
  "isVideoStreamId streamId \<longleftrightarrow> streamId \<ge> 0xE0 \<and> streamId \<le> 0xEF"

record stream_info =
  si_pid :: u16
  si_streamType :: byte
  si_registrationFormat :: u32

definition registration_of :: "demuxer \<Rightarrow> u16 \<Rightarrow> u32" where
  "registration_of d pid = (case map_of (d_registrationByPid d) pid of Some r \<Rightarrow> r | None \<Rightarrow> 0)"

definition streams :: "demuxer \<Rightarrow> stream_info list" where
  "streams d = map (\<lambda>(pid, t). \<lparr>si_pid = pid, si_streamType = t, si_registrationFormat = registration_of d pid\<rparr>)
     (d_streamTypeByPid d)"

section \<open>Access units\<close>

text \<open>\<open>finalizePes\<close>: the access unit goes to the callback, the reassembly record is free again.\<close>

definition unit_of :: "demuxer \<Rightarrow> u16 \<Rightarrow> pes_reasm \<Rightarrow> access_unit" where
  "unit_of d pid pr =
     \<lparr>au_pid = pid, au_streamType = pr_streamType pr, au_registrationFormat = registration_of d pid,
      au_payload = (let writePos = length (pr_data pr) in
        take (if pr_unbounded pr \<or> pr_expectedTotal pr = 0 then writePos
              else if writePos < pr_expectedTotal pr then writePos else pr_expectedTotal pr) (pr_data pr)),
      au_hasPts = pr_hasPts pr, au_hasDts = pr_hasDts pr, au_pts90k = pr_pts90k pr, au_dts90k = pr_dts90k pr,
      au_randomAccess = pr_randomAccess pr, au_dataAlignment = pr_dataAlignment pr,
      au_discontinuity = pr_discontinuity pr\<rparr>"

definition set_pes :: "u16 \<Rightarrow> pes_reasm \<Rightarrow> demuxer \<Rightarrow> demuxer" where
  "set_pes pid pr d = d\<lparr>d_pes := map_insert pid pr (d_pes d)\<rparr>"

definition finalizePes :: "'s owner \<Rightarrow> u16 \<Rightarrow> pes_reasm \<Rightarrow> demuxer \<Rightarrow> 's \<Rightarrow> error \<times> pes_reasm \<times> 's" where
  "finalizePes ow pid pr d s =
     (let au = unit_of d pid pr; pr' = pr\<lparr>pr_inProgress := False, pr_data := [], pr_expectedTotal := 0\<rparr> in
      case o_streamCallback ow of
        None \<Rightarrow> (Ok, pr', s)
      | Some f \<Rightarrow> (case f au s of (e, s') \<Rightarrow> (e, pr', s')))"

text \<open>
  \<open>startNewPes\<close>: the subtraction of the header from the packet length is on \<open>size_t\<close> and wraps when
  the length does not even cover the header.
\<close>

definition expected_total :: "u16 \<Rightarrow> bool \<Rightarrow> bool \<Rightarrow> nat" where
  "expected_total pesPacketLength hasPts hasDts =
     (if pesPacketLength = 0 then 0
      else unat ((ucast pesPacketLength :: u64) - (3 + (if hasPts then 5 else 0) + (if hasDts then 5 else 0))))"

definition startNewPes ::
  "'s owner \<Rightarrow> u16 \<Rightarrow> pes_reasm \<Rightarrow> byte list \<Rightarrow> bool \<Rightarrow> bool \<Rightarrow> demuxer \<Rightarrow> 's \<Rightarrow> error \<times> pes_reasm \<times> 's" where
  "startNewPes ow pid pr pes randomAccess discontinuity d s =
     (case readPesHeader pes of
        Inl _ \<Rightarrow> (Ok, pr\<lparr>pr_inProgress := False, pr_data := []\<rparr>, s)
      | Inr (ph, headerSize) \<Rightarrow>
          let pr1 = pr\<lparr>pr_dataAlignment := ph_dataAlignmentIndicator ph, pr_hasPts := ph_hasPts ph,
                 pr_hasDts := ph_hasDts ph, pr_pts90k := ph_pts90k ph, pr_dts90k := ph_dts90k ph,
                 pr_randomAccess := randomAccess, pr_discontinuity := discontinuity,
                 pr_unbounded := (ph_pesPacketLength ph = 0 \<or> isVideoStreamId (ph_streamId ph)),
                 pr_expectedTotal := expected_total (ph_pesPacketLength ph) (ph_hasPts ph) (ph_hasDts ph)\<rparr>;
              payload = drop headerSize pes;
              initialCap0 = (if pr_expectedTotal pr1 > 0 then pr_expectedTotal pr1 else 64 * 1024);
              initialCap = (if initialCap0 < length payload then length payload else initialCap0)
          in if pr_capacity pr1 < initialCap \<and> \<not> o_alloc ow initialCap
             then (NoMem, pr1\<lparr>pr_capacity := 0\<rparr>, s)
             else
               let pr2 = pr1\<lparr>pr_capacity := max (pr_capacity pr1) initialCap, pr_data := payload, pr_inProgress := True\<rparr> in
               if \<not> pr_unbounded pr2 \<and> pr_expectedTotal pr2 > 0 \<and> length payload \<ge> pr_expectedTotal pr2
               then finalizePes ow pid pr2 d s
               else (Ok, pr2, s))"

text \<open>The continuation of a PES packet.\<close>

definition continuePes ::
  "'s owner \<Rightarrow> u16 \<Rightarrow> pes_reasm \<Rightarrow> byte list \<Rightarrow> demuxer \<Rightarrow> 's \<Rightarrow> error \<times> pes_reasm \<times> 's" where
  "continuePes ow pid pr pes d s =
     (if \<not> pr_inProgress pr then (Ok, pr, s)
      else
        let newPos = length (pr_data pr) + length pes;
            newCap = (if pr_capacity pr * 2 < newPos then newPos else pr_capacity pr * 2)
        in if newPos > pr_capacity pr \<and> \<not> o_alloc ow newCap then (NoMem, pr, s)
        else
          let pr1 = pr\<lparr>pr_capacity := (if newPos > pr_capacity pr then newCap else pr_capacity pr),
                       pr_data := pr_data pr @ pes\<rparr>
          in if \<not> pr_unbounded pr1 \<and> pr_expectedTotal pr1 > 0 \<and> length (pr_data pr1) \<ge> pr_expectedTotal pr1
             then finalizePes ow pid pr1 d s
             else (Ok, pr1, s))"

section \<open>Tables\<close>

definition demux_parsePat :: "'s owner \<Rightarrow> byte list \<Rightarrow> demuxer \<Rightarrow> 's \<Rightarrow> demuxer \<times> 's" where
  "demux_parsePat ow section d s =
     (case parsePat section of
        Inl _ \<Rightarrow> (d, s)
      | Inr pat \<Rightarrow>
          (case find (\<lambda>e. pe_programNumber e \<noteq> 0) (pat_entries pat) of
             None \<Rightarrow> (d, s)
           | Some e \<Rightarrow> (d\<lparr>d_programNumber := pe_programNumber e, d_pmtPid := pe_pid e, d_havePat := True\<rparr>,
               case o_programCallback ow of None \<Rightarrow> s | Some f \<Rightarrow> f s)))"

text \<open>The stream and registration maps of a PMT, and the reassembly records the new stream map keeps.\<close>

definition stream_map :: "pmt_stream list \<Rightarrow> (u16 \<times> byte) list" where
  "stream_map ss = fold (\<lambda>st. map_insert (ps_pid st) (ps_streamType st)) ss []"

definition registration_map :: "pmt_stream list \<Rightarrow> (u16 \<times> u32) list" where
  "registration_map ss = fold (\<lambda>st m.
     if ps_descriptors st \<noteq> []
     then (case findRegistrationDescriptor (ps_descriptors st) of Inl _ \<Rightarrow> m | Inr r \<Rightarrow> map_insert (ps_pid st) r m)
     else m) ss []"

definition keep_pes :: "(u16 \<times> byte) list \<Rightarrow> (u16 \<times> pes_reasm) list \<Rightarrow> (u16 \<times> pes_reasm) list" where
  "keep_pes types pes =
     fold (\<lambda>(pid, t) m. map_insert pid (case map_of m pid of None \<Rightarrow> new_pes t | Some pr \<Rightarrow> pr\<lparr>pr_streamType := t\<rparr>) m)
       types (filter (\<lambda>(pid, pr). map_of types pid \<noteq> None) pes)"

definition demux_parsePmt :: "'s owner \<Rightarrow> byte list \<Rightarrow> demuxer \<Rightarrow> 's \<Rightarrow> demuxer \<times> 's" where
  "demux_parsePmt ow section d s =
     (case parsePmt section of
        Inl _ \<Rightarrow> (d, s)
      | Inr pmt \<Rightarrow>
          let newStreams = stream_map (pmt_streams pmt); newRegistrations = registration_map (pmt_streams pmt);
              changed = (newStreams \<noteq> d_streamTypeByPid d \<or> newRegistrations \<noteq> d_registrationByPid d)
          in (d\<lparr>d_pcrPid := pmt_pcrPid pmt, d_streamTypeByPid := newStreams, d_registrationByPid := newRegistrations,
                d_pes := keep_pes newStreams (d_pes d), d_havePmt := True\<rparr>,
              if changed then (case o_programCallback ow of None \<Rightarrow> s | Some f \<Rightarrow> f s) else s))"

text \<open>\<open>dispatchPsiSection\<close> always returns \<open>Ok\<close>, as do the two table parsers.\<close>

definition dispatchPsiSection :: "'s owner \<Rightarrow> u16 \<Rightarrow> byte list \<Rightarrow> demuxer \<Rightarrow> 's \<Rightarrow> demuxer \<times> 's" where
  "dispatchPsiSection ow pid section d s =
     (if \<not> isPsiSectionValid section then (d, s)
      else let tableId = section ! 0 in
        if pid = PidPat \<and> tableId = 0x00 then demux_parsePat ow section d s
        else if pid = d_pmtPid d \<and> tableId = 0x02 then demux_parsePmt ow section d s
        else (d, s))"

text \<open>
  The loop over the sections of a packet. A section in progress always lacks at least one byte, so the branch that
  copies nothing is never taken.
\<close>

function psi_loop :: "'s owner \<Rightarrow> u16 \<Rightarrow> byte list \<Rightarrow> psi_reasm \<Rightarrow> demuxer \<Rightarrow> 's \<Rightarrow> psi_reasm \<times> demuxer \<times> 's" where
  "psi_loop ow pid bytes re d s =
     (if bytes = [] then (re, d, s)
      else
        let fresh = (psi_expectedTotal re = 0);
            total = unat (push_bit 8 (ucast (bytes ! 1 AND 0x0F)) OR ucast (bytes ! 2) :: u16) + 3
        in if fresh \<and> length bytes < 3 then (re, d, s)
        else if fresh \<and> bytes ! 0 = 0xFF then (re, d, s)
        else if fresh \<and> (total < 8 \<or> total > 4096) then (re, d, s)
        else
          let re1 = (if fresh then \<lparr>psi_data = [], psi_expectedTotal = total\<rparr> else re);
              need = psi_expectedTotal re1 - length (psi_data re1);
              copy = (if length bytes < need then length bytes else need);
              re2 = re1\<lparr>psi_data := psi_data re1 @ take copy bytes\<rparr>
          in if length (psi_data re2) = psi_expectedTotal re2 then
               (case dispatchPsiSection ow pid (psi_data re2) d s of
                  (d', s') \<Rightarrow> psi_loop ow pid (drop copy bytes) \<lparr>psi_data = [], psi_expectedTotal = 0\<rparr> d' s')
             else if copy = 0 then (re2, d, s)
             else psi_loop ow pid (drop copy bytes) re2 d s)"
  by auto
termination
  by (relation "measure (\<lambda>(ow, pid, bytes, re, d, s). 2 * length bytes + (if psi_expectedTotal re = 0 then 0 else 1))")
    (auto simp: Let_def split: if_splits)

declare psi_loop.simps [simp del]

definition processPsiPacket :: "'s owner \<Rightarrow> byte list \<Rightarrow> u16 \<Rightarrow> bool \<Rightarrow> demuxer \<Rightarrow> 's \<Rightarrow> demuxer \<times> 's" where
  "processPsiPacket ow p pid pusi d s =
     (if p = [] then (d, s)
      else
        let re = (case map_of (d_psi d) pid of Some re \<Rightarrow> re | None \<Rightarrow> \<lparr>psi_data = [], psi_expectedTotal = 0\<rparr>);
            store = (\<lambda>(re, d, s). (d\<lparr>d_psi := map_insert pid re (d_psi d)\<rparr>, s))
        in if \<not> pusi then store (psi_loop ow pid p re d s)
        else
          let carry = unat (p ! 0) in
          if 1 + carry > length p then store (re, d, s)
          else
            let (d1, s1) =
              (if carry > 0 \<and> psi_data re \<noteq> [] \<and> psi_expectedTotal re > 0 then
                 let need = psi_expectedTotal re - length (psi_data re);
                     copy = (if carry < need then carry else need);
                     bytes = psi_data re @ take copy (drop 1 p)
                 in if length bytes \<ge> psi_expectedTotal re
                    then dispatchPsiSection ow pid (take (psi_expectedTotal re) bytes) d s else (d, s)
               else (d, s))
            in store (psi_loop ow pid (drop (1 + carry) p) \<lparr>psi_data = [], psi_expectedTotal = 0\<rparr> d1 s1))"

section \<open>Packets\<close>

text \<open>The PES part of \<open>processPacket\<close>: a packet with payload on a PID of the PMT.\<close>

definition processPesPacket ::
  "'s owner \<Rightarrow> u16 \<Rightarrow> byte \<Rightarrow> bool \<Rightarrow> bool \<Rightarrow> bool \<Rightarrow> byte list \<Rightarrow> pes_reasm \<Rightarrow> demuxer \<Rightarrow> 's \<Rightarrow> error \<times> demuxer \<times> 's" where
  "processPesPacket ow pid cc pusi randomAccess discontinuity pes pr d s =
     (let expected = (pr_continuityCounter pr + 1) AND 0x0F;
          d1 = (if pr_haveCc pr \<and> cc \<noteq> expected then d\<lparr>d_continuityErrors := d_continuityErrors d + 1\<rparr> else d);
          pr1 = pr\<lparr>pr_continuityCounter := cc, pr_haveCc := True\<rparr>
      in if pusi then
           (case (if pr_inProgress pr1 \<and> pr_unbounded pr1 \<and> pr_data pr1 \<noteq> [] then finalizePes ow pid pr1 d1 s
                  else (Ok, pr1, s)) of
              (e, pr2, s2) \<Rightarrow>
                if e \<noteq> Ok then (e, set_pes pid pr2 d1, s2)
                else (case startNewPes ow pid pr2 pes randomAccess discontinuity d1 s2 of
                        (e, pr3, s3) \<Rightarrow> (e, set_pes pid pr3 d1, s3)))
         else (case continuePes ow pid pr1 pes d1 s of (e, pr2, s2) \<Rightarrow> (e, set_pes pid pr2 d1, s2)))"

definition processPacket :: "'s owner \<Rightarrow> byte list \<Rightarrow> demuxer \<Rightarrow> 's \<Rightarrow> error \<times> demuxer \<times> 's" where
  "processPacket ow p d s =
     (let flags1 = p ! 1; flags2 = p ! 2; flags3 = p ! 3; pusi = (flags1 AND 0x40 \<noteq> 0); tei = (flags1 AND 0x80 \<noteq> 0) in
      if tei then (Ok, d, s)
      else
        let pid = push_bit 8 (ucast (flags1 AND 0x1F)) OR ucast flags2 :: u16; afc = drop_bit 4 flags3 AND 0x03;
            cc = flags3 AND 0x0F in
        if pid = PidNull then (Ok, d, s)
        else if afc = 0x00 then (Ok, d, s)
        else
          let hasAf = (afc = 0x02 \<or> afc = 0x03); afLen = unat (p ! 4); afFlags = p ! 5 in
          if hasAf \<and> afLen > 183 then (Ok, d, s)
          else
            let flagged = (hasAf \<and> afLen \<ge> 1);
                discontinuityIndicator = (flagged \<and> afFlags AND 0x80 \<noteq> 0);
                randomAccessIndicator = (flagged \<and> afFlags AND 0x40 \<noteq> 0);
                s1 = (if flagged \<and> afFlags AND 0x10 \<noteq> 0 \<and> afLen \<ge> 7
                      then (case o_pcrCallback ow of None \<Rightarrow> s | Some f \<Rightarrow> f pid (decodePcr (drop 6 p)) s) else s);
                payloadOff = (if hasAf then 5 + afLen else 4)
            in if hasAf \<and> (afc = 0x02 \<or> payloadOff \<ge> PacketSize) then (Ok, d, s1)
            else if pid = PidPat \<or> (pid = d_pmtPid d \<and> d_pmtPid d \<noteq> PidNull)
            then (case processPsiPacket ow (drop payloadOff p) pid pusi d s1 of (d', s') \<Rightarrow> (Ok, d', s'))
            else (case map_of (d_pes d) pid of
                    None \<Rightarrow> (Ok, d, s1)
                  | Some pr \<Rightarrow> processPesPacket ow pid cc pusi randomAccessIndicator discontinuityIndicator
                                (drop payloadOff p) pr d s1))"

section \<open>The byte stream\<close>

text \<open>The search for the next sync byte behind the first byte of a window.\<close>

definition resync :: "byte list \<Rightarrow> nat" where
  "resync w = 1 + length (takeWhile (\<lambda>b. b \<noteq> SyncByte) (drop 1 w))"

lemma resync_pos [simp]: "0 < resync w"
  by (simp add: resync_def)

text \<open>The loop of \<open>push\<close> over the carried bytes and the rest of the input.\<close>

function push_loop :: "'s owner \<Rightarrow> byte list \<Rightarrow> byte list \<Rightarrow> demuxer \<Rightarrow> 's \<Rightarrow> error \<times> byte list \<times> demuxer \<times> 's" where
  "push_loop ow carry inp d s =
     (if \<not> (inp \<noteq> [] \<or> length carry \<ge> PacketSize) then (Ok, carry, d, s)
      else
        let owned = \<not> (carry = [] \<and> length inp \<ge> PacketSize); take_in = PacketSize - length carry;
            window = (if owned then carry @ take take_in inp else take PacketSize inp) in
        if owned \<and> length carry + length inp < PacketSize then (Ok, carry @ inp, d, s)
        else if window ! 0 \<noteq> SyncByte then
          (if owned then
             let advance = resync window; d1 = d\<lparr>d_bytesDiscarded := d_bytesDiscarded d + of_nat advance\<rparr> in
             if advance < length carry then push_loop ow (drop advance carry) inp d1 s
             else push_loop ow [] (drop (advance - length carry) inp) d1 s
           else
             let advance = resync inp; d1 = d\<lparr>d_bytesDiscarded := d_bytesDiscarded d + of_nat advance\<rparr>
             in push_loop ow carry (drop advance inp) d1 s)
        else
          (case processPacket ow window d s of
             (e, d1, s1) \<Rightarrow>
               if e \<noteq> Ok then (e, carry, d1, s1)
               else if owned then push_loop ow [] (drop take_in inp) d1 s1
               else push_loop ow carry (drop PacketSize inp) d1 s1))"
  by auto
termination
  by (relation "measure (\<lambda>(ow, carry, inp, d, s). length carry + length inp)")
    (auto simp: PacketSize_def resync_def)

declare push_loop.simps [simp del]

definition push :: "'s owner \<Rightarrow> byte list \<Rightarrow> demuxer \<Rightarrow> 's \<Rightarrow> error \<times> demuxer \<times> 's" where
  "push ow data d s =
     (if data = [] then (Ok, d, s)
      else case push_loop ow (d_carry d) data d s of (e, carry, d', s') \<Rightarrow> (e, d'\<lparr>d_carry := carry\<rparr>, s'))"

fun flush_loop :: "'s owner \<Rightarrow> demuxer \<Rightarrow> (u16 \<times> pes_reasm) list \<Rightarrow> 's \<Rightarrow> error \<times> (u16 \<times> pes_reasm) list \<times> 's" where
  "flush_loop ow d [] s = (Ok, [], s)"
| "flush_loop ow d ((pid, pr) # rest) s =
     (case (if pr_inProgress pr \<and> pr_data pr \<noteq> [] \<and> pr_unbounded pr then finalizePes ow pid pr d s else (Ok, pr, s)) of
        (e, pr', s1) \<Rightarrow>
          (case flush_loop ow d rest s1 of (e', rest', s2) \<Rightarrow> (if e \<noteq> Ok then e else e', (pid, pr') # rest', s2)))"

definition flush :: "'s owner \<Rightarrow> demuxer \<Rightarrow> 's \<Rightarrow> error \<times> demuxer \<times> 's" where
  "flush ow d s = (case flush_loop ow d (d_pes d) s of (e, pes, s') \<Rightarrow> (e, d\<lparr>d_pes := pes\<rparr>, s'))"

section \<open>Carried and discarded bytes are the byte stream's own\<close>

text \<open>
  Nothing that is done with a packet looks at the carried bytes or the count of discarded bytes: a run from a state
  that differs in them ends in the same state with that difference.
\<close>

abbreviation skipped :: "u64 \<times> byte list \<Rightarrow> demuxer \<Rightarrow> demuxer" where
  "skipped n d \<equiv> d\<lparr>d_carry := snd n, d_bytesDiscarded := fst n\<rparr>"

lemma skipped_registration [simp]: "registration_of (skipped n d) pid = registration_of d pid"
  by (simp add: registration_of_def)

lemma skipped_finalize [simp]: "finalizePes ow pid pr (skipped n d) s = finalizePes ow pid pr d s"
  by (simp add: finalizePes_def unit_of_def)

lemma skipped_units [simp]:
  "startNewPes ow pid pr pes ra disc (skipped n d) s = startNewPes ow pid pr pes ra disc d s"
  "continuePes ow pid pr pes (skipped n d) s = continuePes ow pid pr pes d s"
  "set_pes pid pr (skipped n d) = skipped n (set_pes pid pr d)"
  unfolding startNewPes_def continuePes_def skipped_finalize set_pes_def by simp_all

lemma skipped_tables:
  "demux_parsePat ow section (skipped n d) s = map_prod (skipped n) id (demux_parsePat ow section d s)"
  "demux_parsePmt ow section (skipped n d) s = map_prod (skipped n) id (demux_parsePmt ow section d s)"
  by (auto simp: demux_parsePat_def demux_parsePmt_def Let_def split: sum.split option.split)

lemma skipped_dispatch:
  "dispatchPsiSection ow pid section (skipped n d) s = map_prod (skipped n) id (dispatchPsiSection ow pid section d s)"
  by (simp add: dispatchPsiSection_def Let_def skipped_tables)

text \<open>A turn of the section loop: it stops, dispatches a section and goes on, or only goes on.\<close>

definition psi_measure :: "byte list \<Rightarrow> psi_reasm \<Rightarrow> nat" where
  "psi_measure bytes re = 2 * length bytes + (if psi_expectedTotal re = 0 then 0 else 1)"

lemma psi_loop_cases:
  obtains (stop) re' where "\<And>d s. psi_loop ow pid bytes re d s = (re', d, s)"
  | (dispatch) sec rest where "\<And>d s. psi_loop ow pid bytes re d s =
        (case dispatchPsiSection ow pid sec d s of (d', s') \<Rightarrow> psi_loop ow pid rest \<lparr>psi_data = [], psi_expectedTotal = 0\<rparr> d' s')"
      "psi_measure rest \<lparr>psi_data = [], psi_expectedTotal = 0\<rparr> < psi_measure bytes re"
  | (more) rest re' where "\<And>d s. psi_loop ow pid bytes re d s = psi_loop ow pid rest re' d s"
      "psi_measure rest re' < psi_measure bytes re"
proof -
  define fresh where "fresh = (psi_expectedTotal re = 0)"
  define total where "total = unat (push_bit 8 (ucast (bytes ! 1 AND 0x0F)) OR ucast (bytes ! 2) :: u16) + 3"
  define re1 where "re1 = (if fresh then \<lparr>psi_data = [], psi_expectedTotal = total\<rparr> else re)"
  define need where "need = psi_expectedTotal re1 - length (psi_data re1)"
  define copy where "copy = (if length bytes < need then length bytes else need)"
  define re2 where "re2 = re1\<lparr>psi_data := psi_data re1 @ take copy bytes\<rparr>"
  note loop = psi_loop.simps [of ow pid bytes re, unfolded Let_def, folded fresh_def total_def, folded re1_def, folded need_def,
    folded copy_def, folded re2_def]
  consider "bytes = [] \<or> fresh \<and> (length bytes < 3 \<or> bytes ! 0 = 0xFF \<or> total < 8 \<or> total > 4096)"
    | "bytes \<noteq> []" "\<not> (fresh \<and> (length bytes < 3 \<or> bytes ! 0 = 0xFF \<or> total < 8 \<or> total > 4096))" by blast
  then show ?thesis
  proof cases
    case 1
    then show ?thesis by (intro stop [of re]) (subst loop; auto)
  next
    case 2
    then have go: "psi_loop ow pid bytes re d s =
        (if length (psi_data re2) = psi_expectedTotal re2 then
               (case dispatchPsiSection ow pid (psi_data re2) d s of
                  (d', s') \<Rightarrow> psi_loop ow pid (drop copy bytes) \<lparr>psi_data = [], psi_expectedTotal = 0\<rparr> d' s')
             else if copy = 0 then (re2, d, s)
             else psi_loop ow pid (drop copy bytes) re2 d s)" for d s
      by (subst loop) auto
    have pos: "fresh \<Longrightarrow> 0 < copy" using 2 by (auto simp: copy_def need_def re1_def)
    have le: "copy \<le> length bytes" by (simp add: copy_def)
    show ?thesis
    proof (cases "length (psi_data re2) = psi_expectedTotal re2")
      case True
      have "psi_measure (drop copy bytes) \<lparr>psi_data = [], psi_expectedTotal = 0\<rparr> < psi_measure bytes re"
        using pos le 2(1) by (cases "copy = 0") (auto simp: psi_measure_def fresh_def)
      then show ?thesis using go True by (intro dispatch [of "drop copy bytes" "psi_data re2"]) simp_all
    next
      case False
      then show ?thesis
      proof (cases "copy = 0")
        case True
        then show ?thesis using go False by (intro stop [of re2]) simp
      next
        case nz: False
        have "psi_measure (drop copy bytes) re2 < psi_measure bytes re" using nz le by (auto simp: psi_measure_def)
        then show ?thesis using go False nz by (intro more [of "drop copy bytes" re2]) simp_all
      qed
    qed
  qed
qed

lemma skipped_psi_loop:
  "psi_loop ow pid bytes re (skipped n d) s = map_prod id (map_prod (skipped n) id) (psi_loop ow pid bytes re d s)"
proof (induction "psi_measure bytes re" arbitrary: bytes re d s rule: less_induct)
  case less
  show ?case
  proof (cases rule: psi_loop_cases [of ow pid bytes re])
    case (dispatch sec rest)
    then show ?thesis using less dispatch(2) by (simp add: skipped_dispatch split: prod.split)
  next
    case (more rest re')
    then show ?thesis using less more(2) by simp
  qed simp
qed

lemma skipped_psi_packet:
  "processPsiPacket ow p pid pusi (skipped n d) s = map_prod (skipped n) id (processPsiPacket ow p pid pusi d s)"
proof -
  define re where "re = (case map_of (d_psi d) pid of Some re \<Rightarrow> re | None \<Rightarrow> \<lparr>psi_data = [], psi_expectedTotal = 0\<rparr>)"
  have store: "(case map_prod id (map_prod (skipped n) id) x of (re, d, s) \<Rightarrow> (d\<lparr>d_psi := map_insert pid re (d_psi d)\<rparr>, s)) =
      map_prod (skipped n) id (case x of (re, d, s) \<Rightarrow> (d\<lparr>d_psi := map_insert pid re (d_psi d)\<rparr>, s))" for x :: "psi_reasm \<times> demuxer \<times> 'a"
    by (simp split: prod.split)
  have next_section: "(case map_prod (skipped n) id x of (d1, s1) \<Rightarrow> f (psi_loop ow pid bytes r d1 s1)) =
      (case x of (d1, s1) \<Rightarrow> f (map_prod id (map_prod (skipped n) id) (psi_loop ow pid bytes r d1 s1)))"
    for x bytes r and f :: "psi_reasm \<times> demuxer \<times> 'a \<Rightarrow> demuxer \<times> 'a"
    by (simp add: skipped_psi_loop split: prod.split)
  consider "p = []" | "p \<noteq> []" "\<not> pusi" | "p \<noteq> []" "pusi" by blast
  then show ?thesis
  proof cases
    case 2
    then show ?thesis by (simp add: processPsiPacket_def Let_def skipped_psi_loop store)
  next
    case 3
    let ?join = "unat (p ! 0) > 0 \<and> psi_data re \<noteq> [] \<and> psi_expectedTotal re > 0"
    have pick: "(if c then dispatchPsiSection ow pid sec (skipped n d) s else (skipped n d, s)) =
        map_prod (skipped n) id (if c then dispatchPsiSection ow pid sec d s else (d, s))" for c sec
      by (simp add: skipped_dispatch)
    have pick2: "(if b then map_prod (skipped n) id x else (skipped n d, s)) = map_prod (skipped n) id (if b then x else (d, s))" for b and x :: "demuxer \<times> 'a"
      by simp
    show ?thesis using 3
      by (simp add: processPsiPacket_def Let_def re_def [symmetric] pick pick2 next_section store split del: if_split cong: if_cong)
        (auto split: prod.split)
  qed (simp add: processPsiPacket_def)
qed

lemma skipped_pes_packet:
  "processPesPacket ow pid cc pusi ra disc pes pr (skipped n d) s =
     map_prod id (map_prod (skipped n) id) (processPesPacket ow pid cc pusi ra disc pes pr d s)"
proof -
  have "(if b then skipped n d\<lparr>d_continuityErrors := d_continuityErrors (skipped n d) + 1\<rparr> else skipped n d) =
      skipped n (if b then d\<lparr>d_continuityErrors := d_continuityErrors d + 1\<rparr> else d)" for b
    by simp
  note d1 = this
  obtain d1 where eq: "(if pr_haveCc pr \<and> cc \<noteq> (pr_continuityCounter pr + 1) AND 0x0F then d\<lparr>d_continuityErrors := d_continuityErrors d + 1\<rparr> else d) = d1"
    by blast
  show ?thesis unfolding processPesPacket_def Let_def d1 skipped_finalize eq skipped_units
    by (cases pusi) (simp_all add: prod.case_distrib split: prod.split)
qed

lemma skipped_packet:
  "processPacket ow p (skipped n d) s = map_prod id (map_prod (skipped n) id) (processPacket ow p d s)"
  by (auto simp: processPacket_def Let_def skipped_psi_packet skipped_pes_packet split: prod.split option.split)


section \<open>Pushing in pieces\<close>

text \<open>An owner whose callback never returns an error and whose allocations succeed.\<close>

definition never_fails :: "'s owner \<Rightarrow> bool" where
  "never_fails ow \<longleftrightarrow> (\<forall>f au s. o_streamCallback ow = Some f \<longrightarrow> fst (f au s) = Ok) \<and> (\<forall>n. o_alloc ow n)"

lemma never_fails_finalize: "never_fails ow \<Longrightarrow> fst (finalizePes ow pid pr d s) = Ok"
  by (auto simp: finalizePes_def never_fails_def Let_def split: option.split prod.split dest: fstI)

lemma never_fails_pes:
  assumes "never_fails ow"
  shows "fst (startNewPes ow pid pr pes ra disc d s) = Ok" "fst (continuePes ow pid pr pes d s) = Ok"
  using assms never_fails_finalize [OF assms]
  by (auto simp: startNewPes_def continuePes_def never_fails_def Let_def split: sum.split prod.split)

lemma never_fails_packet:
  assumes "never_fails ow"
  shows "fst (processPacket ow p d s) = Ok"
proof -
  have "fst (processPesPacket ow pid cc pusi ra disc pes pr d s) = Ok" for pid cc pusi ra disc pes pr d s
    unfolding processPesPacket_def Let_def prod.case_eq_if
    by (cases pusi) (simp_all add: never_fails_finalize [OF assms] never_fails_pes [OF assms])
  then show ?thesis by (simp add: processPacket_def Let_def prod.case_eq_if option.case_eq_if)
qed

text \<open>
  The reference: the packets of a byte string are found by skipping to the next sync byte and taking 188 bytes, and
  what is left starts with a sync byte.
\<close>

abbreviation to_sync :: "byte list \<Rightarrow> byte list" where
  "to_sync \<equiv> dropWhile (\<lambda>b. b \<noteq> SyncByte)"

function scan :: "byte list \<Rightarrow> byte list list \<times> byte list" where
  "scan bs =
     (let w = to_sync bs in
      if length w < PacketSize then ([], w)
      else case scan (drop PacketSize w) of (ps, r) \<Rightarrow> (take PacketSize w # ps, r))"
  by auto
termination
proof (relation "measure length")
  fix bs :: "byte list" and w
  assume "w = to_sync bs" "\<not> length w < PacketSize"
  then show "(drop PacketSize w, bs) \<in> measure length"
    using length_dropWhile_le [of "\<lambda>b. b \<noteq> SyncByte" bs] by (simp add: PacketSize_def)
qed simp

declare scan.simps [simp del]

lemma to_sync_append: "to_sync (to_sync xs @ ys) = to_sync (xs @ ys)"
  by (induction xs) simp_all

lemma to_sync_drop: "n \<le> length (takeWhile (\<lambda>b. b \<noteq> SyncByte) bs) \<Longrightarrow> to_sync (drop n bs) = to_sync bs"
proof (induction n arbitrary: bs)
  case (Suc n)
  then show ?case by (cases bs) (auto split: if_splits)
qed simp

lemma scan_to_sync: "to_sync xs = to_sync ys \<Longrightarrow> scan xs = scan ys"
  by (subst (1 2) scan.simps) simp

lemma scan_append: "scan xs = (ps, r) \<Longrightarrow> scan (xs @ ys) = (case scan (r @ ys) of (qs, r') \<Rightarrow> (ps @ qs, r'))"
proof (induction xs arbitrary: ps r rule: scan.induct)
  case (1 xs)
  define w where "w = to_sync xs"
  show ?case
  proof (cases "length w < PacketSize")
    case True
    then have "ps = []" "r = w" using "1.prems" by (simp_all add: scan.simps [of xs] w_def)
    then show ?thesis using scan_to_sync [OF to_sync_append, of xs ys] by (simp add: w_def)
  next
    case False
    then obtain qs where q: "scan (drop PacketSize w) = (qs, r)" "ps = take PacketSize w # qs"
      using "1.prems" by (auto simp: scan.simps [of xs] w_def Let_def split: prod.splits)
    have "w \<noteq> []" using False by (auto simp: PacketSize_def)
    then have "to_sync (xs @ ys) = w @ ys" by (auto simp: w_def dropWhile_append)
    then show ?thesis using "1.IH" [OF w_def False q(1)] False q(2)
      by (subst scan.simps) (simp split: prod.splits)
  qed
qed

text \<open>The packets of a byte string, one after the other.\<close>

definition run_packets :: "'s owner \<Rightarrow> byte list list \<Rightarrow> demuxer \<Rightarrow> 's \<Rightarrow> demuxer \<times> 's" where
  "run_packets ow ps d s = fold (\<lambda>p (d, s). snd (processPacket ow p d s)) ps (d, s)"

lemma run_packets_simps [simp]:
  "run_packets ow [] d s = (d, s)"
  "run_packets ow (p # ps) d s = (case processPacket ow p d s of (e, d', s') \<Rightarrow> run_packets ow ps d' s')"
  by (simp_all add: run_packets_def split: prod.split)

lemma run_packets_append:
  "run_packets ow (ps @ qs) d s = (case run_packets ow ps d s of (d', s') \<Rightarrow> run_packets ow qs d' s')"
  by (simp add: run_packets_def split: prod.split)

lemma run_packets_skipped: "run_packets ow ps (skipped n d) s = map_prod (skipped n) id (run_packets ow ps d s)"
  by (induction ps arbitrary: d s) (simp_all add: skipped_packet split: prod.split)


text \<open>Skipping to where the code looks for the next sync byte never skips one.\<close>

lemma resync_skips_none:
  assumes "w ! 0 \<noteq> SyncByte" "0 < length w"
  shows "to_sync (drop (resync w) (w @ rest)) = to_sync (w @ rest)" "resync w \<le> length w"
proof -
  obtain b bs where w: "w = b # bs" using assms(2) by (cases w) auto
  have le: "resync w \<le> length w" using length_takeWhile_le [of "\<lambda>b. b \<noteq> SyncByte" bs] by (simp add: resync_def w)
  then show "resync w \<le> length w" .
  have "resync w = length (takeWhile (\<lambda>b. b \<noteq> SyncByte) w)" using assms(1) by (simp add: resync_def w)
  moreover have "length (takeWhile (\<lambda>b. b \<noteq> SyncByte) w) \<le> length (takeWhile (\<lambda>b. b \<noteq> SyncByte) (w @ rest))"
    by (induction w) simp_all
  ultimately show "to_sync (drop (resync w) (w @ rest)) = to_sync (w @ rest)" using to_sync_drop [of "resync w" "w @ rest"] by simp
qed

lemma packet_keeps:
  assumes "processPacket ow p d s = (e, d1, s1)"
  shows "d_bytesDiscarded d1 = d_bytesDiscarded d" "d_carry d1 = d_carry d"
proof -
  have "skipped (d_bytesDiscarded d, d_carry d) d = d" by simp
  then have "(e, d1, s1) = map_prod id (map_prod (skipped (d_bytesDiscarded d, d_carry d)) id) (e, d1, s1)"
    using skipped_packet [of ow p "(d_bytesDiscarded d, d_carry d)" d s] assms by simp
  then have same: "d1 = skipped (d_bytesDiscarded d, d_carry d) d1" by simp
  from arg_cong [OF same, of d_bytesDiscarded] show "d_bytesDiscarded d1 = d_bytesDiscarded d" by simp
  from arg_cong [OF same, of d_carry] show "d_carry d1 = d_carry d" by simp
qed

text \<open>What the loop does on the carried bytes and the input is what the reference says.\<close>

definition follows_scan :: "'s owner \<Rightarrow> byte list \<Rightarrow> byte list \<Rightarrow> demuxer \<Rightarrow> 's \<Rightarrow> bool" where
  "follows_scan ow carry inp d s \<longleftrightarrow> (\<forall>ps r d' s'. scan (carry @ inp) = (ps, r) \<longrightarrow> run_packets ow ps d s = (d', s') \<longrightarrow>
     (\<exists>c k. push_loop ow carry inp d s = (Ok, c, skipped (d_bytesDiscarded d + of_nat k, d_carry d) d', s') \<and>
       to_sync c = r \<and> length c < PacketSize \<and> length carry + length inp = PacketSize * length ps + length c + k))"

lemma follows_scan_rest:
  assumes "push_loop ow carry inp d s = (Ok, carry @ inp, d, s)" "length (carry @ inp) < PacketSize"
  shows "follows_scan ow carry inp d s"
proof -
  have "length (to_sync (carry @ inp)) < PacketSize"
    using assms(2) length_dropWhile_le [of "\<lambda>b. b \<noteq> SyncByte" "carry @ inp"] by linarith
  then have "scan (carry @ inp) = ([], to_sync (carry @ inp))" by (subst scan.simps) (simp add: Let_def)
  with assms show ?thesis by (auto simp: follows_scan_def intro!: exI [of _ 0])
qed

lemma follows_scan_skip:
  assumes "follows_scan ow carry' inp' (skipped (d_bytesDiscarded d + of_nat n, d_carry d) d) s"
    and "push_loop ow carry inp d s = push_loop ow carry' inp' (skipped (d_bytesDiscarded d + of_nat n, d_carry d) d) s"
    and "to_sync (carry' @ inp') = to_sync (carry @ inp)" "length carry + length inp = length carry' + length inp' + n"
  shows "follows_scan ow carry inp d s"
  unfolding follows_scan_def
proof (intro allI impI)
  fix ps r d' s'
  assume a: "scan (carry @ inp) = (ps, r)" "run_packets ow ps d s = (d', s')"
  then have "scan (carry' @ inp') = (ps, r)" using scan_to_sync [OF assms(3)] by simp
  moreover have "run_packets ow ps (skipped (d_bytesDiscarded d + of_nat n, d_carry d) d) s = (skipped (d_bytesDiscarded d + of_nat n, d_carry d) d', s')"
    by (simp only: run_packets_skipped a map_prod_simp id_apply)
  ultimately obtain c k where "push_loop ow carry inp d s = (Ok, c, skipped (d_bytesDiscarded d + of_nat n + of_nat k, d_carry d) d', s')"
      "to_sync c = r" "length c < PacketSize" "length carry' + length inp' = PacketSize * length ps + length c + k"
    using assms(1,2) unfolding follows_scan_def by fastforce
  then show "\<exists>c k. push_loop ow carry inp d s = (Ok, c, skipped (d_bytesDiscarded d + of_nat k, d_carry d) d', s') \<and>
      to_sync c = r \<and> length c < PacketSize \<and> length carry + length inp = PacketSize * length ps + length c + k"
    using assms(4) by (intro exI [of _ c] exI [of _ "n + k"]) (simp add: add.assoc)
qed

lemma follows_scan_packet:
  assumes "follows_scan ow carry' inp' d1 s1" "processPacket ow w d s = (Ok, d1, s1)"
    and "push_loop ow carry inp d s = push_loop ow carry' inp' d1 s1" "carry @ inp = w @ carry' @ inp'"
    and "length w = PacketSize" "w ! 0 = SyncByte"
  shows "follows_scan ow carry inp d s"
  unfolding follows_scan_def
proof (intro allI impI)
  fix ps r d' s'
  assume a: "scan (carry @ inp) = (ps, r)" "run_packets ow ps d s = (d', s')"
  have "to_sync (carry @ inp) = w @ carry' @ inp'" using assms(4,5,6) by (cases w) (auto simp: PacketSize_def)
  then obtain qs where qs: "scan (carry' @ inp') = (qs, r)" "ps = w # qs"
    using a(1) assms(5) by (auto simp: scan.simps [of "carry @ inp"] Let_def split: prod.splits)
  then have "run_packets ow qs d1 s1 = (d', s')" using a(2) assms(2) by simp
  with qs(1) obtain c k where "push_loop ow carry inp d s = (Ok, c, skipped (d_bytesDiscarded d1 + of_nat k, d_carry d1) d', s')"
      "to_sync c = r" "length c < PacketSize" "length carry' + length inp' = PacketSize * length qs + length c + k"
    using assms(1,3) unfolding follows_scan_def by fastforce
  moreover have "length carry + length inp = PacketSize + (length carry' + length inp')"
    using arg_cong [OF assms(4), of length] assms(5) by simp
  ultimately show "\<exists>c k. push_loop ow carry inp d s = (Ok, c, skipped (d_bytesDiscarded d + of_nat k, d_carry d) d', s') \<and>
      to_sync c = r \<and> length c < PacketSize \<and> length carry + length inp = PacketSize * length ps + length c + k"
    using packet_keeps [OF assms(2)] qs(2) by (intro exI [of _ c] exI [of _ k]) simp
qed


lemma push_loop_follows_scan:
  assumes "never_fails ow" "length carry < PacketSize"
  shows "follows_scan ow carry inp d s"
  using assms(2)
proof (induction "length carry + length inp" arbitrary: carry inp d s rule: less_induct)
  case (less carry inp d s)
  note loop = push_loop.simps [of ow carry inp d s, unfolded Let_def]
  define t where "t = PacketSize - length carry"
  let ?d = "\<lambda>n. skipped (d_bytesDiscarded d + of_nat n, d_carry d) d"
  obtain e d1 s1 where pk: "processPacket ow (take PacketSize (carry @ inp)) d s = (e, d1, s1)" by (metis prod_cases3)
  have e: "e = Ok" using never_fails_packet [OF assms(1), of "take PacketSize (carry @ inp)" d s] pk by simp
  consider (none) "inp = []" | (short) "inp \<noteq> []" "length carry + length inp < PacketSize"
    | (direct) "inp \<noteq> []" "carry = []" "PacketSize \<le> length inp"
    | (joined) "inp \<noteq> []" "carry \<noteq> []" "PacketSize \<le> length carry + length inp"
    by (cases "inp = []"; cases "carry = []"; cases "PacketSize \<le> length carry + length inp") auto
  then show ?case
  proof cases
    case none
    then show ?thesis using less.prems by (intro follows_scan_rest) (subst loop, auto)
  next
    case short
    then show ?thesis using less.prems by (intro follows_scan_rest) (subst loop, auto)
  next
    case direct
    have ne: "0 < length inp" using direct(1) by simp
    show ?thesis
    proof (cases "inp ! 0 = SyncByte")
      case True
      have "push_loop ow carry inp d s = push_loop ow [] (drop PacketSize inp) d1 s1"
        using direct True pk e by (subst loop) (simp add: PacketSize_def)
      moreover have "follows_scan ow [] (drop PacketSize inp) d1 s1" using direct by (intro less.hyps) (simp_all add: PacketSize_def)
      ultimately show ?thesis using direct True pk e
        by - (rule follows_scan_packet [of ow "[]" "drop PacketSize inp" d1 s1 "take PacketSize inp"], simp_all add: PacketSize_def)
    next
      case False
      have "push_loop ow carry inp d s = push_loop ow [] (drop (resync inp) inp) (?d (resync inp)) s"
        using direct False by (subst loop) (simp add: PacketSize_def)
      moreover have "follows_scan ow [] (drop (resync inp) inp) (?d (resync inp)) s"
        using direct less.prems by (intro less.hyps) simp_all
      ultimately show ?thesis using direct resync_skips_none(1) [of inp "[]", OF False ne] resync_skips_none(2) [of inp, OF False ne]
        by - (rule follows_scan_skip [of ow "[]" "drop (resync inp) inp" d "resync inp"], simp_all)
    qed
  next
    case joined
    let ?w = "carry @ take t inp"
    have w: "?w = take PacketSize (carry @ inp)" "length ?w = PacketSize" using joined less.prems by (simp_all add: t_def)
    have cpos: "0 < length carry" using joined by simp
    have cat: "carry @ inp = ?w @ drop t inp" by simp
    show ?thesis
    proof (cases "?w ! 0 = SyncByte")
      case True
      have pk': "processPacket ow ?w d s = (Ok, d1, s1)" using pk e w(1) by simp
      have loop': "push_loop ow carry inp d s = push_loop ow [] (drop t inp) d1 s1"
        using joined True pk' by (subst loop) (simp add: t_def)
      have "follows_scan ow [] (drop t inp) d1 s1" using cpos by (intro less.hyps) (simp_all add: PacketSize_def del: length_greater_0_conv)
      from follows_scan_packet [OF this pk' loop' _ w(2) True] show ?thesis by simp
    next
      case False
      define n where "n = resync ?w"
      have n: "n \<le> PacketSize" "to_sync (drop n (carry @ inp)) = to_sync (carry @ inp)"
        using resync_skips_none(1) [of ?w "drop t inp", OF False] resync_skips_none(2) [of ?w, OF False] w(2) joined(2) unfolding cat [symmetric] n_def by (simp_all add: PacketSize_def)
      show ?thesis
      proof (cases "n < length carry")
        case True
        have "push_loop ow carry inp d s = push_loop ow (drop n carry) inp (?d n) s"
          using joined False True by (subst loop) (simp add: t_def n_def)
        moreover have "follows_scan ow (drop n carry) inp (?d n) s"
          using joined less.prems by (intro less.hyps) (simp_all add: n_def)
        ultimately show ?thesis using n True by - (rule follows_scan_skip [of ow "drop n carry" inp d n], simp_all)
      next
        case nc: False
        have "push_loop ow carry inp d s = push_loop ow [] (drop (n - length carry) inp) (?d n) s"
          using joined False nc by (subst loop) (simp add: t_def n_def)
        moreover have "follows_scan ow [] (drop (n - length carry) inp) (?d n) s"
          using cpos by (intro less.hyps) (simp_all add: PacketSize_def del: length_greater_0_conv)
        ultimately show ?thesis using n nc joined by - (rule follows_scan_skip [of ow "[]" "drop (n - length carry) inp" d n], simp_all)
      qed
    qed
  qed
qed


text \<open>The pieces of a stream, pushed one after the other until one fails.\<close>

fun push_all :: "'s owner \<Rightarrow> byte list list \<Rightarrow> demuxer \<Rightarrow> 's \<Rightarrow> error \<times> demuxer \<times> 's" where
  "push_all ow [] d s = (Ok, d, s)"
| "push_all ow (x # xs) d s =
     (case push ow x d s of (e, d', s') \<Rightarrow> if e \<noteq> Ok then (e, d', s') else push_all ow xs d' s')"

lemma push_all_scan:
  assumes "never_fails ow" "length (d_carry d) < PacketSize" "scan (d_carry d @ concat pieces) = (ps, r)"
    "run_packets ow ps d s = (d', s')"
  shows "\<exists>c k. push_all ow pieces d s = (Ok, skipped (d_bytesDiscarded d + of_nat k, c) d', s') \<and> to_sync c = r \<and>
    length c < PacketSize \<and> length (d_carry d) + length (concat pieces) = PacketSize * length ps + length c + k"
  using assms(2-)
proof (induction pieces arbitrary: d s ps d')
  case Nil
  have "length (to_sync (d_carry d)) < PacketSize"
    using Nil.prems(1) length_dropWhile_le [of "\<lambda>b. b \<noteq> SyncByte" "d_carry d"] by linarith
  then have "scan (d_carry d) = ([], to_sync (d_carry d))" by (subst scan.simps) (simp add: Let_def)
  with Nil show ?case by (auto intro!: exI [of _ "d_carry d"] exI [of _ 0])
next
  case (Cons x xs)
  obtain ps1 r1 where s1: "scan (d_carry d @ x) = (ps1, r1)" by fastforce
  obtain d1 st1 where run1: "run_packets ow ps1 d s = (d1, st1)" by fastforce
  have "\<exists>c k. push ow x d s = (Ok, skipped (d_bytesDiscarded d + of_nat k, c) d1, st1) \<and> to_sync c = r1 \<and>
      length c < PacketSize \<and> length (d_carry d) + length x = PacketSize * length ps1 + length c + k"
  proof (cases "x = []")
    case True
    have "length (to_sync (d_carry d)) < PacketSize"
      using Cons.prems(1) length_dropWhile_le [of "\<lambda>b. b \<noteq> SyncByte" "d_carry d"] by linarith
    then have "scan (d_carry d) = ([], to_sync (d_carry d))" by (subst scan.simps) (simp add: Let_def)
    then show ?thesis using True s1 run1 Cons.prems(1) by (auto simp: push_def intro!: exI [of _ "d_carry d"] exI [of _ 0])
  next
    case False
    obtain c k where "push_loop ow (d_carry d) x d s = (Ok, c, skipped (d_bytesDiscarded d + of_nat k, d_carry d) d1, st1)"
        "to_sync c = r1" "length c < PacketSize" "length (d_carry d) + length x = PacketSize * length ps1 + length c + k"
      using push_loop_follows_scan [OF assms(1) Cons.prems(1), where inp = x and s = s] s1 run1 unfolding follows_scan_def by blast
    then show ?thesis using False by (intro exI [of _ c] exI [of _ k]) (simp add: push_def)
  qed
  then obtain c1 k1 where p: "push ow x d s = (Ok, skipped (d_bytesDiscarded d + of_nat k1, c1) d1, st1)" "to_sync c1 = r1"
      "length c1 < PacketSize" "length (d_carry d) + length x = PacketSize * length ps1 + length c1 + k1"
    by blast
  obtain ps2 where s2: "scan (c1 @ concat xs) = (ps2, r)" "ps = ps1 @ ps2"
    using Cons.prems(2) scan_append [OF s1, of "concat xs"] scan_to_sync [OF to_sync_append, of c1 "concat xs"] p(2)
    by (auto split: prod.splits)
  have run2: "run_packets ow ps2 d1 st1 = (d', s')" using Cons.prems(3) run1 s2(2) by (simp add: run_packets_append)
  let ?d1 = "skipped (d_bytesDiscarded d + of_nat k1, c1) d1"
  have "run_packets ow ps2 ?d1 st1 = (skipped (d_bytesDiscarded d + of_nat k1, c1) d', s')"
    by (simp only: run_packets_skipped run2 map_prod_simp id_apply)
  from Cons.IH [OF _ _ this] s2(1) p(3) obtain c k where
    "push_all ow xs ?d1 st1 = (Ok, skipped (d_bytesDiscarded d + of_nat k1 + of_nat k, c) d', s')" "to_sync c = r" "length c < PacketSize"
    "length c1 + length (concat xs) = PacketSize * length ps2 + length c + k" by auto
  then show ?case using p(1,4) s2(2) by (intro exI [of _ c] exI [of _ "k1 + k"]) (simp add: add.assoc distrib_left)
qed

text \<open>C6: The demultiplexer does not depend on how the stream is cut: two ways of cutting the same bytes find the same
  packets, leave the same program, reassembly state and owner, and account for every byte as a packet's, a discarded
  or a carried one. The owner is one whose callback returns no error and whose allocations succeed.\<close>
theorem demux_any_pieces:
  assumes "never_fails ow" "length (d_carry d) < PacketSize" "concat p = concat q"
    and "push_all ow p d s = (e1, d1, s1)" "push_all ow q d s = (e2, d2, s2)"
  shows "e1 = Ok \<and> e2 = Ok \<and> s1 = s2 \<and> d1\<lparr>d_carry := [], d_bytesDiscarded := 0\<rparr> = d2\<lparr>d_carry := [], d_bytesDiscarded := 0\<rparr> \<and>
    to_sync (d_carry d1) = to_sync (d_carry d2) \<and>
    d_bytesDiscarded d1 + of_nat (length (d_carry d1)) = d_bytesDiscarded d2 + of_nat (length (d_carry d2))"
proof -
  obtain ps r where sc: "scan (d_carry d @ concat p) = (ps, r)" by fastforce
  obtain d' s' where run: "run_packets ow ps d s = (d', s')" by fastforce
  from push_all_scan [OF assms(1,2) sc run] obtain c k where p:
    "push_all ow p d s = (Ok, skipped (d_bytesDiscarded d + of_nat k, c) d', s')" "to_sync c = r"
    "length (d_carry d) + length (concat p) = PacketSize * length ps + length c + k" by blast
  from push_all_scan [OF assms(1,2) sc [unfolded assms(3)] run] obtain c' k' where q:
    "push_all ow q d s = (Ok, skipped (d_bytesDiscarded d + of_nat k', c') d', s')" "to_sync c' = r"
    "length (d_carry d) + length (concat q) = PacketSize * length ps + length c' + k'" by blast
  have "k + length c = k' + length c'" using p(3) q(3) assms(3) by simp
  then have "(of_nat k :: u64) + of_nat (length c) = of_nat k' + of_nat (length c')" by (metis of_nat_add)
  then show ?thesis using p(1,2) q(1,2) assms(4,5) by (auto simp: add.assoc)
qed

text \<open>An owner that keeps what it is given.\<close>

definition collector :: "access_unit list owner" where
  "collector = \<lparr>o_streamCallback = Some (\<lambda>au s. (Ok, s @ [au])), o_programCallback = None, o_pcrCallback = None,
     o_alloc = (\<lambda>_. True)\<rparr>"

lemma collector_never_fails [simp]: "never_fails collector"
  by (simp add: never_fails_def collector_def)

theorem demux_any_pieces_witness:
  "let p = [[0x00, 0x47], replicate 100 0x1F, replicate 90 0xFF]; q = [0x00 # 0x47 # replicate 100 0x1F @ replicate 90 0xFF];
       x = push_all collector p new_demuxer []; y = push_all collector q new_demuxer []
   in concat p = concat q \<and> fst x = Ok \<and> fst y = Ok \<and> snd (snd x) = snd (snd y) \<and>
      to_sync (d_carry (fst (snd x))) = to_sync (d_carry (fst (snd y)))"
proof -
  let ?p = "[[0x00, 0x47], replicate 100 0x1F, replicate 90 0xFF] :: byte list list"
  let ?q = "[0x00 # 0x47 # replicate 100 0x1F @ replicate 90 0xFF] :: byte list list"
  have cat: "concat ?p = concat ?q" by simp
  have carry: "length (d_carry new_demuxer) < PacketSize" by (simp add: new_demuxer_def PacketSize_def)
  obtain e1 d1 s1 e2 d2 s2 where xy: "push_all collector ?p new_demuxer [] = (e1, d1, s1)" "push_all collector ?q new_demuxer [] = (e2, d2, s2)"
    by (metis prod_cases3)
  from demux_any_pieces [OF collector_never_fails carry cat xy] show ?thesis unfolding Let_def xy using cat by simp
qed

end
