(* ===== verification/TransportStream.thy ===== *)
theory TransportStream
  imports TsMuxer TsDemuxer
begin

text \<open>
  The two ends of a transport stream joined: what the multiplexer of \<open>src/proav/mpegtsmuxer.cpp\<close> emits, the
  demultiplexer of \<open>src/proav/mpegtsdemuxer.cpp\<close> takes apart again.
\<close>

unbundle bit_operations_syntax

section \<open>A packet of the multiplexer, read by the demultiplexer\<close>

lemma pid_byte:
  fixes pid :: u16 and first :: bool
  defines "f \<equiv> ((if first then 0x40 else 0x00) OR (ucast (drop_bit 8 pid) AND 0x1F)) :: byte"
  shows "f AND 0x40 \<noteq> 0 \<longleftrightarrow> first" "f AND 0x80 = 0"
    "push_bit 8 (ucast (f AND 0x1F)) OR (ucast (ucast (pid AND 0xFF) :: byte) :: u16) = take_bit 13 pid"
proof -
  have forty: "bit (0x40 :: int) k \<longleftrightarrow> k = 6" for k
  proof -
    have "(0x40 :: int) = push_bit 6 1" by simp
    then show ?thesis by (simp only: bit_push_bit_iff bit_1_iff) auto
  qed
  have bits: "bit f 6 \<longleftrightarrow> first" "\<not> bit f 7" "\<And>k. k < 5 \<Longrightarrow> bit f k \<longleftrightarrow> bit pid (k + 8)"
    unfolding f_def low_masks bits_only by (auto simp: forty add.commute)
  show "f AND 0x40 \<noteq> 0 \<longleftrightarrow> first" "f AND 0x80 = 0" using bits(1,2) by (simp_all only: byte_bits not_not) simp_all
  show "push_bit 8 (ucast (f AND 0x1F)) OR (ucast (ucast (pid AND 0xFF) :: byte) :: u16) = take_bit 13 pid"
  proof (rule bit_word_eqI)
    fix n assume "n < LENGTH(16)"
    then have "n < 8 \<or> (8 \<le> n \<and> n < 13) \<or> (13 \<le> n \<and> n < 16)" by simp linarith
    then show "bit (push_bit 8 (ucast (f AND 0x1F)) OR (ucast (ucast (pid AND 0xFF) :: byte) :: u16)) n \<longleftrightarrow> bit (take_bit 13 pid) n"
      unfolding low_masks bits_only using bits(3) [of "n - 8"] by (elim disjE) auto
  qed
qed

lemma control_byte:
  "drop_bit 4 ((if b then 0x10 else 0x30) OR (cc AND 0x0F)) AND 0x03 = (if b then 1 else 3 :: byte)"
  "((if b then 0x10 else 0x30) OR (cc AND 0x0F)) AND 0x0F = cc AND (0x0F :: byte)"
  by (rule bit_byte_eqI; simp add: low_masks bit_simps)+

lemma flag_byte:
  fixes disc ra pcr :: bool
  defines "f \<equiv> (if disc then 0x80 else 0) OR (if ra then 0x40 else 0) OR (if pcr then 0x10 else 0) :: byte"
  shows "f AND 0x80 \<noteq> 0 \<longleftrightarrow> disc" "f AND 0x40 \<noteq> 0 \<longleftrightarrow> ra" "f AND 0x10 \<noteq> 0 \<longleftrightarrow> pcr"
  by (simp_all only: byte_bits) (simp_all add: f_def bit_simps)


lemma pids_13: "pid \<le> MaxPid \<Longrightarrow> take_bit 13 pid = pid"
  by (rule take_bit_small) (simp add: MaxPid_def word_le_nat_alt)

text \<open>The adaptation field as \<open>processPacket\<close> looks at it.\<close>

lemma adaptation_field_read:
  fixes now :: u64
  assumes "0 < n" "n \<le> 183" "af_min pcr ra disc \<le> n" and af_def: "af = adaptation_field n pcr ra disc now"
  shows "unat (af ! 0) = n - 1" "1 \<le> n - 1 \<and> af ! 1 AND 0x80 \<noteq> 0 \<longleftrightarrow> disc" "1 \<le> n - 1 \<and> af ! 1 AND 0x40 \<noteq> 0 \<longleftrightarrow> ra"
proof -
  obtain m where m: "n = Suc m" using assms(1) by (cases n) auto
  have len: "unat (of_nat m :: byte) = m" using assms(2) m by (simp add: unat_of_nat_byte)
  then have pos: "(of_nat m :: byte) > 0 \<longleftrightarrow> m > 0" by (simp add: word_less_nat_alt)
  show "unat (af ! 0) = n - 1" using len by (simp add: af_def adaptation_field_def Let_def m)
  show "1 \<le> n - 1 \<and> af ! 1 AND 0x80 \<noteq> 0 \<longleftrightarrow> disc" "1 \<le> n - 1 \<and> af ! 1 AND 0x40 \<noteq> 0 \<longleftrightarrow> ra"
    using assms(3) pos flag_byte [of disc ra pcr]
    by (auto simp: af_def adaptation_field_def Let_def m af_min_def split: if_splits)
qed

lemma processPacket_of_muxer:
  assumes "ts_packet pid cc first pcr ra disc now pes = (p, n)" "pes \<noteq> []"
    and "pid \<le> MaxPid" "pid \<noteq> PidNull" "pid \<noteq> PidPat" "pid \<noteq> d_pmtPid d" "map_of (d_pes d) pid = Some pr"
  shows "processPacket collector p d s = processPesPacket collector pid (cc AND 0x0F) first ra disc (take n pes) pr d s"
proof -
  note shape = ts_packet_shape [OF assms(1,2)]
  define f1 where "f1 = ((if first then 0x40 else 0x00) OR (ucast (drop_bit 8 pid) AND 0x1F) :: byte)"
  define f3 where "f3 = (if n = 184 then 0x10 else 0x30) OR (cc AND 0x0F)"
  define af where "af = adaptation_field (184 - n) pcr ra disc now"
  have p: "p = [SyncByte, f1, ucast (pid AND 0xFF), f3] @ af @ take n pes" using shape(3) by (simp add: f1_def f3_def af_def)
  have at: "p ! 1 = f1" "p ! 2 = ucast (pid AND 0xFF)" "p ! 3 = f3" by (simp_all add: p)
  note f1 = pid_byte [of first pid, folded f1_def] and f3 = control_byte [of "n = 184" cc, folded f3_def]
  have pid: "push_bit 8 (ucast (f1 AND 0x1F)) OR (ucast (ucast (pid AND 0xFF) :: byte) :: u16) = pid"
    using f1(3) pids_13 [OF assms(3)] by simp
  have n: "n \<le> 184" using shape(2) by simp
  have af_len: "length af = 184 - n" using shape(5) n by (simp add: af_def length_adaptation_field)
  show ?thesis
  proof (cases "n = 184")
    case True
    then have "af = []" "af_min pcr ra disc = 0" using af_len shape(5) by simp_all
    then have "\<not> ra" "\<not> disc" "drop 4 p = take n pes" by (auto simp: af_min_def p split: if_splits)
    then show ?thesis
      unfolding processPacket_def Let_def at pid f1 f3 using assms(4-7) True f1 f3
      by (simp add: prod.case_eq_if)
  next
    case False
    then have pos: "0 < 184 - n" "184 - n \<le> 183" using n shape(1) by simp_all
    have "af \<noteq> []" using af_len pos(1) by (metis length_0_conv less_irrefl)
    then have at4: "p ! 4 = af ! 0" by (simp add: p nth_append)
    note read = adaptation_field_read [OF pos shape(5) af_def, folded at4]
    have at5: "p ! 5 = af ! 1" if "1 \<le> 184 - n - 1"
    proof -
      have "1 < length af" using that af_len by linarith
      then show ?thesis by (simp add: p nth_append)
    qed
    have off: "5 + unat (p ! 4) = 4 + length af" using read(1) af_len pos(1) by simp
    have behind: "drop (4 + length af) (h @ af @ t) = t" if "length h = 4" for h t using that by simp
    have "drop (4 + length af) p = take n pes" unfolding p by (rule behind) simp
    then have body: "drop (5 + unat (p ! 4)) p = take n pes" by (simp only: off)
    have small: "\<not> unat (p ! 4) > 183" "\<not> 5 + unat (p ! 4) \<ge> PacketSize" using off af_len shape(1) n by (simp_all add: PacketSize_def)
    have flags: "(1 \<le> unat (p ! 4) \<and> p ! 5 AND 0x80 \<noteq> 0) = disc" "(1 \<le> unat (p ! 4) \<and> p ! 5 AND 0x40 \<noteq> 0) = ra"
      using read at5 by auto
    have pcr: "(if b then case o_pcrCallback collector of None \<Rightarrow> s | Some f \<Rightarrow> g f else s) = s" for b g
      by (simp add: collector_def)
    show ?thesis
      unfolding processPacket_def Let_def at pid f1 f3 using assms(4-7) False f1 f3
      by (simp add: small body flags [unfolded One_nat_def] pcr)
  qed
qed


section \<open>An aligned run of packets\<close>

lemma map_of_insert: "map_of (map_insert k v m) = (map_of m)(k \<mapsto> v)"
  by (induction k v m rule: map_insert.induct) auto

lemma map_insert_twice [simp]: "map_insert k v (map_insert k w m) = map_insert k v m"
  by (induction k w m rule: map_insert.induct) auto

lemma set_pes_simps [simp]:
  "map_of (d_pes (set_pes pid pr d)) pid = Some pr" "set_pes pid pr (set_pes pid pr' d) = set_pes pid pr d"
  "d_pmtPid (set_pes pid pr d) = d_pmtPid d" "unit_of (set_pes pid pr d) pid' pr' = unit_of d pid' pr'"
  by (simp_all add: set_pes_def map_of_insert unit_of_def registration_of_def)

text \<open>Bytes given to the demultiplexer of a collector while nothing is carried.\<close>

definition demux_bytes :: "byte list \<Rightarrow> demuxer \<Rightarrow> access_unit list \<Rightarrow> demuxer \<times> access_unit list" where
  "demux_bytes bs d s = run_packets collector (fst (scan bs)) d s"

definition whole :: "byte list \<Rightarrow> bool" where
  "whole bs \<longleftrightarrow> snd (scan bs) = [] \<and> length bs = PacketSize * length (fst (scan bs))"

lemma whole_Nil [simp]: "whole []" "demux_bytes [] d s = (d, s)"
  by (simp_all add: whole_def demux_bytes_def scan.simps PacketSize_def)

lemma scan_packet: "length p = PacketSize \<Longrightarrow> p ! 0 = SyncByte \<Longrightarrow> scan (p @ bs) = (p # fst (scan bs), snd (scan bs))"
  by (subst scan.simps, cases p) (auto simp: PacketSize_def split: prod.split)

lemma whole_packet:
  assumes "length p = PacketSize" "p ! 0 = SyncByte"
  shows "whole (p @ bs) = whole bs"
    "demux_bytes (p @ bs) d s = (case snd (processPacket collector p d s) of (d', s') \<Rightarrow> demux_bytes bs d' s')"
  using scan_packet [OF assms, of bs] assms(1) by (simp_all add: whole_def demux_bytes_def split: prod.split)

lemma whole_append: "whole xs \<Longrightarrow> whole (xs @ ys) = whole ys"
  "whole xs \<Longrightarrow> demux_bytes (xs @ ys) d s = (case demux_bytes xs d s of (d', s') \<Rightarrow> demux_bytes ys d' s')"
  using scan_append [of xs "fst (scan xs)" "[]" ys]
  by (auto simp: whole_def demux_bytes_def run_packets_append prod_eq_iff distrib_left split: prod.splits)

section \<open>An access unit through both ends\<close>

text \<open>The access unit a reassembly record still holds.\<close>

definition pending :: "demuxer \<Rightarrow> u16 \<Rightarrow> pes_reasm \<Rightarrow> access_unit list" where
  "pending d pid pr = (if pr_inProgress pr then [unit_of d pid pr] else [])"

definition tidy :: "pes_reasm \<Rightarrow> bool" where
  "tidy pr \<longleftrightarrow> (pr_inProgress pr \<longrightarrow> pr_unbounded pr \<and> pr_data pr \<noteq> [])"

lemma collector_finalize: "finalizePes collector pid pr d s =
    (Ok, pr\<lparr>pr_inProgress := False, pr_data := [], pr_expectedTotal := 0\<rparr>, s @ [unit_of d pid pr])"
  by (simp add: finalizePes_def collector_def Let_def)

lemma collector_alloc [simp]: "o_alloc collector n"
  by (simp add: collector_def)

lemma collector_continue:
  assumes "pr_inProgress pr" "pr_unbounded pr \<or> length (pr_data pr) + length pes \<le> pr_expectedTotal pr"
    "0 < pr_expectedTotal pr \<or> pr_unbounded pr"
  obtains pr' units where "continuePes collector pid pr pes d s = (Ok, pr', s @ units)" "pr_haveCc pr' = pr_haveCc pr"
    "pr_continuityCounter pr' = pr_continuityCounter pr" "pr_streamType pr' = pr_streamType pr"
    "if pr_unbounded pr \<or> length (pr_data pr) + length pes < pr_expectedTotal pr
     then units = [] \<and> pr_inProgress pr' \<and> pr_unbounded pr' = pr_unbounded pr \<and> pr_expectedTotal pr' = pr_expectedTotal pr \<and>
       pr_data pr' = pr_data pr @ pes \<and> (\<forall>data. unit_of d pid (pr'\<lparr>pr_data := data\<rparr>) = unit_of d pid (pr\<lparr>pr_data := data\<rparr>))
     else units = [unit_of d pid (pr\<lparr>pr_data := pr_data pr @ pes\<rparr>)] \<and> \<not> pr_inProgress pr'"
proof -
  obtain cap where c: "continuePes collector pid pr pes d s =
      (let pr1 = pr\<lparr>pr_capacity := cap, pr_data := pr_data pr @ pes\<rparr> in
       if \<not> pr_unbounded pr1 \<and> pr_expectedTotal pr1 > 0 \<and> length (pr_data pr1) \<ge> pr_expectedTotal pr1
       then finalizePes collector pid pr1 d s else (Ok, pr1, s))"
  proof (rule that)
    let ?new = "length (pr_data pr) + length pes"
    let ?cap = "if pr_capacity pr < ?new then (if pr_capacity pr * 2 < ?new then ?new else pr_capacity pr * 2) else pr_capacity pr"
    show "continuePes collector pid pr pes d s =
      (let pr1 = pr\<lparr>pr_capacity := ?cap, pr_data := pr_data pr @ pes\<rparr> in
       if \<not> pr_unbounded pr1 \<and> pr_expectedTotal pr1 > 0 \<and> length (pr_data pr1) \<ge> pr_expectedTotal pr1
       then finalizePes collector pid pr1 d s else (Ok, pr1, s))"
      using assms(1) by (simp add: continuePes_def Let_def)
  qed
  show ?thesis
  proof (cases "pr_unbounded pr \<or> length (pr_data pr) + length pes < pr_expectedTotal pr")
    case True
    then show ?thesis using c assms
      by (intro that [of "pr\<lparr>pr_capacity := cap, pr_data := pr_data pr @ pes\<rparr>" "[]"]) (auto simp: Let_def unit_of_def)
  next
    case False
    then show ?thesis using c assms
      by (intro that [of "pr\<lparr>pr_capacity := cap, pr_inProgress := False, pr_data := [], pr_expectedTotal := 0\<rparr>"
            "[unit_of d pid (pr\<lparr>pr_data := pr_data pr @ pes\<rparr>)]"]) (auto simp: Let_def unit_of_def collector_finalize)
  qed
qed

lemma pending_set_pes [simp]: "pending (set_pes pid pr d) pid' pr' = pending d pid' pr'"
  by (simp add: pending_def)

lemma advanceCc_low [simp]: "advanceCc cc AND 0x0F = advanceCc cc"
  by (simp add: advanceCc_def and.assoc)

text \<open>The demultiplexer looks at a PID of its PMT.\<close>

definition carried_pid :: "u16 \<Rightarrow> demuxer \<Rightarrow> bool" where
  "carried_pid pid d \<longleftrightarrow> pid \<le> MaxPid \<and> pid \<noteq> PidNull \<and> pid \<noteq> PidPat \<and> pid \<noteq> d_pmtPid d"

lemma carried_pid_set_pes [simp]: "carried_pid pid (set_pes pid' pr d) = carried_pid pid d"
  by (simp add: carried_pid_def)

text \<open>
  The reassembly record after a unit's last packet: its counter is in step with the multiplexer's, and the unit has
  been delivered or is what the record holds.
\<close>

definition taken :: "demuxer \<Rightarrow> u16 \<Rightarrow> byte \<Rightarrow> pes_reasm \<Rightarrow> pes_reasm \<Rightarrow> access_unit list \<Rightarrow> access_unit list \<Rightarrow> bool" where
  "taken d pid cc' pr pr' units us \<longleftrightarrow> pr_haveCc pr' \<and> advanceCc (pr_continuityCounter pr') = cc' \<and>
     pr_streamType pr' = pr_streamType pr \<and> tidy pr' \<and> units @ pending d pid pr' = us"

lemma unit_of_counted: "unit_of d pid (pr\<lparr>pr_continuityCounter := c, pr_haveCc := b, pr_data := x\<rparr>) = unit_of d pid (pr\<lparr>pr_data := x\<rparr>)"
  by (simp add: unit_of_def Let_def)

lemma loop_continues:
  assumes "packet_loop n pid cc False pcr ra disc now pes = (Ok, out, cc')" "pes \<noteq> []" "cc AND 0x0F = cc"
    and "carried_pid pid d" "map_of (d_pes d) pid = Some pr" "pr_haveCc pr" "advanceCc (pr_continuityCounter pr) = cc"
    and "pr_inProgress pr" "pr_unbounded pr \<or> length (pr_data pr) + length pes = pr_expectedTotal pr"
  shows "\<exists>pr' units. whole out \<and> cc' AND 0x0F = cc' \<and> demux_bytes out d s = (set_pes pid pr' d, s @ units) \<and>
    taken d pid cc' pr pr' units [unit_of d pid (pr\<lparr>pr_data := pr_data pr @ pes\<rparr>)]"
  using assms
proof (induction n arbitrary: cc pes out pr d s)
  case (Suc n)
  obtain p k where p: "ts_packet pid cc False False False False now pes = (p, k)" by fastforce
  note shape = ts_packet_shape [OF p Suc.prems(2)]
  obtain rest where rest: "packet_loop n pid (advanceCc cc) False pcr ra disc now (drop k pes) = (Ok, rest, cc')" "out = p @ rest"
    using Suc.prems(1,2) p shape(1,4) by (auto simp: Let_def split: if_splits prod.splits)
  let ?pr1 = "pr\<lparr>pr_continuityCounter := cc, pr_haveCc := True\<rparr>"
  have k: "length (take k pes) = k" "k \<le> length pes" using shape(2) by simp_all
  have abc: "pr_inProgress ?pr1" "pr_unbounded ?pr1 \<or> length (pr_data ?pr1) + length (take k pes) \<le> pr_expectedTotal ?pr1" "0 < pr_expectedTotal ?pr1 \<or> pr_unbounded ?pr1"
    using Suc.prems(2,8,9) k shape(1) by auto
  obtain pr2 units where raw: "continuePes collector pid ?pr1 (take k pes) d s = (Ok, pr2, s @ units)"
    "pr_haveCc pr2 = pr_haveCc ?pr1" "pr_continuityCounter pr2 = pr_continuityCounter ?pr1" "pr_streamType pr2 = pr_streamType ?pr1"
    "if pr_unbounded ?pr1 \<or> length (pr_data ?pr1) + length (take k pes) < pr_expectedTotal ?pr1
     then units = [] \<and> pr_inProgress pr2 \<and> pr_unbounded pr2 = pr_unbounded ?pr1 \<and> pr_expectedTotal pr2 = pr_expectedTotal ?pr1 \<and>
       pr_data pr2 = pr_data ?pr1 @ take k pes \<and> (\<forall>data. unit_of d pid (pr2\<lparr>pr_data := data\<rparr>) = unit_of d pid (?pr1\<lparr>pr_data := data\<rparr>))
     else units = [unit_of d pid (?pr1\<lparr>pr_data := pr_data ?pr1 @ take k pes\<rparr>)] \<and> \<not> pr_inProgress pr2"
    by (rule collector_continue [OF abc, of pid d s]) (rule that)
  then have step: "continuePes collector pid ?pr1 (take k pes) d s = (Ok, pr2, s @ units)" "pr_haveCc pr2"
    "pr_continuityCounter pr2 = cc" "pr_streamType pr2 = pr_streamType pr"
    "if pr_unbounded pr \<or> length (pr_data pr) + k < pr_expectedTotal pr
     then units = [] \<and> pr_inProgress pr2 \<and> pr_unbounded pr2 = pr_unbounded pr \<and> pr_expectedTotal pr2 = pr_expectedTotal pr \<and>
       pr_data pr2 = pr_data pr @ take k pes \<and> (\<forall>data. unit_of d pid (pr2\<lparr>pr_data := data\<rparr>) = unit_of d pid (pr\<lparr>pr_data := data\<rparr>))
     else units = [unit_of d pid (pr\<lparr>pr_data := pr_data pr @ take k pes\<rparr>)] \<and> \<not> pr_inProgress pr2"
    using k(1) by (simp_all add: unit_of_counted)
  have "processPacket collector p d s = (Ok, set_pes pid pr2 d, s @ units)"
    using processPacket_of_muxer [OF p Suc.prems(2)] Suc.prems(3-7) step(1)
    by (simp add: carried_pid_def processPesPacket_def Let_def advanceCc_def)
  moreover have "p ! 0 = SyncByte" by (simp add: shape(3))
  ultimately have out: "whole out = whole rest" "demux_bytes out d s = demux_bytes rest (set_pes pid pr2 d) (s @ units)"
    using whole_packet [OF shape(4)] rest(2) by simp_all
  show ?case
  proof (cases "drop k pes = []")
    case True
    then have "rest = []" "cc' = advanceCc cc" using rest(1) by (cases n; simp)+
    moreover have "take k pes = pes" using True by simp
    ultimately have "whole out" "demux_bytes out d s = (set_pes pid pr2 d, s @ units)" "cc' = advanceCc cc"
      and "if pr_unbounded pr then units = [] \<and> pr_inProgress pr2 \<and> pr_unbounded pr2 \<and> pr_data pr2 = pr_data pr @ pes \<and>
          unit_of d pid pr2 = unit_of d pid (pr\<lparr>pr_data := pr_data pr @ pes\<rparr>)
        else units = [unit_of d pid (pr\<lparr>pr_data := pr_data pr @ pes\<rparr>)] \<and> \<not> pr_inProgress pr2"
      using out step(5) spec [of "\<lambda>data. unit_of d pid (pr2\<lparr>pr_data := data\<rparr>) = unit_of d pid (pr\<lparr>pr_data := data\<rparr>)" "pr_data pr2"]
        Suc.prems(9) k True by (auto split: if_splits)
    then show ?thesis using step(2-4) Suc.prems(2)
      by (intro exI [of _ pr2] exI [of _ units]) (auto simp: taken_def tidy_def pending_def split: if_splits)
  next
    case False
    then have more: "pr_unbounded pr \<or> length (pr_data pr) + k < pr_expectedTotal pr" using Suc.prems(9) by auto
    with step(5) have two: "units = []" "pr_inProgress pr2" "pr_unbounded pr2 = pr_unbounded pr" "pr_expectedTotal pr2 = pr_expectedTotal pr"
      "pr_data pr2 = pr_data pr @ take k pes" "\<And>data. unit_of d pid (pr2\<lparr>pr_data := data\<rparr>) = unit_of d pid (pr\<lparr>pr_data := data\<rparr>)"
      by auto
    have "pr_unbounded pr2 \<or> length (pr_data pr2) + length (drop k pes) = pr_expectedTotal pr2"
      using Suc.prems(9) two k by auto
    from Suc.IH [OF rest(1) False advanceCc_low _ _ _ _ two(2) this, of "set_pes pid pr2 d" s] Suc.prems(4) step(2,3)
    obtain pr' units' where "whole rest" "cc' AND 0x0F = cc'" "demux_bytes rest (set_pes pid pr2 d) s = (set_pes pid pr' d, s @ units')"
      "taken d pid cc' pr2 pr' units' [unit_of d pid (pr2\<lparr>pr_data := pr_data pr @ pes\<rparr>)]"
      using two(5) by (auto simp: taken_def)
    then show ?thesis using out two step(4) by (intro exI [of _ pr'] exI [of _ units']) (simp add: taken_def)
  qed
qed simp

text \<open>The access unit the other end should get.\<close>

definition wanted :: "demuxer \<Rightarrow> u16 \<Rightarrow> byte \<Rightarrow> byte list \<Rightarrow> u64 \<Rightarrow> u64 \<Rightarrow> bool \<Rightarrow> bool \<Rightarrow> access_unit" where
  "wanted d pid t payload pts dts key disc =
     \<lparr>au_pid = pid, au_streamType = t, au_registrationFormat = registration_of d pid, au_payload = payload,
      au_hasPts = True, au_hasDts = (dts \<noteq> pts), au_pts90k = take_bit 33 pts,
      au_dts90k = (if dts \<noteq> pts then take_bit 33 dts else 0), au_randomAccess = key, au_dataAlignment = True,
      au_discontinuity = disc\<rparr>"

lemma pes_header_of_sizes:
  "pesHeaderSize (pes_header_of st L pts dts) = (if dts = pts then 14 else 19)"
  "length (writePesHeader (pes_header_of st L pts dts) (replicate (pesHeaderSize (pes_header_of st L pts dts)) 0)) = (if dts = pts then 14 else 19)"
proof -
  show size: "pesHeaderSize (pes_header_of st L pts dts) = (if dts = pts then 14 else 19)"
    by (simp add: pes_header_of_def pesHeaderSize_def Let_def)
  have "ph_hasPts (pes_header_of st L pts dts)" by (simp add: pes_header_of_def Let_def)
  then show "length (writePesHeader (pes_header_of st L pts dts) (replicate (pesHeaderSize (pes_header_of st L pts dts)) 0)) = (if dts = pts then 14 else 19)"
    using length_writePesHeader [of "pes_header_of st L pts dts" "replicate (pesHeaderSize (pes_header_of st L pts dts)) 0"] size by simp
qed

lemma pes_header_of_total:
  assumes "0 < L"
  shows "ph_pesPacketLength (pes_header_of st L pts dts) = 0 \<or>
    expected_total (ph_pesPacketLength (pes_header_of st L pts dts)) True (dts \<noteq> pts) = L"
proof -
  define h where "h = (if dts = pts then 8 else 13 :: nat)"
  define b where "b = h + L"
  have ph: "ph_pesPacketLength (pes_header_of st L pts dts) = (if sr_kind st = KindVideo \<or> b > 0xFFFF then 0 else of_nat b)"
    by (simp add: pes_header_of_def pesHeaderSize_def Let_def b_def h_def)
  show ?thesis
  proof (cases "sr_kind st = KindVideo \<or> b > 0xFFFF")
    case False
    then have b: "b < 65536" by simp
    have unat: "unat (of_nat b :: u16) = b" using b by (simp add: unsigned_of_nat take_bit_nat_eq_self)
    then have nz: "(of_nat b :: u16) \<noteq> 0" using assms by (auto simp: b_def h_def split: if_splits)
    have h: "(3 + (if True then 5 else 0) + (if dts \<noteq> pts then 5 else 0) :: u64) = of_nat h" by (simp add: h_def)
    have uc: "ucast (of_nat b :: u16) = (of_nat b :: u64)" using b by (simp add: word_unat_eq_iff unsigned_ucast_eq unsigned_of_nat take_bit_nat_eq_self)
    have "(of_nat b :: u64) - of_nat h = of_nat L" by (simp add: b_def)
    moreover have "unat (of_nat L :: u64) = L" using b by (simp add: unsigned_of_nat take_bit_nat_eq_self b_def)
    ultimately have "expected_total (of_nat b) True (dts \<noteq> pts) = L" using nz unfolding expected_total_def h uc by simp
    then show ?thesis using ph False by simp
  qed (simp add: ph)
qed

lemma collector_start:
  fixes st :: stream_rec and pts dts :: u64
  assumes "0 < length payload" and ph_def: "ph = pes_header_of st (length payload) pts dts"
  obtains pr2 where "startNewPes collector pid pr (writePesHeader ph (replicate (pesHeaderSize ph) 0) @ x) ra disc d s =
      (if \<not> pr_unbounded pr2 \<and> length x \<ge> length payload then finalizePes collector pid pr2 d s else (Ok, pr2, s))"
    "pr_haveCc pr2 = pr_haveCc pr" "pr_continuityCounter pr2 = pr_continuityCounter pr" "pr_streamType pr2 = pr_streamType pr"
    "pr_inProgress pr2" "pr_data pr2 = x" "pr_unbounded pr2 \<or> pr_expectedTotal pr2 = length payload"
    "unit_of d pid (pr2\<lparr>pr_data := payload\<rparr>) = wanted d pid (pr_streamType pr) payload pts dts ra disc"
proof -
  have flags: "ph_hasPts ph" "ph_hasDts ph = (dts \<noteq> pts)" "ph_dataAlignmentIndicator ph" "ph_pts90k ph = pts" "ph_dts90k ph = dts"
    by (simp_all add: ph_def pes_header_of_def Let_def)
  have read: "readPesHeader (writePesHeader ph (replicate (pesHeaderSize ph) 0) @ x) = Inr (stamps_on_33_bits ph, pesHeaderSize ph)"
    using flags by (intro pes_header_read_back) simp_all
  have len: "length (writePesHeader ph (replicate (pesHeaderSize ph) 0)) = pesHeaderSize ph" using flags by (intro length_writePesHeader) simp_all
  define T where "T = expected_total (ph_pesPacketLength ph) True (dts \<noteq> pts)"
  have T: "ph_pesPacketLength ph = 0 \<or> T = length payload" using pes_header_of_total [OF assms(1)] by (simp add: ph_def T_def)
  define sh where "sh = stamps_on_33_bits ph"
  define pr1 where "pr1 = pr\<lparr>pr_dataAlignment := ph_dataAlignmentIndicator sh, pr_hasPts := ph_hasPts sh,
                 pr_hasDts := ph_hasDts sh, pr_pts90k := ph_pts90k sh, pr_dts90k := ph_dts90k sh,
                 pr_randomAccess := ra, pr_discontinuity := disc,
                 pr_unbounded := (ph_pesPacketLength sh = 0 \<or> isVideoStreamId (ph_streamId sh)),
                 pr_expectedTotal := expected_total (ph_pesPacketLength sh) (ph_hasPts sh) (ph_hasDts sh)\<rparr>"
  have sh: "ph_dataAlignmentIndicator sh" "ph_hasPts sh" "ph_hasDts sh = (dts \<noteq> pts)" "ph_pts90k sh = take_bit 33 pts"
    "ph_dts90k sh = (if dts \<noteq> pts then take_bit 33 dts else 0)" "ph_pesPacketLength sh = ph_pesPacketLength ph"
    using flags by (simp_all add: sh_def stamps_on_33_bits_def)
  have pr1: "pr_dataAlignment pr1" "pr_hasPts pr1" "pr_hasDts pr1 = (dts \<noteq> pts)" "pr_pts90k pr1 = take_bit 33 pts"
    "pr_dts90k pr1 = (if dts \<noteq> pts then take_bit 33 dts else 0)" "pr_randomAccess pr1 = ra" "pr_discontinuity pr1 = disc"
    "pr_expectedTotal pr1 = T" "ph_pesPacketLength ph = 0 \<longrightarrow> pr_unbounded pr1" "pr_haveCc pr1 = pr_haveCc pr"
    "pr_continuityCounter pr1 = pr_continuityCounter pr" "pr_streamType pr1 = pr_streamType pr"
    by (simp_all add: pr1_def sh T_def)
  define pr2 where "pr2 cap = pr1\<lparr>pr_capacity := cap, pr_data := x, pr_inProgress := True\<rparr>" for cap
  have behind: "drop (pesHeaderSize ph) (writePesHeader ph (replicate (pesHeaderSize ph) 0) @ x) = x" using len by simp
  have "\<exists>cap. startNewPes collector pid pr (writePesHeader ph (replicate (pesHeaderSize ph) 0) @ x) ra disc d s =
      (if \<not> pr_unbounded (pr2 cap) \<and> pr_expectedTotal (pr2 cap) > 0 \<and> length x \<ge> pr_expectedTotal (pr2 cap)
       then finalizePes collector pid (pr2 cap) d s else (Ok, pr2 cap, s))"
    unfolding startNewPes_def read sum.case prod.case Let_def sh_def [symmetric] pr1_def [symmetric] behind eqTrueI [OF collector_alloc]
      not_True_eq_False simp_thms if_False pr2_def by (rule exI, rule refl)
  then obtain cap where start: "startNewPes collector pid pr (writePesHeader ph (replicate (pesHeaderSize ph) 0) @ x) ra disc d s =
      (if \<not> pr_unbounded (pr2 cap) \<and> pr_expectedTotal (pr2 cap) > 0 \<and> length x \<ge> pr_expectedTotal (pr2 cap)
       then finalizePes collector pid (pr2 cap) d s else (Ok, pr2 cap, s))" by blast
  show ?thesis
  proof (rule that [of "pr2 cap"])
    show "startNewPes collector pid pr (writePesHeader ph (replicate (pesHeaderSize ph) 0) @ x) ra disc d s =
      (if \<not> pr_unbounded (pr2 cap) \<and> length x \<ge> length payload then finalizePes collector pid (pr2 cap) d s else (Ok, pr2 cap, s))"
      unfolding start using T assms(1) pr1(8,9) by (auto simp: pr2_def)
    show "pr_unbounded (pr2 cap) \<or> pr_expectedTotal (pr2 cap) = length payload" using T pr1(8,9) by (auto simp: pr2_def)
    show "unit_of d pid ((pr2 cap)\<lparr>pr_data := payload\<rparr>) = wanted d pid (pr_streamType pr) payload pts dts ra disc"
      using T pr1 by (auto simp: unit_of_def wanted_def pr2_def Let_def)
  qed (simp_all add: pr2_def pr1)
qed

text \<open>A packet that starts a unit closes the one before it.\<close>

lemma collector_close:
  assumes "tidy pr"
  obtains pr2 where "(if pr_inProgress pr \<and> pr_unbounded pr \<and> pr_data pr \<noteq> [] then finalizePes collector pid pr d s else (Ok, pr, s)) =
      (Ok, pr2, s @ pending d pid pr)" "pr_haveCc pr2 = pr_haveCc pr" "pr_continuityCounter pr2 = pr_continuityCounter pr"
    "pr_streamType pr2 = pr_streamType pr"
proof (cases "pr_inProgress pr")
  case True
  then show ?thesis using assms
    by (intro that [of "pr\<lparr>pr_inProgress := False, pr_data := [], pr_expectedTotal := 0\<rparr>"]) (simp_all add: collector_finalize pending_def tidy_def)
next
  case False
  then show ?thesis by (intro that [of pr]) (simp_all add: pending_def)
qed

lemma unit_goes_through:
  assumes "payload \<noteq> []" and pes: "pes = writePesHeader ph (replicate (pesHeaderSize ph) 0) @ payload"
    and ph: "ph = pes_header_of st (length payload) pts dts"
    and loop: "packet_loop n pid cc True pcr ra disc now pes = (Ok, out, cc')" and "cc AND 0x0F = cc" "carried_pid pid d"
    and "map_of (d_pes d) pid = Some pr" "tidy pr" "pr_haveCc pr \<longrightarrow> advanceCc (pr_continuityCounter pr) = cc"
  shows "\<exists>pr' units. whole out \<and> cc' AND 0x0F = cc' \<and> demux_bytes out d s = (set_pes pid pr' d, s @ units) \<and>
    taken d pid cc' pr pr' units (pending d pid pr @ [wanted d pid (pr_streamType pr) payload pts dts ra disc])"
proof -
  define hdr where "hdr = writePesHeader ph (replicate (pesHeaderSize ph) 0)"
  have hdr: "length hdr \<le> 19" using pes_header_of_sizes by (simp add: hdr_def ph)
  have ne: "pes \<noteq> []" using assms(1) pes by simp
  obtain m where n: "n = Suc m" using loop ne by (cases n) simp_all
  obtain p k where p: "ts_packet pid cc True pcr ra disc now pes = (p, k)" by fastforce
  note shape = ts_packet_shape [OF p ne]
  obtain rest where rest: "packet_loop m pid (advanceCc cc) False pcr ra disc now (drop k pes) = (Ok, rest, cc')" "out = p @ rest"
    using loop ne p shape(1,4) unfolding n by (auto simp: Let_def split: if_splits prod.splits)
  define x where "x = take (k - length hdr) payload"
  have "length hdr \<le> k" using shape(2) hdr pes by (auto simp: hdr_def af_min_def)
  then have chunk: "take k pes = hdr @ x" "drop k pes = drop (k - length hdr) payload" "x @ drop k pes = payload"
    by (simp_all add: pes hdr_def x_def)
  let ?pr1 = "pr\<lparr>pr_continuityCounter := cc, pr_haveCc := True\<rparr>"
  have pend: "pending d pid ?pr1 = pending d pid pr" by (simp add: pending_def unit_of_def Let_def)
  have "tidy ?pr1" using assms(8) by (simp add: tidy_def)
  from collector_close [OF this, of pid d s] obtain pr2 where closed:
    "(if pr_inProgress ?pr1 \<and> pr_unbounded ?pr1 \<and> pr_data ?pr1 \<noteq> [] then finalizePes collector pid ?pr1 d s else (Ok, ?pr1, s)) =
      (Ok, pr2, s @ pending d pid pr)" "pr_haveCc pr2" "pr_continuityCounter pr2 = cc" "pr_streamType pr2 = pr_streamType pr"
    unfolding pend by auto
  have L: "0 < length payload" using assms(1) by simp
  obtain pr3 where raw:
    "startNewPes collector pid pr2 (writePesHeader ph (replicate (pesHeaderSize ph) 0) @ x) ra disc d (s @ pending d pid pr) =
      (if \<not> pr_unbounded pr3 \<and> length x \<ge> length payload then finalizePes collector pid pr3 d (s @ pending d pid pr) else (Ok, pr3, s @ pending d pid pr))"
    "pr_haveCc pr3 = pr_haveCc pr2" "pr_continuityCounter pr3 = pr_continuityCounter pr2" "pr_streamType pr3 = pr_streamType pr2"
    "pr_inProgress pr3" "pr_data pr3 = x" "pr_unbounded pr3 \<or> pr_expectedTotal pr3 = length payload"
    "unit_of d pid (pr3\<lparr>pr_data := payload\<rparr>) = wanted d pid (pr_streamType pr2) payload pts dts ra disc"
    by (rule collector_start [OF L ph, of pid pr2 x ra disc d "s @ pending d pid pr"]) (rule that)
  have started: "startNewPes collector pid pr2 (hdr @ x) ra disc d (s @ pending d pid pr) =
      (if \<not> pr_unbounded pr3 \<and> length x \<ge> length payload then finalizePes collector pid pr3 d (s @ pending d pid pr) else (Ok, pr3, s @ pending d pid pr))"
    "pr_haveCc pr3" "pr_continuityCounter pr3 = cc" "pr_streamType pr3 = pr_streamType pr"
    "pr_inProgress pr3" "pr_data pr3 = x" "pr_unbounded pr3 \<or> pr_expectedTotal pr3 = length payload"
    "unit_of d pid (pr3\<lparr>pr_data := payload\<rparr>) = wanted d pid (pr_streamType pr) payload pts dts ra disc"
    using raw closed(2-4) by (simp_all add: hdr_def)
  have packet: "processPacket collector p d s =
      (case startNewPes collector pid pr2 (hdr @ x) ra disc d (s @ pending d pid pr) of (e, pr3, s3) \<Rightarrow> (e, set_pes pid pr3 d, s3))"
  proof -
    have same: "(if pr_haveCc pr \<and> cc \<noteq> (pr_continuityCounter pr + 1) AND 0x0F
        then d\<lparr>d_continuityErrors := d_continuityErrors d + 1\<rparr> else d) = d"
      using assms(9) by (auto simp: advanceCc_def)
    have "processPesPacket collector pid cc True ra disc (take k pes) pr d s =
        (case startNewPes collector pid pr2 (hdr @ x) ra disc d (s @ pending d pid pr) of (e, pr3, s3) \<Rightarrow> (e, set_pes pid pr3 d, s3))"
      unfolding processPesPacket_def Let_def same closed(1) chunk(1) by simp
    then show ?thesis using processPacket_of_muxer [OF p ne] assms(5-7) by (simp add: carried_pid_def)
  qed
  have p0: "p ! 0 = SyncByte" by (simp add: shape(3))
  show ?thesis
  proof (cases "drop k pes = []")
    case True
    then have fin: "x = payload" "rest = []" "cc' = advanceCc cc" using chunk(3) rest(1) by (auto, (cases m; simp)+)
    show ?thesis
    proof (cases "pr_unbounded pr3")
      case un: True
      then have "processPacket collector p d s = (Ok, set_pes pid pr3 d, s @ pending d pid pr)" using packet started(1) by simp
      then show ?thesis using whole_packet [OF shape(4) p0, of rest] rest(2) fin started un assms(1)
        by (intro exI [of _ pr3] exI [of _ "pending d pid pr"]) (auto simp: taken_def tidy_def pending_def)
    next
      case bounded: False
      let ?pr' = "pr3\<lparr>pr_inProgress := False, pr_data := [], pr_expectedTotal := 0\<rparr>"
      have "processPacket collector p d s = (Ok, set_pes pid ?pr' d, s @ pending d pid pr @ [unit_of d pid pr3])"
        using packet started(1) bounded fin(1) by (simp add: collector_finalize)
      then show ?thesis using whole_packet [OF shape(4) p0, of rest] rest(2) fin started
        by (intro exI [of _ ?pr'] exI [of _ "pending d pid pr @ [unit_of d pid pr3]"]) (auto simp: taken_def tidy_def pending_def)
    qed
  next
    case False
    then have "length x < length payload" using arg_cong [OF chunk(3), of length] by (cases "drop k pes") simp_all
    then have step: "processPacket collector p d s = (Ok, set_pes pid pr3 d, s @ pending d pid pr)" using packet started(1) by simp
    have "pr_unbounded pr3 \<or> length (pr_data pr3) + length (drop k pes) = pr_expectedTotal pr3"
      using started(6,7) arg_cong [OF chunk(3), of length] by auto
    from loop_continues [OF rest(1) False advanceCc_low _ _ started(2) _ started(5) this, of "set_pes pid pr3 d" "s @ pending d pid pr"] assms(6) started(3)
    obtain pr' units where last: "whole rest" "cc' AND 0x0F = cc'" "demux_bytes rest (set_pes pid pr3 d) (s @ pending d pid pr) = (set_pes pid pr' d, (s @ pending d pid pr) @ units)"
      "taken d pid cc' pr3 pr' units [unit_of d pid (pr3\<lparr>pr_data := payload\<rparr>)]"
      using started(6) chunk(3) by (auto simp: taken_def)
    then show ?thesis using whole_packet [OF shape(4) p0, of rest] rest(2) started(4,8) step
      by (intro exI [of _ pr'] exI [of _ "pending d pid pr @ units"]) (simp add: taken_def)
  qed
qed

section \<open>Tables through both ends\<close>

abbreviation no_section :: psi_reasm where
  "no_section \<equiv> \<lparr>psi_data = [], psi_expectedTotal = 0\<rparr>"

abbreviation section_total :: "byte list \<Rightarrow> nat" where
  "section_total bs \<equiv> unat (push_bit 8 (ucast (bs ! 1 AND 0x0F)) OR ucast (bs ! 2) :: u16) + 3"

lemma psi_loop_Nil [simp]: "psi_loop ow pid [] re d s = (re, d, s)"
  by (subst psi_loop.simps) simp

lemma psi_loop_stuffing: "psi_loop ow pid (replicate m 0xFF) no_section d s = (no_section, d, s)"
  by (subst psi_loop.simps) (cases m; simp add: Let_def)

lemma psi_loop_start:
  assumes "3 \<le> length bs" "bs ! 0 \<noteq> 0xFF" "8 \<le> section_total bs" "section_total bs \<le> 4096"
  shows "psi_loop ow pid bs no_section d s = psi_loop ow pid bs \<lparr>psi_data = [], psi_expectedTotal = section_total bs\<rparr> d s"
proof -
  have "bs \<noteq> []" using assms(1) by auto
  then show ?thesis using assms by (subst (1 2) psi_loop.simps) (simp add: Let_def not_less del: One_nat_def)
qed

lemma psi_loop_more:
  assumes "c \<noteq> []"
  shows "psi_loop ow pid b \<lparr>psi_data = a, psi_expectedTotal = length (a @ b @ c)\<rparr> d s =
    (\<lparr>psi_data = a @ b, psi_expectedTotal = length (a @ b @ c)\<rparr>, d, s)"
proof (cases "b = []")
  case False
  then show ?thesis using assms by (subst psi_loop.simps) (simp add: Let_def)
qed simp

lemma psi_loop_done:
  assumes "b \<noteq> []"
  shows "psi_loop ow pid (b @ replicate m 0xFF) \<lparr>psi_data = a, psi_expectedTotal = length (a @ b)\<rparr> d s =
    (case dispatchPsiSection ow pid (a @ b) d s of (d', s') \<Rightarrow> (no_section, d', s'))"
  using assms by (subst psi_loop.simps) (simp add: Let_def psi_loop_stuffing split: prod.split)

text \<open>A packet of the table writer as the demultiplexer reads it.\<close>

definition table_pid :: "u16 \<Rightarrow> demuxer \<Rightarrow> bool" where
  "table_pid pid d \<longleftrightarrow> pid \<le> MaxPid \<and> pid \<noteq> PidNull \<and> (pid = PidPat \<or> pid = d_pmtPid d)"

lemma processPacket_of_table:
  assumes "p = [SyncByte, (if first then 0x40 else 0x00) OR (ucast (drop_bit 8 pid) AND 0x1F), ucast (pid AND 0xFF), 0x10 OR (cc AND 0x0F)] @ body"
    and "table_pid pid d"
  shows "processPacket collector p d s = (case processPsiPacket collector body pid first d s of (d', s') \<Rightarrow> (Ok, d', s'))"
proof -
  define f1 where "f1 = ((if first then 0x40 else 0x00) OR (ucast (drop_bit 8 pid) AND 0x1F) :: byte)"
  define f3 where "f3 = 0x10 OR (cc AND 0x0F)"
  have p: "p = [SyncByte, f1, ucast (pid AND 0xFF), f3] @ body" using assms(1) by (simp add: f1_def f3_def)
  have at: "p ! 1 = f1" "p ! 2 = ucast (pid AND 0xFF)" "p ! 3 = f3" "drop 4 p = body" by (simp_all add: p)
  note f1 = pid_byte [of first pid, folded f1_def] and f3 = control_byte [of True cc, simplified, folded f3_def]
  have pid: "push_bit 8 (ucast (f1 AND 0x1F)) OR (ucast (ucast (pid AND 0xFF) :: byte) :: u16) = pid"
    using f1(3) pids_13 [of pid] assms(2) by (simp add: table_pid_def)
  have afc: "drop_bit 4 f3 AND 0x03 = 1" using control_byte(1) [of True cc] by (simp add: f3_def)
  show ?thesis
    unfolding processPacket_def Let_def at pid afc using assms(2) f1(1,2) by (auto simp: table_pid_def at(4))
qed

text \<open>Only the section being collected is kept in between; what a section does, does not depend on it.\<close>

lemma dispatch_any_psi:
  "dispatchPsiSection ow pid sec (d\<lparr>d_psi := q\<rparr>) s = map_prod (\<lambda>d. d\<lparr>d_psi := q\<rparr>) id (dispatchPsiSection ow pid sec d s)"
proof -
  have "demux_parsePat ow sec (d\<lparr>d_psi := q\<rparr>) s = map_prod (\<lambda>d. d\<lparr>d_psi := q\<rparr>) id (demux_parsePat ow sec d s)"
    "demux_parsePmt ow sec (d\<lparr>d_psi := q\<rparr>) s = map_prod (\<lambda>d. d\<lparr>d_psi := q\<rparr>) id (demux_parsePmt ow sec d s)"
    by (auto simp: demux_parsePat_def demux_parsePmt_def Let_def split: sum.split option.split)
  then show ?thesis by (simp add: dispatchPsiSection_def Let_def)
qed

definition section_done :: "u16 \<Rightarrow> byte list \<Rightarrow> byte list \<Rightarrow> demuxer \<Rightarrow> access_unit list \<Rightarrow> bool" where
  "section_done pid sec out d s \<longleftrightarrow> whole out \<and> (\<exists>q. demux_bytes out d s =
     (case dispatchPsiSection collector pid sec d s of (d', s') \<Rightarrow> (d'\<lparr>d_psi := q\<rparr>, s')))"

lemma section_done_later:
  assumes "length p = PacketSize" "p ! 0 = SyncByte" "processPacket collector p d s = (Ok, d\<lparr>d_psi := q\<rparr>, s)"
    and "section_done pid sec rest (d\<lparr>d_psi := q\<rparr>) s"
  shows "section_done pid sec (p @ rest) d s"
  using assms(4) whole_packet [OF assms(1,2), of rest] assms(3)
  by (auto simp: section_done_def dispatch_any_psi split: prod.splits)

lemma table_continues:
  assumes "psi_packets pid False n src cc = (out, cc')" "src \<noteq> []" "length src \<le> 184 * n" "184 * (n - 1) < length src"
    and "table_pid pid d" "map_of (d_psi d) pid = Some \<lparr>psi_data = a, psi_expectedTotal = length (a @ src)\<rparr>"
  shows "section_done pid (a @ src) out d s"
  using assms
proof (induction n arbitrary: src cc out d a)
  case (Suc n)
  define k where "k = (if length src < 184 then length src else 184)"
  define head where "head = [SyncByte, (if False then 0x40 else 0x00) OR (ucast (drop_bit 8 pid) AND 0x1F), ucast (pid AND 0xFF), 0x10 OR (cc AND 0x0F)]"
  obtain rest cc2 where rest: "psi_packets pid False n (drop k src) (advanceCc cc) = (rest, cc2)" by fastforce
  define body where "body = take k src @ replicate (184 - k) 0xFF"
  have out: "out = (head @ body) @ rest" "cc2 = cc'"
    using Suc.prems(1) rest by (simp_all add: Let_def head_def body_def k_def PacketSize_def split: if_splits)
  have p: "length (head @ body) = PacketSize" "(head @ body) ! 0 = SyncByte"
    by (simp_all add: head_def body_def k_def PacketSize_def)
  have read: "processPacket collector (head @ body) d s = (case processPsiPacket collector body pid False d s of (d', s') \<Rightarrow> (Ok, d', s'))"
    by (rule processPacket_of_table [OF _ Suc.prems(5)]) (simp add: head_def)
  have psi: "processPsiPacket collector body pid False d s =
      (case psi_loop collector pid body \<lparr>psi_data = a, psi_expectedTotal = length (a @ src)\<rparr> d s of
        (re, d, s) \<Rightarrow> (d\<lparr>d_psi := map_insert pid re (d_psi d)\<rparr>, s))"
    using Suc.prems(2,6) by (auto simp: processPsiPacket_def body_def k_def)
  show ?case
  proof (cases "length src \<le> 184")
    case True
    then have k: "take k src = src" "n = 0" using Suc.prems(4) by (auto simp: k_def)
    then have "rest = []" using rest by simp
    moreover have "psi_loop collector pid body \<lparr>psi_data = a, psi_expectedTotal = length (a @ src)\<rparr> d s =
        (case dispatchPsiSection collector pid (a @ src) d s of (d', s') \<Rightarrow> (no_section, d', s'))"
      unfolding body_def k(1) by (rule psi_loop_done [OF Suc.prems(2)])
    ultimately show ?thesis using whole_packet [OF p, of "[]"] read psi out(1) by (auto simp: section_done_def split: prod.splits)
  next
    case False
    then have k: "k = 184" "body = take 184 src" "drop 184 src \<noteq> []" by (simp_all add: k_def body_def)
    let ?re = "\<lparr>psi_data = a @ take 184 src, psi_expectedTotal = length (a @ src)\<rparr>"
    have "psi_loop collector pid body \<lparr>psi_data = a, psi_expectedTotal = length (a @ src)\<rparr> d s = (?re, d, s)"
      using psi_loop_more [OF k(3), of collector pid "take 184 src" a d s] by (simp add: k(2))
    then have step: "processPacket collector (head @ body) d s = (Ok, d\<lparr>d_psi := map_insert pid ?re (d_psi d)\<rparr>, s)"
      using read psi by simp
    have "section_done pid ((a @ take 184 src) @ drop 184 src) rest (d\<lparr>d_psi := map_insert pid ?re (d_psi d)\<rparr>) s"
      using Suc.prems(3-5) k rest out(2) by (intro Suc.IH [of "drop 184 src" "advanceCc cc"]) (auto simp: table_pid_def map_of_insert)
    then show ?thesis unfolding out(1) using section_done_later [OF p step] by simp
  qed
qed simp

lemma psi_packets_cc: "psi_packets pid first n src cc = (out, cc') \<Longrightarrow> cc AND 0x0F = cc \<Longrightarrow> cc' AND 0x0F = cc'"
proof (induction n arbitrary: first src cc out)
  case (Suc n)
  obtain k rest cc2 where "psi_packets pid False n (drop k src) (advanceCc cc) = (rest, cc2)" "cc2 = cc'"
    using Suc.prems(1) by (auto simp: Let_def split: prod.splits)
  then show ?case using Suc.IH by simp
qed simp

lemma packet_count_fits:
  "\<exists>n. psi_packet_count L = Suc n \<and> L - 183 \<le> 184 * n \<and> (183 < L \<longrightarrow> 184 * (n - 1) < L - 183) \<and> (L \<le> 183 \<longrightarrow> n = 0)"
proof (cases "L \<le> 183")
  case False
  define r where "r = L - 184"
  have L: "L = r + 184" using False by (simp add: r_def)
  have "psi_packet_count L = Suc (Suc (r div 184))" by (simp add: psi_packet_count_def PacketSize_def L)
  moreover have "184 * (r div 184) \<le> r" "r < 184 * (r div 184) + 184"
    using mult_div_mod_eq [of 184 r] mod_less_divisor [of 184 r] by linarith+
  ultimately show ?thesis by (intro exI [of _ "Suc (r div 184)"]) (simp add: L)
qed (simp add: psi_packet_count_def PacketSize_def)

lemma section_written_is_done:
  assumes "psi_packets pid True (psi_packet_count (length sec)) sec cc = (out, cc')" "table_pid pid d"
    and "8 \<le> length sec" "length sec \<le> 1026" "sec ! 0 \<noteq> 0xFF" "length sec = section_total sec"
  shows "section_done pid sec out d s"
proof -
  obtain n where count: "psi_packet_count (length sec) = Suc n" "length (drop 183 sec) \<le> 184 * n"
    "183 < length sec \<Longrightarrow> 184 * (n - 1) < length (drop 183 sec)" "length sec \<le> 183 \<Longrightarrow> n = 0"
    using packet_count_fits [of "length sec"] by auto
  define k where "k = (if length sec < 183 then length sec else 183)"
  define head where "head = [SyncByte, (if True then 0x40 else 0x00) OR (ucast (drop_bit 8 pid) AND 0x1F), ucast (pid AND 0xFF), 0x10 OR (cc AND 0x0F)]"
  obtain rest cc2 where rest: "psi_packets pid False n (drop k sec) (advanceCc cc) = (rest, cc2)" by fastforce
  define sect where "sect = take k sec @ replicate (183 - k) 0xFF"
  have out: "out = (head @ 0 # sect) @ rest"
    using assms(1) rest unfolding count(1) by (simp add: Let_def head_def sect_def k_def PacketSize_def split: if_splits)
  have p: "length (head @ 0 # sect) = PacketSize" "(head @ 0 # sect) ! 0 = SyncByte"
    by (simp_all add: head_def sect_def k_def PacketSize_def)
  have read: "processPacket collector (head @ 0 # sect) d s = (case processPsiPacket collector (0 # sect) pid True d s of (d', s') \<Rightarrow> (Ok, d', s'))"
    by (rule processPacket_of_table [OF _ assms(2)]) (simp add: head_def)
  have psi: "processPsiPacket collector (0 # sect) pid True d s =
      (case psi_loop collector pid sect no_section d s of (re, d, s) \<Rightarrow> (d\<lparr>d_psi := map_insert pid re (d_psi d)\<rparr>, s))"
    by (simp add: processPsiPacket_def)
  have same: "3 \<le> length sect" "sect ! 0 = sec ! 0" "sect ! 1 = sec ! 1" "sect ! 2 = sec ! 2"
    using assms(3) by (auto simp: sect_def k_def nth_append)
  have start: "psi_loop collector pid sect no_section d s = psi_loop collector pid sect \<lparr>psi_data = [], psi_expectedTotal = length sec\<rparr> d s"
    using psi_loop_start [of sect collector pid d s] assms(3-6) same by simp
  show ?thesis
  proof (cases "length sec \<le> 183")
    case True
    then have k: "take k sec = sec" "n = 0" using count(4) by (simp_all add: k_def)
    then have "rest = []" using rest by simp
    moreover have "sec \<noteq> []" using assms(3) by auto
    ultimately show ?thesis
      using whole_packet [OF p, of "[]"] read psi out start psi_loop_done [of sec collector pid "183 - k" "[]" d s] k(1)
      by (auto simp: section_done_def sect_def split: prod.splits)
  next
    case False
    then have k: "k = 183" "sect = take 183 sec" "drop 183 sec \<noteq> []" by (simp_all add: k_def sect_def)
    let ?re = "\<lparr>psi_data = take 183 sec, psi_expectedTotal = length sec\<rparr>"
    have "psi_loop collector pid sect no_section d s = (?re, d, s)"
      using start psi_loop_more [OF k(3), of collector pid "take 183 sec" "[]" d s] by (simp add: k(2))
    then have step: "processPacket collector (head @ 0 # sect) d s = (Ok, d\<lparr>d_psi := map_insert pid ?re (d_psi d)\<rparr>, s)"
      using read psi by simp
    have "section_done pid (take 183 sec @ drop 183 sec) rest (d\<lparr>d_psi := map_insert pid ?re (d_psi d)\<rparr>) s"
      using count(2,3) False k rest assms(2) by (intro table_continues) (auto simp: table_pid_def map_of_insert)
    then show ?thesis unfolding out using section_done_later [OF p step] by simp
  qed
qed

section \<open>What the tables do to the demultiplexer\<close>

lemma pat_does:
  assumes "prog \<noteq> 0"
  shows "dispatchPsiSection collector PidPat (buildPat tsid prog pmt v) d s =
    (d\<lparr>d_programNumber := prog, d_pmtPid := pmt AND 0x1FFF, d_havePat := True\<rparr>, s)"
proof -
  have "buildPat tsid prog pmt v ! 0 = 0" by (simp add: buildPat_def Let_def)
  then show ?thesis using assms
    by (simp add: dispatchPsiSection_def pat_read_back Let_def demux_parsePat_def collector_def)
qed

lemma pmt_does:
  assumes "buildPmt prog pcr v [] ss = Inr sec" "pid = d_pmtPid d" "pid \<noteq> PidPat"
  shows "dispatchPsiSection collector pid sec d s =
    (let ss' = map on_13_bits ss in
     (d\<lparr>d_pcrPid := pcr AND 0x1FFF, d_streamTypeByPid := stream_map ss', d_registrationByPid := registration_map ss',
        d_pes := keep_pes (stream_map ss') (d_pes d), d_havePmt := True\<rparr>, s))"
  using pmt_read_back(1-3) [OF assms(1)] assms(2,3)
  by (simp add: dispatchPsiSection_def Let_def demux_parsePmt_def collector_def)

text \<open>The ordered maps.\<close>

abbreviation keys_sorted :: "('k::linorder \<times> 'v) list \<Rightarrow> bool" where
  "keys_sorted m \<equiv> sorted_wrt (<) (map fst m)"

lemma keys_map_insert: "fst ` set (map_insert k v m) = insert k (fst ` set m)"
  by (induction k v m rule: map_insert.induct) auto

lemma sorted_map_insert: "keys_sorted m \<Longrightarrow> keys_sorted (map_insert k v m)"
proof (induction k v m rule: map_insert.induct)
  case (2 k v k' v' m)
  have "fst ` set (map_insert k v m) = insert k (fst ` set m)" by (rule keys_map_insert)
  then show ?case using 2 by (auto simp: ball_Un dest: order.strict_trans)
qed simp

lemma map_of_fold_insert:
  assumes "distinct (map fst ts)"
  shows "map_of (fold (\<lambda>(k, t) m. map_insert k (F t (map_of m k)) m) ts m0) k =
    (case map_of ts k of None \<Rightarrow> map_of m0 k | Some t \<Rightarrow> Some (F t (map_of m0 k)))"
  using assms
proof (induction ts arbitrary: m0)
  case (Cons x ts)
  obtain k' t where x: "x = (k', t)" by fastforce
  have "map_of ts k' = None" using Cons.prems x by (auto simp: map_of_eq_None_iff)
  then show ?case using Cons by (auto simp: x map_of_insert split: option.split)
qed simp

lemma sorted_fold_insert: "keys_sorted m0 \<Longrightarrow> keys_sorted (fold (\<lambda>(k, t) m. map_insert k (F t (map_of m k)) m) ts m0)"
  by (induction ts arbitrary: m0) (auto simp: sorted_map_insert)

lemma map_of_keep:
  assumes "distinct (map fst types)"
  shows "map_of (keep_pes types pes) pid = (case map_of types pid of None \<Rightarrow> None
    | Some t \<Rightarrow> Some (case map_of pes pid of None \<Rightarrow> new_pes t | Some pr \<Rightarrow> pr\<lparr>pr_streamType := t\<rparr>))"
proof -
  have kept: "map_of (filter (\<lambda>(pid, pr). map_of types pid \<noteq> None) pes) pid = (if map_of types pid = None then None else map_of pes pid)"
    by (induction pes) auto
  show ?thesis
    unfolding keep_pes_def
    using map_of_fold_insert [OF assms, of "\<lambda>t x. case x of None \<Rightarrow> new_pes t | Some pr \<Rightarrow> pr\<lparr>pr_streamType := t\<rparr>"
      "filter (\<lambda>(pid, pr). map_of types pid \<noteq> None) pes" pid] kept
    by (auto split: option.split)
qed

lemma sorted_keep: "keys_sorted pes \<Longrightarrow> keys_sorted (keep_pes types pes)"
  unfolding keep_pes_def
  by (rule sorted_fold_insert [of _ "\<lambda>t x. case x of None \<Rightarrow> new_pes t | Some pr \<Rightarrow> pr\<lparr>pr_streamType := t\<rparr>"])
    (induction pes, auto)

lemma stream_map_facts:
  "keys_sorted (stream_map ss)"
  "map_of (stream_map ss) pid = map_option ps_streamType (List.find (\<lambda>st. ps_pid st = pid) (rev ss))"
proof -
  have "keys_sorted (fold (\<lambda>st. map_insert (ps_pid st) (ps_streamType st)) ss m)" if "keys_sorted m" for m :: "(u16 \<times> byte) list"
    using that by (induction ss arbitrary: m) (simp_all add: sorted_map_insert)
  then show "keys_sorted (stream_map ss)" by (simp add: stream_map_def)
  show "map_of (stream_map ss) pid = map_option ps_streamType (List.find (\<lambda>st. ps_pid st = pid) (rev ss))"
    unfolding stream_map_def by (induction ss rule: rev_induct) (simp_all add: map_of_insert)
qed

definition registration :: "byte list \<Rightarrow> u32" where
  "registration ds = (if ds \<noteq> [] then case findRegistrationDescriptor ds of Inl _ \<Rightarrow> 0 | Inr r \<Rightarrow> r else 0)"

lemma registration_map_of:
  assumes "distinct (map ps_pid ss)" "st \<in> set ss"
  shows "(case map_of (registration_map ss) (ps_pid st) of Some r \<Rightarrow> r | None \<Rightarrow> 0) = registration (ps_descriptors st)"
  using assms
proof (induction ss rule: rev_induct)
  case (snoc x xs)
  have new: "map_of (registration_map xs) pid = None" if "pid \<notin> ps_pid ` set xs" for pid
    using that unfolding registration_map_def
    by (induction xs rule: rev_induct) (auto simp: map_of_insert split: sum.split)
  have step: "registration_map (xs @ [x]) = (if ps_descriptors x \<noteq> []
      then (case findRegistrationDescriptor (ps_descriptors x) of Inl _ \<Rightarrow> registration_map xs | Inr r \<Rightarrow> map_insert (ps_pid x) r (registration_map xs))
      else registration_map xs)"
    unfolding registration_map_def by simp
  show ?case
  proof (cases "st = x")
    case True
    then have "map_of (registration_map xs) (ps_pid st) = None" using snoc.prems by (intro new) simp
    then show ?thesis using True by (auto simp: step registration_def map_of_insert split: sum.split)
  next
    case False
    then have "st \<in> set xs" "ps_pid st \<noteq> ps_pid x" using snoc.prems by (auto intro: rev_image_eqI)
    then show ?thesis using snoc by (auto simp: step map_of_insert split: sum.split)
  qed
qed simp

end
