(* ===== verification/TransportRun.thy ===== *)
theory TransportRun
  imports TransportStream
begin

text \<open>
  A run of the multiplexer and the demultiplexer over the bytes it emits. The relation between their states says
  that the counters are in step and that for every elementary stream what was delivered and what is still held is
  what was written; every command of the multiplexer keeps it, and \<open>flush\<close> hands over what is held.
\<close>

unbundle bit_operations_syntax

section \<open>The multiplexer's side\<close>

definition appender :: "byte list emitter" where
  "appender v s = (Ok, s @ v)"

text \<open>A multiplexer set up for one program: PIDs that do not collide, and a PMT that fits its section.\<close>

definition stream_ready :: "u16 \<Rightarrow> stream_rec \<Rightarrow> bool" where
  "stream_ready pmt st \<longleftrightarrow> PidIpmp < sr_pid st \<and> sr_pid st \<le> MaxPid \<and> sr_pid st \<noteq> PidNull \<and> sr_pid st \<noteq> pmt \<and>
     sr_continuityCounter st AND 0x0F = sr_continuityCounter st"

definition mux_ready :: "muxer \<Rightarrow> bool" where
  "mux_ready m \<longleftrightarrow> distinct (map sr_pid (m_streams m)) \<and> (\<forall>st\<in>set (m_streams m). stream_ready (m_pmtPid m) st) \<and>
     m_pmtPid m \<le> MaxPid \<and> m_pmtPid m \<noteq> PidNull \<and> m_pmtPid m \<noteq> PidPat \<and> m_programNumber m \<noteq> 0 \<and>
     13 + sum_list (map (\<lambda>st. 5 + length (sr_descriptors st)) (m_streams m)) \<le> 0x3FF"

lemma stream_ready_carried: "stream_ready pmt st \<Longrightarrow> d_pmtPid d = pmt \<Longrightarrow> carried_pid (sr_pid st) d"
  by (auto simp: stream_ready_def carried_pid_def PidPat_def PidIpmp_def)

lemma pmt_builds:
  assumes "mux_ready m"
  obtains sec where "buildPmt (m_programNumber m) (m_pcrPid m) v [] (map pmt_of (m_streams m)) = Inr sec"
proof -
  have "\<forall>st\<in>set (m_streams m). length (sr_descriptors st) \<le> 0x3FF"
  proof
    fix st assume "st \<in> set (m_streams m)"
    then have "5 + length (sr_descriptors st) \<le> sum_list (map (\<lambda>st. 5 + length (sr_descriptors st)) (m_streams m))"
      by (intro member_le_sum_list) auto
    then show "length (sr_descriptors st) \<le> 0x3FF" using assms by (simp add: mux_ready_def)
  qed
  then have "\<exists>sec. buildPmt (m_programNumber m) (m_pcrPid m) v [] (map pmt_of (m_streams m)) = Inr sec"
    using assms unfolding buildPmt_def Let_def by (auto simp: mux_ready_def pmt_of_def comp_def)
  then show ?thesis using that by blast
qed

section \<open>The relation\<close>

definition of_pid :: "u16 \<Rightarrow> access_unit list \<Rightarrow> access_unit list" where
  "of_pid pid = filter (\<lambda>au. au_pid au = pid)"

text \<open>An elementary stream at both ends.\<close>

definition stream_in_step :: "stream_rec \<Rightarrow> demuxer \<Rightarrow> pes_reasm \<Rightarrow> bool" where
  "stream_in_step st d pr \<longleftrightarrow> tidy pr \<and> (pr_haveCc pr \<longrightarrow> advanceCc (pr_continuityCounter pr) = sr_continuityCounter st) \<and>
     pr_streamType pr = sr_streamType st \<and> registration_of d (sr_pid st) = registration (sr_descriptors st)"

definition in_step :: "stream_rec list \<Rightarrow> demuxer \<Rightarrow> access_unit list \<Rightarrow> (u16 \<Rightarrow> access_unit list) \<Rightarrow> bool" where
  "in_step sts d s h \<longleftrightarrow> keys_sorted (d_pes d) \<and> d_continuityErrors d = 0 \<and> fst ` set (d_pes d) \<subseteq> sr_pid ` set sts \<and>
     (\<forall>au\<in>set s. au_pid au \<in> sr_pid ` set sts) \<and>
     (\<forall>st\<in>set sts. case map_of (d_pes d) (sr_pid st) of
        None \<Rightarrow> h (sr_pid st) = of_pid (sr_pid st) s
      | Some pr \<Rightarrow> stream_in_step st d pr \<and> of_pid (sr_pid st) s @ pending d (sr_pid st) pr = h (sr_pid st))"

definition knows :: "stream_rec list \<Rightarrow> u16 \<Rightarrow> demuxer \<Rightarrow> bool" where
  "knows sts pmt d \<longleftrightarrow> d_pmtPid d = pmt \<and> (\<forall>st\<in>set sts. map_of (d_pes d) (sr_pid st) \<noteq> None)"

lemma pending_any_table:
  "registration_of d' pid = registration_of d pid \<Longrightarrow> pending d' pid pr = pending d pid pr"
  by (simp add: pending_def unit_of_def)

lemma find_distinct: "distinct (map f xs) \<Longrightarrow> x \<in> set xs \<Longrightarrow> List.find (\<lambda>y. f y = f x) xs = Some x"
  by (induction xs) (auto simp: rev_image_eqI)

text \<open>The tables bring the demultiplexer to know every stream and disturb nothing.\<close>

lemma tables_keep_step:
  assumes "mux_ready m" "in_step (m_streams m) d s h" "d_pmtPid d = m_pmtPid m"
    and "buildPmt (m_programNumber m) (m_pcrPid m) v [] (map pmt_of (m_streams m)) = Inr sec"
    and "dispatchPsiSection collector (m_pmtPid m) sec d s = (d', s')"
  shows "s' = s" "in_step (m_streams m) (d'\<lparr>d_psi := q\<rparr>) s h" "knows (m_streams m) (m_pmtPid m) (d'\<lparr>d_psi := q\<rparr>)"
proof -
  let ?ss = "map on_13_bits (map pmt_of (m_streams m))"
  have low: "on_13_bits (pmt_of st) = pmt_of st" if "st \<in> set (m_streams m)" for st
    using that assms(1) pids_13 [of "sr_pid st"]
    by (simp add: mux_ready_def stream_ready_def on_13_bits_def pmt_of_def low_masks)
  have ss: "?ss = map pmt_of (m_streams m)" using low by simp
  have fields: "ps_pid (pmt_of st) = sr_pid st" "ps_streamType (pmt_of st) = sr_streamType st" "ps_descriptors (pmt_of st) = sr_descriptors st" for st
    by (simp_all add: pmt_of_def)
  have distinct: "distinct (map ps_pid (map pmt_of (m_streams m)))" using assms(1) by (simp add: mux_ready_def comp_def fields)
  define types where "types = stream_map (map pmt_of (m_streams m))"
  have d': "d' = d\<lparr>d_pcrPid := m_pcrPid m AND 0x1FFF, d_streamTypeByPid := types, d_registrationByPid := registration_map (map pmt_of (m_streams m)),
        d_pes := keep_pes types (d_pes d), d_havePmt := True\<rparr>" and s': "s' = s"
  proof -
    have "m_pmtPid m = d_pmtPid d" "m_pmtPid m \<noteq> PidPat" using assms(1,3) by (simp_all add: mux_ready_def)
    note does = pmt_does [OF assms(4) this, of s, unfolded ss Let_def, folded types_def]
    show "d' = d\<lparr>d_pcrPid := m_pcrPid m AND 0x1FFF, d_streamTypeByPid := types, d_registrationByPid := registration_map (map pmt_of (m_streams m)),
        d_pes := keep_pes types (d_pes d), d_havePmt := True\<rparr>" "s' = s"
      using assms(5) unfolding does by auto
  qed
  show "s' = s" by (fact s')
  have sorted: "keys_sorted types" "distinct (map fst types)"
    using stream_map_facts(1) by (simp_all add: types_def strict_sorted_iff)
  have types: "map_of types (sr_pid st) = Some (sr_streamType st)" if "st \<in> set (m_streams m)" for st
  proof -
    have "List.find (\<lambda>y. ps_pid y = ps_pid (pmt_of st)) (rev (map pmt_of (m_streams m))) = Some (pmt_of st)"
      using distinct that by (intro find_distinct) (simp_all add: rev_map distinct_rev del: rev_map add: rev_map [symmetric])
    then show ?thesis by (simp add: types_def stream_map_facts(2) fields)
  qed
  have no_types: "map_of types pid = None" if "pid \<notin> sr_pid ` set (m_streams m)" for pid
    using that by (auto simp: types_def stream_map_facts(2) find_None_iff fields)
  have regs: "registration_of d' (sr_pid st) = registration (sr_descriptors st)" if "st \<in> set (m_streams m)" for st
    using registration_map_of [OF distinct, of "pmt_of st"] that by (simp add: registration_of_def d' fields)
  have pes: "map_of (d_pes d') (sr_pid st) =
      Some (case map_of (d_pes d) (sr_pid st) of None \<Rightarrow> new_pes (sr_streamType st) | Some pr \<Rightarrow> pr\<lparr>pr_streamType := sr_streamType st\<rparr>)"
    if "st \<in> set (m_streams m)" for st
    using map_of_keep [OF sorted(2), of "d_pes d" "sr_pid st"] types [OF that] by (simp add: d')
  have no_pes: "map_of (d_pes d') pid = None" if "pid \<notin> sr_pid ` set (m_streams m)" for pid
    using map_of_keep [OF sorted(2), of "d_pes d" pid] no_types [OF that] by (simp add: d')
  show "knows (m_streams m) (m_pmtPid m) (d'\<lparr>d_psi := q\<rparr>)" using pes assms(3) by (simp add: knows_def d')
  have reg_psi: "registration_of (d'\<lparr>d_psi := q\<rparr>) pid = registration_of d' pid" for pid by (simp add: registration_of_def)
  have "case map_of (d_pes d') (sr_pid st) of None \<Rightarrow> h (sr_pid st) = of_pid (sr_pid st) s
      | Some pr \<Rightarrow> stream_in_step st (d'\<lparr>d_psi := q\<rparr>) pr \<and> of_pid (sr_pid st) s @ pending (d'\<lparr>d_psi := q\<rparr>) (sr_pid st) pr = h (sr_pid st)"
    if st: "st \<in> set (m_streams m)" for st
  proof (cases "map_of (d_pes d) (sr_pid st)")
    case None
    then show ?thesis using assms(2) st regs [OF st]
      by (auto simp: pes [OF st] in_step_def stream_in_step_def new_pes_def tidy_def pending_def reg_psi)
  next
    case (Some pr)
    then have old: "stream_in_step st d pr" "of_pid (sr_pid st) s @ pending d (sr_pid st) pr = h (sr_pid st)"
      using assms(2) st by (auto simp: in_step_def)
    then have same: "pr\<lparr>pr_streamType := sr_streamType st\<rparr> = pr" by (simp add: stream_in_step_def)
    have "pending (d'\<lparr>d_psi := q\<rparr>) (sr_pid st) pr = pending d (sr_pid st) pr"
      using old(1) regs [OF st] by (intro pending_any_table) (simp add: stream_in_step_def reg_psi)
    then show ?thesis using old regs [OF st] unfolding pes [OF st] Some option.case same by (simp add: stream_in_step_def reg_psi)
  qed
  moreover have "fst ` set (d_pes d') \<subseteq> sr_pid ` set (m_streams m)"
    using no_pes by (metis (no_types, lifting) domIff dom_map_of_conv_image_fst subsetI)
  moreover have "keys_sorted (d_pes d')" using assms(2) by (simp add: d' sorted_keep in_step_def)
  moreover have "d_continuityErrors d' = 0" using assms(2) by (simp add: d' in_step_def)
  ultimately show "in_step (m_streams m) (d'\<lparr>d_psi := q\<rparr>) s h" using assms(2) by (simp add: in_step_def)
qed


lemma in_step_other:
  "in_step sts (d\<lparr>d_programNumber := a, d_pmtPid := b, d_havePat := c, d_psi := q\<rparr>) s h = in_step sts d s h"
  by (simp add: in_step_def stream_in_step_def registration_of_def pending_def unit_of_def cong: option.case_cong)

lemma pat_section:
  "8 \<le> length (buildPat tsid prog pmt v)" "length (buildPat tsid prog pmt v) \<le> 1026" "buildPat tsid prog pmt v ! 0 \<noteq> 0xFF"
  "length (buildPat tsid prog pmt v) = section_total (buildPat tsid prog pmt v)"
proof -
  have len: "length (buildPat tsid prog pmt v) = 16" by (simp add: buildPat_def Let_def)
  then show "8 \<le> length (buildPat tsid prog pmt v)" "length (buildPat tsid prog pmt v) \<le> 1026" by simp_all
  show "buildPat tsid prog pmt v ! 0 \<noteq> 0xFF" by (simp add: buildPat_def Let_def)
  have at: "buildPat tsid prog pmt v ! 1 = ucast (drop_bit 8 (0xB000 OR take_bit 12 13 :: u16))"
    "buildPat tsid prog pmt v ! 2 = ucast (0xB000 OR take_bit 12 13 :: u16)"
    by (subst buildPat_shape, simp)+
  have "unat (take_bit 12 13 :: u16) = 13" by simp
  then show "length (buildPat tsid prog pmt v) = section_total (buildPat tsid prog pmt v)"
    unfolding at section_length_field len by simp
qed

text \<open>The tables, from the multiplexer's turn to the demultiplexer's state.\<close>

lemma tables_go_through:
  assumes "mux_ready m" "in_step (m_streams m) d s h" "force \<or> knows (m_streams m) (m_pmtPid m) d"
    and "emitPatPmtIfDue now force (counted appender) m (n, s0) = (e, m1, (n1, s1))"
  shows "e = Ok \<and> (\<exists>a b c t. m1 = m\<lparr>m_patCc := a, m_pmtCc := b, m_havePsiTime := c, m_lastPsiTime27mhz := t\<rparr>) \<and>
    (\<exists>out d'. s1 = s0 @ out \<and> whole out \<and> demux_bytes out d s = (d', s) \<and> in_step (m_streams m) d' s h \<and>
      knows (m_streams m) (m_pmtPid m) d')"
proof (cases "\<not> force \<and> m_havePsiTime m \<and> now - m_lastPsiTime27mhz m < of_nat (m_patPmtIntervalMs m) * 27000")
  case True
  then have "e = Ok" "m1 = m" "s1 = s0" using assms(4) by (auto simp: emitPatPmtIfDue_def)
  moreover have "m = m\<lparr>m_patCc := m_patCc m, m_pmtCc := m_pmtCc m, m_havePsiTime := m_havePsiTime m, m_lastPsiTime27mhz := m_lastPsiTime27mhz m\<rparr>"
    by simp
  ultimately show ?thesis using assms(2,3) True by (metis append_Nil2 whole_Nil)
next
  case due: False
  let ?pat = "buildPat (m_transportStreamId m) (m_programNumber m) (m_pmtPid m) (m_patVersion m)"
  obtain sec where sec: "buildPmt (m_programNumber m) (m_pcrPid m) (m_pmtVersion m) [] (map pmt_of (m_streams m)) = Inr sec"
    using pmt_builds [OF assms(1)] by blast
  obtain out1 a where out1: "psi_packets PidPat True (psi_packet_count (length ?pat)) ?pat (m_patCc m) = (out1, a)" by fastforce
  obtain out2 b where out2: "psi_packets (m_pmtPid m) True (psi_packet_count (length sec)) sec (m_pmtCc m) = (out2, b)" by fastforce
  have "e = Ok \<and> m1 = m\<lparr>m_patCc := a, m_pmtCc := b, m_havePsiTime := True, m_lastPsiTime27mhz := now\<rparr> \<and> s1 = s0 @ out1 @ out2"
    using assms(4) due unfolding emitPatPmtIfDue_def writePsiSectionPacket_def Let_def
    by (auto simp: out1 out2 sec counted_def appender_def)
  then have e: "e = Ok" "m1 = m\<lparr>m_patCc := a, m_pmtCc := b, m_havePsiTime := True, m_lastPsiTime27mhz := now\<rparr>" "s1 = s0 @ out1 @ out2"
    by simp_all
  have pat: "table_pid PidPat d" by (simp add: table_pid_def PidPat_def MaxPid_def PidNull_def)
  obtain q where one: "whole out1"
    "demux_bytes out1 d s = (d\<lparr>d_programNumber := m_programNumber m, d_pmtPid := m_pmtPid m AND 0x1FFF, d_havePat := True, d_psi := q\<rparr>, s)"
    using section_written_is_done [OF out1 pat pat_section, of s] pat_does assms(1) by (auto simp: section_done_def mux_ready_def)
  define d1 where "d1 = d\<lparr>d_programNumber := m_programNumber m, d_pmtPid := m_pmtPid m AND 0x1FFF, d_havePat := True, d_psi := q\<rparr>"
  have pmt: "d_pmtPid d1 = m_pmtPid m" using assms(1) pids_13 [of "m_pmtPid m"] by (simp add: d1_def mux_ready_def low_masks)
  then have table: "table_pid (m_pmtPid m) d1" using assms(1) by (simp add: table_pid_def mux_ready_def)
  have step1: "in_step (m_streams m) d1 s h" using assms(2) unfolding d1_def in_step_other .
  note read = pmt_read_back [OF sec]
  have "8 \<le> length sec" "length sec \<le> 1026" "sec ! 0 \<noteq> 0xFF" using read(3-5) by simp_all
  note done2 = section_written_is_done [OF out2 table this read(6), of s]
  obtain d2 s2 where disp: "dispatchPsiSection collector (m_pmtPid m) sec d1 s = (d2, s2)" by fastforce
  obtain q2 where two: "whole out2" "dispatchPsiSection collector (m_pmtPid m) sec d1 s = (d2, s2)"
    "demux_bytes out2 d1 s = (d2\<lparr>d_psi := q2\<rparr>, s2)"
    using done2 disp unfolding section_done_def disp by auto
  note kept = tables_keep_step(1) [OF assms(1) step1 pmt sec two(2)] tables_keep_step(2,3) [OF assms(1) step1 pmt sec two(2), of q2]
  have "whole (out1 @ out2)" "demux_bytes (out1 @ out2) d s = (d2\<lparr>d_psi := q2\<rparr>, s)"
    using whole_append [OF one(1), of out2] one(2) two(1,3) kept(1) by (simp_all add: d1_def)
  then show ?thesis using e kept(2,3) by blast
qed

section \<open>An access unit keeps the ends in step\<close>

text \<open>What a write promises: the unit as written, with the stamps on 33 bits.\<close>

definition unit_for :: "stream_rec \<Rightarrow> byte list \<Rightarrow> u64 \<Rightarrow> u64 \<Rightarrow> bool \<Rightarrow> bool \<Rightarrow> access_unit" where
  "unit_for st payload pts dts key disc =
     \<lparr>au_pid = sr_pid st, au_streamType = sr_streamType st, au_registrationFormat = registration (sr_descriptors st),
      au_payload = payload, au_hasPts = True, au_hasDts = (dts \<noteq> pts), au_pts90k = take_bit 33 pts,
      au_dts90k = (if dts \<noteq> pts then take_bit 33 dts else 0), au_randomAccess = key, au_dataAlignment = True,
      au_discontinuity = disc\<rparr>"

lemma null_packets:
  "whole (concat (replicate n null_packet))" "demux_bytes (concat (replicate n null_packet)) d s = (d, s)"
proof -
  have len: "length null_packet = PacketSize" "null_packet ! 0 = SyncByte" by (simp_all add: null_packet_def PacketSize_def)
  have at: "null_packet ! 1 = 0x1F" "null_packet ! 2 = 0xFF" "null_packet ! 3 = 0x10" by (simp_all add: null_packet_def PidNull_def)
  have "processPacket collector null_packet d s = (Ok, d, s)"
    unfolding processPacket_def Let_def at by (simp add: PidNull_def)
  then show "whole (concat (replicate n null_packet))" "demux_bytes (concat (replicate n null_packet)) d s = (d, s)"
    using whole_packet [OF len] by (induction n) simp_all
qed

definition same_program :: "muxer \<Rightarrow> muxer \<Rightarrow> bool" where
  "same_program m m' \<longleftrightarrow> m_streams m' = m_streams m \<and> m_pmtPid m' = m_pmtPid m \<and> m_programNumber m' = m_programNumber m \<and>
     m_forcePatPmt m' = m_forcePatPmt m"

lemma cbr_top_up_appends:
  "\<exists>m' k. cbr_top_up now n appender m s0 = (Ok, m', s0 @ concat (replicate k null_packet)) \<and> same_program m m'"
proof -
  have none: "\<exists>m' k. (Ok, m1, s0) = (Ok, m', s0 @ concat (replicate k null_packet)) \<and> same_program m m'" if "same_program m m1" for m1
    using that by (intro exI [of _ m1] exI [of _ 0]) simp
  have some: "\<exists>m' k. (Ok, m1, s0 @ concat (replicate k0 null_packet)) = (Ok, m', s0 @ concat (replicate k null_packet)) \<and> same_program m m'"
    if "same_program m m1" for m1 k0 using that by blast
  show ?thesis
    unfolding cbr_top_up_def Let_def appender_def by (auto intro!: none some simp: same_program_def)
qed

lemma update_first_map:
  assumes "distinct (map sr_pid sts)" "\<And>st. sr_pid (f st) = sr_pid st"
  shows "update_first pid f sts = map (\<lambda>st. if sr_pid st = pid then f st else st) sts"
  using assms(1)
proof (induction sts)
  case (Cons st sts)
  have "map (\<lambda>st. if sr_pid st = sr_pid st' then f st else st) sts = sts" if "sr_pid st' \<notin> sr_pid ` set sts" for st'
    using that by (intro map_idI) (auto simp: rev_image_eqI)
  from this [of st] show ?case using Cons by auto
qed simp

lemma taken_units:
  assumes "taken d pid cc' pr pr' units (us @ [u])" "us = pending d pid pr" "au_pid u = pid"
  shows "of_pid pid units = units" "\<And>p. p \<noteq> pid \<Longrightarrow> of_pid p units = []"
proof -
  have "units @ pending d pid pr' = us @ [u]" using assms(1) by (simp add: taken_def)
  then have "set units \<subseteq> set (us @ [u])" by (metis set_append Un_upper1)
  then have "\<forall>au\<in>set units. au_pid au = pid" using assms(2,3) by (auto simp: pending_def unit_of_def split: if_splits)
  then show "of_pid pid units = units" "\<And>p. p \<noteq> pid \<Longrightarrow> of_pid p units = []"
    by (auto simp: of_pid_def filter_empty_conv filter_id_conv)
qed


lemma step_after_unit:
  assumes "in_step sts d s h" and st: "st \<in> set sts" and pr: "map_of (d_pes d) (sr_pid st) = Some pr"
    and taken: "taken d (sr_pid st) c pr pr' units (pending d (sr_pid st) pr @ [wanted d (sr_pid st) (pr_streamType pr) payload pts dts key disc])"
    and distinct: "distinct (map sr_pid sts)"
  shows "in_step (map (\<lambda>x. if sr_pid x = sr_pid st then x\<lparr>sr_continuityCounter := c, sr_pendingDiscontinuity := False\<rparr> else x) sts)
    (set_pes (sr_pid st) pr' d) (s @ units) (h(sr_pid st := h (sr_pid st) @ [unit_for st payload pts dts key disc]))"
proof -
  let ?pid = "sr_pid st" and ?d = "set_pes (sr_pid st) pr' d"
  let ?upd = "\<lambda>x. if sr_pid x = sr_pid st then x\<lparr>sr_continuityCounter := c, sr_pendingDiscontinuity := False\<rparr> else x"
  have ends: "stream_in_step st d pr" "of_pid ?pid s @ pending d ?pid pr = h ?pid" using assms(1) st pr by (auto simp: in_step_def)
  have unit: "wanted d ?pid (pr_streamType pr) payload pts dts key disc = unit_for st payload pts dts key disc"
    using ends(1) by (simp add: wanted_def unit_for_def stream_in_step_def)
  have "au_pid (wanted d ?pid (pr_streamType pr) payload pts dts key disc) = ?pid" by (simp add: wanted_def)
  note units = taken_units [OF taken refl this]
  have reg: "registration_of ?d p = registration_of d p" for p by (simp add: registration_of_def set_pes_def)
  have keys: "fst ` set (d_pes ?d) \<subseteq> sr_pid ` set sts" "keys_sorted (d_pes ?d)" "d_continuityErrors ?d = 0"
    using assms(1) st by (auto simp: in_step_def set_pes_def keys_map_insert sorted_map_insert)
  have same: "sr_pid (?upd x) = sr_pid x" for x by simp
  have pids: "sr_pid ` set (map ?upd sts) = sr_pid ` set sts" 
  proof -
    have "map sr_pid (map ?upd sts) = map sr_pid sts" by simp
    from arg_cong [OF this, of set] show ?thesis by (simp only: list.set_map)
  qed
  have "au_pid au = ?pid" if "au \<in> set units" for au
    using that units(1) by (metis (mono_tags, lifting) of_pid_def filter_id_conv)
  then have log: "\<forall>au\<in>set (s @ units). au_pid au \<in> sr_pid ` set sts" using assms(1) st by (auto simp: in_step_def)
  have "case map_of (d_pes ?d) (sr_pid y) of
        None \<Rightarrow> (h(?pid := h ?pid @ [unit_for st payload pts dts key disc])) (sr_pid y) = of_pid (sr_pid y) (s @ units)
      | Some r \<Rightarrow> stream_in_step y ?d r \<and> of_pid (sr_pid y) (s @ units) @ pending ?d (sr_pid y) r =
          (h(?pid := h ?pid @ [unit_for st payload pts dts key disc])) (sr_pid y)" if y: "y \<in> set (map ?upd sts)" for y
  proof -
    obtain x where x: "x \<in> set sts" "y = ?upd x" using y by auto
    show ?thesis
    proof (cases "sr_pid x = ?pid")
      case True
      then have "x = st" using distinct x(1) st by (auto simp: distinct_map inj_on_def)
      moreover have "stream_in_step (st\<lparr>sr_continuityCounter := c, sr_pendingDiscontinuity := False\<rparr>) ?d pr'"
        using taken ends(1) by (simp add: stream_in_step_def taken_def reg)
      moreover have "of_pid ?pid s @ units @ pending d ?pid pr' = h ?pid @ [unit_for st payload pts dts key disc]"
        using taken ends(2) unit by (simp add: taken_def)
      ultimately show ?thesis using x(2) units(1) by (simp add: of_pid_def)
    next
      case False
      then have "map_of (d_pes ?d) (sr_pid x) = map_of (d_pes d) (sr_pid x)" by (simp add: set_pes_def map_of_insert)
      moreover have "of_pid (sr_pid x) (s @ units) = of_pid (sr_pid x) s" using units(2) [OF False] by (simp add: of_pid_def)
      ultimately show ?thesis using assms(1) x False
        by (auto simp: in_step_def stream_in_step_def reg split: option.splits)
    qed
  qed
  then show ?thesis using keys log unfolding in_step_def pids by blast
qed

lemma unit_keeps_step:
  assumes "mux_ready m" "in_step (m_streams m) d s h" "m_forcePatPmt m \<or> knows (m_streams m) (m_pmtPid m) d"
    and st: "st \<in> set (m_streams m)" and "payload \<noteq> []"
  defines "f \<equiv> \<lambda>c st. st\<lparr>sr_continuityCounter := c, sr_pendingDiscontinuity := False\<rparr>"
  shows "\<exists>m' out c d' s'. writeAccessUnit (sr_pid st) payload pts dts key (Some appender) m s0 = (Ok, m', s0 @ out) \<and>
    same_program (m\<lparr>m_streams := map (\<lambda>x. if sr_pid x = sr_pid st then f c x else x) (m_streams m), m_forcePatPmt := False\<rparr>) m' \<and>
    c AND 0x0F = c \<and> whole out \<and> demux_bytes out d s = (d', s') \<and> knows (m_streams m) (m_pmtPid m) d' \<and>
    in_step (map (\<lambda>x. if sr_pid x = sr_pid st then f c x else x) (m_streams m)) d' s'
      (h(sr_pid st := h (sr_pid st) @ [unit_for st payload pts dts key (sr_pendingDiscontinuity st)]))"
proof -
  let ?pid = "sr_pid st" and ?now = "dts * 300"
  define m0 where "m0 = m\<lparr>m_forcePatPmt := False\<rparr>"
  have m0: "mux_ready m0" "m_streams m0 = m_streams m" "m_pmtPid m0 = m_pmtPid m" using assms(1) by (simp_all add: m0_def mux_ready_def)
  have find: "findStream ?pid m = Some st" using assms(1) st unfolding findStream_def by (intro find_distinct) (simp_all add: mux_ready_def)
  obtain e m1 n1 s1 where psi: "emitPatPmtIfDue ?now (m_forcePatPmt m) (counted appender) m0 (0, s0) = (e, m1, (n1, s1))" by (metis prod_cases3 prod.collapse)
  have "in_step (m_streams m0) d s h" "m_forcePatPmt m \<or> knows (m_streams m0) (m_pmtPid m0) d" using assms(2,3) m0 by simp_all
  from tables_go_through [OF m0(1) this psi] m0 obtain out1 d1 where one: "e = Ok" "same_program m0 m1" "s1 = s0 @ out1" "whole out1"
      "demux_bytes out1 d s = (d1, s)" "in_step (m_streams m) d1 s h" "knows (m_streams m) (m_pmtPid m) d1"
    by (auto simp: same_program_def)
  define ph where "ph = pes_header_of st (length payload) pts dts"
  define pes where "pes = writePesHeader ph (replicate (pesHeaderSize ph) 0) @ payload"
  define pcr where "pcr = (?pid = m_pcrPid m1 \<and> (key \<or> \<not> m_havePcrTime m1 \<or> ?now - m_lastPcrTime27mhz m1 \<ge> of_nat (m_pcrIntervalMs m1) * 27000))"
  obtain out2 c where loop: "packet_loop ((length pes + 175) div 176 + 1) ?pid (sr_continuityCounter st) True pcr key (sr_pendingDiscontinuity st) ?now pes = (Ok, out2, c)"
    using packet_loop_ok [OF max_packets_enough] by (metis add_gr_0 less_one)
  have ready: "stream_ready (m_pmtPid m) st" using assms(1) st by (simp add: mux_ready_def)
  have carried: "carried_pid ?pid d1" using ready one(7) by (intro stream_ready_carried) (simp_all add: knows_def)
  obtain pr where pr: "map_of (d_pes d1) ?pid = Some pr" using one(7) st by (auto simp: knows_def)
  have ends: "stream_in_step st d1 pr" "of_pid ?pid s @ pending d1 ?pid pr = h ?pid" using one(6) st pr by (auto simp: in_step_def)
  have "sr_continuityCounter st AND 0x0F = sr_continuityCounter st" "tidy pr" "pr_haveCc pr \<longrightarrow> advanceCc (pr_continuityCounter pr) = sr_continuityCounter st"
    using ready ends(1) by (simp_all add: stream_ready_def stream_in_step_def)
  from unit_goes_through [OF assms(5) pes_def ph_def loop this(1) carried pr this(2,3), of s] obtain pr' units where
    two: "whole out2" "c AND 0x0F = c" "demux_bytes out2 d1 s = (set_pes ?pid pr' d1, s @ units)"
    "taken d1 ?pid c pr pr' units (pending d1 ?pid pr @ [wanted d1 ?pid (pr_streamType pr) payload pts dts key (sr_pendingDiscontinuity st)])"
    by blast
  have distinct: "distinct (map sr_pid (m_streams m))" using assms(1) by (simp add: mux_ready_def)
  have stepped: "in_step (map (\<lambda>x. if sr_pid x = ?pid then f c x else x) (m_streams m)) (set_pes ?pid pr' d1) (s @ units)
      (h(?pid := h ?pid @ [unit_for st payload pts dts key (sr_pendingDiscontinuity st)]))"
    unfolding f_def by (rule step_after_unit [OF one(6) st pr two(4) distinct])
  define m2 where "m2 = (if pcr then m1\<lparr>m_havePcrTime := True, m_lastPcrTime27mhz := ?now\<rparr> else m1)"
  define m3 where "m3 = m2\<lparr>m_streams := update_first ?pid (f c) (m_streams m2)\<rparr>"
  obtain m4 k where cbr: "cbr_top_up ?now (n1 + of_nat (length out2)) appender m3 (s1 @ out2) = (Ok, m4, (s1 @ out2) @ concat (replicate k null_packet))"
      "same_program m3 m4" using cbr_top_up_appends by blast
  have wrote: "writeAccessUnit ?pid payload pts dts key (Some appender) m s0 = (Ok, m4, s0 @ out1 @ out2 @ concat (replicate k null_packet))"
    unfolding writeAccessUnit_def find option.case Let_def m0_def [symmetric] psi prod.case ph_def [symmetric] pes_def [symmetric] pcr_def [symmetric]
      loop m2_def [symmetric] f_def [symmetric]
    using assms(5) one(1,3) cbr(1) by (simp add: counted_def appender_def m3_def f_def)
  have "update_first ?pid (f c) (m_streams m) = map (\<lambda>x. if sr_pid x = ?pid then f c x else x) (m_streams m)"
    by (rule update_first_map [OF distinct]) (simp add: f_def)
  then have prog: "same_program (m\<lparr>m_streams := map (\<lambda>x. if sr_pid x = ?pid then f c x else x) (m_streams m), m_forcePatPmt := False\<rparr>) m4"
    using one(2) cbr(2) by (simp add: same_program_def m0_def m2_def m3_def)
  let ?out = "out1 @ out2 @ concat (replicate k null_packet)"
  have whole: "whole ?out" "demux_bytes ?out d s = (set_pes ?pid pr' d1, s @ units)"
    using one(4,5) two(1,3) null_packets by (simp_all add: whole_append)
  have "knows (m_streams m) (m_pmtPid m) (set_pes ?pid pr' d1)" using one(7) by (auto simp: knows_def set_pes_def map_of_insert)
  then show ?thesis using wrote prog two(2) whole stepped by blast
qed

section \<open>A whole run\<close>

text \<open>What the owner of the multiplexer may ask of it once it is set up.\<close>

datatype ts_command =
    WriteUnit u16 "byte list" u64 u64 bool
  | MarkDiscontinuity u16
  | ForceTables
  | NullPacket

definition run_command :: "ts_command \<Rightarrow> muxer \<Rightarrow> byte list \<Rightarrow> error \<times> muxer \<times> byte list" where
  "run_command c m s = (case c of
     WriteUnit pid payload pts dts key \<Rightarrow> writeAccessUnit pid payload pts dts key (Some appender) m s
   | MarkDiscontinuity pid \<Rightarrow> (case markNextAccessUnitDiscontinuous pid m of (e, m') \<Rightarrow> (e, m', s))
   | ForceTables \<Rightarrow> (Ok, forcePatPmt m, s)
   | NullPacket \<Rightarrow> (case emitNullPacket (Some appender) s of (e, s') \<Rightarrow> (e, m, s')))"

fun run_commands :: "ts_command list \<Rightarrow> muxer \<Rightarrow> byte list \<Rightarrow> error \<times> muxer \<times> byte list" where
  "run_commands [] m s = (Ok, m, s)"
| "run_commands (c # cs) m s =
     (case run_command c m s of (e, m', s') \<Rightarrow> if e \<noteq> Ok then (e, m', s') else run_commands cs m' s')"

fun command_ok :: "u16 set \<Rightarrow> ts_command \<Rightarrow> bool" where
  "command_ok pids (WriteUnit pid payload pts dts key) \<longleftrightarrow> pid \<in> pids \<and> payload \<noteq> []"
| "command_ok pids (MarkDiscontinuity pid) \<longleftrightarrow> pid \<in> pids"
| "command_ok pids _ \<longleftrightarrow> True"

text \<open>The units a run writes on one elementary stream.\<close>

fun units_of :: "stream_rec \<Rightarrow> bool \<Rightarrow> ts_command list \<Rightarrow> access_unit list" where
  "units_of st disc [] = []"
| "units_of st disc (WriteUnit pid payload pts dts key # cs) =
     (if pid = sr_pid st then unit_for st payload pts dts key disc # units_of st False cs else units_of st disc cs)"
| "units_of st disc (MarkDiscontinuity pid # cs) = units_of st (disc \<or> pid = sr_pid st) cs"
| "units_of st disc (_ # cs) = units_of st disc cs"

lemma units_of_state [simp]: "units_of (st\<lparr>sr_continuityCounter := c, sr_pendingDiscontinuity := b\<rparr>) disc cs = units_of st disc cs"
  "units_of (st\<lparr>sr_pendingDiscontinuity := b\<rparr>) disc cs = units_of st disc cs"
  "units_of (st\<lparr>sr_continuityCounter := c\<rparr>) disc cs = units_of st disc cs"
  by (induction st disc cs rule: units_of.induct) (simp_all add: unit_for_def)

lemma in_step_marks:
  assumes "in_step sts d s h" "\<And>st. sr_pid (f st) = sr_pid st \<and> sr_continuityCounter (f st) = sr_continuityCounter st \<and>
    sr_streamType (f st) = sr_streamType st \<and> sr_descriptors (f st) = sr_descriptors st"
  shows "in_step (map f sts) d s h"
proof -
  have "map sr_pid (map f sts) = map sr_pid sts" using assms(2) by simp
  from arg_cong [OF this, of set] have pids: "sr_pid ` set (map f sts) = sr_pid ` set sts" by (simp only: list.set_map)
  have "stream_in_step (f st) d pr = stream_in_step st d pr" for st pr using assms(2) by (simp add: stream_in_step_def)
  then show ?thesis using assms unfolding in_step_def pids by (auto split: option.splits)
qed

lemma mux_ready_map:
  assumes "mux_ready m" "m_streams m' = map f (m_streams m)" "m_pmtPid m' = m_pmtPid m" "m_programNumber m' = m_programNumber m"
    and "\<And>st. st \<in> set (m_streams m) \<Longrightarrow> sr_pid (f st) = sr_pid st \<and> sr_descriptors (f st) = sr_descriptors st \<and>
      sr_continuityCounter (f st) AND 0x0F = sr_continuityCounter (f st)"
  shows "mux_ready m'"
proof -
  have "map sr_pid (map f (m_streams m)) = map sr_pid (m_streams m)"
    "map (\<lambda>st. 5 + length (sr_descriptors st)) (map f (m_streams m)) = map (\<lambda>st. 5 + length (sr_descriptors st)) (m_streams m)"
    using assms(5) by simp_all
  moreover have "stream_ready (m_pmtPid m) (f st)" if "st \<in> set (m_streams m)" for st
    using assms(1,5) that by (auto simp: mux_ready_def stream_ready_def)
  ultimately show ?thesis using assms(1) unfolding mux_ready_def assms(2-4) by (simp del: map_map)
qed

lemma knows_map:
  assumes "knows sts pmt d" "\<And>st. st \<in> set sts \<Longrightarrow> sr_pid (f st) = sr_pid st"
  shows "knows (map f sts) pmt d"
  using assms by (simp add: knows_def)

text \<open>One command, seen from both ends.\<close>

lemma command_keeps_step:
  assumes "mux_ready m" "in_step (m_streams m) d s h" "m_forcePatPmt m \<or> knows (m_streams m) (m_pmtPid m) d"
    and "command_ok (sr_pid ` set (m_streams m)) c"
  shows "\<exists>m' out d' s' f h'. run_command c m s0 = (Ok, m', s0 @ out) \<and> whole out \<and> demux_bytes out d s = (d', s') \<and>
    mux_ready m' \<and> m_streams m' = map f (m_streams m) \<and> in_step (m_streams m') d' s' h' \<and>
    (m_forcePatPmt m' \<or> knows (m_streams m') (m_pmtPid m') d') \<and>
    (\<forall>st\<in>set (m_streams m). sr_pid (f st) = sr_pid st \<and> (\<forall>cs. h (sr_pid st) @ units_of st (sr_pendingDiscontinuity st) (c # cs) =
      h' (sr_pid st) @ units_of (f st) (sr_pendingDiscontinuity (f st)) cs))"
proof (cases c)
  case (WriteUnit pid payload pts dts key)
  then obtain st where st: "st \<in> set (m_streams m)" "pid = sr_pid st" "payload \<noteq> []" using assms(4) by auto
  let ?f = "\<lambda>cc x. if sr_pid x = sr_pid st then x\<lparr>sr_continuityCounter := cc, sr_pendingDiscontinuity := False\<rparr> else x"
  from unit_keeps_step [OF assms(1-3) st(1,3), of pts dts key s0] obtain m' out cc d' s' where step:
    "writeAccessUnit (sr_pid st) payload pts dts key (Some appender) m s0 = (Ok, m', s0 @ out)"
    "same_program (m\<lparr>m_streams := map (?f cc) (m_streams m), m_forcePatPmt := False\<rparr>) m'" "cc AND 0x0F = cc" "whole out"
    "demux_bytes out d s = (d', s')" "knows (m_streams m) (m_pmtPid m) d'"
    "in_step (map (?f cc) (m_streams m)) d' s' (h(sr_pid st := h (sr_pid st) @ [unit_for st payload pts dts key (sr_pendingDiscontinuity st)]))"
    by blast
  let ?h = "h(sr_pid st := h (sr_pid st) @ [unit_for st payload pts dts key (sr_pendingDiscontinuity st)])"
  have m': "m_streams m' = map (?f cc) (m_streams m)" "m_pmtPid m' = m_pmtPid m" "m_programNumber m' = m_programNumber m"
    using step(2) by (simp_all add: same_program_def)
  have "mux_ready m'"
    by (rule mux_ready_map [OF assms(1) m']) (use assms(1) step(3) in \<open>auto simp: mux_ready_def stream_ready_def\<close>)
  moreover have "knows (m_streams m') (m_pmtPid m') d'" unfolding m'(1,2) by (rule knows_map [OF step(6)]) simp
  moreover have "h (sr_pid x) @ units_of x (sr_pendingDiscontinuity x) (c # cs) = ?h (sr_pid x) @ units_of (?f cc x) (sr_pendingDiscontinuity (?f cc x)) cs"
    if x: "x \<in> set (m_streams m)" for x cs
  proof (cases "sr_pid x = sr_pid st")
    case True
    then have "x = st" using assms(1) x st(1) by (auto simp: mux_ready_def distinct_map inj_on_def)
    then show ?thesis by (simp add: WriteUnit st(2))
  qed (simp add: WriteUnit st(2))
  ultimately show ?thesis using step(1,4,5,7) m'(1) by (intro exI [of _ m'] exI [of _ out] exI [of _ d'] exI [of _ s'] exI [of _ "?f cc"] exI [of _ ?h])
      (simp add: run_command_def WriteUnit st(2) del: units_of.simps fun_upd_apply)
next
  case (MarkDiscontinuity pid)
  let ?f = "\<lambda>x. if sr_pid x = pid then x\<lparr>sr_pendingDiscontinuity := True\<rparr> else x"
  obtain st where "st \<in> set (m_streams m)" "pid = sr_pid st" using assms(4) MarkDiscontinuity by auto
  then have "findStream pid m = Some st" using assms(1) unfolding findStream_def by (auto intro!: find_distinct simp: mux_ready_def)
  moreover have "update_first pid (\<lambda>s. s\<lparr>sr_pendingDiscontinuity := True\<rparr>) (m_streams m) = map ?f (m_streams m)"
    using assms(1) by (intro update_first_map) (simp_all add: mux_ready_def)
  ultimately have run: "run_command c m s0 = (Ok, m\<lparr>m_streams := map ?f (m_streams m)\<rparr>, s0)"
    by (simp add: run_command_def MarkDiscontinuity markNextAccessUnitDiscontinuous_def)
  have "mux_ready (m\<lparr>m_streams := map ?f (m_streams m)\<rparr>)"
    by (rule mux_ready_map [OF assms(1), of _ ?f]) (use assms(1) in \<open>auto simp: mux_ready_def stream_ready_def\<close>)
  moreover have "in_step (map ?f (m_streams m)) d s h" by (rule in_step_marks [OF assms(2)]) simp
  moreover have "m_forcePatPmt m \<or> knows (map ?f (m_streams m)) (m_pmtPid m) d" using assms(3) knows_map [of "m_streams m" _ d ?f] by auto
  moreover have "units_of x (sr_pendingDiscontinuity x) (c # cs) = units_of (?f x) (sr_pendingDiscontinuity (?f x)) cs" for x cs
    by (auto simp: MarkDiscontinuity)
  ultimately show ?thesis using run
    by (intro exI [of _ "m\<lparr>m_streams := map ?f (m_streams m)\<rparr>"] exI [of _ "[]"] exI [of _ d] exI [of _ s] exI [of _ ?f] exI [of _ h])
      (simp del: units_of.simps)
next
  case ForceTables
  have "mux_ready (forcePatPmt m)" using assms(1) by (simp add: mux_ready_def forcePatPmt_def)
  then show ?thesis using assms(2)
    by (intro exI [of _ "forcePatPmt m"] exI [of _ "[]"] exI [of _ d] exI [of _ s] exI [of _ id] exI [of _ h])
      (simp add: ForceTables run_command_def forcePatPmt_def)
next
  case NullPacket
  have "run_command c m s0 = (Ok, m, s0 @ null_packet)" by (simp add: run_command_def NullPacket emitNullPacket_def appender_def)
  then show ?thesis using assms(1-3) null_packets [of 1]
    by (intro exI [of _ m] exI [of _ null_packet] exI [of _ d] exI [of _ s] exI [of _ id] exI [of _ h]) (simp add: NullPacket)
qed

text \<open>And a whole run of them.\<close>

lemma run_keeps_step:
  assumes "mux_ready m" "in_step (m_streams m) d s h" "m_forcePatPmt m \<or> knows (m_streams m) (m_pmtPid m) d"
    and "\<forall>c\<in>set cs. command_ok (sr_pid ` set (m_streams m)) c"
  shows "\<exists>m' out d' s' h'. run_commands cs m s0 = (Ok, m', s0 @ out) \<and> whole out \<and> demux_bytes out d s = (d', s') \<and>
    in_step (m_streams m') d' s' h' \<and> sr_pid ` set (m_streams m') = sr_pid ` set (m_streams m) \<and>
    (\<forall>st\<in>set (m_streams m). h' (sr_pid st) = h (sr_pid st) @ units_of st (sr_pendingDiscontinuity st) cs)"
  using assms
proof (induction cs arbitrary: m d s h s0)
  case Nil
  then show ?case by (intro exI [of _ m] exI [of _ "[]"] exI [of _ d] exI [of _ s] exI [of _ h]) simp
next
  case (Cons c cs)
  have "command_ok (sr_pid ` set (m_streams m)) c" using Cons.prems(4) by simp
  from command_keeps_step [OF Cons.prems(1-3) this, of s0] obtain m1 out1 d1 s1 f h1 where one:
    "run_command c m s0 = (Ok, m1, s0 @ out1)" "whole out1" "demux_bytes out1 d s = (d1, s1)" "mux_ready m1"
    "m_streams m1 = map f (m_streams m)" "in_step (m_streams m1) d1 s1 h1" "m_forcePatPmt m1 \<or> knows (m_streams m1) (m_pmtPid m1) d1"
    "\<And>st. st \<in> set (m_streams m) \<Longrightarrow> sr_pid (f st) = sr_pid st"
    "\<And>st cs. st \<in> set (m_streams m) \<Longrightarrow> h (sr_pid st) @ units_of st (sr_pendingDiscontinuity st) (c # cs) =
      h1 (sr_pid st) @ units_of (f st) (sr_pendingDiscontinuity (f st)) cs"
    by blast
  have pids: "sr_pid ` set (m_streams m1) = sr_pid ` set (m_streams m)" unfolding one(5) set_map image_image by (rule image_cong [OF refl one(8)])
  have "\<forall>c\<in>set cs. command_ok (sr_pid ` set (m_streams m1)) c" using Cons.prems(4) by (simp add: pids)
  from Cons.IH [OF one(4,6,7) this, of "s0 @ out1"] obtain m2 out2 d2 s2 h2 where two:
    "run_commands cs m1 (s0 @ out1) = (Ok, m2, (s0 @ out1) @ out2)" "whole out2" "demux_bytes out2 d1 s1 = (d2, s2)"
    "in_step (m_streams m2) d2 s2 h2" "sr_pid ` set (m_streams m2) = sr_pid ` set (m_streams m1)"
    "\<forall>st\<in>set (m_streams m1). h2 (sr_pid st) = h1 (sr_pid st) @ units_of st (sr_pendingDiscontinuity st) cs"
    by (elim exE conjE) (rule that)
  have "h2 (sr_pid st) = h (sr_pid st) @ units_of st (sr_pendingDiscontinuity st) (c # cs)" if "st \<in> set (m_streams m)" for st
  proof -
    have "f st \<in> set (m_streams m1)" using one(5) that by simp
    from bspec [OF two(6) this] have "h2 (sr_pid st) = h1 (sr_pid st) @ units_of (f st) (sr_pendingDiscontinuity (f st)) cs"
      by (simp only: one(8) [OF that])
    then show ?thesis by (simp only: one(9) [OF that])
  qed
  then have units: "\<forall>st\<in>set (m_streams m). h2 (sr_pid st) = h (sr_pid st) @ units_of st (sr_pendingDiscontinuity st) (c # cs)" by blast
  have run: "run_commands (c # cs) m s0 = (Ok, m2, s0 @ out1 @ out2)" using two(1) by (simp add: one(1))
  have heard: "whole (out1 @ out2)" "demux_bytes (out1 @ out2) d s = (d2, s2)"
    using two(2) by (simp_all add: whole_append [OF one(2)] one(3) two(3))
  have "sr_pid ` set (m_streams m2) = sr_pid ` set (m_streams m)" by (simp only: two(5) pids)
  then show ?case using run heard two(4) units by blast
qed


section \<open>Flushing\<close>

lemma flush_hands_over:
  assumes "keys_sorted pes" "\<forall>(pid, pr)\<in>set pes. tidy pr"
  shows "\<exists>pes' s'. flush_loop collector d pes s = (Ok, pes', s') \<and>
    (\<forall>pid. of_pid pid s' = of_pid pid s @ (case map_of pes pid of None \<Rightarrow> [] | Some pr \<Rightarrow> pending d pid pr)) \<and>
    au_pid ` set s' \<subseteq> au_pid ` set s \<union> fst ` set pes"
  using assms
proof (induction pes arbitrary: s)
  case (Cons x pes)
  obtain pid pr where x: "x = (pid, pr)" by fastforce
  have tidy: "pr_inProgress pr \<longrightarrow> pr_unbounded pr \<and> pr_data pr \<noteq> []" using Cons.prems(2) by (simp add: x tidy_def)
  obtain pr' where head: "(if pr_inProgress pr \<and> pr_data pr \<noteq> [] \<and> pr_unbounded pr then finalizePes collector pid pr d s else (Ok, pr, s)) =
      (Ok, pr', s @ pending d pid pr)"
    using tidy by (cases "pr_inProgress pr") (auto simp: collector_finalize pending_def)
  obtain pes' s' where rest: "flush_loop collector d pes (s @ pending d pid pr) = (Ok, pes', s')"
    "\<And>p. of_pid p s' = of_pid p (s @ pending d pid pr) @ (case map_of pes p of None \<Rightarrow> [] | Some pr \<Rightarrow> pending d p pr)"
    "au_pid ` set s' \<subseteq> au_pid ` set (s @ pending d pid pr) \<union> fst ` set pes"
    using Cons.IH [of "s @ pending d pid pr"] Cons.prems by (auto simp: x)
  have own: "au_pid au = pid" if "au \<in> set (pending d pid pr)" for au
    using that by (auto simp: pending_def unit_of_def split: if_splits)
  have "pid \<notin> fst ` set pes" using Cons.prems(1) by (auto simp: x)
  then have new: "map_of pes pid = None" by (simp add: map_of_eq_None_iff)
  have split: "of_pid p (s @ pending d pid pr) = of_pid p s @ (if p = pid then pending d pid pr else [])" for p
    using own by (auto simp: of_pid_def filter_id_conv filter_empty_conv)
  have "of_pid p s' = of_pid p s @ (case map_of (x # pes) p of None \<Rightarrow> [] | Some pr \<Rightarrow> pending d p pr)" for p
    using rest(2) [of p] new by (auto simp: x split split: option.split)
  moreover have "au_pid ` set s' \<subseteq> au_pid ` set s \<union> fst ` set (x # pes)" using rest(3) own by (auto simp: x)
  moreover have "flush_loop collector d (x # pes) s = (Ok, (pid, pr') # pes', s')" by (simp add: x head rest(1))
  ultimately show ?case by blast
qed (simp add: of_pid_def)

lemma whole_pushed:
  assumes "whole bs" "demux_bytes bs new_demuxer [] = (d, s)" "concat pieces = bs"
  shows "\<exists>d'. push_all collector pieces new_demuxer [] = (Ok, d', s) \<and> d' = d\<lparr>d_carry := [], d_bytesDiscarded := 0\<rparr>"
proof -
  have bs: "scan (d_carry new_demuxer @ concat pieces) = (fst (scan bs), [])" "length (d_carry new_demuxer) < PacketSize"
    using assms(1,3) by (auto simp: whole_def new_demuxer_def PacketSize_def prod_eq_iff)
  have run: "run_packets collector (fst (scan bs)) new_demuxer [] = (d, s)" using assms(2) by (simp add: demux_bytes_def)
  from push_all_scan [OF collector_never_fails bs(2,1) run] obtain c k where p:
    "push_all collector pieces new_demuxer [] = (Ok, skipped (d_bytesDiscarded new_demuxer + of_nat k, c) d, s)"
    "to_sync c = []" "length (concat pieces) = PacketSize * length (fst (scan bs)) + length c + k"
    by (auto simp: new_demuxer_def)
  then have "c = []" "k = 0" using assms(1,3) by (simp_all add: whole_def)
  then show ?thesis using p(1) by (simp add: new_demuxer_def)
qed

text \<open>A multiplexer gets into this state by its own operations.\<close>

lemma new_muxer_ready: "mux_ready new_muxer" "m_forcePatPmt new_muxer"
  by (simp_all add: mux_ready_def new_muxer_def MaxPid_def PidNull_def PidPat_def)

lemma addStream_ready:
  assumes "mux_ready m" "addStream pid st desc k m = (Ok, m')"
    "13 + sum_list (map (\<lambda>st. 5 + length (sr_descriptors st)) (m_streams m')) \<le> 0x3FF"
  shows "mux_ready m' \<and> m_forcePatPmt m' \<and> (\<exists>rec. sr_pid rec = pid \<and> m_streams m' = m_streams m @ [rec])"
proof -
  have guards: "PidIpmp < pid" "pid \<le> MaxPid" "pid \<noteq> PidNull" "pid \<noteq> m_pmtPid m" "findStream pid m = None"
    using assms(2) by (auto simp: addStream_def Let_def split: if_splits)
  have "pid \<notin> sr_pid ` set (m_streams m)" using guards(5) by (auto simp: findStream_def find_None_iff)
  then show ?thesis using assms guards
    by (auto simp: addStream_def Let_def mux_ready_def stream_ready_def split: if_splits)
qed

text \<open>
  The program clock goes out only on access units of its own PID. Nothing checks that this PID is one of the streams:
  with another one every write succeeds all the same and no clock is ever sent.
\<close>

lemma emitPatPmtIfDue_clock:
  "emitPatPmtIfDue now force emit m s = (e, m', s') \<Longrightarrow> m_pcrPid m' = m_pcrPid m \<and> m_havePcrTime m' = m_havePcrTime m"
  by (auto simp: emitPatPmtIfDue_def Let_def split: if_splits prod.splits sum.splits)

lemma cbr_top_up_clock:
  "cbr_top_up now n emit m s = (e, m', s') \<Longrightarrow> m_pcrPid m' = m_pcrPid m \<and> m_havePcrTime m' = m_havePcrTime m"
  by (auto simp: cbr_top_up_def Let_def split: if_splits prod.splits)

lemma writeAccessUnit_clock:
  assumes "writeAccessUnit pid payload pts dts key emit m s = (e, m', s')" "pid \<noteq> m_pcrPid m"
  shows "m_pcrPid m' = m_pcrPid m \<and> m_havePcrTime m' = m_havePcrTime m"
  using assms
  by (auto simp: writeAccessUnit_def Let_def dest!: emitPatPmtIfDue_clock cbr_top_up_clock
      split: option.splits if_splits prod.splits)

lemma run_sends_no_clock:
  "run_commands cs m s = (e, m', s') \<Longrightarrow> \<forall>c\<in>set cs. command_ok (pids - {m_pcrPid m}) c \<Longrightarrow>
   m_havePcrTime m' = m_havePcrTime m"
proof (induction cs arbitrary: m s)
  case (Cons c cs)
  obtain e1 m1 s1 where c: "run_command c m s = (e1, m1, s1)" by (metis prod_cases3)
  then have "m_pcrPid m1 = m_pcrPid m \<and> m_havePcrTime m1 = m_havePcrTime m"
    using Cons.prems(2) by (cases c) (auto simp: run_command_def markNextAccessUnitDiscontinuous_def forcePatPmt_def
        dest!: writeAccessUnit_clock split: prod.splits option.splits if_splits)
  then show ?case using Cons.IH [of m1 s1] Cons.prems c by (auto split: if_splits)
qed simp

text \<open>C2: The transport stream carries every access unit: whatever is written on the streams of a set up multiplexer,
  with tables, program clock, stuffing, marks and padding in between, a demultiplexer that gets the bytes in any
  pieces and is flushed delivers, for every elementary stream, exactly the units written on it, in order, with their
  stamps, marks and registration, and sees no continuity error and discards no byte. No write on these streams fails,
  even when the PID set for the program clock is none of them: the multiplexer never checks that PID, though its
  header documents the error IdNotFound, and then sends no clock at all.\<close>
theorem ts_carries_access_units:
  assumes "mux_ready m" "m_forcePatPmt m" "\<forall>c\<in>set cs. command_ok (sr_pid ` set (m_streams m)) c"
  shows "\<exists>m' bytes. run_commands cs m [] = (Ok, m', bytes) \<and> (\<forall>pieces. concat pieces = bytes \<longrightarrow>
    (\<exists>d s d' s'. push_all collector pieces new_demuxer [] = (Ok, d, s) \<and> flush collector d s = (Ok, d', s') \<and>
      (\<forall>st\<in>set (m_streams m). of_pid (sr_pid st) s' = units_of st (sr_pendingDiscontinuity st) cs) \<and>
      au_pid ` set s' \<subseteq> sr_pid ` set (m_streams m) \<and>
      d_continuityErrors d' = 0 \<and> d_bytesDiscarded d' = 0 \<and> d_carry d' = [])) \<and>
    (m_pcrPid m \<notin> sr_pid ` set (m_streams m) \<longrightarrow> m_havePcrTime m' = m_havePcrTime m)"
proof -
  have start: "in_step (m_streams m) new_demuxer [] (\<lambda>_. [])" by (simp add: in_step_def new_demuxer_def of_pid_def)
  from run_keeps_step [OF assms(1) start _ assms(3), of "[]"] assms(2) obtain m' out d s h where run:
    "run_commands cs m [] = (Ok, m', out)" "whole out" "demux_bytes out new_demuxer [] = (d, s)" "in_step (m_streams m') d s h"
    "sr_pid ` set (m_streams m') = sr_pid ` set (m_streams m)"
    "\<forall>st\<in>set (m_streams m). h (sr_pid st) = units_of st (sr_pendingDiscontinuity st) cs"
    by auto
  have sorted: "keys_sorted (d_pes d)" and keys: "fst ` set (d_pes d) \<subseteq> sr_pid ` set (m_streams m)"
    using run(4,5) by (simp_all add: in_step_def)
  have "tidy pr" if pr: "(pid, pr) \<in> set (d_pes d)" for pid pr
  proof -
    have "map_of (d_pes d) pid = Some pr" using sorted pr by (simp add: strict_sorted_iff)
    moreover obtain st where "st \<in> set (m_streams m')" "pid = sr_pid st" using pr keys run(5) by force
    ultimately show ?thesis using run(4) by (auto simp: in_step_def stream_in_step_def)
  qed
  then have tidy: "\<forall>(pid, pr)\<in>set (d_pes d). tidy pr" by blast
  define dd where "dd = d\<lparr>d_carry := [], d_bytesDiscarded := 0\<rparr>"
  have same: "pending dd pid pr = pending d pid pr" for pid pr by (rule pending_any_table) (simp add: dd_def registration_of_def)
  from flush_hands_over [OF sorted tidy, of dd s] obtain pes' s' where fl: "flush_loop collector dd (d_pes d) s = (Ok, pes', s')"
    "\<And>pid. of_pid pid s' = of_pid pid s @ (case map_of (d_pes d) pid of None \<Rightarrow> [] | Some pr \<Rightarrow> pending d pid pr)"
    "au_pid ` set s' \<subseteq> au_pid ` set s \<union> fst ` set (d_pes d)"
    unfolding same by blast
  have flushed: "flush collector dd s = (Ok, dd\<lparr>d_pes := pes'\<rparr>, s')" using fl(1) by (simp add: flush_def dd_def)
  have units: "of_pid (sr_pid st) s' = units_of st (sr_pendingDiscontinuity st) cs" if st: "st \<in> set (m_streams m)" for st
  proof -
    obtain st' where "st' \<in> set (m_streams m')" "sr_pid st = sr_pid st'" using st run(5) by (metis imageE imageI)
    then have "of_pid (sr_pid st) s' = h (sr_pid st)" using run(4) fl(2) by (auto simp: in_step_def split: option.splits)
    then show ?thesis using run(6) st by simp
  qed
  have "\<forall>au\<in>set s. au_pid au \<in> sr_pid ` set (m_streams m)" using run(4) unfolding in_step_def run(5) by (elim conjE)
  then have "au_pid ` set s \<subseteq> sr_pid ` set (m_streams m)" by (simp only: image_subset_iff)
  then have pids: "au_pid ` set s' \<subseteq> sr_pid ` set (m_streams m)" by (intro subset_trans [OF fl(3)] Un_least) (assumption | rule keys)+
  have counters: "d_continuityErrors (dd\<lparr>d_pes := pes'\<rparr>) = 0" "d_bytesDiscarded (dd\<lparr>d_pes := pes'\<rparr>) = 0" "d_carry (dd\<lparr>d_pes := pes'\<rparr>) = []"
    using run(4) by (simp_all add: dd_def in_step_def)
  have clock: "m_pcrPid m \<notin> sr_pid ` set (m_streams m) \<longrightarrow> m_havePcrTime m' = m_havePcrTime m"
    using run_sends_no_clock [OF run(1), of "sr_pid ` set (m_streams m)"] assms(3) by (metis Diff_empty Diff_insert0)
  show ?thesis
    using run(1) whole_pushed [OF run(2,3)] flushed units pids counters clock unfolding dd_def by blast
qed


theorem ts_carries_access_units_witness:
  "let m = snd (addStream 0x101 0x0F [] KindAuto (snd (addStream 0x100 0x1B [] KindAuto new_muxer)));
       cs = [NullPacket, MarkDiscontinuity 0x101, WriteUnit 0x100 [1, 2, 3] 900 600 True, ForceTables,
             WriteUnit 0x101 [9] 700 700 False, WriteUnit 0x100 [4] 1200 1200 False]
   in mux_ready m \<and> map sr_pid (m_streams m) = [0x100, 0x101] \<and> (\<exists>m' bytes. run_commands cs m [] = (Ok, m', bytes) \<and>
     (\<forall>pieces. concat pieces = bytes \<longrightarrow>
       (\<exists>d s d' s'. push_all collector pieces new_demuxer [] = (Ok, d, s) \<and> flush collector d s = (Ok, d', s') \<and>
         map au_payload (of_pid 0x100 s') = [[1, 2, 3], [4]] \<and> map au_payload (of_pid 0x101 s') = [[9]] \<and>
         map au_discontinuity (of_pid 0x101 s') = [True] \<and> map au_pts90k (of_pid 0x100 s') = [900, 1200])))"
proof -
  let ?m = "snd (addStream 0x101 0x0F [] KindAuto (snd (addStream 0x100 0x1B [] KindAuto new_muxer)))"
  let ?cs = "[NullPacket, MarkDiscontinuity 0x101, WriteUnit 0x100 [1, 2, 3] 900 600 True, ForceTables,
    WriteUnit 0x101 [9] 700 700 False, WriteUnit 0x100 [4] 1200 1200 False]"
  let ?v = "\<lparr>sr_pid = 0x100, sr_streamType = 0x1B, sr_kind = KindVideo, sr_pesStreamId = 0xE0, sr_descriptors = [],
    sr_continuityCounter = 0, sr_pendingDiscontinuity = False\<rparr>"
  let ?a = "\<lparr>sr_pid = 0x101, sr_streamType = 0x0F, sr_kind = KindAudio, sr_pesStreamId = 0xC0, sr_descriptors = [],
    sr_continuityCounter = 0, sr_pendingDiscontinuity = False\<rparr>"
  have m: "m_streams ?m = [?v, ?a]" "m_forcePatPmt ?m" "m_pmtPid ?m = 0x1000" "m_programNumber ?m = 1" by code_simp+
  have ready: "mux_ready ?m"
    by (simp add: mux_ready_def m stream_ready_def PidIpmp_def MaxPid_def PidNull_def PidPat_def)
  have ok: "\<forall>c\<in>set ?cs. command_ok (sr_pid ` set (m_streams ?m)) c" by (simp add: m)
  have "?v \<in> set (m_streams ?m)" "?a \<in> set (m_streams ?m)" by (simp_all add: m)
  note at = bspec [OF _ this(1)] bspec [OF _ this(2)]
  have units: "units_of ?v False ?cs = [unit_for ?v [1, 2, 3] 900 600 True False, unit_for ?v [4] 1200 1200 False False]"
    "units_of ?a False ?cs = [unit_for ?a [9] 700 700 False True]" by simp_all
  have vals: "take_bit 33 (900 :: u64) = 900" "take_bit 33 (1200 :: u64) = 1200" by code_simp+
  from ts_carries_access_units [OF ready m(2) ok] show ?thesis
    unfolding Let_def using ready m(1) at units vals by (fastforce simp: unit_for_def)
qed

end
