(* ===== verification/Spec2Isabelle.thy ===== *)
theory Spec2Isabelle
  imports Prelude Crc TextCodec St291 Cdp RtpTracker RtpReorder RtpReceive Amf0 RtmpChunk Strings MdnsTxt DnsName
    DnsPacket DnsCache FlvTag RtpClock Rtcp NalStream NalBits SpsParse DecoderConfig RtpPayload PacketTransport RtpSession
    MpegTs TsMuxer TsDemuxer TransportStream TransportRun
begin

text \<open>
  Verification library of libpromeki, a C++ library for professional media: capture and playback devices,
  pipelines, codecs, and the network protocols that carry them. What is modelled here is the part of it that
  decides things about bytes and numbers: the wire formats and the state machines of the receivers. Code that
  only moves data between the operating system, third-party libraries and these parts is left out.

  Paths are below \<open>src/\<close> and \<open>include/promeki/\<close> of the repository.

  \<^bold>\<open>Conventions.\<close> A fixed-width integer is a word of its width, a byte buffer a list of bytes, a
  \<open>Result<T>\<close> the sum \<open>error + 'a\<close>, a class a record with one field per member. A reader takes the whole input
  and a position, or the rest of the input, and answers the value and what is left; a writer answers the bytes it
  appends. A read past the end that the code guards is the branch of its guard. Mutexes are left out where each
  public member holds the one mutex of the object for its whole run; what two threads can observe is then a sequence
  of the operations.

  \<^bold>\<open>Parts.\<close>
  \<^item> \<open>Prelude\<close>: integer types, error codes, big-endian layout, lemmas on bits and lists, and the interfaces: a codec
    with a round trip (\<open>wire_codec\<close>), one that hands back the rest of its input (\<open>prefix_codec\<close>), a function that
    consumes a stream in pieces (\<open>stream_fold\<close>), a state machine with an invariant (\<open>event_machine\<close>) and a sender and
    a receiver that stay in step (\<open>lockstep\<close>). Each is interpreted in the theories of its providers.
  \<^item> \<open>Crc\<close> (\<open>core/crc.cpp\<close>, \<open>crc.h\<close>): the table-driven engine at every width, equal to the bit-serial register of the
    polynomial; a changed byte changes the value.
  \<^item> \<open>TextCodec\<close> (\<open>core/base64.cpp\<close>, \<open>core/buffer.cpp\<close>): base64 and hex text. The content of a fresh output buffer is
    an argument, which shows where the decoder returns bytes it never wrote.
  \<^item> \<open>St291\<close> (\<open>proav/st291packet.cpp\<close>, \<open>ancpacket.cpp\<close>): ten-bit words, parity, checksum, factories and accessors.
    The format registry is a parameter.
  \<^item> \<open>Cdp\<close> (\<open>proav/cea708cdp.cpp\<close>): the caption distribution packet, writer and parser with every section.
  \<^item> \<open>RtpTracker\<close> (\<open>network/rtpseqtracker.cpp\<close>), \<open>RtpReorder\<close> (\<open>network/rtpseqreorderbuffer.cpp\<close>, \<open>queue.h\<close>) and
    \<open>RtpReceive\<close> (\<open>network/rtpsession.cpp\<close>, \<open>rtppacket.h\<close>): the receive path. A datagram is validated and
    demultiplexed by payload type, its source checked against the pin, its number extended by the tracker, and the
    packet put through the reorder window into the output queue, which \<open>receive_packet\<close> composes as
    \<open>dispatchToReceivers\<close> does. Clock readings are arguments.
  \<^item> \<open>Amf0\<close> (\<open>proav/amf0.cpp\<close>): the value tree of RTMP commands, writer and reader. The conversion of received bytes
    to a string is the argument \<open>norm\<close>. The reader's recursion takes fuel \<open>2 * length + 1\<close>, which
    \<open>amf_reader_ends\<close> shows to be enough on every input.
  \<^item> \<open>RtmpChunk\<close> (\<open>network/rtmpchunkstream.cpp\<close>): header compression, chunking, control messages and acknowledgements.
    The device is a list of bytes still to come and the room left for writing.
  \<^item> \<open>Strings\<close> (\<open>core/stringdata.cpp\<close>, \<open>core/char.cpp\<close>, \<open>string.h\<close>): the two storages of a string, UTF-8 and the
    byte cache.
  \<^item> \<open>MdnsTxt\<close> (\<open>network/mdnstxtrecord.cpp\<close>): key and value entries of a TXT record and their wire form.
  \<^item> \<open>DnsName\<close> (\<open>network/dnsname.cpp\<close>): names as text, decoding with compression pointers, encoding with the
    dictionary. \<open>decode_loop\<close> takes fuel 146; \<open>dns_decode_ends\<close> shows 144 rounds to be enough for every message,
    so the fuel never decides an answer.
  \<^item> \<open>DnsPacket\<close> (\<open>network/dnspacket.cpp\<close>): messages of both modes, parser and builder.
  \<^item> \<open>DnsCache\<close> (\<open>network/dnscache.cpp\<close>): the resolver's answer cache as a map in key order, with clock readings as
    arguments, against a specification that has no capacity and never forgets.
  \<^item> \<open>FlvTag\<close> (\<open>proav/flvtag.cpp\<close>): the video, audio and script bodies RTMP messages carry, both video layouts.
  \<^item> \<open>RtpClock\<close> (\<open>network/rtpstreamclock.cpp\<close>, \<open>ntptime.h\<close>): packed NTP time and the mapping between a stream's
    timestamps and wall-clock time.
  \<^item> \<open>Rtcp\<close> (\<open>network/rtcppacket.cpp\<close>): report builders, compound packets and the two walkers over them.
  \<^item> \<open>NalStream\<close>, \<open>NalBits\<close> and \<open>SpsParse\<close> (\<open>proav/h264bitstream.cpp\<close>, \<open>hevcbitstream.cpp\<close>): start codes and length
    prefixes with the walks over them as visitors over an explicit state; emulation prevention and the bit reader; the
    sequence parameter sets of both codecs, read against the syntax tables of the standards written as bit lists. A
    shift the language leaves undefined makes the reader answer no result.
  \<^item> \<open>DecoderConfig\<close> (the same files): the avcC and hvcC records.
  \<^item> \<open>RtpPayload\<close> (\<open>network/rtppayload.cpp\<close>, \<open>rtppacket.h\<close>): packets of audio, JSON, H.264, H.265 and JPEG XS made
    and put together again, and the gates that hold a decoder back until it can start, both shown to be one interface
    (\<open>decoder_gate\<close>).
  \<^item> \<open>PacketTransport\<close> (\<open>network/loopbacktransport.cpp\<close>, \<open>burstpacketscheduler.cpp\<close>, \<open>packettransport.h\<close>): what a session
    sends through. The loopback's endpoints live in a store and name their peers by address, so a dead peer is a missing
    result; the interface a sender relies on is \<open>packet_transport\<close>, two independent legs are \<open>transport_pair\<close>.
  \<^item> \<open>RtpSession\<close> (\<open>network/rtpsession.cpp\<close>, \<open>proav/rtpmediaio.cpp\<close>): header filling, batches over one or two legs, the
    exchange of RTCP reports and the receive thread, composed with the packer, the receive path and the unpacker.
  \<^item> \<open>MpegTs\<close> (\<open>proav/mpegts.cpp\<close>), \<open>TsMuxer\<close> (\<open>proav/mpegtsmuxer.cpp\<close>) and \<open>TsDemuxer\<close>
    (\<open>proav/mpegtsdemuxer.cpp\<close>): the tables, headers and descriptors of the MPEG transport stream, its multiplexer and
    its demultiplexer. The callbacks are arguments that change the state of their owner and may fail, and whether a PES
    buffer can be allocated is an argument too. The packet loop of an access unit runs on the number of packets the
    scratch buffer takes, as in the code; \<open>max_packets_enough\<close> and \<open>packet_loop_ok\<close> show it is never exceeded. The
    section loop and the push loop end by the bytes they consume. A byte stream's packets are the function \<open>scan\<close>,
    which the push loop refines however the stream is cut.
  \<^item> \<open>TransportStream\<close> and \<open>TransportRun\<close>: the two ends joined. A relation between the multiplexer's streams, the
    demultiplexer's records and the units written so far (\<open>in_step\<close>) is kept by every command of the multiplexer.

  \<^bold>\<open>What is shown.\<close> Every format has a round trip over all values its fields can carry, with the conditions under
  which it holds; the readers end on every input and refuse damaged input where the format has a check; the tracker and
  the reorder buffer keep their invariants along every sequence of operations and deliver an orderly source whole (the
  reorder buffer for extended numbers below 2 to the 31, where its signed and unsigned comparisons agree); the
  two ends of an RTMP connection stay in step over any sequence of messages and chunk-size changes, and the two ends of
  a transport stream over any sequence of access units, marks, tables and padding; the DNS decoder refines the
  reading rules of the standard. Where the code does something its documentation does not say, a theorem states what
  it does.

  \<^bold>\<open>Not modelled\<close>: the media I/O framework and its threads, devices and third-party codecs, pixel formats and colour
  conversion (tables and floating point), container files, HTTP and TLS, the event loop and the rest of the runtime,
  variants and serialisation (template machinery), and timecode arithmetic, which belongs to a library that is not in
  the repository. Of the RTP payload formats JPEG, the slice mode of JPEG XS, raw video and ancillary data are left out,
  of the session its sockets, threads and pacing schedulers. The caption
  interpreters and the file reader and writer around the transport stream are left out. Buffer allocation is taken to
  succeed, but for the PES buffers of the demultiplexer.
\<close>

end
